(* ===== verification/Go_Prelude.thy ===== *)
theory Go_Prelude
  imports Main "HOL-Library.Word"
begin

unbundle bit_operations_syntax

text \<open>
  The shared prelude: the model's names for Go's machine types, the result type that carries
  Go errors and run-time panics as values, the slices of the standard library package
  \<^verbatim>\<open>encoding/binary\<close> the code uses (big-endian words and base-128 varints), in-place writes to a
  slice, and the generic lemmas on lists and words that the components share.
\<close>

section \<open>Types\<close>

type_synonym u8 = "8 word"
type_synonym u32 = "32 word"
type_synonym u64 = "64 word"
type_synonym i64 = "64 word" \<comment> \<open>two's complement: read with \<open>sint\<close>, compared with \<open><s\<close>\<close>
type_synonym bytes = "u8 list"

text \<open>
  Every Go error is a value. A run-time panic (an index out of range, an explicit
  \<^verbatim>\<open>panic\<close>) is one too, so that each early exit of the source is a branch of the model.
\<close>

datatype go_error = GoError string | GoPanic string

type_synonym 'a res = "go_error + 'a"

definition bind_res :: "'a res \<Rightarrow> ('a \<Rightarrow> 'b res) \<Rightarrow> 'b res" where
  "bind_res r f = (case r of Inl e \<Rightarrow> Inl e | Inr x \<Rightarrow> f x)"

lemma bind_res_simps [simp]:
  "bind_res (Inl e) f = Inl e"
  "bind_res (Inr x) f = f x"
  by (simp_all add: bind_res_def)

lemma bind_res_Inr_iff: "bind_res r f = Inr y \<longleftrightarrow> (\<exists>x. r = Inr x \<and> f x = Inr y)"
  by (cases r) auto

definition is_ok :: "'a res \<Rightarrow> bool" where
  "is_ok r = (case r of Inl _ \<Rightarrow> False | Inr _ \<Rightarrow> True)"

lemma is_ok_simps [simp]: "\<not> is_ok (Inl e)" "is_ok (Inr x)"
  by (simp_all add: is_ok_def)

named_theorems go_simps \<open>evaluation rules of the model's definitions\<close>
named_theorems codec_len \<open>lengths of encoded byte strings\<close>

section \<open>Slices\<close>

text \<open>\<open>write_at i xs dst\<close> is \<^verbatim>\<open>copy(dst[i:], xs)\<close> when \<open>xs\<close> fits: the slice keeps its length.\<close>

definition write_at :: "nat \<Rightarrow> 'a list \<Rightarrow> 'a list \<Rightarrow> 'a list" where
  "write_at i xs dst = take i dst @ xs @ drop (i + length xs) dst"

lemma length_write_at [simp]:
  "i + length xs \<le> length dst \<Longrightarrow> length (write_at i xs dst) = length dst"
  by (simp add: write_at_def)

lemma take_write_at:
  "i + length xs \<le> length dst \<Longrightarrow>
   take (i + length xs) (write_at i xs dst) = take i dst @ xs"
  by (simp add: write_at_def)

lemma drop_write_at:
  "i + length xs \<le> length dst \<Longrightarrow>
   drop (i + length xs) (write_at i xs dst) = drop (i + length xs) dst"
  by (simp add: write_at_def)

lemma write_at_Cons:
  "i + length xs < length dst \<Longrightarrow> write_at (i + 1) xs (dst[i := x]) = write_at i (x # xs) dst"
  by (simp add: write_at_def take_update_swap take_Suc_conv_app_nth list_update_append)

lemma write_at_append:
  assumes "i + length xs \<le> length dst"
  shows "write_at (i + length xs) ys (write_at i xs dst) = write_at i (xs @ ys) dst"
proof -
  have "take (i + length xs) (write_at i xs dst) = take i dst @ xs" by (rule take_write_at [OF assms])
  moreover have "drop (i + length xs + length ys) (write_at i xs dst) = drop (length ys) (drop (i + length xs) (write_at i xs dst))"
    by (simp add: add.commute)
  ultimately show ?thesis
    unfolding drop_write_at [OF assms] by (simp add: write_at_def [of "i + length xs"] write_at_def [of i "xs @ ys"] ac_simps)
qed

lemma write_at_all: "i + length xs = length dst \<Longrightarrow> write_at i xs dst = take i dst @ xs"
  by (simp add: write_at_def)

lemma write_at_0 [simp]: "write_at 0 xs dst = xs @ drop (length xs) dst"
  by (simp add: write_at_def)

text \<open>
  A slice that a function may extend: its elements and the array beyond them up to the capacity.
  \<open>grow_slice n b\<close> makes it at least \<open>n\<close> long, by \<^verbatim>\<open>b[:n]\<close> where the capacity allows and by appending
  zeros otherwise. \<open>put_slice xs b\<close> stores \<open>xs\<close> from index 0, or panics.
\<close>

type_synonym 'a slice = "'a list \<times> 'a list"

definition grow_slice :: "nat \<Rightarrow> 'a::zero slice \<Rightarrow> 'a list" where
  "grow_slice n b = (case b of (xs, spare) \<Rightarrow>
     if length xs < n \<and> length xs + length spare \<ge> n then take n (xs @ spare)
     else if length xs < n then xs @ replicate (n - length xs) 0
     else xs)"

definition put_slice :: "'a list \<Rightarrow> 'a list \<Rightarrow> 'a list res" where
  "put_slice xs b =
     (if length b < length xs then Inl (GoPanic ''index out of range'') else Inr (write_at 0 xs b))"

lemma length_grow_slice: "length (grow_slice n b) = max n (length (fst b))"
  by (cases b) (auto simp: grow_slice_def)

lemma put_grow_slice:
  "length xs \<le> n \<Longrightarrow> put_slice xs (grow_slice n b) = Inr (xs @ drop (length xs) (grow_slice n b))"
  using length_grow_slice [of n b] by (simp add: put_slice_def)

lemma take_put_grow_slice:
  "length xs \<le> n \<Longrightarrow> bind_res (put_slice xs (grow_slice n b)) (\<lambda>b'. Inr (take (length xs) b')) = Inr xs"
  unfolding put_grow_slice by simp

lemma drop_grow_slice: "drop n (grow_slice n b) = drop n (fst b)"
  by (cases b) (auto simp: grow_slice_def)

lemma put_grow_slice_exact:
  "length (fst b) \<le> length xs \<Longrightarrow> put_slice xs (grow_slice (length xs) b) = Inr xs"
  using length_grow_slice [of "length xs" b] by (simp add: put_slice_def)

text \<open>\<^verbatim>\<open>b[i:]\<close>\<close>

definition slice_from :: "int \<Rightarrow> bytes \<Rightarrow> bytes res" where
  "slice_from i b =
     (if i < 0 \<or> i > int (length b) then Inl (GoPanic ''slice bounds out of range'')
      else Inr (drop (nat i) b))"

text \<open>
  \<^verbatim>\<open>make([]T, n)\<close> of 8-byte elements panics when the size exceeds what the runtime can allocate
  (\<open>2 ^ 48\<close> bytes). \<open>size_dst\<close> is the decoders' choice between a new slice and the caller's, given here
  as the array up to its capacity; \<open>size_dst_u64\<close> is the same for a 64-bit count read from the data,
  compared as a signed integer.
\<close>

definition max_words :: nat where "max_words = 2 ^ 45"

definition size_dst :: "nat \<Rightarrow> 'a::zero list \<Rightarrow> 'a list res" where
  "size_dst n dst =
     (if length dst < n
      then (if n > max_words then Inl (GoPanic ''makeslice: len out of range'') else Inr (replicate n 0))
      else Inr (take n dst))"

definition size_dst_u64 :: "u64 \<Rightarrow> 'a::zero list \<Rightarrow> 'a list res" where
  "size_dst_u64 n dst =
     (if int (length dst) < sint n
      then (if unat n > max_words then Inl (GoPanic ''makeslice: len out of range'')
            else Inr (replicate (unat n) 0))
      else if unat n > length dst then Inl (GoPanic ''slice bounds out of range'')
      else Inr (take (unat n) dst))"

lemma length_size_dst: "size_dst n dst = Inr ys \<Longrightarrow> length ys = n"
  by (auto simp: size_dst_def split: if_splits)

lemma size_dst_ok: "n \<le> max_words \<Longrightarrow> \<exists>ys. size_dst n dst = Inr ys \<and> length ys = n"
  by (auto simp: size_dst_def)

section \<open>Words\<close>

lemma bit_u64_less: "bit (w :: u64) n \<Longrightarrow> n < 64"
  by (drule bit_imp_le_length) simp

lemma take_bit_eq_selfI:
  fixes w :: "'a::len word"
  assumes "unat w < 2 ^ n"
  shows "take_bit n w = w"
  using assms by (metis take_bit_nat_eq_self unsigned_take_bit_eq word_unat_eq_iff)

lemma take_bit_eq_self_bitI:
  fixes w :: "'a::len word"
  assumes "\<And>k. n \<le> k \<Longrightarrow> \<not> bit w k"
  shows "take_bit n w = w"
proof (rule bit_word_eqI)
  fix m
  show "bit (take_bit n w) m = bit w m"
    using assms [of m] by (cases "n \<le> m") (auto simp: bit_simps)
qed

lemma unat_drop_bit_le: "unat (drop_bit n (w :: 'a::len word)) = unat w div 2 ^ n"
  by (simp only: unat_drop_bit_eq drop_bit_eq_div [of n "unat w"])

lemma unat_u64_less: "unat (w :: u64) < 2 ^ 64"
proof -
  have "unat w < 2 ^ LENGTH(64)" by (rule unsigned_less)
  then show ?thesis by simp
qed

lemma unat_2p_u64: "n < 64 \<Longrightarrow> unat (2 ^ n :: u64) = 2 ^ n"
proof -
  assume "n < 64"
  then have "(2::nat) ^ n < 2 ^ 64" by (rule power_strict_increasing) simp
  then have "unat (of_nat (2 ^ n) :: u64) = 2 ^ n"
    by (simp only: unat_of_nat) simp
  then show ?thesis by simp
qed

lemma sint_of_nat_small: "n < 2 ^ 63 \<Longrightarrow> sint (of_nat n :: u64) = int n"
  by (simp add: signed_of_nat signed_take_bit_int_eq_self_iff)

lemma unat_of_nat_small: "n < 2 ^ 64 \<Longrightarrow> unat (of_nat n :: u64) = n"
  by (simp add: unat_of_nat)

text \<open>An \<^verbatim>\<open>int\<close> result, wrapped to 64 bits.\<close>

definition wrap64 :: "int \<Rightarrow> int" where
  "wrap64 x = sint (word_of_int x :: i64)"

lemma wrap64_small: "- (2 ^ 63) \<le> x \<Longrightarrow> x < 2 ^ 63 \<Longrightarrow> wrap64 x = x"
  by (simp add: wrap64_def sint_sbintrunc' signed_take_bit_int_eq_self_iff)

lemma wrap64_cong:
  assumes "wrap64 (x + y) = z" and "- (2 ^ 63) \<le> z - x" and "z - x < 2 ^ 63"
  shows "wrap64 y = z - x"
proof -
  have "(word_of_int z :: i64) = word_of_int (x + y)" using assms(1) by (auto simp: wrap64_def)
  then have "(word_of_int (z - x) :: i64) = word_of_int y" by simp
  then have "wrap64 (z - x) = wrap64 y" by (simp add: wrap64_def)
  then show ?thesis using wrap64_small [OF assms(2,3)] by simp
qed

lemma size_dst_u64_ok:
  "n \<le> max_words \<Longrightarrow> \<exists>ys. size_dst_u64 (of_nat n) dst = Inr ys \<and> length ys = n"
  using sint_of_nat_small [of n] unat_of_nat_small [of n]
  by (auto simp: size_dst_u64_def max_words_def)

lemma unat_ucast_u8: "unat (y :: u64) < 256 \<Longrightarrow> unat (ucast y :: u8) = unat y"
  by (simp add: unsigned_ucast_eq take_bit_nat_eq_self)

lemma high_bit_zero:
  fixes w :: "'a::len word"
  assumes "unat w < 2 ^ n" and "n \<le> k"
  shows "\<not> bit w k"
  using assms take_bit_eq_selfI [of w n] by (metis bit_take_bit_iff not_le)

section \<open>Big-endian words (\<^verbatim>\<open>binary.BigEndian\<close>)\<close>

text \<open>\<open>be_bytes n v\<close> are the \<open>n\<close> low bytes of \<open>v\<close>, most significant first.\<close>

primrec be_bytes :: "nat \<Rightarrow> u64 \<Rightarrow> bytes" where
  "be_bytes 0 v = []"
| "be_bytes (Suc n) v = ucast (drop_bit (8 * n) v) # be_bytes n v"

definition be_word :: "bytes \<Rightarrow> u64" where
  "be_word bs = foldl (\<lambda>acc b. push_bit 8 acc OR ucast b) 0 bs"

text \<open>\<^verbatim>\<open>PutUint64\<close> and \<^verbatim>\<open>Uint64\<close>, which reads the first eight bytes of its argument.\<close>

definition put_u64 :: "u64 \<Rightarrow> bytes" where
  "put_u64 v = be_bytes 8 v"

definition get_u64 :: "bytes \<Rightarrow> u64" where
  "get_u64 bs = be_word (take 8 bs)"

lemma length_be_bytes [simp, codec_len]: "length (be_bytes n v) = n"
  by (induction n) simp_all

lemma length_put_u64 [simp, codec_len]: "length (put_u64 v) = 8"
  by (simp add: put_u64_def)

lemma put_u64_neq_Nil [simp]: "put_u64 v \<noteq> []"
  by (metis length_put_u64 list.size(3) zero_neq_numeral)

lemma foldl_be_bytes:
  "foldl (\<lambda>acc b. push_bit 8 acc OR ucast b) acc (be_bytes n v) =
   push_bit (8 * n) acc OR take_bit (8 * n) (v :: u64)"
proof (induction n arbitrary: acc)
  case 0
  then show ?case by simp
next
  case (Suc n)
  have "push_bit (8 * n) (push_bit 8 acc OR ucast (ucast (drop_bit (8 * n) v) :: u8))
          OR take_bit (8 * n) v
        = push_bit (8 * Suc n) acc OR take_bit (8 * Suc n) v"
    by (rule bit_word_eqI) (auto simp: bit_simps add.commute)
  with Suc show ?case by simp
qed

lemma be_word_be_bytes: "be_word (be_bytes n v) = take_bit (8 * n) v"
  by (simp add: be_word_def foldl_be_bytes)

lemma get_put_u64 [simp]: "get_u64 (put_u64 v @ rest) = v"
  by (simp add: get_u64_def put_u64_def be_word_be_bytes take_bit_word_eq_self)

lemma get_put_u64_plain [simp]: "get_u64 (put_u64 v) = v"
  using get_put_u64 [of v "[]"] by simp

lemma drop8_put_u64 [simp]: "drop 8 (put_u64 v @ rest) = rest"
  by simp

lemma drop9_put_u64 [simp]: "drop (9 + length us) (t # put_u64 f @ us @ vs) = vs"
  by (simp add: drop_Cons')

text \<open>A byte slice read as consecutive big-endian words; a short tail is dropped.\<close>

definition bytes_of :: "u64 list \<Rightarrow> bytes" where
  "bytes_of ws = concat (map put_u64 ws)"

fun words_of :: "bytes \<Rightarrow> u64 list" where
  "words_of bs = (if length bs < 8 then [] else get_u64 bs # words_of (drop 8 bs))"

declare words_of.simps [simp del]

lemma bytes_of_simps [simp]:
  "bytes_of [] = []"
  "bytes_of (w # ws) = put_u64 w @ bytes_of ws"
  "bytes_of (us @ ws) = bytes_of us @ bytes_of ws"
  by (simp_all add: bytes_of_def)

lemma length_bytes_of [simp, codec_len]: "length (bytes_of ws) = 8 * length ws"
  by (induction ws) simp_all

lemma drop_bytes_of: "drop (i * 8) (bytes_of ws) = bytes_of (drop i ws)"
proof (induction i arbitrary: ws)
  case (Suc i)
  have "drop (Suc i * 8) (bytes_of ws) = drop (i * 8) (drop 8 (bytes_of ws))" by (simp add: add.commute)
  then show ?case using Suc by (cases ws) simp_all
qed simp

lemma words_of_short: "length bs < 8 \<Longrightarrow> words_of bs = []"
  by (simp add: words_of.simps)

lemma words_of_Nil [simp]: "words_of [] = []"
  by (simp add: words_of_short)

lemma words_of_put [simp]: "words_of (put_u64 w @ bs) = w # words_of bs"
  by (subst words_of.simps) simp

lemma words_of_put_plain: "words_of (put_u64 w) = [w]"
  using words_of_put [of w "[]"] by simp

lemma words_of_bytes_of [simp]: "words_of (bytes_of ws @ bs) = ws @ words_of bs"
  by (induction ws) simp_all

lemma words_of_bytes_of_plain [simp]: "words_of (bytes_of ws) = ws"
  using words_of_bytes_of [of ws "[]"] by simp

lemma words_of_step: "8 \<le> length bs \<Longrightarrow> words_of bs = get_u64 bs # words_of (drop 8 bs)"
  by (subst words_of.simps) simp

lemma get_u64_append: "8 \<le> length bs \<Longrightarrow> get_u64 (bs @ cs) = get_u64 bs"
  by (simp add: get_u64_def)

lemma words_of_append:
  "8 dvd length bs \<Longrightarrow> words_of (bs @ cs) = words_of bs @ words_of cs"
proof (induction bs rule: words_of.induct)
  case (1 bs)
  show ?case
  proof (cases "length bs < 8")
    case True
    with "1.prems" have "bs = []" by (auto dest: nat_dvd_not_less)
    then show ?thesis by simp
  next
    case False
    with "1.prems" have "8 dvd length (drop 8 bs)" by auto
    with "1.IH" [OF False] False show ?thesis
      by (simp add: words_of_step get_u64_append)
  qed
qed

lemma length_words_of: "length (words_of bs) = length bs div 8"
proof (induction bs rule: words_of.induct)
  case (1 bs)
  then show ?case
    by (cases "length bs < 8") (auto simp: words_of_short words_of_step div_nat_eqI le_div_geq)
qed

section \<open>Base-128 varints (\<^verbatim>\<open>binary.PutUvarint\<close>, \<^verbatim>\<open>binary.Uvarint\<close>)\<close>

function put_uvarint :: "u64 \<Rightarrow> bytes" where
  "put_uvarint x = (if x \<ge> 0x80 then (ucast x OR 0x80) # put_uvarint (drop_bit 7 x) else [ucast x])"
  by pat_completeness auto
termination
proof (relation "measure unat")
  fix x :: u64
  assume "0x80 \<le> x"
  then have "0 < unat x" by (simp add: word_le_nat_alt)
  then show "(drop_bit 7 x, x) \<in> measure unat"
    by (simp add: unat_drop_bit_le)
qed simp

declare put_uvarint.simps [simp del]

fun uvarint_loop :: "nat \<Rightarrow> u64 \<Rightarrow> nat \<Rightarrow> bytes \<Rightarrow> u64 \<times> int" where
  "uvarint_loop i x s [] = (0, 0)"
| "uvarint_loop i x s (b # bs) =
     (if b < 0x80 then
        (if i > 9 \<or> i = 9 \<and> b > 1 then (0, - (int i + 1))
         else (x OR push_bit s (ucast b), int i + 1))
      else uvarint_loop (Suc i) (x OR push_bit s (ucast (b AND 0x7F))) (s + 7) bs)"

definition get_uvarint :: "bytes \<Rightarrow> u64 \<times> int" where
  "get_uvarint bs = uvarint_loop 0 0 0 bs"

text \<open>One step of \<^verbatim>\<open>PutUvarint\<close>: the low seven bits go out and the rest is smaller.\<close>

lemma uvarint_byte_continues:
  fixes y :: u64
  shows "\<not> (ucast y OR 0x80 :: u8) < 0x80"
    and "(ucast y OR 0x80 :: u8) AND 0x7F = ucast (take_bit 7 y)"
proof -
  have "bit (ucast y OR 0x80 :: u8) 7"
    by (simp add: bit_simps)
  then show "\<not> (ucast y OR 0x80 :: u8) < 0x80"
    using high_bit_zero [of "ucast y OR 0x80 :: u8" 7 7] by (auto simp: word_less_nat_alt)
  show "(ucast y OR 0x80 :: u8) AND 0x7F = ucast (take_bit 7 y)"
  proof -
    have m: "(0x7F :: u8) = mask 7"
      by (simp add: mask_eq_exp_minus_1)
    have "(ucast y OR 0x80 :: u8) AND 0x7F = ucast y AND 0x7F"
      by (simp add: bit.conj_disj_distrib2)
    also have "\<dots> = ucast (take_bit 7 y)"
      unfolding m take_bit_eq_mask [symmetric] by (rule bit_word_eqI) (auto simp: bit_simps)
    finally show ?thesis .
  qed
qed

lemma uvarint_split:
  fixes y :: u64
  shows "push_bit s (ucast (ucast (take_bit 7 y) :: u8)) OR push_bit (s + 7) (drop_bit 7 y)
         = push_bit s y"
proof (rule bit_word_eqI)
  fix n
  have "s + 7 \<le> n \<Longrightarrow> 7 + (n - (s + 7)) = n - s" by simp
  then show "bit (push_bit s (ucast (ucast (take_bit 7 y) :: u8)) OR push_bit (s + 7) (drop_bit 7 y)) n
        = bit (push_bit s y) n" if "n < LENGTH(64)"
    using that by (cases "s + 7 \<le> n") (auto simp: bit_simps)
qed

lemma uvarint_split_or:
  fixes y :: u64
  shows "x OR (push_bit s (ucast (ucast (take_bit 7 y) :: u8)) OR push_bit (7 + s) (drop_bit 7 y))
         = x OR push_bit s y"
  by (simp only: uvarint_split add.commute [of 7])


lemma uvarint_loop_put:
  assumes "unat y < 2 ^ (64 - 7 * i)" and "i \<le> 9"
  shows "uvarint_loop i x (7 * i) (put_uvarint y @ rest) =
         (x OR push_bit (7 * i) y, int i + int (length (put_uvarint y)))"
  using assms
proof (induction y arbitrary: i x rule: put_uvarint.induct)
  case (1 y)
  show ?case
  proof (cases "y \<ge> 0x80")
    case True
    then have y: "2 ^ 7 \<le> unat y" by (simp add: word_le_nat_alt)
    with "1.prems"(1) have "(2::nat) ^ 7 < 2 ^ (64 - 7 * i)" by linarith
    then have "7 < 64 - 7 * i" by (rule power_less_imp_less_exp [rotated]) simp
    then have i: "i \<le> 8" and e: "64 - 7 * i = 64 - 7 * Suc i + 7" by auto
    have "unat (drop_bit 7 y) < 2 ^ (64 - 7 * Suc i)"
      using "1.prems"(1) unfolding e unat_drop_bit_le power_add
      by (simp add: less_mult_imp_div_less)
    with True i have IH: "uvarint_loop (Suc i) x' (7 * Suc i) (put_uvarint (drop_bit 7 y) @ rest) =
        (x' OR push_bit (7 * Suc i) (drop_bit 7 y), int (Suc i) + int (length (put_uvarint (drop_bit 7 y))))"
      for x' using "1.IH" [of "Suc i" x'] by simp
    show ?thesis
      using True IH [of "x OR push_bit (7 * i) (ucast (ucast (take_bit 7 y) :: u8))"]
      by (simp add: put_uvarint.simps [of y] uvarint_byte_continues or.assoc uvarint_split_or
          add.commute [of "7 * i"])
  next
    case False
    then have y: "unat y < 128" by (simp add: word_le_nat_alt)
    have u: "ucast (ucast y :: u8) = y"
      using high_bit_zero [of y 8] y by (intro bit_word_eqI) (auto simp: bit_simps not_le [symmetric])
    have small: "(ucast y :: u8) < 0x80"
      using y by (simp add: word_less_nat_alt unat_ucast_u8)
    have "i = 9 \<Longrightarrow> \<not> (ucast y :: u8) > 1"
      using "1.prems"(1) y by (simp add: word_less_nat_alt unat_ucast_u8)
    with small u False "1.prems"(2) show ?thesis
      by (simp add: put_uvarint.simps [of y])
  qed
qed

lemma put_uvarint_neq_Nil [simp]: "put_uvarint x \<noteq> []"
  by (subst put_uvarint.simps) simp

lemma length_put_uvarint_pos [simp]: "0 < length (put_uvarint x)"
  by simp

text \<open>A 64-bit varint takes at most ten bytes (\<^verbatim>\<open>binary.MaxVarintLen64\<close>).\<close>

lemma length_put_uvarint_le:
  assumes "unat x < 2 ^ (7 * k)" and "0 < k"
  shows "length (put_uvarint x) \<le> k"
  using assms
proof (induction x arbitrary: k rule: put_uvarint.induct)
  case (1 x)
  show ?case
  proof (cases "x \<ge> 0x80")
    case True
    then have "2 ^ 7 \<le> unat x" by (simp add: word_le_nat_alt)
    with "1.prems" obtain k' where k: "k = Suc k'" "0 < k'"
      by (cases k; cases "k - 1") auto
    have "unat (drop_bit 7 x) < 2 ^ (7 * k')"
      using "1.prems"(1) unfolding k unat_drop_bit_le
      by (simp add: power_add less_mult_imp_div_less mult.commute)
    with "1.IH" [OF True this k(2)] True k show ?thesis
      by (simp add: put_uvarint.simps [of x])
  next
    case False
    with "1.prems"(2) show ?thesis by (simp add: put_uvarint.simps [of x])
  qed
qed

lemma length_put_uvarint_le10: "length (put_uvarint x) \<le> 10"
  using length_put_uvarint_le [of x 10] unat_u64_less [of x] by simp

lemma get_put_uvarint [simp]:
  "get_uvarint (put_uvarint y @ rest) = (y, int (length (put_uvarint y)))"
  using uvarint_loop_put [of y 0 0 rest] unat_u64_less [of y] by (simp add: get_uvarint_def)

end
