(* ===== verification/Sorted_Values.thy ===== *)
theory Sorted_Values
  imports Go_Prelude
begin

text \<open>
  The operations on slices of timestamped values that the generated files repeat for every value type
  (\<^verbatim>\<open>tsdb/tsm1/encoding.gen.go\<close> for \<^verbatim>\<open>Values\<close>, \<^verbatim>\<open>FloatValues\<close> and so on): binary search, \<^verbatim>\<open>FindRange\<close>,
  \<^verbatim>\<open>Exclude\<close>, \<^verbatim>\<open>Include\<close>, \<^verbatim>\<open>Deduplicate\<close>, \<^verbatim>\<open>Merge\<close>. They are written once, over the function \<open>tm\<close> that gives
  the timestamp (\<^verbatim>\<open>UnixNano\<close>) of a value. A slice stands for the map from timestamps to the last value that has it.
\<close>

section \<open>Search\<close>

text \<open>\<^verbatim>\<open>mid := int(uint(lo+hi) >> 1)\<close>; the sum of two slice indices does not overflow.\<close>

function search_loop :: "int list \<Rightarrow> int \<Rightarrow> nat \<Rightarrow> nat \<Rightarrow> nat" where
  "search_loop ts v lo hi =
     (if lo < hi then
        let mid = (lo + hi) div 2 in
        if ts ! mid < v then search_loop ts v (mid + 1) hi else search_loop ts v lo mid
      else lo)"
  by auto
termination by (relation "measure (\<lambda>(ts, v, lo, hi). hi - lo)") auto

declare search_loop.simps [simp del]

definition search :: "int list \<Rightarrow> int \<Rightarrow> nat" where
  "search ts v = search_loop ts v 0 (length ts)"

definition FindRange :: "int list \<Rightarrow> int \<Rightarrow> int \<Rightarrow> int \<times> int" where
  "FindRange ts mn mx =
     (if length ts = 0 \<or> mn > mx then (- 1, - 1)
      else
        let minVal = ts ! 0; maxVal = ts ! (length ts - 1) in
        if maxVal < mn \<or> minVal > mx then (- 1, - 1)
        else (int (search ts mn), int (search ts mx)))"

section \<open>Slices of values\<close>

definition vals_MinTime :: "('v \<Rightarrow> int) \<Rightarrow> 'v list \<Rightarrow> int res" where
  "vals_MinTime tm a = (if a = [] then Inl (GoPanic ''index out of range'') else Inr (tm (a ! 0)))"

definition vals_MaxTime :: "('v \<Rightarrow> int) \<Rightarrow> 'v list \<Rightarrow> int res" where
  "vals_MaxTime tm a = (if a = [] then Inl (GoPanic ''index out of range'') else Inr (tm (a ! (length a - 1))))"

definition vals_Size :: "('v \<Rightarrow> nat) \<Rightarrow> 'v list \<Rightarrow> nat" where
  "vals_Size vsize a = foldl (\<lambda>sz v. sz + vsize v) 0 a"

definition vals_Exclude :: "('v \<Rightarrow> int) \<Rightarrow> 'v list \<Rightarrow> int \<Rightarrow> int \<Rightarrow> 'v list" where
  "vals_Exclude tm a mn mx =
     (case FindRange (map tm a) mn mx of (rmin, rmax) \<Rightarrow>
        if rmin = - 1 \<and> rmax = - 1 then a
        else
          let lo = nat rmin; hi = nat rmax in
          if hi < length a then
            let hi' = (if tm (a ! hi) = mx then hi + 1 else hi);
                rest = length a - hi'
            in if rest > 0 then write_at lo (drop hi' a) (take (lo + rest) a) else take lo a
          else take lo a)"

definition vals_Include :: "('v \<Rightarrow> int) \<Rightarrow> 'v list \<Rightarrow> int \<Rightarrow> int \<Rightarrow> 'v list" where
  "vals_Include tm a mn mx =
     (case FindRange (map tm a) mn mx of (rmin, rmax) \<Rightarrow>
        if rmin = - 1 \<and> rmax = - 1 then []
        else
          let lo = nat rmin; hi = nat rmax;
              hi' = (if hi < length a \<and> tm (a ! hi) = mx then hi + 1 else hi)
          in if rmin > - 1 then write_at 0 (take (hi' - lo) (drop lo a)) (take (hi' - lo) a) else take hi' a)"

definition vals_Contains :: "('v \<Rightarrow> int) \<Rightarrow> 'v list \<Rightarrow> int \<Rightarrow> int \<Rightarrow> bool" where
  "vals_Contains tm a mn mx =
     (case FindRange (map tm a) mn mx of (rmin, rmax) \<Rightarrow>
        if rmin = - 1 \<and> rmax = - 1 then False
        else if tm (a ! nat rmin) = mn then True
        else if nat rmax < length a \<and> tm (a ! nat rmax) = mx then True
        else rmax - rmin > 0)"

text \<open>\<^verbatim>\<open>for i := 1; i < len(a); i++ { if a[i-1].UnixNano() >= a[i].UnixNano() { needSort = true; break } }\<close>\<close>

fun need_sort :: "int list \<Rightarrow> bool" where
  "need_sort (s # t # ts) = (if s \<ge> t then True else need_sort (t # ts))"
| "need_sort _ = False"

text \<open>The loop of \<^verbatim>\<open>Deduplicate\<close>, in place: \<open>i\<close> is the last value kept, \<open>j\<close> the next one read.\<close>

function dedup_loop :: "('v \<Rightarrow> int) \<Rightarrow> nat \<Rightarrow> nat \<Rightarrow> 'v list \<Rightarrow> nat \<times> 'v list" where
  "dedup_loop tm i j a =
     (if j < length a then
        let v = a ! j; i' = (if tm v \<noteq> tm (a ! i) then i + 1 else i) in
        dedup_loop tm i' (j + 1) (a[i' := v])
      else (i, a))"
  by auto
termination by (relation "measure (\<lambda>(tm, i, j, a). length a - j)") auto

declare dedup_loop.simps [simp del]

text \<open>\<^verbatim>\<open>sort.Stable\<close> by timestamp is \<^const>\<open>sort_key\<close>.\<close>

definition vals_Deduplicate :: "('v \<Rightarrow> int) \<Rightarrow> 'v list \<Rightarrow> 'v list" where
  "vals_Deduplicate tm a =
     (if length a \<le> 1 then a
      else if \<not> need_sort (map tm a) then a
      else case dedup_loop tm 0 1 (sort_key tm a) of (i, a') \<Rightarrow> take (i + 1) a')"

fun merge_loop :: "('v \<Rightarrow> int) \<Rightarrow> 'v list \<Rightarrow> 'v list \<Rightarrow> 'v list \<Rightarrow> 'v list" where
  "merge_loop tm (x # a) (y # b) out =
     (if tm x < tm y then merge_loop tm a (y # b) (out @ [x])
      else if tm x = tm y then merge_loop tm a (y # b) out
      else merge_loop tm (x # a) b (out @ [y]))"
| "merge_loop tm (x # a) [] out = out @ x # a"
| "merge_loop tm [] b out = out @ b"

definition vals_Merge :: "('v \<Rightarrow> int) \<Rightarrow> 'v list \<Rightarrow> 'v list \<Rightarrow> 'v list" where
  "vals_Merge tm a0 b0 =
     (if length a0 = 0 then b0
      else if length b0 = 0 then a0
      else
        let a = vals_Deduplicate tm a0; b = vals_Deduplicate tm b0 in
        if tm (a ! (length a - 1)) < tm (b ! 0) then a @ b
        else if tm (b ! (length b - 1)) < tm (a ! 0) then b @ a
        else merge_loop tm a b [])"

section \<open>What they mean\<close>

text \<open>Strictly ascending timestamps, and the map a slice stands for: the last value of each timestamp.\<close>

abbreviation ascending :: "int list \<Rightarrow> bool" where
  "ascending ts \<equiv> sorted_wrt (<) ts"

definition vmap :: "('v \<Rightarrow> int) \<Rightarrow> 'v list \<Rightarrow> int \<rightharpoonup> 'v" where
  "vmap tm a = map_of (rev (map (\<lambda>x. (tm x, x)) a))"

lemma vmap_simps [simp]:
  "vmap tm [] = Map.empty" "vmap tm (x # a) = [tm x \<mapsto> x] ++ vmap tm a" "vmap tm (a @ b) = vmap tm a ++ vmap tm b"
  by (simp_all add: vmap_def map_add_upd_left fun_upd_def [symmetric])

lemma vmap_snoc: "vmap tm (a @ [x]) = (vmap tm a)(tm x \<mapsto> x)"
  by (auto simp: map_add_def)

lemma dom_vmap: "dom (vmap tm a) = tm ` set a"
  by (induction a) auto

lemma vmap_Some: "vmap tm a t = Some x \<Longrightarrow> x \<in> set a \<and> tm x = t"
  unfolding vmap_def by (drule map_of_SomeD) auto

lemma vmap_ascending: "ascending (map tm a) \<Longrightarrow> vmap tm a t = Some x \<longleftrightarrow> x \<in> set a \<and> tm x = t"
proof (induction a)
  case (Cons y a)
  then have "tm y \<notin> tm ` set a" by fastforce
  then have "vmap tm a (tm y) = None" using dom_vmap [of tm a] by blast
  with Cons show ?case by (auto simp: map_add_Some_iff)
qed simp

subsection \<open>Search\<close>

lemma search_loop_spec:
  assumes "sorted ts" "lo \<le> hi" "hi \<le> length ts" "\<forall>i<lo. ts ! i < v" "\<forall>i. hi \<le> i \<and> i < length ts \<longrightarrow> v \<le> ts ! i"
  shows "search_loop ts v lo hi \<le> length ts \<and> (\<forall>i < search_loop ts v lo hi. ts ! i < v) \<and>
    (\<forall>i. search_loop ts v lo hi \<le> i \<and> i < length ts \<longrightarrow> v \<le> ts ! i)"
  using assms
proof (induction ts v lo hi rule: search_loop.induct)
  case (1 ts v lo hi)
  show ?case
  proof (cases "lo < hi")
    case True
    define mid where "mid = (lo + hi) div 2"
    have mid: "lo \<le> mid" "mid < hi" using True by (auto simp: mid_def)
    show ?thesis
    proof (cases "ts ! mid < v")
      case less: True
      have "\<forall>i<mid + 1. ts ! i < v"
      proof (intro allI impI)
        fix i
        assume "i < mid + 1"
        then have "ts ! i \<le> ts ! mid" using 1(3,5) mid by (intro sorted_nth_mono) auto
        with less show "ts ! i < v" by simp
      qed
      moreover have "search_loop ts v lo hi = search_loop ts v (mid + 1) hi"
        by (subst search_loop.simps) (simp only: True less Let_def if_True flip: mid_def)
      ultimately show ?thesis using 1(1) [OF True mid_def less 1(3) _ 1(5) _ 1(7)] mid by simp
    next
      case ge: False
      have "\<forall>i. mid \<le> i \<and> i < length ts \<longrightarrow> v \<le> ts ! i"
      proof (intro allI impI)
        fix i
        assume "mid \<le> i \<and> i < length ts"
        then have "ts ! mid \<le> ts ! i" using 1(3) by (intro sorted_nth_mono) auto
        with ge show "v \<le> ts ! i" by simp
      qed
      moreover have "search_loop ts v lo hi = search_loop ts v lo mid"
        by (subst search_loop.simps) (simp only: True ge Let_def if_True if_False flip: mid_def)
      moreover have "mid \<le> length ts" using mid 1(5) by simp
      ultimately show ?thesis using 1(2) [OF True mid_def ge 1(3) mid(1) _ 1(6)] by simp
    qed
  next
    case False
    then have "search_loop ts v lo hi = lo" by (subst search_loop.simps) simp
    with False 1(4-7) show ?thesis by auto
  qed
qed

lemma search_spec:
  assumes "sorted ts"
  shows "search ts v \<le> length ts" "\<forall>i < search ts v. ts ! i < v" "\<forall>i. search ts v \<le> i \<and> i < length ts \<longrightarrow> v \<le> ts ! i"
  using search_loop_spec [OF assms, of 0 "length ts" v] by (auto simp: search_def)

lemma search_mono: "sorted ts \<Longrightarrow> v \<le> w \<Longrightarrow> search ts v \<le> search ts w"
proof (rule ccontr)
  assume s: "sorted ts" "v \<le> w" and "\<not> search ts v \<le> search ts w"
  then have i: "search ts w < search ts v" by simp
  with search_spec [OF s(1), of v] have "ts ! search ts w < v" "search ts w < length ts" by auto
  moreover have "w \<le> ts ! search ts w" using search_spec(3) [OF s(1), of w] calculation(2) by simp
  ultimately show False using s(2) by simp
qed

text \<open>On any slice, sorted or not, the positions found are in bounds and in order.\<close>

lemma search_loop_bounds: "lo \<le> hi \<Longrightarrow> lo \<le> search_loop ts v lo hi \<and> search_loop ts v lo hi \<le> hi"
proof (induction ts v lo hi rule: search_loop.induct)
  case (1 ts v lo hi)
  define mid where "mid = (lo + hi) div 2"
  show ?case
  proof (cases "lo < hi")
    case True
    then have mid: "lo \<le> mid" "mid < hi" by (auto simp: mid_def)
    have "search_loop ts v lo hi = (if ts ! mid < v then search_loop ts v (mid + 1) hi else search_loop ts v lo mid)"
      by (subst search_loop.simps) (simp only: True Let_def if_True flip: mid_def)
    then show ?thesis using 1(1,2) [OF True mid_def] mid by (auto split: if_splits)
  next
    case False
    with 1(3) show ?thesis by (subst (1 2) search_loop.simps) simp
  qed
qed

lemma search_loop_step:
  "lo < hi \<Longrightarrow> search_loop ts v lo hi =
    (if ts ! ((lo + hi) div 2) < v then search_loop ts v ((lo + hi) div 2 + 1) hi else search_loop ts v lo ((lo + hi) div 2))"
  by (subst search_loop.simps) (simp add: Let_def)

lemma search_loop_mono: "v \<le> w \<Longrightarrow> lo \<le> hi \<Longrightarrow> search_loop ts v lo hi \<le> search_loop ts w lo hi"
proof (induction ts v lo hi rule: search_loop.induct)
  case (1 ts v lo hi)
  define mid where "mid = (lo + hi) div 2"
  show ?case
  proof (cases "lo < hi")
    case True
    then have mid: "lo \<le> mid" "mid < hi" by (auto simp: mid_def)
    have "search_loop ts v lo mid \<le> search_loop ts w (mid + 1) hi"
      using search_loop_bounds [OF mid(1), of ts v] search_loop_bounds [of "mid + 1" hi ts w] mid by simp
    then show ?thesis
      using 1(1,2) [OF True mid_def] mid 1(3) search_loop_step [OF True, of ts v] search_loop_step [OF True, of ts w]
      unfolding mid_def [symmetric] by auto
  next
    case False
    then show ?thesis by (subst (1 2) search_loop.simps) simp
  qed
qed

lemma search_loop_top: "lo < hi \<Longrightarrow> search_loop ts v lo hi = hi \<Longrightarrow> ts ! (hi - 1) < v"
proof (induction ts v lo hi rule: search_loop.induct)
  case (1 ts v lo hi)
  define mid where "mid = (lo + hi) div 2"
  have mid: "lo \<le> mid" "mid < hi" using 1(3) by (auto simp: mid_def)
  show ?case
  proof (cases "ts ! mid < v")
    case True
    with 1(4) search_loop_step [OF 1(3), of ts v] have "search_loop ts v (mid + 1) hi = hi" by (simp flip: mid_def)
    then show ?thesis
    proof (cases "mid + 1 < hi")
      case False
      with mid have "hi - 1 = mid" by simp
      with True show ?thesis by simp
    qed (use 1(1) [OF 1(3) mid_def True] in simp)
  next
    case False
    with 1(4) search_loop_step [OF 1(3), of ts v] have "search_loop ts v lo mid = hi" by (simp flip: mid_def)
    with search_loop_bounds [OF mid(1), of ts v] mid show ?thesis by simp
  qed
qed

lemma FindRange_in_bounds:
  "case FindRange ts mn mx of (rmin, rmax) \<Rightarrow>
     rmin = - 1 \<and> rmax = - 1 \<or> 0 \<le> rmin \<and> rmin \<le> rmax \<and> rmax \<le> int (length ts) \<and> rmin < int (length ts)"
proof (cases "FindRange ts mn mx = (- 1, - 1)")
  case False
  then have ne: "ts \<noteq> []" "mn \<le> mx" "mn \<le> ts ! (length ts - 1)"
    and e: "FindRange ts mn mx = (int (search ts mn), int (search ts mx))"
    by (auto simp: FindRange_def Let_def split: if_splits)
  have "search ts mn \<le> search ts mx" "search ts mx \<le> length ts" "search ts mn \<noteq> length ts"
    using search_loop_mono [OF ne(2), of 0 "length ts" ts] search_loop_bounds [of 0 "length ts" ts mx]
      search_loop_top [of 0 "length ts" ts mn] ne(1,3) by (auto simp: search_def)
  then show ?thesis by (simp add: e)
qed simp

lemma filter_split:
  assumes "\<forall>i<length a. P (a ! i) \<longleftrightarrow> lo \<le> i \<and> i < hi" "lo \<le> hi" "hi \<le> length a"
  shows "filter P a = take (hi - lo) (drop lo a)" "filter (\<lambda>x. \<not> P x) a = take lo a @ drop hi a"
proof -
  have a: "a = take lo a @ take (hi - lo) (drop lo a) @ drop hi a"
    using assms(2) append_take_drop_id [of "hi - lo" "drop lo a"] by (simp add: append_take_drop_id)
  have 1: "\<forall>x\<in>set (take lo a). \<not> P x" using assms by (auto simp: in_set_conv_nth)
  have 2: "\<forall>x\<in>set (take (hi - lo) (drop lo a)). P x" using assms by (auto simp: in_set_conv_nth)
  have 3: "\<forall>x\<in>set (drop hi a). \<not> P x" using assms by (auto simp: in_set_conv_nth)
  show "filter P a = take (hi - lo) (drop lo a)" using 1 2 3 by (subst a) (simp add: filter_id_conv filter_empty_conv)
  show "filter (\<lambda>x. \<not> P x) a = take lo a @ drop hi a"
    using 1 2 3 by (subst a) (simp add: filter_id_conv filter_empty_conv)
qed

text \<open>The positions of \<^verbatim>\<open>FindRange\<close>, with the upper one moved past an exact match, frame the values in range.\<close>

lemma FindRange_frame:
  assumes s: "ascending (map tm a)" and r: "FindRange (map tm a) mn mx = (rmin, rmax)" "\<not> (rmin = - 1 \<and> rmax = - 1)"
  defines "lo \<equiv> nat rmin" and "hi \<equiv> nat rmax"
  defines "hi' \<equiv> (if hi < length a \<and> tm (a ! hi) = mx then hi + 1 else hi)"
  shows "(\<forall>i<length a. (mn \<le> tm (a ! i) \<and> tm (a ! i) \<le> mx) \<longleftrightarrow> lo \<le> i \<and> i < hi') \<and> lo \<le> hi' \<and> hi' \<le> length a \<and>
    rmin = int lo \<and> lo \<le> hi \<and> hi \<le> length a \<and> lo < length a"
proof -
  let ?ts = "map tm a"
  have so: "sorted ?ts" using s by (simp add: strict_sorted_imp_sorted)
  from r have ne: "a \<noteq> []" "mn \<le> mx" "mn \<le> ?ts ! (length a - 1)" and rr: "rmin = int (search ?ts mn)" "rmax = int (search ?ts mx)"
    by (auto simp: FindRange_def Let_def split: if_splits)
  have lh: "lo = search ?ts mn" "hi = search ?ts mx" by (simp_all add: lo_def hi_def rr)
  note L = search_spec [OF so, of mn, folded lh] and H = search_spec [OF so, of mx, folded lh]
  have le: "lo \<le> hi" using search_mono [OF so ne(2)] by (simp add: lh)
  have "lo < length a"
  proof (rule ccontr)
    assume "\<not> lo < length a"
    then have "?ts ! (length a - 1) < mn" using L(2) ne(1) by (metis diff_less length_greater_0_conv less_le_trans not_le zero_less_one)
    with ne(3) show False by simp
  qed
  moreover have "(mn \<le> tm (a ! i) \<and> tm (a ! i) \<le> mx) \<longleftrightarrow> lo \<le> i \<and> i < hi'" if i: "i < length a" for i
  proof -
    have l: "mn \<le> tm (a ! i) \<longleftrightarrow> lo \<le> i" using L i by (metis length_map not_le nth_map)
    have "tm (a ! i) \<le> mx \<longleftrightarrow> i < hi'"
    proof (cases "i < hi")
      case True
      then show ?thesis using H(2) i by (auto simp: hi'_def)
    next
      case False
      then have m: "mx \<le> tm (a ! i)" using H(3) i by auto
      show ?thesis
      proof (cases "i = hi")
        case True
        then show ?thesis using m i by (auto simp: hi'_def)
      next
        case ne: False
        then have "tm (a ! hi) < tm (a ! i)"
          using s False i sorted_wrt_nth_less [OF s, of hi i] by simp
        moreover have "mx \<le> tm (a ! hi)" using H(3) False ne i by auto
        ultimately show ?thesis using False ne by (auto simp: hi'_def)
      qed
    qed
    with l show ?thesis by simp
  qed
  ultimately show ?thesis using le L(1) H(1) rr by (auto simp: hi'_def lo_def)
qed

lemma FindRange_none:
  assumes s: "ascending (map tm a)" and r: "FindRange (map tm a) mn mx = (- 1, - 1)"
  shows "\<forall>x\<in>set a. \<not> (mn \<le> tm x \<and> tm x \<le> mx)"
proof
  fix x
  assume "x \<in> set a"
  then obtain i where i: "i < length a" "x = a ! i" by (metis in_set_conv_nth)
  have so: "sorted (map tm a)" using s by (simp add: strict_sorted_imp_sorted)
  have l: "0 < length a" "length a - 1 < length a" "i \<le> length a - 1" using i by auto
  have "map tm a ! 0 \<le> map tm a ! i" by (rule sorted_nth_mono [OF so]) (use i in simp_all)
  moreover have "map tm a ! i \<le> map tm a ! (length a - 1)" by (rule sorted_nth_mono [OF so]) (use l in simp_all)
  ultimately have "tm (a ! 0) \<le> tm x" "tm x \<le> tm (a ! (length a - 1))" using i l by simp_all
  then show "\<not> (mn \<le> tm x \<and> tm x \<le> mx)" using r i l by (auto simp: FindRange_def Let_def split: if_splits)
qed

subsection \<open>Ranges\<close>

lemma write_at_close: "lo \<le> hi \<Longrightarrow> hi \<le> length a \<Longrightarrow> write_at lo (drop hi a) (take (lo + (length a - hi)) a) = take lo a @ drop hi a"
  unfolding write_at_def take_take by (simp add: min_absorb1)

lemma write_at_front: "length ys \<le> length a \<Longrightarrow> write_at 0 ys (take (length ys) a) = ys"
  by (simp add: write_at_def)

lemma vals_Exclude_filter:
  assumes "ascending (map tm a)"
  shows "vals_Exclude tm a mn mx = filter (\<lambda>x. \<not> (mn \<le> tm x \<and> tm x \<le> mx)) a"
proof (cases "FindRange (map tm a) mn mx = (- 1, - 1)")
  case True
  with FindRange_none [OF assms] show ?thesis by (simp add: vals_Exclude_def filter_id_conv)
next
  case False
  obtain rmin rmax where r: "FindRange (map tm a) mn mx = (rmin, rmax)" by fastforce
  define lo hi where "lo = nat rmin" and "hi = nat rmax"
  define hi' where "hi' = (if hi < length a \<and> tm (a ! hi) = mx then hi + 1 else hi)"
  from False r have ne: "\<not> (rmin = - 1 \<and> rmax = - 1)" by simp
  note F = FindRange_frame [OF assms r ne, folded lo_def hi_def, folded hi'_def]
  have "filter (\<lambda>x. \<not> (mn \<le> tm x \<and> tm x \<le> mx)) a = take lo a @ drop hi' a"
    by (rule filter_split) (use F in auto)
  moreover have "write_at lo (drop hi' a) (take (lo + (length a - hi')) a) = take lo a @ drop hi' a"
    by (rule write_at_close) (use F in simp_all)
  ultimately show ?thesis
    using F ne unfolding vals_Exclude_def r prod.case lo_def [symmetric] hi_def [symmetric] Let_def if_not_P [OF ne]
    by (auto simp: hi'_def split: if_splits)
qed

lemma vals_Include_filter:
  assumes "ascending (map tm a)"
  shows "vals_Include tm a mn mx = filter (\<lambda>x. mn \<le> tm x \<and> tm x \<le> mx) a"
proof (cases "FindRange (map tm a) mn mx = (- 1, - 1)")
  case True
  with FindRange_none [OF assms] show ?thesis by (simp add: vals_Include_def filter_empty_conv)
next
  case False
  obtain rmin rmax where r: "FindRange (map tm a) mn mx = (rmin, rmax)" by fastforce
  define lo hi where "lo = nat rmin" and "hi = nat rmax"
  define hi' where "hi' = (if hi < length a \<and> tm (a ! hi) = mx then hi + 1 else hi)"
  from False r have ne: "\<not> (rmin = - 1 \<and> rmax = - 1)" by simp
  note F = FindRange_frame [OF assms r ne, folded lo_def hi_def, folded hi'_def]
  have "filter (\<lambda>x. mn \<le> tm x \<and> tm x \<le> mx) a = take (hi' - lo) (drop lo a)"
    by (rule filter_split) (use F in auto)
  moreover have "write_at 0 (take (hi' - lo) (drop lo a)) (take (hi' - lo) a) = take (hi' - lo) (drop lo a)"
  proof -
    have l: "length (take (hi' - lo) (drop lo a)) = hi' - lo" "hi' - lo \<le> length a" using F by auto
    show ?thesis using write_at_front [of "take (hi' - lo) (drop lo a)" a] unfolding l(1) using l(2) by blast
  qed
  moreover have "rmin > - 1" using F by simp
  ultimately show ?thesis
    unfolding vals_Include_def r prod.case lo_def [symmetric] hi_def [symmetric] Let_def if_not_P [OF ne] hi'_def [symmetric]
    by simp
qed

lemma vals_Contains_iff:
  assumes "ascending (map tm a)"
  shows "vals_Contains tm a mn mx \<longleftrightarrow> (\<exists>x\<in>set a. mn \<le> tm x \<and> tm x \<le> mx)"
proof (cases "FindRange (map tm a) mn mx = (- 1, - 1)")
  case True
  with FindRange_none [OF assms] show ?thesis by (auto simp: vals_Contains_def)
next
  case False
  obtain rmin rmax where r: "FindRange (map tm a) mn mx = (rmin, rmax)" by fastforce
  define lo hi where "lo = nat rmin" and "hi = nat rmax"
  define hi' where "hi' = (if hi < length a \<and> tm (a ! hi) = mx then hi + 1 else hi)"
  from False r have ne: "\<not> (rmin = - 1 \<and> rmax = - 1)" by simp
  note F = FindRange_frame [OF assms r ne, folded lo_def hi_def, folded hi'_def]
  have rr: "rmin = int lo" "rmax = int hi"
    using r ne by (auto simp: FindRange_def Let_def lo_def hi_def split: if_splits)
  have "(\<exists>x\<in>set a. mn \<le> tm x \<and> tm x \<le> mx) \<longleftrightarrow> (\<exists>i<length a. lo \<le> i \<and> i < hi')"
    using F by (metis in_set_conv_nth)
  also have "\<dots> \<longleftrightarrow> lo < hi'" using F by (meson le_refl le_less_trans less_le_trans)
  also have "\<dots> \<longleftrightarrow> vals_Contains tm a mn mx"
  proof -
    have "tm (a ! lo) = mn \<Longrightarrow> lo < hi'" using F r ne by (auto simp: FindRange_def Let_def split: if_splits)
    moreover have "lo < hi' \<longleftrightarrow> lo < hi \<or> hi < length a \<and> tm (a ! hi) = mx" using F by (auto simp: hi'_def)
    ultimately show ?thesis unfolding vals_Contains_def r prod.case if_not_P [OF ne] rr by auto
  qed
  finally show ?thesis ..
qed

lemma ascending_filter: "ascending (map tm a) \<Longrightarrow> ascending (map tm (filter P a))"
  by (simp add: sorted_wrt_map sorted_wrt_filter)

lemma vmap_filter:
  assumes "ascending (map tm a)"
  shows "vmap tm (filter P a) = (\<lambda>t. case vmap tm a t of Some x \<Rightarrow> if P x then Some x else None | None \<Rightarrow> None)"
proof
  fix t
  show "vmap tm (filter P a) t = (case vmap tm a t of Some x \<Rightarrow> if P x then Some x else None | None \<Rightarrow> None)"
  proof (cases "vmap tm a t")
    case None
    then have "\<forall>x. vmap tm (filter P a) t \<noteq> Some x"
      using vmap_ascending [OF assms, of t] vmap_ascending [OF ascending_filter [OF assms], of P t] by auto
    with None show ?thesis by (cases "vmap tm (filter P a) t") auto
  next
    case (Some x)
    have x: "x \<in> set a" "tm x = t" using vmap_ascending [OF assms, of t x] Some by simp_all
    have u: "y = x" if "y \<in> set a" "tm y = t" for y using vmap_ascending [OF assms, of t y] Some that by simp
    show ?thesis
    proof (cases "P x")
      case True
      with x vmap_ascending [OF ascending_filter [OF assms], of P t x] Some show ?thesis by simp
    next
      case False
      then have "\<forall>y. vmap tm (filter P a) t \<noteq> Some y"
        using vmap_ascending [OF ascending_filter [OF assms], of P t] u by auto
      with False Some show ?thesis by (cases "vmap tm (filter P a) t") auto
    qed
  qed
qed

subsection \<open>Deduplicate\<close>

lemma need_sort_iff: "need_sort ts \<longleftrightarrow> \<not> ascending ts"
proof (induction ts rule: need_sort.induct)
  case (1 s t ts)
  then show ?case by (auto simp: not_le) (meson less_trans order.strict_trans1)
qed simp_all

lemma vmap_last: "vmap tm a t = (if filter (\<lambda>x. tm x = t) a = [] then None else Some (last (filter (\<lambda>x. tm x = t) a)))"
  by (induction a rule: rev_induct) (auto simp: vmap_snoc simp del: vmap_simps(3))

lemma vmap_sort_key: "vmap tm (sort_key tm a) = vmap tm a"
  by (rule ext) (simp add: vmap_last sort_key_stable)

lemma dedup_loop_spec:
  assumes "i < j" "j \<le> length a" "ascending (map tm (take (i + 1) a))" "sorted (map tm (drop j a))"
    and "\<forall>x\<in>set (drop j a). tm (a ! i) \<le> tm x"
  shows "\<exists>i' a'. dedup_loop tm i j a = (i', a') \<and> i' < length a' \<and> ascending (map tm (take (i' + 1) a')) \<and>
    vmap tm (take (i' + 1) a') = vmap tm (take (i + 1) a) ++ vmap tm (drop j a)"
  using assms
proof (induction tm i j a rule: dedup_loop.induct)
  case (1 tm i j a)
  show ?case
  proof (cases "j < length a")
    case True
    define v where "v = a ! j"
    define k where "k = (if tm v \<noteq> tm (a ! i) then i + 1 else i)"
    define b where "b = a[k := v]"
    have e: "dedup_loop tm i j a = dedup_loop tm k (j + 1) b"
      by (subst dedup_loop.simps) (simp add: True Let_def v_def k_def b_def)
    have dj: "drop j a = v # drop (j + 1) a" using True by (simp add: v_def Cons_nth_drop_Suc)
    have kj: "k \<le> j" using 1(2) by (simp add: k_def)
    have db: "drop (j + 1) b = drop (j + 1) a" using kj by (simp add: b_def)
    have ti: "take (i + 1) a = take i a @ [a ! i]" using 1(2) True by (simp add: take_Suc_conv_app_nth)
    have bk: "b ! k = v" "length b = length a" using kj True by (simp_all add: b_def)
    have asc: "ascending (map tm (take (k + 1) b))"
      and vm: "vmap tm (take (k + 1) b) = (vmap tm (take (i + 1) a))(tm v \<mapsto> v)"
    proof -
      have "ascending (map tm (take (k + 1) b)) \<and> vmap tm (take (k + 1) b) = (vmap tm (take (i + 1) a))(tm v \<mapsto> v)"
      proof (cases "tm v = tm (a ! i)")
        case eq: True
        then have "take (k + 1) b = take i a @ [v]" using 1(2) True by (simp add: k_def b_def take_Suc_conv_app_nth)
        then show ?thesis using 1(4) eq ti by (simp add: vmap_snoc sorted_wrt_append del: vmap_simps(3))
      next
        case ne: False
        have "take (k + 1) b = take (i + 1) a @ [v]" using ne 1(2) True by (simp add: k_def b_def take_Suc_conv_app_nth)
        moreover have "tm (a ! i) < tm v" using 1(6) dj ne by auto
        moreover have "ascending (map tm (take (i + 1) a @ [v]))" using 1(4) calculation(2) unfolding ti by (auto simp: sorted_wrt_append)
        ultimately show ?thesis by (metis vmap_snoc)
      qed
      then show "ascending (map tm (take (k + 1) b))" "vmap tm (take (k + 1) b) = (vmap tm (take (i + 1) a))(tm v \<mapsto> v)" by simp_all
    qed
    have "\<forall>x\<in>set (drop (j + 1) b). tm (b ! k) \<le> tm x" "sorted (map tm (drop (j + 1) b))"
      using 1(5) unfolding db bk dj by simp_all
    with 1(1) [OF True v_def k_def, folded b_def] kj True asc bk obtain i' a' where
      r: "dedup_loop tm k (j + 1) b = (i', a')" "i' < length a'" "ascending (map tm (take (i' + 1) a'))"
        "vmap tm (take (i' + 1) a') = vmap tm (take (k + 1) b) ++ vmap tm (drop (j + 1) b)"
      by (metis Suc_eq_plus1 Suc_leI le_imp_less_Suc)
    moreover have "vmap tm (take (k + 1) b) ++ vmap tm (drop (j + 1) b) = vmap tm (take (i + 1) a) ++ vmap tm (drop j a)"
      unfolding vm db dj by (simp add: map_add_assoc)
    ultimately show ?thesis using e by auto
  next
    case False
    then have "dedup_loop tm i j a = (i, a)" by (subst dedup_loop.simps) simp
    with False 1(2-4) show ?thesis by auto
  qed
qed

lemma vals_Deduplicate_spec: "ascending (map tm (vals_Deduplicate tm a)) \<and> vmap tm (vals_Deduplicate tm a) = vmap tm a"
proof (cases "length a \<le> 1 \<or> ascending (map tm a)")
  case True
  then have "ascending (map tm a)" by (cases a; cases "tl a") auto
  with True show ?thesis by (simp add: vals_Deduplicate_def need_sort_iff)
next
  case False
  define b where "b = sort_key tm a"
  have b: "1 < length b" "sorted (map tm b)" using False by (simp_all add: b_def)
  then obtain x ys where xs: "b = x # ys" by (cases b) auto
  from dedup_loop_spec [of 0 1 b tm] b xs obtain i' a' where r: "dedup_loop tm 0 1 b = (i', a')" "ascending (map tm (take (i' + 1) a'))"
    "vmap tm (take (i' + 1) a') = vmap tm (take 1 b) ++ vmap tm (drop 1 b)" by auto
  have "vmap tm (take 1 b) ++ vmap tm (drop 1 b) = vmap tm a"
    unfolding vmap_simps(3) [symmetric] append_take_drop_id by (simp add: b_def vmap_sort_key)
  with r False show ?thesis by (simp add: vals_Deduplicate_def need_sort_iff flip: b_def)
qed

lemma vals_Deduplicate_ascending: "ascending (map tm (vals_Deduplicate tm a))"
  using vals_Deduplicate_spec by blast

lemma vmap_Deduplicate: "vmap tm (vals_Deduplicate tm a) = vmap tm a"
  using vals_Deduplicate_spec by blast

lemma vals_Deduplicate_id: "ascending (map tm a) \<Longrightarrow> vals_Deduplicate tm a = a"
  by (simp add: vals_Deduplicate_def need_sort_iff)

lemma vals_Deduplicate_Nil_iff: "vals_Deduplicate tm a = [] \<longleftrightarrow> a = []"
proof -
  have "dom (vmap tm (vals_Deduplicate tm a)) = dom (vmap tm a)" by (simp add: vmap_Deduplicate)
  then show ?thesis unfolding dom_vmap by auto
qed

text \<open>A strictly ascending slice is determined by its elements, and so by its map.\<close>

lemma ascending_set_unique:
  assumes "ascending (map tm a)" "ascending (map tm b)" "set a = set b"
  shows "a = b"
proof -
  have "map tm a = map tm b" using strict_sorted_equal [OF assms(2,1)] assms(3) by simp
  moreover have "inj_on tm (set b)" using assms(2) by (metis distinct_map strict_sorted_iff)
  ultimately show ?thesis using map_inj_on [of tm a b] assms(3) by simp
qed

lemma ascending_unique:
  assumes "ascending (map tm a)" "ascending (map tm b)" "vmap tm a = vmap tm b"
  shows "a = b"
proof -
  have "x \<in> set a \<longleftrightarrow> x \<in> set b" for x
    using vmap_ascending [OF assms(1), of "tm x" x] vmap_ascending [OF assms(2), of "tm x" x] assms(3) by simp
  then show ?thesis using ascending_set_unique [OF assms(1,2)] by blast
qed

subsection \<open>Merge\<close>

lemma merge_loop_spec:
  assumes "ascending (map tm a)" "ascending (map tm b)"
  shows "\<exists>m. merge_loop tm a b out = out @ m \<and> ascending (map tm m) \<and> vmap tm m = vmap tm a ++ vmap tm b \<and>
    set m \<subseteq> set a \<union> set b"
  using assms
proof (induction tm a b out rule: merge_loop.induct)
  case (1 tm x a y b out)
  consider "tm x < tm y" | "tm x = tm y" | "tm y < tm x" by linarith
  then show ?case
  proof cases
    case 1
    with "1.IH"(1) "1.prems" obtain m where m: "merge_loop tm a (y # b) (out @ [x]) = (out @ [x]) @ m" "ascending (map tm m)"
      "vmap tm m = vmap tm a ++ vmap tm (y # b)" "set m \<subseteq> set a \<union> set (y # b)" by auto
    have "\<forall>z\<in>set m. tm x < tm z" using m(4) 1 "1.prems" by fastforce
    with m 1 show ?thesis by (intro exI [of _ "x # m"]) (auto simp: map_add_assoc)
  next
    case 2
    with "1.IH"(2) "1.prems" obtain m where m: "merge_loop tm a (y # b) out = out @ m" "ascending (map tm m)"
      "vmap tm m = vmap tm a ++ vmap tm (y # b)" "set m \<subseteq> set a \<union> set (y # b)" by auto
    have "vmap tm a ++ vmap tm (y # b) = vmap tm (x # a) ++ vmap tm (y # b)"
      using 2 by (auto simp: map_add_def fun_eq_iff split: option.splits)
    with m 2 show ?thesis by (intro exI [of _ m]) auto
  next
    case 3
    with "1.IH"(3) "1.prems" obtain m where m: "merge_loop tm (x # a) b (out @ [y]) = (out @ [y]) @ m" "ascending (map tm m)"
      "vmap tm m = vmap tm (x # a) ++ vmap tm b" "set m \<subseteq> set (x # a) \<union> set b" by auto
    have "\<forall>z\<in>set m. tm y < tm z" using m(4) 3 "1.prems" by fastforce
    moreover have "tm y \<notin> dom (vmap tm (x # a))" using 3 "1.prems" unfolding dom_vmap by fastforce
    then have "vmap tm (y # m) = vmap tm (x # a) ++ vmap tm (y # b)"
      using m(3) by (auto simp: map_add_def fun_eq_iff split: option.splits)
    ultimately show ?thesis using m 3 by (intro exI [of _ "y # m"]) auto
  qed
qed (auto simp: map_add_empty)

text \<open>On ascending slices a tie may drop the left value together with emitting the right one.\<close>

lemma merge_loop_tie:
  assumes "tm x = tm y" "ascending (map tm (x # a))"
  shows "merge_loop tm (x # a) (y # b) out = merge_loop tm a b (out @ [y])"
  using assms by (cases a; cases b) auto

lemma vals_Merge_spec:
  assumes "a \<noteq> []" "b \<noteq> []"
  shows "ascending (map tm (vals_Merge tm a b)) \<and> vmap tm (vals_Merge tm a b) = vmap tm a ++ vmap tm b"
proof -
  define a' b' where "a' = vals_Deduplicate tm a" and "b' = vals_Deduplicate tm b"
  have ne: "a' \<noteq> []" "b' \<noteq> []" using assms by (simp_all add: a'_def b'_def vals_Deduplicate_Nil_iff)
  have asc: "ascending (map tm a')" "ascending (map tm b')" by (simp_all add: a'_def b'_def vals_Deduplicate_ascending)
  have vm: "vmap tm a' = vmap tm a" "vmap tm b' = vmap tm b" by (simp_all add: a'_def b'_def vmap_Deduplicate)
  have join: "ascending (map tm (u @ w))" if "ascending (map tm u)" "ascending (map tm w)" "u \<noteq> []" "w \<noteq> []"
    "tm (u ! (length u - 1)) < tm (w ! 0)" for u w
  proof -
    have "tm x \<le> tm (last u)" if "x \<in> set u" for x
    proof -
      from that obtain i where i: "i < length u" "x = u ! i" by (metis in_set_conv_nth)
      have "map tm u ! i \<le> map tm u ! (length u - 1)"
        by (rule sorted_nth_mono) (use i \<open>ascending (map tm u)\<close> in \<open>auto simp: strict_sorted_imp_sorted\<close>)
      with i show ?thesis by (simp add: last_conv_nth \<open>u \<noteq> []\<close>)
    qed
    moreover have "tm (hd w) \<le> tm y" if "y \<in> set w" for y
      using that \<open>ascending (map tm w)\<close> by (cases w) auto
    ultimately show ?thesis using that by (fastforce simp: sorted_wrt_append last_conv_nth hd_conv_nth)
  qed
  consider "tm (a' ! (length a' - 1)) < tm (b' ! 0)" | "\<not> tm (a' ! (length a' - 1)) < tm (b' ! 0)" "tm (b' ! (length b' - 1)) < tm (a' ! 0)"
    | "\<not> tm (a' ! (length a' - 1)) < tm (b' ! 0)" "\<not> tm (b' ! (length b' - 1)) < tm (a' ! 0)" by blast
  then show ?thesis
  proof cases
    case 1
    then have "vals_Merge tm a b = a' @ b'" using assms by (simp add: vals_Merge_def Let_def flip: a'_def b'_def)
    with join [OF asc ne 1] vm show ?thesis by simp
  next
    case 2
    then have e: "vals_Merge tm a b = b' @ a'" using assms by (simp add: vals_Merge_def Let_def flip: a'_def b'_def)
    note j = join [OF asc(2,1) ne(2,1) 2(2)]
    then have "dom (vmap tm a') \<inter> dom (vmap tm b') = {}" unfolding dom_vmap by (fastforce simp: sorted_wrt_append)
    then have "vmap tm b' ++ vmap tm a' = vmap tm a' ++ vmap tm b'" by (metis map_add_comm)
    with e j vm show ?thesis by simp
  next
    case 3
    then have e: "vals_Merge tm a b = merge_loop tm a' b' []" using assms by (simp add: vals_Merge_def Let_def flip: a'_def b'_def)
    from merge_loop_spec [OF asc, of "[]"] e vm show ?thesis by auto
  qed
qed

lemma vals_Merge_ascending:
  assumes "ascending (map tm a)" "ascending (map tm b)"
  shows "ascending (map tm (vals_Merge tm a b)) \<and> vmap tm (vals_Merge tm a b) = vmap tm a ++ vmap tm b"
proof (cases "a = [] \<or> b = []")
  case True
  then show ?thesis using assms by (auto simp: vals_Merge_def)
next
  case False
  then show ?thesis using vals_Merge_spec by blast
qed

section \<open>The contract of a time series\<close>

text \<open>
  What both representations of a series promise their clients: \<open>content\<close> is the map from timestamps to
  values, \<open>merge\<close> overlays, \<open>exclude\<close> deletes a closed range of time and \<open>incl\<close> keeps only that range; on a
  well-formed series none of them fails.
\<close>

locale time_series =
  fixes ok :: "'s \<Rightarrow> bool"
    and content :: "'s \<Rightarrow> int \<rightharpoonup> 'v"
    and merge :: "'s \<Rightarrow> 's \<Rightarrow> 's res"
    and exclude :: "'s \<Rightarrow> int \<Rightarrow> int \<Rightarrow> 's res"
    and incl :: "'s \<Rightarrow> int \<Rightarrow> int \<Rightarrow> 's res"
  assumes merge_ok: "ok a \<Longrightarrow> ok b \<Longrightarrow> \<exists>c. merge a b = Inr c \<and> ok c \<and> content c = content a ++ content b"
    and exclude_ok: "ok a \<Longrightarrow> \<exists>c. exclude a mn mx = Inr c \<and> ok c \<and> content c = content a |` {t. \<not> (mn \<le> t \<and> t \<le> mx)}"
    and incl_ok: "ok a \<Longrightarrow> \<exists>c. incl a mn mx = Inr c \<and> ok c \<and> content c = content a |` {t. mn \<le> t \<and> t \<le> mx}"
    and content_inj: "ok a \<Longrightarrow> ok b \<Longrightarrow> content a = content b \<Longrightarrow> a = b"
begin

text \<open>A deletion may be applied to the parts or to the merged series.\<close>

lemma exclude_merge:
  assumes "ok a" "ok b"
  shows "bind_res (merge a b) (\<lambda>c. exclude c mn mx) =
    bind_res (exclude a mn mx) (\<lambda>c. bind_res (exclude b mn mx) (\<lambda>d. merge c d))"
proof -
  obtain c where c: "merge a b = Inr c" "ok c" "content c = content a ++ content b" using merge_ok [OF assms] by blast
  obtain d where d: "exclude c mn mx = Inr d" "ok d" "content d = content c |` {t. \<not> (mn \<le> t \<and> t \<le> mx)}" using exclude_ok [OF c(2)] by blast
  obtain e where e: "exclude a mn mx = Inr e" "ok e" "content e = content a |` {t. \<not> (mn \<le> t \<and> t \<le> mx)}" using exclude_ok [OF assms(1)] by blast
  obtain f where f: "exclude b mn mx = Inr f" "ok f" "content f = content b |` {t. \<not> (mn \<le> t \<and> t \<le> mx)}" using exclude_ok [OF assms(2)] by blast
  obtain g where g: "merge e f = Inr g" "ok g" "content g = content e ++ content f" using merge_ok [OF e(2) f(2)] by blast
  have "content d = content g"
    by (rule ext) (simp add: d(3) c(3) g(3) e(3) f(3) restrict_map_def map_add_def)
  then have "d = g" by (rule content_inj [OF d(2) g(2)])
  then show ?thesis by (simp add: c d e f g)
qed

text \<open>Splitting a series at a range and merging the halves gives it back.\<close>

lemma split_range:
  assumes "ok a"
  shows "bind_res (incl a mn mx) (\<lambda>c. bind_res (exclude a mn mx) (\<lambda>d. merge c d)) = Inr a"
proof -
  obtain c where c: "incl a mn mx = Inr c" "ok c" "content c = content a |` {t. mn \<le> t \<and> t \<le> mx}" using incl_ok [OF assms] by blast
  obtain d where d: "exclude a mn mx = Inr d" "ok d" "content d = content a |` {t. \<not> (mn \<le> t \<and> t \<le> mx)}" using exclude_ok [OF assms] by blast
  obtain g where g: "merge c d = Inr g" "ok g" "content g = content c ++ content d" using merge_ok [OF c(2) d(2)] by blast
  have "content g = content a"
    by (rule ext) (auto simp: c(3) d(3) g(3) restrict_map_def map_add_def split: option.split)
  then have "g = a" by (rule content_inj [OF g(2) assms])
  then show ?thesis by (simp add: c d g)
qed

end

lemma vmap_restrict:
  assumes "ascending (map tm a)"
  shows "vmap tm (filter (\<lambda>x. P (tm x)) a) = vmap tm a |` {t. P t}"
  using vmap_Some [of tm a]
  by (intro ext) (auto simp: vmap_filter [OF assms] restrict_map_def split: option.split)

interpretation rows: time_series "\<lambda>a. ascending (map tm a)" "vmap tm" "\<lambda>a b. Inr (vals_Merge tm a b)"
    "\<lambda>a mn mx. Inr (vals_Exclude tm a mn mx)" "\<lambda>a mn mx. Inr (vals_Include tm a mn mx)" for tm :: "'v \<Rightarrow> int"
proof (unfold_locales, goal_cases)
  case (1 a b)
  then show ?case using vals_Merge_ascending by simp
next
  case (2 a mn mx)
  then show ?case using vmap_restrict [OF 2, of "\<lambda>t. \<not> (mn \<le> t \<and> t \<le> mx)"] by (simp add: vals_Exclude_filter ascending_filter)
next
  case (3 a mn mx)
  then show ?case using vmap_restrict [OF 3, of "\<lambda>t. mn \<le> t \<and> t \<le> mx"] by (simp add: vals_Include_filter ascending_filter)
next
  case (4 a b)
  then show ?case by (rule ascending_unique)
qed

section \<open>Properties\<close>

text \<open>
  \<^verbatim>\<open>FindRange\<close> on any slice, sorted or not, gives either no range or positions
  \<open>0 \<le> rmin \<le> rmax \<le> len(a)\<close> with \<open>rmin < len(a)\<close>. Lemma \<open>row_ops_in_range\<close> of \<open>Array_Values\<close> shows that with these no
  index or slice expression of \<^verbatim>\<open>Exclude\<close>, \<^verbatim>\<open>Include\<close> or \<^verbatim>\<open>Contains\<close> is out of range.
\<close>

theorem FindRange_bounds:
  "case FindRange ts mn mx of (rmin, rmax) \<Rightarrow>
     rmin = - 1 \<and> rmax = - 1 \<or> 0 \<le> rmin \<and> rmin \<le> rmax \<and> rmax \<le> int (length ts) \<and> rmin < int (length ts)"
  by (rule FindRange_in_bounds)

text \<open>
  C21. \<^verbatim>\<open>Deduplicate\<close> of any slice ascends strictly and keeps, for every timestamp of the slice, the value
  that appears last.
\<close>

theorem Deduplicate_last_wins:
  "ascending (map tm (vals_Deduplicate tm a)) \<and>
   (\<forall>t. find (\<lambda>x. tm x = t) (vals_Deduplicate tm a) = find (\<lambda>x. tm x = t) (rev a))"
proof -
  have last: "vmap tm b t = find (\<lambda>x. tm x = t) (rev b)" for b t
    by (induction b rule: rev_induct) (auto simp: vmap_snoc simp del: vmap_simps(3))
  have "find (\<lambda>x. tm x = t) b = vmap tm b t" if "ascending (map tm b)" for b t
    using that
  proof (induction b)
    case (Cons x b)
    then have "tm x = t \<Longrightarrow> t \<notin> dom (vmap tm b)" unfolding dom_vmap by auto
    then have "tm x = t \<Longrightarrow> vmap tm b t = None" by blast
    with Cons show ?case by (auto simp: map_add_def split: option.split)
  qed simp
  then show ?thesis using vals_Deduplicate_ascending [of tm a] by (simp add: vmap_Deduplicate flip: last)
qed

end
