(* ===== verification/Array_Values.thy ===== *)
theory Array_Values
  imports Sorted_Values
begin

text \<open>
  The columnar arrays of \<^verbatim>\<open>tsdb/cursors/arrayvalues.gen.go\<close>: a slice of timestamps and a slice of values of
  the same length. The generated file repeats the operations for each value type, so they are written once
  over the type of the values. Slices have no spare capacity here; an index or a bound out of range is a panic.
  The invariant is that both slices have one length and the timestamps ascend strictly; then the
  operations cannot panic, keep it, and do on the map from timestamps to values what the row-wise
  operations of \<^verbatim>\<open>Sorted_Values\<close> do.
\<close>

section \<open>Slices\<close>

text \<open>\<^verbatim>\<open>xs[:n]\<close>, \<^verbatim>\<open>xs[n:]\<close>, \<^verbatim>\<open>xs[i]\<close>, \<^verbatim>\<open>xs[i] = v\<close> and \<^verbatim>\<open>copy(dst[i:], src)\<close>.\<close>

definition sl_to :: "nat \<Rightarrow> 'a list \<Rightarrow> 'a list res" where
  "sl_to n xs = (if n > length xs then Inl (GoPanic ''slice bounds out of range'') else Inr (take n xs))"

definition sl_from :: "nat \<Rightarrow> 'a list \<Rightarrow> 'a list res" where
  "sl_from n xs = (if n > length xs then Inl (GoPanic ''slice bounds out of range'') else Inr (drop n xs))"

definition sl_get :: "'a list \<Rightarrow> nat \<Rightarrow> 'a res" where
  "sl_get xs i = (if i < length xs then Inr (xs ! i) else Inl (GoPanic ''index out of range''))"

definition sl_set :: "nat \<Rightarrow> 'a \<Rightarrow> 'a list \<Rightarrow> 'a list res" where
  "sl_set i v xs = (if i < length xs then Inr (xs[i := v]) else Inl (GoPanic ''index out of range''))"

definition copy_at :: "nat \<Rightarrow> 'a list \<Rightarrow> 'a list \<Rightarrow> 'a list" where
  "copy_at i src dst = write_at i (take (length dst - i) src) dst"

lemma sl_ok [simp]:
  "n \<le> length xs \<Longrightarrow> sl_to n xs = Inr (take n xs)" "n \<le> length xs \<Longrightarrow> sl_from n xs = Inr (drop n xs)"
  "n < length xs \<Longrightarrow> sl_get xs n = Inr (xs ! n)" "n < length xs \<Longrightarrow> sl_set n v xs = Inr (xs[n := v])"
  by (simp_all add: sl_to_def sl_from_def sl_get_def sl_set_def)

section \<open>Arrays\<close>

record 'v array_vals =
  Timestamps :: "i64 list"
  Values :: "'v list"

definition NewArrayLen :: "'v \<Rightarrow> nat \<Rightarrow> 'v array_vals" where
  "NewArrayLen zero sz = \<lparr>Timestamps = replicate sz 0, Values = replicate sz zero\<rparr>"

definition arr_Len :: "'v array_vals \<Rightarrow> nat" where
  "arr_Len a = length (Timestamps a)"

definition arr_MinTime :: "'v array_vals \<Rightarrow> int res" where
  "arr_MinTime a = bind_res (sl_get (Timestamps a) 0) (\<lambda>t. Inr (sint t))"

definition arr_MaxTime :: "'v array_vals \<Rightarrow> int res" where
  "arr_MaxTime a =
     (if Timestamps a = [] then Inl (GoPanic ''index out of range'') else Inr (sint (Timestamps a ! (length (Timestamps a) - 1))))"

definition arr_search :: "'v array_vals \<Rightarrow> int \<Rightarrow> nat" where
  "arr_search a v = search (map sint (Timestamps a)) v"

definition arr_FindRange :: "'v array_vals \<Rightarrow> int \<Rightarrow> int \<Rightarrow> int \<times> int" where
  "arr_FindRange a mn mx = FindRange (map sint (Timestamps a)) mn mx"

definition arr_Exclude :: "'v array_vals \<Rightarrow> int \<Rightarrow> int \<Rightarrow> 'v array_vals res" where
  "arr_Exclude a mn mx =
     (case arr_FindRange a mn mx of (rmin, rmax) \<Rightarrow>
        if rmin = - 1 \<and> rmax = - 1 then Inr a
        else
          let lo = nat rmin; hi = nat rmax;
              hi' = (if hi < arr_Len a \<and> sint (Timestamps a ! hi) = mx then hi + 1 else hi);
              rest = arr_Len a - hi'
          in if hi < arr_Len a \<and> rest > 0 then
               bind_res (sl_to (lo + rest) (Timestamps a)) (\<lambda>ts.
               bind_res (sl_to (lo + rest) (Values a)) (\<lambda>vs.
               bind_res (sl_from hi' (Values a)) (\<lambda>src.
                 Inr \<lparr>Timestamps = copy_at lo (drop hi' (Timestamps a)) ts, Values = copy_at lo src vs\<rparr>)))
             else
               bind_res (sl_to lo (Timestamps a)) (\<lambda>ts.
               bind_res (sl_to lo (Values a)) (\<lambda>vs. Inr \<lparr>Timestamps = ts, Values = vs\<rparr>)))"

definition arr_Include :: "'v array_vals \<Rightarrow> int \<Rightarrow> int \<Rightarrow> 'v array_vals res" where
  "arr_Include a mn mx =
     (case arr_FindRange a mn mx of (rmin, rmax) \<Rightarrow>
        if rmin = - 1 \<and> rmax = - 1 then Inr \<lparr>Timestamps = [], Values = []\<rparr>
        else
          let lo = nat rmin; hi = nat rmax;
              hi' = (if hi < arr_Len a \<and> sint (Timestamps a ! hi) = mx then hi + 1 else hi)
          in if hi' < lo then Inl (GoPanic ''slice bounds out of range'')
             else if rmin > - 1 then
               bind_res (sl_to hi' (Values a)) (\<lambda>vs.
                 Inr \<lparr>Timestamps = copy_at 0 (drop lo (take hi' (Timestamps a))) (take (hi' - lo) (Timestamps a)),
                      Values = copy_at 0 (drop lo vs) (take (hi' - lo) (Values a))\<rparr>)
             else
               bind_res (sl_to hi' (Timestamps a)) (\<lambda>ts.
               bind_res (sl_to hi' (Values a)) (\<lambda>vs. Inr \<lparr>Timestamps = ts, Values = vs\<rparr>)))"

text \<open>
  \<^verbatim>\<open>out.Timestamps[k] = t; out.Values[k] = vs[n]\<close>, and the loop of \<^verbatim>\<open>Merge\<close>: \<open>i\<close> and \<open>j\<close> read \<open>a\<close> and \<open>b\<close>,
  \<open>k\<close> writes \<open>out\<close>.
\<close>

definition arr_put :: "nat \<Rightarrow> i64 \<Rightarrow> 'v list \<Rightarrow> nat \<Rightarrow> 'v array_vals \<Rightarrow> 'v array_vals res" where
  "arr_put k t vs n out =
     bind_res (sl_set k t (Timestamps out)) (\<lambda>ots.
     bind_res (sl_get vs n) (\<lambda>v.
     bind_res (sl_set k v (Values out)) (\<lambda>ovs. Inr \<lparr>Timestamps = ots, Values = ovs\<rparr>)))"

function arr_merge_loop ::
  "'v array_vals \<Rightarrow> 'v array_vals \<Rightarrow> nat \<Rightarrow> nat \<Rightarrow> nat \<Rightarrow> 'v array_vals \<Rightarrow> (nat \<times> nat \<times> nat \<times> 'v array_vals) res" where
  "arr_merge_loop a b i j k out =
     (if i < length (Timestamps a) \<and> j < length (Timestamps b) then
        if sint (Timestamps a ! i) < sint (Timestamps b ! j) then
          (case arr_put k (Timestamps a ! i) (Values a) i out of
             Inl e \<Rightarrow> Inl e | Inr out' \<Rightarrow> arr_merge_loop a b (i + 1) j (k + 1) out')
        else if Timestamps a ! i = Timestamps b ! j then
          (case arr_put k (Timestamps b ! j) (Values b) j out of
             Inl e \<Rightarrow> Inl e | Inr out' \<Rightarrow> arr_merge_loop a b (i + 1) (j + 1) (k + 1) out')
        else
          (case arr_put k (Timestamps b ! j) (Values b) j out of
             Inl e \<Rightarrow> Inl e | Inr out' \<Rightarrow> arr_merge_loop a b i (j + 1) (k + 1) out')
      else Inr (i, j, k, out))"
  by auto
termination
  by (relation "measure (\<lambda>(a, b, i, j, k, out). (length (Timestamps a) - i) + (length (Timestamps b) - j))") auto

declare arr_merge_loop.simps [simp del]

definition arr_Merge :: "'v \<Rightarrow> 'v array_vals \<Rightarrow> 'v array_vals \<Rightarrow> 'v array_vals res" where
  "arr_Merge zero a b =
     (if arr_Len a = 0 then Inr b
      else if arr_Len b = 0 then Inr a
      else
        bind_res (arr_MaxTime a) (\<lambda>amax. bind_res (arr_MinTime b) (\<lambda>bmin.
        if amax < bmin then Inr \<lparr>Timestamps = Timestamps a @ Timestamps b, Values = Values a @ Values b\<rparr>
        else
        bind_res (arr_MaxTime b) (\<lambda>bmax. bind_res (arr_MinTime a) (\<lambda>amin.
        if bmax < amin then Inr \<lparr>Timestamps = Timestamps b @ Timestamps a, Values = Values b @ Values a\<rparr>
        else
        bind_res (arr_merge_loop a b 0 0 0 (NewArrayLen zero (arr_Len a + arr_Len b))) (\<lambda>(i, j, k, out).
          let src = (\<lambda>c n. bind_res (sl_from n (Values c)) (\<lambda>vs.
                let m = min (length (Timestamps out) - k) (length (Timestamps c) - n) in
                Inr (k + m, \<lparr>Timestamps = copy_at k (drop n (Timestamps c)) (Timestamps out), Values = copy_at k vs (Values out)\<rparr>)))
          in bind_res (if i < length (Timestamps a) then src a i
                       else if j < length (Timestamps b) then src b j
                       else Inr (k, out)) (\<lambda>(k', out').
               bind_res (sl_to k' (Timestamps out')) (\<lambda>ts.
               bind_res (sl_to k' (Values out')) (\<lambda>vs. Inr \<lparr>Timestamps = ts, Values = vs\<rparr>)))))))))"

text \<open>\<^verbatim>\<open>NewFloatArrayFromValues\<close>: the columns of a slice of \<^verbatim>\<open>{unixnano, value}\<close> structs, given as pairs.\<close>

definition NewArrayFromValues :: "(i64 \<times> 'v) list \<Rightarrow> 'v array_vals" where
  "NewArrayFromValues v = \<lparr>Timestamps = map fst v, Values = map snd v\<rparr>"

text \<open>\<^verbatim>\<open>TimestampArray\<close> has the timestamps only.\<close>

definition ts_Exclude :: "i64 list \<Rightarrow> int \<Rightarrow> int \<Rightarrow> i64 list" where
  "ts_Exclude ts mn mx = vals_Exclude sint ts mn mx"

definition ts_Contains :: "i64 list \<Rightarrow> int \<Rightarrow> int \<Rightarrow> bool" where
  "ts_Contains ts mn mx = vals_Contains sint ts mn mx"

section \<open>The invariant and what an array means\<close>

definition arr_ok :: "'v array_vals \<Rightarrow> bool" where
  "arr_ok a \<longleftrightarrow> length (Values a) = length (Timestamps a) \<and> ascending (map sint (Timestamps a))"

definition arr_map :: "'v array_vals \<Rightarrow> int \<rightharpoonup> 'v" where
  "arr_map a = map_of (zip (map sint (Timestamps a)) (Values a))"

definition arr_pairs :: "'v array_vals \<Rightarrow> (int \<times> 'v) list" where
  "arr_pairs a = zip (map sint (Timestamps a)) (Values a)"

lemma length_arr_pairs: "arr_ok a \<Longrightarrow> length (arr_pairs a) = length (Timestamps a)"
  by (simp add: arr_pairs_def arr_ok_def)

lemma map_fst_arr_pairs: "arr_ok a \<Longrightarrow> map fst (arr_pairs a) = map sint (Timestamps a)"
  by (simp add: arr_pairs_def arr_ok_def)

lemma ascending_arr_pairs: "arr_ok a \<Longrightarrow> ascending (map fst (arr_pairs a))"
  by (simp add: map_fst_arr_pairs) (simp add: arr_ok_def)

lemma nth_arr_pairs: "arr_ok a \<Longrightarrow> i < length (Timestamps a) \<Longrightarrow> arr_pairs a ! i = (sint (Timestamps a ! i), Values a ! i)"
  by (simp add: arr_pairs_def arr_ok_def)

text \<open>An array whose slices have one length is well-formed when its pairs ascend.\<close>

lemma arr_okI:
  assumes "length (Values a) = length (Timestamps a)" "ascending (map fst (arr_pairs a))"
  shows "arr_ok a"
  using assms by (simp add: arr_ok_def arr_pairs_def)

lemma copy_at_close:
  assumes "lo \<le> hi" "hi \<le> length a"
  shows "copy_at lo (drop hi a) (take (lo + (length a - hi)) a) = take lo a @ drop hi a"
  using write_at_close [OF assms] assms by (simp add: copy_at_def min_absorb2)

lemma copy_at_front:
  assumes "lo \<le> hi" "hi \<le> length a"
  shows "copy_at 0 (drop lo (take hi a)) (take (hi - lo) a) = take (hi - lo) (drop lo a)"
proof -
  have "length (take (hi - lo) (drop lo a)) = hi - lo" using assms by simp
  then show ?thesis
    using write_at_front [of "take (hi - lo) (drop lo a)" a] assms by (simp add: copy_at_def drop_take)
qed

lemma take_copy_at: "k + length xs \<le> length dst \<Longrightarrow> take (k + length xs) (copy_at k xs dst) = take k dst @ xs"
  by (simp add: copy_at_def take_write_at)

lemma length_copy_at [simp]: "k \<le> length dst \<Longrightarrow> length (copy_at k xs dst) = length dst"
  by (simp add: copy_at_def)

lemma arr_pairs_append:
  "length (Values a) = length (Timestamps a) \<Longrightarrow>
   arr_pairs \<lparr>Timestamps = Timestamps a @ Timestamps b, Values = Values a @ Values b\<rparr> = arr_pairs a @ arr_pairs b"
  by (simp add: arr_pairs_def)

subsection \<open>Ranges\<close>

text \<open>The bounds of the row-wise lemma \<open>FindRange_frame\<close>, read on an array.\<close>

lemma arr_FindRange_cases:
  assumes ok: "arr_ok a"
  obtains (none) "arr_FindRange a mn mx = (- 1, - 1)" "\<forall>x\<in>set (arr_pairs a). \<not> (mn \<le> fst x \<and> fst x \<le> mx)"
  | (some) lo hi hi' where "arr_FindRange a mn mx = (int lo, int hi)" "lo \<le> hi'" "hi' \<le> arr_Len a" "hi \<le> arr_Len a" "lo \<le> hi"
      "hi' = (if hi < arr_Len a \<and> sint (Timestamps a ! hi) = mx then hi + 1 else hi)"
      "\<forall>i<length (arr_pairs a). (mn \<le> fst (arr_pairs a ! i) \<and> fst (arr_pairs a ! i) \<le> mx) \<longleftrightarrow> lo \<le> i \<and> i < hi'"
proof (cases "FindRange (map fst (arr_pairs a)) mn mx = (- 1, - 1)")
  case True
  then show thesis
    using none FindRange_none [OF ascending_arr_pairs [OF ok] True] by (simp add: arr_FindRange_def map_fst_arr_pairs [OF ok])
next
  case False
  obtain rmin rmax where r: "FindRange (map fst (arr_pairs a)) mn mx = (rmin, rmax)" by fastforce
  from False r have ne: "\<not> (rmin = - 1 \<and> rmax = - 1)" by simp
  note F = FindRange_frame [OF ascending_arr_pairs [OF ok] r ne]
  have m: "rmax = int (nat rmax)" using r ne by (auto simp: FindRange_def Let_def split: if_splits)
  have e: "arr_FindRange a mn mx = (int (nat rmin), int (nat rmax))"
    using r F m by (simp add: arr_FindRange_def map_fst_arr_pairs [OF ok])
  have h: "(nat rmax < length (arr_pairs a) \<and> fst (arr_pairs a ! nat rmax) = mx) \<longleftrightarrow>
      (nat rmax < arr_Len a \<and> sint (Timestamps a ! nat rmax) = mx)"
    by (auto simp: length_arr_pairs [OF ok] nth_arr_pairs [OF ok] arr_Len_def)
  show thesis
    by (rule some [OF e _ _ _ _ refl]) (use F [unfolded h] in \<open>unfold length_arr_pairs [OF ok] arr_Len_def, blast+\<close>)
qed

lemma arr_Exclude_spec:
  assumes ok: "arr_ok a"
  shows "\<exists>c. arr_Exclude a mn mx = Inr c \<and> arr_ok c \<and>
    arr_pairs c = filter (\<lambda>x. \<not> (mn \<le> fst x \<and> fst x \<le> mx)) (arr_pairs a)"
proof -
  have l: "length (Values a) = length (Timestamps a)" using ok by (simp add: arr_ok_def)
  have asc: "ascending (map fst (filter P (arr_pairs a)))" for P by (rule ascending_filter [OF ascending_arr_pairs [OF ok]])
  from ok show ?thesis
  proof (cases rule: arr_FindRange_cases [of a mn mx])
    case none
    then show ?thesis using ok by (simp add: arr_Exclude_def filter_id_conv)
  next
    case (some lo hi hi')
    define c where "c = \<lparr>Timestamps = take lo (Timestamps a) @ drop hi' (Timestamps a), Values = take lo (Values a) @ drop hi' (Values a)\<rparr>"
    have "arr_Exclude a mn mx = Inr c"
    proof (cases "hi < arr_Len a \<and> arr_Len a - hi' > 0")
      case True
      with some(2,3) show ?thesis
        unfolding arr_Exclude_def some(1) Let_def nat_int prod.case some(6) [symmetric]
        using copy_at_close [of lo hi' "Timestamps a"] copy_at_close [of lo hi' "Values a"]
        by (simp add: c_def arr_Len_def l)
    next
      case False
      then have "hi' = arr_Len a" using some(3,4,6) by (auto split: if_splits)
      with False some(2,4,5) show ?thesis
        unfolding arr_Exclude_def some(1) Let_def nat_int prod.case some(6) [symmetric]
        by (simp add: c_def arr_Len_def l)
    qed
    moreover have p: "arr_pairs c = filter (\<lambda>x. \<not> (mn \<le> fst x \<and> fst x \<le> mx)) (arr_pairs a)"
    proof -
      have "filter (\<lambda>x. \<not> (mn \<le> fst x \<and> fst x \<le> mx)) (arr_pairs a) = take lo (arr_pairs a) @ drop hi' (arr_pairs a)"
        by (rule filter_split [OF some(7,2)]) (use some(3) in \<open>simp add: length_arr_pairs [OF ok] arr_Len_def\<close>)
      then show ?thesis using l by (simp add: c_def arr_pairs_def take_zip drop_zip take_map drop_map zip_append)
    qed
    moreover have "arr_ok c" by (rule arr_okI) (simp add: c_def l, simp add: p asc)
    ultimately show ?thesis by blast
  qed
qed

lemma arr_Include_spec:
  assumes ok: "arr_ok a"
  shows "\<exists>c. arr_Include a mn mx = Inr c \<and> arr_ok c \<and>
    arr_pairs c = filter (\<lambda>x. mn \<le> fst x \<and> fst x \<le> mx) (arr_pairs a)"
proof -
  have l: "length (Values a) = length (Timestamps a)" using ok by (simp add: arr_ok_def)
  have asc: "ascending (map fst (filter P (arr_pairs a)))" for P by (rule ascending_filter [OF ascending_arr_pairs [OF ok]])
  from ok show ?thesis
  proof (cases rule: arr_FindRange_cases [of a mn mx])
    case none
    then show ?thesis by (simp add: arr_Include_def filter_empty_conv) (simp add: arr_ok_def arr_pairs_def)
  next
    case (some lo hi hi')
    define c where "c = \<lparr>Timestamps = take (hi' - lo) (drop lo (Timestamps a)), Values = take (hi' - lo) (drop lo (Values a))\<rparr>"
    have "arr_Include a mn mx = Inr c"
      unfolding arr_Include_def some(1) Let_def nat_int prod.case some(6) [symmetric]
      using some(2,3) copy_at_front [of lo hi' "Timestamps a"] copy_at_front [of lo hi' "Values a"]
      by (simp add: c_def arr_Len_def l)
    moreover have p: "arr_pairs c = filter (\<lambda>x. mn \<le> fst x \<and> fst x \<le> mx) (arr_pairs a)"
    proof -
      have "filter (\<lambda>x. mn \<le> fst x \<and> fst x \<le> mx) (arr_pairs a) = take (hi' - lo) (drop lo (arr_pairs a))"
        by (rule filter_split [OF some(7,2)]) (use some(3) in \<open>simp add: length_arr_pairs [OF ok] arr_Len_def\<close>)
      then show ?thesis using l by (simp add: c_def arr_pairs_def take_zip drop_zip take_map drop_map)
    qed
    moreover have "arr_ok c" by (rule arr_okI) (simp add: c_def l, simp add: p asc)
    ultimately show ?thesis by blast
  qed
qed

subsection \<open>Merge\<close>

lemma arr_put_ok:
  assumes "k < length (Timestamps out)" "length (Values out) = length (Timestamps out)" "n < length vs"
  obtains out' where "arr_put k t vs n out = Inr out'" "length (Timestamps out') = length (Timestamps out)"
    "length (Values out') = length (Timestamps out)"
    "take (k + 1) (arr_pairs out') = take k (arr_pairs out) @ [(sint t, vs ! n)]"
proof (rule that)
  show "arr_put k t vs n out = Inr \<lparr>Timestamps = (Timestamps out)[k := t], Values = (Values out)[k := vs ! n]\<rparr>"
    using assms by (simp add: arr_put_def)
  have "zip ((map sint (Timestamps out))[k := sint t]) ((Values out)[k := vs ! n]) = (arr_pairs out)[k := (sint t, vs ! n)]"
    using assms by (simp add: arr_pairs_def zip_update)
  then show "take (k + 1) (arr_pairs \<lparr>Timestamps = (Timestamps out)[k := t], Values = (Values out)[k := vs ! n]\<rparr>) =
      take k (arr_pairs out) @ [(sint t, vs ! n)]"
    using assms by (simp add: arr_pairs_def map_update take_Suc_conv_app_nth)
qed (use assms in simp_all)

lemma arr_drop_step:
  "arr_ok a \<Longrightarrow> i < length (Timestamps a) \<Longrightarrow> drop i (arr_pairs a) = (sint (Timestamps a ! i), Values a ! i) # drop (i + 1) (arr_pairs a)"
  using nth_arr_pairs [of a i] Cons_nth_drop_Suc [of i "arr_pairs a"] by (simp add: length_arr_pairs)

lemma arr_merge_loop_spec:
  assumes "arr_ok a" "arr_ok b" "length (Timestamps out) = arr_Len a + arr_Len b" "length (Values out) = length (Timestamps out)"
    and "i \<le> arr_Len a" "j \<le> arr_Len b" "k \<le> i + j"
  shows "\<exists>i' j' k' out'. arr_merge_loop a b i j k out = Inr (i', j', k', out') \<and>
    length (Timestamps out') = arr_Len a + arr_Len b \<and> length (Values out') = arr_Len a + arr_Len b \<and>
    i' \<le> arr_Len a \<and> j' \<le> arr_Len b \<and> k' \<le> i' + j' \<and> (i' = arr_Len a \<or> j' = arr_Len b) \<and>
    merge_loop fst (drop i (arr_pairs a)) (drop j (arr_pairs b)) (take k (arr_pairs out)) =
      take k' (arr_pairs out') @ drop i' (arr_pairs a) @ drop j' (arr_pairs b)"
  using assms
proof (induction a b i j k out rule: arr_merge_loop.induct)
  case (1 a b i j k out)
  note ok = "1.prems"(1,2) and len = "1.prems"(3,4) and ij = "1.prems"(5-7)
  show ?case
  proof (cases "i < length (Timestamps a) \<and> j < length (Timestamps b)")
    case True
    then have k: "k < length (Timestamps out)" using len ij by (simp add: arr_Len_def)
    have v: "i < length (Values a)" "j < length (Values b)" using True ok by (simp_all add: arr_ok_def)
    have da: "drop i (arr_pairs a) = (sint (Timestamps a ! i), Values a ! i) # drop (i + 1) (arr_pairs a)"
      and db: "drop j (arr_pairs b) = (sint (Timestamps b ! j), Values b ! j) # drop (j + 1) (arr_pairs b)"
      using True ok by (simp_all only: arr_drop_step)
    obtain oa where oa: "arr_put k (Timestamps a ! i) (Values a) i out = Inr oa" "length (Timestamps oa) = length (Timestamps out)"
      "length (Values oa) = length (Timestamps out)"
      "take (k + 1) (arr_pairs oa) = take k (arr_pairs out) @ [(sint (Timestamps a ! i), Values a ! i)]"
      using arr_put_ok [OF k len(2) v(1)] by blast
    obtain ob where ob: "arr_put k (Timestamps b ! j) (Values b) j out = Inr ob" "length (Timestamps ob) = length (Timestamps out)"
      "length (Values ob) = length (Timestamps out)"
      "take (k + 1) (arr_pairs ob) = take k (arr_pairs out) @ [(sint (Timestamps b ! j), Values b ! j)]"
      using arr_put_ok [OF k len(2) v(2)] by blast
    consider "sint (Timestamps a ! i) < sint (Timestamps b ! j)"
      | "\<not> sint (Timestamps a ! i) < sint (Timestamps b ! j)" "Timestamps a ! i = Timestamps b ! j"
      | "\<not> sint (Timestamps a ! i) < sint (Timestamps b ! j)" "Timestamps a ! i \<noteq> Timestamps b ! j" by blast
    then show ?thesis
    proof cases
      case c: 1
      have "arr_merge_loop a b i j k out = arr_merge_loop a b (i + 1) j (k + 1) oa"
        by (subst arr_merge_loop.simps) (simp add: True c oa(1))
      moreover have "merge_loop fst (drop i (arr_pairs a)) (drop j (arr_pairs b)) (take k (arr_pairs out)) =
          merge_loop fst (drop (i + 1) (arr_pairs a)) (drop j (arr_pairs b)) (take (k + 1) (arr_pairs oa))"
        unfolding da db oa(4) using c by simp
      ultimately show ?thesis using "1.IH"(1) [OF True c oa(1) ok] True len ij oa by (simp add: arr_Len_def)
    next
      case c: 2
      have "arr_merge_loop a b i j k out = arr_merge_loop a b (i + 1) (j + 1) (k + 1) ob"
        by (subst arr_merge_loop.simps) (simp add: True c ob(1))
      moreover have "merge_loop fst (drop i (arr_pairs a)) (drop j (arr_pairs b)) (take k (arr_pairs out)) =
          merge_loop fst (drop (i + 1) (arr_pairs a)) (drop (j + 1) (arr_pairs b)) (take (k + 1) (arr_pairs ob))"
        unfolding da db ob(4)
      proof (rule merge_loop_tie)
        have "ascending (map fst (drop i (arr_pairs a)))" using ascending_arr_pairs [OF ok(1)] by (simp add: sorted_wrt_drop flip: drop_map)
        then show "ascending (map fst ((sint (Timestamps a ! i), Values a ! i) # drop (i + 1) (arr_pairs a)))" by (simp only: da)
      qed (simp add: c)
      ultimately show ?thesis using "1.IH"(2) [OF True c ob(1) ok] True len ij ob by (simp add: arr_Len_def)
    next
      case c: 3
      then have lt: "sint (Timestamps b ! j) < sint (Timestamps a ! i)" by (metis linorder_neqE signed_word_eqI)
      have "arr_merge_loop a b i j k out = arr_merge_loop a b i (j + 1) (k + 1) ob"
        by (subst arr_merge_loop.simps) (simp add: True c ob(1))
      moreover have "merge_loop fst (drop i (arr_pairs a)) (drop j (arr_pairs b)) (take k (arr_pairs out)) =
          merge_loop fst (drop i (arr_pairs a)) (drop (j + 1) (arr_pairs b)) (take (k + 1) (arr_pairs ob))"
        unfolding da db ob(4) using lt by simp
      ultimately show ?thesis using "1.IH"(3) [OF True c ob(1) ok] True len ij ob by (simp add: arr_Len_def)
    qed
  next
    case False
    then have e: "arr_merge_loop a b i j k out = Inr (i, j, k, out)" by (subst arr_merge_loop.simps) (simp only: if_False)
    have "drop i (arr_pairs a) = [] \<or> drop j (arr_pairs b) = []"
      using False by (auto simp: length_arr_pairs [OF ok(1)] length_arr_pairs [OF ok(2)])
    then have "merge_loop fst (drop i (arr_pairs a)) (drop j (arr_pairs b)) (take k (arr_pairs out)) =
        take k (arr_pairs out) @ drop i (arr_pairs a) @ drop j (arr_pairs b)"
      by (cases "drop i (arr_pairs a)"; cases "drop j (arr_pairs b)") auto
    with e False len ij show ?thesis by (auto simp: arr_Len_def)
  qed
qed

text \<open>The tail of \<^verbatim>\<open>Merge\<close>: what is left of one array is copied behind the \<open>k\<close> merged pairs.\<close>

lemma arr_tail:
  assumes ok: "arr_ok c" and "length (Timestamps out) = n" "length (Values out) = n" "k + (length (Timestamps c) - i) \<le> n"
    and "i \<le> length (Timestamps c)"
  defines "m \<equiv> min (length (Timestamps out) - k) (length (Timestamps c) - i)"
  shows "take (k + m) (copy_at k (drop i (Timestamps c)) (Timestamps out)) = take k (Timestamps out) @ drop i (Timestamps c)"
    and "take (k + m) (copy_at k (drop i (Values c)) (Values out)) = take k (Values out) @ drop i (Values c)"
    and "k + m \<le> n"
    and "arr_pairs \<lparr>Timestamps = take k (Timestamps out) @ drop i (Timestamps c), Values = take k (Values out) @ drop i (Values c)\<rparr> =
      take k (arr_pairs out) @ drop i (arr_pairs c)"
proof -
  have l: "length (Values c) = length (Timestamps c)" using ok by (simp add: arr_ok_def)
  have m: "m = length (Timestamps c) - i" using assms by (simp add: m_def)
  show "take (k + m) (copy_at k (drop i (Timestamps c)) (Timestamps out)) = take k (Timestamps out) @ drop i (Timestamps c)"
    using take_copy_at [of k "drop i (Timestamps c)" "Timestamps out"] assms by (simp add: m)
  show "take (k + m) (copy_at k (drop i (Values c)) (Values out)) = take k (Values out) @ drop i (Values c)"
    using take_copy_at [of k "drop i (Values c)" "Values out"] assms by (simp add: m l)
  show "k + m \<le> n" using assms by (simp add: m)
  show "arr_pairs \<lparr>Timestamps = take k (Timestamps out) @ drop i (Timestamps c), Values = take k (Values out) @ drop i (Values c)\<rparr> =
      take k (arr_pairs out) @ drop i (arr_pairs c)"
    using assms(2,3) by (simp add: arr_pairs_def take_zip drop_zip take_map drop_map zip_append)
qed

lemma arr_Merge_spec:
  assumes ok: "arr_ok a" "arr_ok b"
  shows "\<exists>c. arr_Merge z a b = Inr c \<and> arr_ok c \<and> arr_pairs c = vals_Merge fst (arr_pairs a) (arr_pairs b)"
proof (cases "arr_Len a = 0 \<or> arr_Len b = 0")
  case True
  then show ?thesis using ok by (auto simp: arr_Merge_def arr_Len_def vals_Merge_def length_arr_pairs)
next
  case False
  then have ne: "Timestamps a \<noteq> []" "Timestamps b \<noteq> []" "arr_pairs a \<noteq> []" "arr_pairs b \<noteq> []"
    using length_arr_pairs [OF ok(1)] length_arr_pairs [OF ok(2)] by (auto simp: arr_Len_def)
  have l: "length (Values a) = length (Timestamps a)" "length (Values b) = length (Timestamps b)" using ok by (simp_all add: arr_ok_def)
  have asc: "ascending (map fst (vals_Merge fst (arr_pairs a) (arr_pairs b)))" using vals_Merge_spec [OF ne(3,4)] by blast
  have dd: "vals_Deduplicate fst (arr_pairs a) = arr_pairs a" "vals_Deduplicate fst (arr_pairs b) = arr_pairs b"
    using ok by (simp_all add: vals_Deduplicate_id ascending_arr_pairs)
  have mt: "arr_MinTime a = Inr (fst (arr_pairs a ! 0))" "arr_MinTime b = Inr (fst (arr_pairs b ! 0))"
    "arr_MaxTime a = Inr (fst (arr_pairs a ! (length (arr_pairs a) - 1)))" "arr_MaxTime b = Inr (fst (arr_pairs b ! (length (arr_pairs b) - 1)))"
    using ne ok by (simp_all add: arr_MinTime_def arr_MaxTime_def length_arr_pairs nth_arr_pairs)
  have conv: "length (arr_pairs a) \<noteq> 0" "length (arr_pairs b) \<noteq> 0" using ne by simp_all
  let ?n = "arr_Len a + arr_Len b"
  from arr_merge_loop_spec [OF ok, of "NewArrayLen z ?n" 0 0 0]
  obtain i j k out where lp: "arr_merge_loop a b 0 0 0 (NewArrayLen z ?n) = Inr (i, j, k, out)"
    "length (Timestamps out) = ?n" "length (Values out) = ?n" "i \<le> arr_Len a" "j \<le> arr_Len b" "k \<le> i + j" "i = arr_Len a \<or> j = arr_Len b"
    and mg: "merge_loop fst (arr_pairs a) (arr_pairs b) [] = take k (arr_pairs out) @ drop i (arr_pairs a) @ drop j (arr_pairs b)"
    by (auto simp: NewArrayLen_def)
  have "\<exists>c. arr_Merge z a b = Inr c \<and> length (Values c) = length (Timestamps c) \<and> arr_pairs c = vals_Merge fst (arr_pairs a) (arr_pairs b)"
  proof (cases "fst (arr_pairs a ! (length (arr_pairs a) - 1)) < fst (arr_pairs b ! 0) \<or>
      fst (arr_pairs b ! (length (arr_pairs b) - 1)) < fst (arr_pairs a ! 0)")
    case True
    then show ?thesis using False l conv by (auto simp: arr_Merge_def mt vals_Merge_def dd Let_def arr_pairs_append)
  next
    case no: False
    have vm: "vals_Merge fst (arr_pairs a) (arr_pairs b) = take k (arr_pairs out) @ drop i (arr_pairs a) @ drop j (arr_pairs b)"
      using no conv by (simp add: vals_Merge_def dd Let_def mg)
    consider "i < arr_Len a" "j = arr_Len b" | "i = arr_Len a" "j < arr_Len b" | "i = arr_Len a" "j = arr_Len b"
      using lp(4,5,7) by linarith
    then show ?thesis
    proof cases
      case 1
      have "k + (length (Timestamps a) - i) \<le> ?n" "i \<le> length (Timestamps a)" using 1 lp(4,6) by (auto simp: arr_Len_def)
      note T = arr_tail [OF ok(1) lp(2,3) this]
      show ?thesis
        using 1 no False l T lp(2,3) vm length_arr_pairs [OF ok(2)]
        by (simp add: arr_Merge_def mt lp(1) [unfolded arr_Len_def] arr_Len_def Let_def split del: if_split)
    next
      case 2
      have "k + (length (Timestamps b) - j) \<le> ?n" "j \<le> length (Timestamps b)" using 2 lp(5,6) by (auto simp: arr_Len_def)
      note T = arr_tail [OF ok(2) lp(2,3) this]
      show ?thesis
        using 2 no False l T lp(2,3) vm length_arr_pairs [OF ok(1)]
        by (simp add: arr_Merge_def mt lp(1) [unfolded arr_Len_def] arr_Len_def Let_def split del: if_split)
    next
      case 3
      then show ?thesis
        using no False l lp(2,3,6) vm length_arr_pairs [OF ok(1)] length_arr_pairs [OF ok(2)]
        by (simp add: arr_Merge_def mt lp(1) [unfolded arr_Len_def] arr_Len_def) (simp add: arr_pairs_def take_zip take_map)
    qed
  qed
  with asc show ?thesis using arr_okI by metis
qed

section \<open>Columns and rows\<close>

lemma arr_map_vmap:
  assumes "arr_ok a"
  shows "arr_map a t = map_option snd (vmap fst (arr_pairs a) t)"
proof -
  have "distinct (map fst (arr_pairs a))" using ascending_arr_pairs [OF assms] by (metis strict_sorted_iff)
  then have "arr_map a t = Some x \<longleftrightarrow> (t, x) \<in> set (arr_pairs a)" for x
    by (simp add: arr_map_def arr_pairs_def)
  moreover have "map_option snd (vmap fst (arr_pairs a) t) = Some x \<longleftrightarrow> (t, x) \<in> set (arr_pairs a)" for x
    using vmap_ascending [OF ascending_arr_pairs [OF assms], of t "(t, x)"] vmap_Some [of fst "arr_pairs a" t]
    by (cases "vmap fst (arr_pairs a) t") auto
  ultimately show ?thesis by (metis not_None_eq)
qed

lemma arr_map_filter:
  assumes "arr_ok a" "arr_ok c" "arr_pairs c = filter (\<lambda>x. P (fst x)) (arr_pairs a)"
  shows "arr_map c = arr_map a |` {t. P t}"
proof
  fix t
  show "arr_map c t = (arr_map a |` {t. P t}) t"
    using vmap_Some [of fst "arr_pairs a" t]
    by (auto simp: arr_map_vmap assms vmap_filter [OF ascending_arr_pairs [OF assms(1)]] restrict_map_def split: option.splits)
qed

lemma arr_map_merge:
  assumes "arr_ok a" "arr_ok b" "arr_ok c" "arr_pairs c = vals_Merge fst (arr_pairs a) (arr_pairs b)"
  shows "arr_map c = arr_map a ++ arr_map b"
proof
  fix t
  have "vmap fst (arr_pairs c) = vmap fst (arr_pairs a) ++ vmap fst (arr_pairs b)"
  proof (cases "arr_pairs a = [] \<or> arr_pairs b = []")
    case True
    then show ?thesis by (auto simp: assms(4) vals_Merge_def)
  next
    case False
    then show ?thesis using vals_Merge_spec assms(4) by metis
  qed
  then show "arr_map c t = (arr_map a ++ arr_map b) t"
    by (simp add: arr_map_vmap assms(1-3) map_add_def split: option.split)
qed

lemma merge_loop_map: "merge_loop tm (map f a) (map f b) (map f out) = map f (merge_loop (tm \<circ> f) a b out)"
proof (induction "tm \<circ> f" a b out rule: merge_loop.induct)
  case (1 x a y b out)
  from 1(1) [simplified] 1(2) [simplified] 1(3) [simplified] show ?case by auto
qed auto

lemma vals_Merge_map:
  assumes "ascending (map (tm \<circ> f) a)" "ascending (map (tm \<circ> f) b)"
  shows "vals_Merge tm (map f a) (map f b) = map f (vals_Merge (tm \<circ> f) a b)"
proof -
  have "vals_Deduplicate tm (map f a) = map f a" "vals_Deduplicate tm (map f b) = map f b"
    "vals_Deduplicate (tm \<circ> f) a = a" "vals_Deduplicate (tm \<circ> f) b = b"
    using assms by (simp_all add: vals_Deduplicate_id)
  then show ?thesis using merge_loop_map [of tm f a b "[]"] by (auto simp: vals_Merge_def Let_def)
qed

definition row_pair :: "i64 \<times> 'v \<Rightarrow> int \<times> 'v" where
  "row_pair x = (sint (fst x), snd x)"

lemma arr_pairs_from: "arr_pairs (NewArrayFromValues v) = map row_pair v"
  by (induction v) (auto simp: arr_pairs_def NewArrayFromValues_def row_pair_def)

lemma arr_ok_from: "ascending (map (\<lambda>x. sint (fst x)) v) \<Longrightarrow> arr_ok (NewArrayFromValues v)"
  by (simp add: arr_ok_def NewArrayFromValues_def comp_def)

lemma arr_from_unique:
  assumes "arr_ok c" "arr_pairs c = map row_pair m"
  shows "c = NewArrayFromValues m"
proof -
  have l: "length (Values c) = length (Timestamps c)" using assms(1) by (simp add: arr_ok_def)
  have "map fst (arr_pairs c) = map sint (Timestamps c)" "map snd (arr_pairs c) = Values c" using l by (simp_all add: arr_pairs_def)
  then have "map sint (Timestamps c) = map sint (map fst m)" "Values c = map snd m"
    by (simp_all add: assms(2) row_pair_def comp_def)
  moreover have "inj (sint :: i64 \<Rightarrow> int)" by (rule injI) (rule signed_word_eqI)
  ultimately have "Timestamps c = map fst m" "Values c = map snd m" by (simp_all add: inj_map_eq_map del: map_map)
  then show ?thesis by (simp add: NewArrayFromValues_def)
qed

lemma arr_Merge_from:
  assumes "ascending (map (\<lambda>x. sint (fst x)) v)" "ascending (map (\<lambda>x. sint (fst x)) w)"
  shows "arr_Merge z (NewArrayFromValues v) (NewArrayFromValues w) =
    Inr (NewArrayFromValues (vals_Merge (\<lambda>x. sint (fst x)) v w))"
proof -
  have tm: "fst \<circ> row_pair = (\<lambda>x :: i64 \<times> 'a. sint (fst x))" by (simp add: row_pair_def comp_def)
  obtain c where c: "arr_Merge z (NewArrayFromValues v) (NewArrayFromValues w) = Inr c" "arr_ok c"
    "arr_pairs c = vals_Merge fst (map row_pair v) (map row_pair w)"
    using arr_Merge_spec [OF arr_ok_from [OF assms(1)] arr_ok_from [OF assms(2)], of z] by (auto simp: arr_pairs_from)
  from c(3) have "arr_pairs c = map row_pair (vals_Merge (\<lambda>x. sint (fst x)) v w)"
    using vals_Merge_map [of fst row_pair v w] assms unfolding tm by simp
  with c arr_from_unique [OF c(2)] show ?thesis by simp
qed

lemma arr_map_inj:
  assumes "arr_ok a" "arr_ok b" "arr_map a = arr_map b"
  shows "a = b"
proof -
  have d: "distinct (map fst (arr_pairs x))" if "arr_ok x" for x :: "'a array_vals"
    using ascending_arr_pairs [OF that] by (metis strict_sorted_iff)
  have "map_of (arr_pairs a) = map_of (arr_pairs b)" using assms(3) by (simp only: arr_map_def arr_pairs_def)
  then have "set (arr_pairs a) = set (arr_pairs b)" using map_of_inject_set [OF d [OF assms(1)] d [OF assms(2)]] by blast
  then have "arr_pairs a = arr_pairs b" by (rule ascending_set_unique [OF ascending_arr_pairs [OF assms(1)] ascending_arr_pairs [OF assms(2)]])
  moreover have "arr_pairs b = map row_pair (zip (Timestamps b) (Values b))"
    by (simp add: arr_pairs_def row_pair_def zip_map1 case_prod_unfold)
  ultimately show ?thesis
    using arr_from_unique [OF assms(1), of "zip (Timestamps b) (Values b)"] arr_from_unique [OF assms(2), of "zip (Timestamps b) (Values b)"] by simp
qed

interpretation columns: time_series arr_ok arr_map "arr_Merge z" arr_Exclude arr_Include for z :: 'v
proof (unfold_locales, goal_cases)
  case (1 a b)
  obtain c where "arr_Merge z a b = Inr c" "arr_ok c" "arr_pairs c = vals_Merge fst (arr_pairs a) (arr_pairs b)"
    using arr_Merge_spec [OF 1] by blast
  with arr_map_merge [OF 1, of c] show ?case by simp
next
  case (2 a mn mx)
  obtain c where "arr_Exclude a mn mx = Inr c" "arr_ok c" "arr_pairs c = filter (\<lambda>x. \<not> (mn \<le> fst x \<and> fst x \<le> mx)) (arr_pairs a)"
    using arr_Exclude_spec [OF 2, of mn mx] by blast
  with arr_map_filter [OF 2, of c "\<lambda>t. \<not> (mn \<le> t \<and> t \<le> mx)"] show ?case by simp
next
  case (3 a mn mx)
  obtain c where "arr_Include a mn mx = Inr c" "arr_ok c" "arr_pairs c = filter (\<lambda>x. mn \<le> fst x \<and> fst x \<le> mx) (arr_pairs a)"
    using arr_Include_spec [OF 3, of mn mx] by blast
  with arr_map_filter [OF 3, of c "\<lambda>t. mn \<le> t \<and> t \<le> mx"] show ?case by simp
next
  case (4 a b)
  then show ?case by (rule arr_map_inj)
qed

section \<open>Properties\<close>

text \<open>
  C6. The columnar arrays implement the abstract map from timestamps to values: on arrays whose slices
  have one length and whose timestamps ascend, \<^verbatim>\<open>Merge\<close>, \<^verbatim>\<open>Exclude\<close> and \<^verbatim>\<open>Include\<close> do not panic, keep that invariant,
  and are map override, deletion of the closed range and restriction to it.
\<close>

theorem array_ops_refine_map:
  assumes "arr_ok a" and "arr_ok b"
  shows "\<exists>c d e. arr_Merge z a b = Inr c \<and> arr_ok c \<and> arr_map c = arr_map a ++ arr_map b \<and>
    arr_Exclude a mn mx = Inr d \<and> arr_ok d \<and> arr_map d = arr_map a |` {t. \<not> (mn \<le> t \<and> t \<le> mx)} \<and>
    arr_Include a mn mx = Inr e \<and> arr_ok e \<and> arr_map e = arr_map a |` {t. mn \<le> t \<and> t \<le> mx}"
  using columns.merge_ok [OF assms, of z] columns.exclude_ok [OF assms(1), of mn mx] columns.incl_ok [OF assms(1), of mn mx] by blast

theorem array_ops_refine_map_witness:
  "\<exists>c d e. arr_Merge 0 \<lparr>Timestamps = [1, 5], Values = [10, 50 :: u64]\<rparr> \<lparr>Timestamps = [5, 7], Values = [51, 70 :: u64]\<rparr> = Inr c \<and> arr_ok c \<and>
    arr_map c = arr_map \<lparr>Timestamps = [1, 5], Values = [10, 50 :: u64]\<rparr> ++ arr_map \<lparr>Timestamps = [5, 7], Values = [51, 70 :: u64]\<rparr> \<and>
    arr_Exclude \<lparr>Timestamps = [1, 5], Values = [10, 50 :: u64]\<rparr> 1 4 = Inr d \<and> arr_ok d \<and>
    arr_map d = arr_map \<lparr>Timestamps = [1, 5], Values = [10, 50 :: u64]\<rparr> |` {t. \<not> (1 \<le> t \<and> t \<le> 4)} \<and>
    arr_Include \<lparr>Timestamps = [1, 5], Values = [10, 50 :: u64]\<rparr> 1 4 = Inr e \<and> arr_ok e \<and>
    arr_map e = arr_map \<lparr>Timestamps = [1, 5], Values = [10, 50 :: u64]\<rparr> |` {t. 1 \<le> t \<and> t \<le> 4}"
  by (rule array_ops_refine_map) (simp_all add: arr_ok_def)

text \<open>
  C13. Merging columns is merging rows: for slices of values in ascending order, the array \<^verbatim>\<open>Merge\<close> of their
  columns is the columns of the slice \<^verbatim>\<open>Merge\<close>, and deleting a range of time before or after the
  merge gives the same array.
\<close>

theorem columns_merge_like_rows:
  assumes "ascending (map (\<lambda>x. sint (fst x)) v)" and "ascending (map (\<lambda>x. sint (fst x)) w)"
  shows "arr_Merge z (NewArrayFromValues v) (NewArrayFromValues w) =
      Inr (NewArrayFromValues (vals_Merge (\<lambda>x. sint (fst x)) v w)) \<and>
    bind_res (arr_Merge z (NewArrayFromValues v) (NewArrayFromValues w)) (\<lambda>c. arr_Exclude c mn mx) =
      bind_res (arr_Exclude (NewArrayFromValues v) mn mx) (\<lambda>c.
        bind_res (arr_Exclude (NewArrayFromValues w) mn mx) (\<lambda>d. arr_Merge z c d))"
  using arr_Merge_from [OF assms] columns.exclude_merge [OF arr_ok_from [OF assms(1)] arr_ok_from [OF assms(2)]] by blast

theorem columns_merge_like_rows_witness:
  "arr_Merge [] (NewArrayFromValues [(- 3, [1 :: u8]), (4, [2])]) (NewArrayFromValues [(4, [3 :: u8])]) =
      Inr (NewArrayFromValues (vals_Merge (\<lambda>x. sint (fst x)) [(- 3, [1 :: u8]), (4, [2])] [(4, [3 :: u8])])) \<and>
    bind_res (arr_Merge [] (NewArrayFromValues [(- 3, [1 :: u8]), (4, [2])]) (NewArrayFromValues [(4, [3 :: u8])])) (\<lambda>c. arr_Exclude c 4 9) =
      bind_res (arr_Exclude (NewArrayFromValues [(- 3, [1 :: u8]), (4, [2])]) 4 9) (\<lambda>c.
        bind_res (arr_Exclude (NewArrayFromValues [(4, [3 :: u8])]) 4 9) (\<lambda>d. arr_Merge [] c d))"
  by (rule columns_merge_like_rows) simp_all

section \<open>Indexes of the row operations\<close>

text \<open>
  \<^verbatim>\<open>Exclude\<close>, \<^verbatim>\<open>Include\<close> and \<^verbatim>\<open>Contains\<close> of the row slices with every index and slice expression checked
  against the length. On any slice, sorted or not, no check fails and the result is the one of the unchecked definitions.
\<close>

definition ix_get :: "'a list \<Rightarrow> int \<Rightarrow> 'a res" where
  "ix_get xs i = (if 0 \<le> i \<and> i < int (length xs) then Inr (xs ! nat i) else Inl (GoPanic ''index out of range''))"

definition ix_slice :: "'a list \<Rightarrow> int \<Rightarrow> int \<Rightarrow> 'a list res" where
  "ix_slice xs i j =
     (if 0 \<le> i \<and> i \<le> j \<and> j \<le> int (length xs) then Inr (take (nat (j - i)) (drop (nat i) xs)) else Inl (GoPanic ''slice bounds out of range''))"

definition checked_Exclude :: "('v \<Rightarrow> int) \<Rightarrow> 'v list \<Rightarrow> int \<Rightarrow> int \<Rightarrow> 'v list res" where
  "checked_Exclude tm a mn mx =
     (case FindRange (map tm a) mn mx of (rmin, rmax) \<Rightarrow>
        if rmin = - 1 \<and> rmax = - 1 then Inr a
        else if rmax < int (length a) then
          bind_res (ix_get a rmax) (\<lambda>v.
            let hi = (if tm v = mx then rmax + 1 else rmax);
                rest = int (length a) - hi
            in if rest > 0 then
                 bind_res (ix_slice a 0 (rmin + rest)) (\<lambda>b.
                 bind_res (ix_slice b rmin (int (length b))) (\<lambda>_.
                 bind_res (ix_slice a hi (int (length a))) (\<lambda>src. Inr (copy_at (nat rmin) src b))))
               else ix_slice a 0 rmin)
        else ix_slice a 0 rmin)"

definition checked_Include :: "('v \<Rightarrow> int) \<Rightarrow> 'v list \<Rightarrow> int \<Rightarrow> int \<Rightarrow> 'v list res" where
  "checked_Include tm a mn mx =
     (case FindRange (map tm a) mn mx of (rmin, rmax) \<Rightarrow>
        if rmin = - 1 \<and> rmax = - 1 then Inr []
        else
          bind_res (if rmax < int (length a) then bind_res (ix_get a rmax) (\<lambda>v. Inr (if tm v = mx then rmax + 1 else rmax)) else Inr rmax) (\<lambda>hi.
            if rmin > - 1 then
              bind_res (ix_slice a 0 (hi - rmin)) (\<lambda>b. bind_res (ix_slice a rmin hi) (\<lambda>src. Inr (copy_at 0 src b)))
            else ix_slice a 0 hi))"

definition checked_Contains :: "('v \<Rightarrow> int) \<Rightarrow> 'v list \<Rightarrow> int \<Rightarrow> int \<Rightarrow> bool res" where
  "checked_Contains tm a mn mx =
     (case FindRange (map tm a) mn mx of (rmin, rmax) \<Rightarrow>
        if rmin = - 1 \<and> rmax = - 1 then Inr False
        else
          bind_res (ix_get a rmin) (\<lambda>v.
            if tm v = mn then Inr True
            else
              bind_res (if rmax < int (length a) then bind_res (ix_get a rmax) (\<lambda>v. Inr (tm v = mx)) else Inr False) (\<lambda>eq.
                if eq then Inr True else Inr (rmax - rmin > 0))))"

lemma row_ops_in_range:
  "checked_Exclude tm a mn mx = Inr (vals_Exclude tm a mn mx)"
  "checked_Include tm a mn mx = Inr (vals_Include tm a mn mx)"
  "checked_Contains tm a mn mx = Inr (vals_Contains tm a mn mx)"
proof -
  obtain rmin rmax where r: "FindRange (map tm a) mn mx = (rmin, rmax)" by force
  consider "rmin = - 1" "rmax = - 1" | "0 \<le> rmin" "rmin \<le> rmax" "rmax \<le> int (length a)" "rmin < int (length a)"
    using FindRange_in_bounds [of "map tm a" mn mx] r by auto
  then have "checked_Exclude tm a mn mx = Inr (vals_Exclude tm a mn mx) \<and> checked_Include tm a mn mx = Inr (vals_Include tm a mn mx) \<and>
    checked_Contains tm a mn mx = Inr (vals_Contains tm a mn mx)"
  proof cases
    case 1
    then show ?thesis
      by (simp add: checked_Exclude_def checked_Include_def checked_Contains_def vals_Exclude_def vals_Include_def vals_Contains_def r)
  next
    case 2
    define lo hi where "lo = nat rmin" and "hi = nat rmax"
    have n: "rmin = int lo" "rmax = int hi" "lo \<le> hi" "hi \<le> length a" "lo < length a" using 2 by (simp_all add: lo_def hi_def)
    have copies: "length src = length b - i \<Longrightarrow> copy_at i src b = write_at i src b" for src b :: "'a list" and i by (simp add: copy_at_def)
    have sl: "ix_slice a 0 (int k) = Inr (take k a)" if "k \<le> length a" for k using that by (simp add: ix_slice_def)
    have sr: "ix_slice a (int i) (int j) = Inr (take (j - i) (drop i a))" if "i \<le> j" "j \<le> length a" for i j
      using that by (simp add: ix_slice_def nat_diff_distrib)
    show ?thesis
    proof (intro conjI)
      show "checked_Exclude tm a mn mx = Inr (vals_Exclude tm a mn mx)"
      proof (cases "hi < length a")
        case True
        define h where "h = (if tm (a ! hi) = mx then hi + 1 else hi)"
        have h: "lo \<le> h" "h \<le> length a" "int h = (if tm (a ! hi) = mx then int hi + 1 else int hi)" using True n by (auto simp: h_def)
        define b where "b = take (lo + (length a - h)) a"
        have lb: "length b = lo + (length a - h)" using h by (simp add: b_def)
        have g: "ix_get a (int hi) = Inr (a ! hi)" using True by (simp add: ix_get_def)
        have e: "int lo + (int (length a) - int h) = int (lo + (length a - h))" using h(2) by (simp del: of_nat_add)
        have s1: "ix_slice a 0 (int lo + (int (length a) - int h)) = Inr b" unfolding e b_def by (rule sl) (use h(1,2) in simp)
        have s2: "ix_slice b (int lo) (int (length b)) = Inr (drop lo b)" by (simp add: ix_slice_def lb)
        have s3: "ix_slice a (int h) (int (length a)) = Inr (drop h a)" using sr [OF h(2) order_refl] by simp
        have "checked_Exclude tm a mn mx = (if int (length a) - int h > 0 then Inr (copy_at lo (drop h a) b) else Inr (take lo a))"
          using True n(1,2) sl [of lo] n(5)
          unfolding checked_Exclude_def r prod.case Let_def g n(1,2) bind_res_simps h(3) [symmetric] s1 s2 s3 by simp
        also have "\<dots> = Inr (if length a - h > 0 then write_at lo (drop h a) b else take lo a)"
          using h(2) copies [of "drop h a" b lo] by (simp add: lb)
        also have "\<dots> = Inr (vals_Exclude tm a mn mx)"
          using True n(1,2) unfolding vals_Exclude_def r prod.case Let_def n(1,2) nat_int h_def [symmetric] b_def by simp
        finally show ?thesis .
      next
        case False
        then show ?thesis using n sl [of lo] by (simp add: checked_Exclude_def vals_Exclude_def r)
      qed
      show "checked_Include tm a mn mx = Inr (vals_Include tm a mn mx)"
      proof -
        define h where "h = (if hi < length a \<and> tm (a ! hi) = mx then hi + 1 else hi)"
        have h: "lo \<le> h" "h \<le> length a" using n by (auto simp: h_def)
        have "(if int hi < int (length a) then bind_res (ix_get a (int hi)) (\<lambda>v. Inr (if tm v = mx then int hi + 1 else int hi)) else Inr (int hi)) = Inr (int h)"
          by (simp add: h_def ix_get_def)
        moreover have "int h - int lo = int (h - lo)" using h(1) by simp
        ultimately show ?thesis using n h sl [of "h - lo"] sr [of lo h]
          by (simp add: checked_Include_def vals_Include_def r h_def [symmetric] copies)
      qed
      show "checked_Contains tm a mn mx = Inr (vals_Contains tm a mn mx)"
        using n by (simp add: checked_Contains_def vals_Contains_def r ix_get_def)
    qed
  qed
  then show "checked_Exclude tm a mn mx = Inr (vals_Exclude tm a mn mx)" "checked_Include tm a mn mx = Inr (vals_Include tm a mn mx)"
    "checked_Contains tm a mn mx = Inr (vals_Contains tm a mn mx)" by blast+
qed

end
