(* ===== verification/Tsm_Values.thy ===== *)
theory Tsm_Values
  imports Array_Values
begin

text \<open>
  The value types of \<^verbatim>\<open>tsdb/value/value.go\<close> and the copies of the slice and array operations that
  \<^verbatim>\<open>tsdb/tsm1/encoding.gen.go\<close> and \<^verbatim>\<open>tsdb/cursors/arrayvalues.gen.go\<close> generate from one template for each of
  them. Each copy is an instance of the definition of \<^verbatim>\<open>Sorted_Values\<close> or \<^verbatim>\<open>Array_Values\<close> that models the
  template, at the type of its values. A float is its 64-bit pattern and a string its bytes.
\<close>

section \<open>Values\<close>

text \<open>The structs \<^verbatim>\<open>{unixnano, value}\<close> are pairs; the interface \<^verbatim>\<open>Value\<close> is their disjoint union.\<close>

type_synonym 'a raw_value = "i64 \<times> 'a"

datatype Value =
    IntegerValue i64 i64
  | UnsignedValue i64 u64
  | FloatValue i64 u64
  | BooleanValue i64 bool
  | StringValue i64 bytes
  | EmptyValue

text \<open>The dynamic values an \<^verbatim>\<open>interface{}\<close> argument may hold; \<open>IOther\<close> is a value of any other type.\<close>

datatype iface = IInt i64 | IUint u64 | IFloat u64 | IBool bool | IString bytes | IOther

definition NewValue :: "i64 \<Rightarrow> iface \<Rightarrow> Value" where
  "NewValue t value =
     (case value of
        IInt v \<Rightarrow> IntegerValue t v
      | IUint v \<Rightarrow> UnsignedValue t v
      | IFloat v \<Rightarrow> FloatValue t v
      | IBool v \<Rightarrow> BooleanValue t v
      | IString v \<Rightarrow> StringValue t v
      | IOther \<Rightarrow> EmptyValue)"

definition tsdb_EOF :: i64 where "tsdb_EOF = word_of_int (- (2 ^ 63))"

primrec unixnano :: "Value \<Rightarrow> i64" where
  "unixnano (IntegerValue t v) = t"
| "unixnano (UnsignedValue t v) = t"
| "unixnano (FloatValue t v) = t"
| "unixnano (BooleanValue t v) = t"
| "unixnano (StringValue t v) = t"
| "unixnano EmptyValue = tsdb_EOF"

definition UnixNano :: "Value \<Rightarrow> int" where
  "UnixNano v = sint (unixnano v)"

primrec Value_Value :: "Value \<Rightarrow> iface option" where
  "Value_Value (IntegerValue t v) = Some (IInt v)"
| "Value_Value (UnsignedValue t v) = Some (IUint v)"
| "Value_Value (FloatValue t v) = Some (IFloat v)"
| "Value_Value (BooleanValue t v) = Some (IBool v)"
| "Value_Value (StringValue t v) = Some (IString v)"
| "Value_Value EmptyValue = None"

primrec Value_Size :: "Value \<Rightarrow> nat" where
  "Value_Size (IntegerValue t v) = 16"
| "Value_Size (UnsignedValue t v) = 16"
| "Value_Size (FloatValue t v) = 16"
| "Value_Size (BooleanValue t v) = 9"
| "Value_Size (StringValue t v) = 8 + length v"
| "Value_Size EmptyValue = 0"

definition raw_UnixNano :: "'a raw_value \<Rightarrow> int" where
  "raw_UnixNano v = sint (fst v)"

section \<open>Slices of values of one type\<close>

named_theorems typed_defs \<open>the generated copies, as instances of their template\<close>

subsection \<open>\<^verbatim>\<open>FloatValues\<close> and \<^verbatim>\<open>FloatArray\<close>\<close>

definition FloatValues_MinTime :: "u64 raw_value list \<Rightarrow> int res" where
  [typed_defs]: "FloatValues_MinTime = vals_MinTime raw_UnixNano"

definition FloatValues_MaxTime :: "u64 raw_value list \<Rightarrow> int res" where
  [typed_defs]: "FloatValues_MaxTime = vals_MaxTime raw_UnixNano"

definition FloatValues_Size :: "u64 raw_value list \<Rightarrow> nat" where
  [typed_defs]: "FloatValues_Size = vals_Size (\<lambda>v. 16)"

definition FloatValues_Deduplicate :: "u64 raw_value list \<Rightarrow> u64 raw_value list" where
  [typed_defs]: "FloatValues_Deduplicate = vals_Deduplicate raw_UnixNano"

definition FloatValues_Exclude :: "u64 raw_value list \<Rightarrow> int \<Rightarrow> int \<Rightarrow> u64 raw_value list" where
  [typed_defs]: "FloatValues_Exclude = vals_Exclude raw_UnixNano"

definition FloatValues_Include :: "u64 raw_value list \<Rightarrow> int \<Rightarrow> int \<Rightarrow> u64 raw_value list" where
  [typed_defs]: "FloatValues_Include = vals_Include raw_UnixNano"

definition FloatValues_search :: "u64 raw_value list \<Rightarrow> int \<Rightarrow> nat" where
  [typed_defs]: "FloatValues_search = (\<lambda>a. search (map raw_UnixNano a))"

definition FloatValues_FindRange :: "u64 raw_value list \<Rightarrow> int \<Rightarrow> int \<Rightarrow> int \<times> int" where
  [typed_defs]: "FloatValues_FindRange = (\<lambda>a. FindRange (map raw_UnixNano a))"

definition FloatValues_Merge :: "u64 raw_value list \<Rightarrow> u64 raw_value list \<Rightarrow> u64 raw_value list" where
  [typed_defs]: "FloatValues_Merge = vals_Merge raw_UnixNano"

definition FloatArray_Size :: "u64 array_vals \<Rightarrow> nat" where
  [typed_defs]: "FloatArray_Size = (\<lambda>a. length (Timestamps a) * 8 + length (Values a) * 8)"

subsection \<open>\<^verbatim>\<open>IntegerValues\<close> and \<^verbatim>\<open>IntegerArray\<close>\<close>

definition IntegerValues_MinTime :: "i64 raw_value list \<Rightarrow> int res" where
  [typed_defs]: "IntegerValues_MinTime = vals_MinTime raw_UnixNano"

definition IntegerValues_MaxTime :: "i64 raw_value list \<Rightarrow> int res" where
  [typed_defs]: "IntegerValues_MaxTime = vals_MaxTime raw_UnixNano"

definition IntegerValues_Size :: "i64 raw_value list \<Rightarrow> nat" where
  [typed_defs]: "IntegerValues_Size = vals_Size (\<lambda>v. 16)"

definition IntegerValues_Deduplicate :: "i64 raw_value list \<Rightarrow> i64 raw_value list" where
  [typed_defs]: "IntegerValues_Deduplicate = vals_Deduplicate raw_UnixNano"

definition IntegerValues_Exclude :: "i64 raw_value list \<Rightarrow> int \<Rightarrow> int \<Rightarrow> i64 raw_value list" where
  [typed_defs]: "IntegerValues_Exclude = vals_Exclude raw_UnixNano"

definition IntegerValues_Include :: "i64 raw_value list \<Rightarrow> int \<Rightarrow> int \<Rightarrow> i64 raw_value list" where
  [typed_defs]: "IntegerValues_Include = vals_Include raw_UnixNano"

definition IntegerValues_search :: "i64 raw_value list \<Rightarrow> int \<Rightarrow> nat" where
  [typed_defs]: "IntegerValues_search = (\<lambda>a. search (map raw_UnixNano a))"

definition IntegerValues_FindRange :: "i64 raw_value list \<Rightarrow> int \<Rightarrow> int \<Rightarrow> int \<times> int" where
  [typed_defs]: "IntegerValues_FindRange = (\<lambda>a. FindRange (map raw_UnixNano a))"

definition IntegerValues_Merge :: "i64 raw_value list \<Rightarrow> i64 raw_value list \<Rightarrow> i64 raw_value list" where
  [typed_defs]: "IntegerValues_Merge = vals_Merge raw_UnixNano"

definition NewIntegerArrayFromValues :: "i64 raw_value list \<Rightarrow> i64 array_vals" where
  [typed_defs]: "NewIntegerArrayFromValues = NewArrayFromValues"

definition NewIntegerArrayLen :: "nat \<Rightarrow> i64 array_vals" where
  [typed_defs]: "NewIntegerArrayLen = NewArrayLen 0"

definition IntegerArray_MinTime :: "i64 array_vals \<Rightarrow> int res" where
  [typed_defs]: "IntegerArray_MinTime = arr_MinTime"

definition IntegerArray_MaxTime :: "i64 array_vals \<Rightarrow> int res" where
  [typed_defs]: "IntegerArray_MaxTime = arr_MaxTime"

definition IntegerArray_Len :: "i64 array_vals \<Rightarrow> nat" where
  [typed_defs]: "IntegerArray_Len = arr_Len"

definition IntegerArray_search :: "i64 array_vals \<Rightarrow> int \<Rightarrow> nat" where
  [typed_defs]: "IntegerArray_search = arr_search"

definition IntegerArray_FindRange :: "i64 array_vals \<Rightarrow> int \<Rightarrow> int \<Rightarrow> int \<times> int" where
  [typed_defs]: "IntegerArray_FindRange = arr_FindRange"

definition IntegerArray_Exclude :: "i64 array_vals \<Rightarrow> int \<Rightarrow> int \<Rightarrow> i64 array_vals res" where
  [typed_defs]: "IntegerArray_Exclude = arr_Exclude"

definition IntegerArray_Include :: "i64 array_vals \<Rightarrow> int \<Rightarrow> int \<Rightarrow> i64 array_vals res" where
  [typed_defs]: "IntegerArray_Include = arr_Include"

definition IntegerArray_Merge :: "i64 array_vals \<Rightarrow> i64 array_vals \<Rightarrow> i64 array_vals res" where
  [typed_defs]: "IntegerArray_Merge = arr_Merge 0"

definition IntegerArray_Size :: "i64 array_vals \<Rightarrow> nat" where
  [typed_defs]: "IntegerArray_Size = (\<lambda>a. length (Timestamps a) * 8 + length (Values a) * 8)"

subsection \<open>\<^verbatim>\<open>UnsignedValues\<close> and \<^verbatim>\<open>UnsignedArray\<close>\<close>

definition UnsignedValues_MinTime :: "u64 raw_value list \<Rightarrow> int res" where
  [typed_defs]: "UnsignedValues_MinTime = vals_MinTime raw_UnixNano"

definition UnsignedValues_MaxTime :: "u64 raw_value list \<Rightarrow> int res" where
  [typed_defs]: "UnsignedValues_MaxTime = vals_MaxTime raw_UnixNano"

definition UnsignedValues_Size :: "u64 raw_value list \<Rightarrow> nat" where
  [typed_defs]: "UnsignedValues_Size = vals_Size (\<lambda>v. 16)"

definition UnsignedValues_Deduplicate :: "u64 raw_value list \<Rightarrow> u64 raw_value list" where
  [typed_defs]: "UnsignedValues_Deduplicate = vals_Deduplicate raw_UnixNano"

definition UnsignedValues_Exclude :: "u64 raw_value list \<Rightarrow> int \<Rightarrow> int \<Rightarrow> u64 raw_value list" where
  [typed_defs]: "UnsignedValues_Exclude = vals_Exclude raw_UnixNano"

definition UnsignedValues_Include :: "u64 raw_value list \<Rightarrow> int \<Rightarrow> int \<Rightarrow> u64 raw_value list" where
  [typed_defs]: "UnsignedValues_Include = vals_Include raw_UnixNano"

definition UnsignedValues_search :: "u64 raw_value list \<Rightarrow> int \<Rightarrow> nat" where
  [typed_defs]: "UnsignedValues_search = (\<lambda>a. search (map raw_UnixNano a))"

definition UnsignedValues_FindRange :: "u64 raw_value list \<Rightarrow> int \<Rightarrow> int \<Rightarrow> int \<times> int" where
  [typed_defs]: "UnsignedValues_FindRange = (\<lambda>a. FindRange (map raw_UnixNano a))"

definition UnsignedValues_Merge :: "u64 raw_value list \<Rightarrow> u64 raw_value list \<Rightarrow> u64 raw_value list" where
  [typed_defs]: "UnsignedValues_Merge = vals_Merge raw_UnixNano"

definition NewUnsignedArrayFromValues :: "u64 raw_value list \<Rightarrow> u64 array_vals" where
  [typed_defs]: "NewUnsignedArrayFromValues = NewArrayFromValues"

definition NewUnsignedArrayLen :: "nat \<Rightarrow> u64 array_vals" where
  [typed_defs]: "NewUnsignedArrayLen = NewArrayLen 0"

definition UnsignedArray_MinTime :: "u64 array_vals \<Rightarrow> int res" where
  [typed_defs]: "UnsignedArray_MinTime = arr_MinTime"

definition UnsignedArray_MaxTime :: "u64 array_vals \<Rightarrow> int res" where
  [typed_defs]: "UnsignedArray_MaxTime = arr_MaxTime"

definition UnsignedArray_Len :: "u64 array_vals \<Rightarrow> nat" where
  [typed_defs]: "UnsignedArray_Len = arr_Len"

definition UnsignedArray_search :: "u64 array_vals \<Rightarrow> int \<Rightarrow> nat" where
  [typed_defs]: "UnsignedArray_search = arr_search"

definition UnsignedArray_FindRange :: "u64 array_vals \<Rightarrow> int \<Rightarrow> int \<Rightarrow> int \<times> int" where
  [typed_defs]: "UnsignedArray_FindRange = arr_FindRange"

definition UnsignedArray_Exclude :: "u64 array_vals \<Rightarrow> int \<Rightarrow> int \<Rightarrow> u64 array_vals res" where
  [typed_defs]: "UnsignedArray_Exclude = arr_Exclude"

definition UnsignedArray_Include :: "u64 array_vals \<Rightarrow> int \<Rightarrow> int \<Rightarrow> u64 array_vals res" where
  [typed_defs]: "UnsignedArray_Include = arr_Include"

definition UnsignedArray_Merge :: "u64 array_vals \<Rightarrow> u64 array_vals \<Rightarrow> u64 array_vals res" where
  [typed_defs]: "UnsignedArray_Merge = arr_Merge 0"

definition UnsignedArray_Size :: "u64 array_vals \<Rightarrow> nat" where
  [typed_defs]: "UnsignedArray_Size = (\<lambda>a. length (Timestamps a) * 8 + length (Values a) * 8)"

subsection \<open>\<^verbatim>\<open>StringValues\<close> and \<^verbatim>\<open>StringArray\<close>\<close>

definition StringValues_MinTime :: "bytes raw_value list \<Rightarrow> int res" where
  [typed_defs]: "StringValues_MinTime = vals_MinTime raw_UnixNano"

definition StringValues_MaxTime :: "bytes raw_value list \<Rightarrow> int res" where
  [typed_defs]: "StringValues_MaxTime = vals_MaxTime raw_UnixNano"

definition StringValues_Size :: "bytes raw_value list \<Rightarrow> nat" where
  [typed_defs]: "StringValues_Size = vals_Size (\<lambda>v. 8 + length (snd v))"

definition StringValues_Deduplicate :: "bytes raw_value list \<Rightarrow> bytes raw_value list" where
  [typed_defs]: "StringValues_Deduplicate = vals_Deduplicate raw_UnixNano"

definition StringValues_Exclude :: "bytes raw_value list \<Rightarrow> int \<Rightarrow> int \<Rightarrow> bytes raw_value list" where
  [typed_defs]: "StringValues_Exclude = vals_Exclude raw_UnixNano"

definition StringValues_Include :: "bytes raw_value list \<Rightarrow> int \<Rightarrow> int \<Rightarrow> bytes raw_value list" where
  [typed_defs]: "StringValues_Include = vals_Include raw_UnixNano"

definition StringValues_search :: "bytes raw_value list \<Rightarrow> int \<Rightarrow> nat" where
  [typed_defs]: "StringValues_search = (\<lambda>a. search (map raw_UnixNano a))"

definition StringValues_FindRange :: "bytes raw_value list \<Rightarrow> int \<Rightarrow> int \<Rightarrow> int \<times> int" where
  [typed_defs]: "StringValues_FindRange = (\<lambda>a. FindRange (map raw_UnixNano a))"

definition StringValues_Merge :: "bytes raw_value list \<Rightarrow> bytes raw_value list \<Rightarrow> bytes raw_value list" where
  [typed_defs]: "StringValues_Merge = vals_Merge raw_UnixNano"

definition NewStringArrayFromValues :: "bytes raw_value list \<Rightarrow> bytes array_vals" where
  [typed_defs]: "NewStringArrayFromValues = NewArrayFromValues"

definition NewStringArrayLen :: "nat \<Rightarrow> bytes array_vals" where
  [typed_defs]: "NewStringArrayLen = NewArrayLen []"

definition StringArray_MinTime :: "bytes array_vals \<Rightarrow> int res" where
  [typed_defs]: "StringArray_MinTime = arr_MinTime"

definition StringArray_MaxTime :: "bytes array_vals \<Rightarrow> int res" where
  [typed_defs]: "StringArray_MaxTime = arr_MaxTime"

definition StringArray_Len :: "bytes array_vals \<Rightarrow> nat" where
  [typed_defs]: "StringArray_Len = arr_Len"

definition StringArray_search :: "bytes array_vals \<Rightarrow> int \<Rightarrow> nat" where
  [typed_defs]: "StringArray_search = arr_search"

definition StringArray_FindRange :: "bytes array_vals \<Rightarrow> int \<Rightarrow> int \<Rightarrow> int \<times> int" where
  [typed_defs]: "StringArray_FindRange = arr_FindRange"

definition StringArray_Exclude :: "bytes array_vals \<Rightarrow> int \<Rightarrow> int \<Rightarrow> bytes array_vals res" where
  [typed_defs]: "StringArray_Exclude = arr_Exclude"

definition StringArray_Include :: "bytes array_vals \<Rightarrow> int \<Rightarrow> int \<Rightarrow> bytes array_vals res" where
  [typed_defs]: "StringArray_Include = arr_Include"

definition StringArray_Merge :: "bytes array_vals \<Rightarrow> bytes array_vals \<Rightarrow> bytes array_vals res" where
  [typed_defs]: "StringArray_Merge = arr_Merge []"

definition StringArray_Size :: "bytes array_vals \<Rightarrow> nat" where
  [typed_defs]: "StringArray_Size = (\<lambda>a. foldl (\<lambda>sz s. sz + length s) (length (Timestamps a) * 8) (Values a))"

subsection \<open>\<^verbatim>\<open>BooleanValues\<close> and \<^verbatim>\<open>BooleanArray\<close>\<close>

definition BooleanValues_MinTime :: "bool raw_value list \<Rightarrow> int res" where
  [typed_defs]: "BooleanValues_MinTime = vals_MinTime raw_UnixNano"

definition BooleanValues_MaxTime :: "bool raw_value list \<Rightarrow> int res" where
  [typed_defs]: "BooleanValues_MaxTime = vals_MaxTime raw_UnixNano"

definition BooleanValues_Size :: "bool raw_value list \<Rightarrow> nat" where
  [typed_defs]: "BooleanValues_Size = vals_Size (\<lambda>v. 9)"

definition BooleanValues_Deduplicate :: "bool raw_value list \<Rightarrow> bool raw_value list" where
  [typed_defs]: "BooleanValues_Deduplicate = vals_Deduplicate raw_UnixNano"

definition BooleanValues_Exclude :: "bool raw_value list \<Rightarrow> int \<Rightarrow> int \<Rightarrow> bool raw_value list" where
  [typed_defs]: "BooleanValues_Exclude = vals_Exclude raw_UnixNano"

definition BooleanValues_Include :: "bool raw_value list \<Rightarrow> int \<Rightarrow> int \<Rightarrow> bool raw_value list" where
  [typed_defs]: "BooleanValues_Include = vals_Include raw_UnixNano"

definition BooleanValues_search :: "bool raw_value list \<Rightarrow> int \<Rightarrow> nat" where
  [typed_defs]: "BooleanValues_search = (\<lambda>a. search (map raw_UnixNano a))"

definition BooleanValues_FindRange :: "bool raw_value list \<Rightarrow> int \<Rightarrow> int \<Rightarrow> int \<times> int" where
  [typed_defs]: "BooleanValues_FindRange = (\<lambda>a. FindRange (map raw_UnixNano a))"

definition BooleanValues_Merge :: "bool raw_value list \<Rightarrow> bool raw_value list \<Rightarrow> bool raw_value list" where
  [typed_defs]: "BooleanValues_Merge = vals_Merge raw_UnixNano"

definition NewBooleanArrayFromValues :: "bool raw_value list \<Rightarrow> bool array_vals" where
  [typed_defs]: "NewBooleanArrayFromValues = NewArrayFromValues"

definition NewBooleanArrayLen :: "nat \<Rightarrow> bool array_vals" where
  [typed_defs]: "NewBooleanArrayLen = NewArrayLen False"

definition BooleanArray_MinTime :: "bool array_vals \<Rightarrow> int res" where
  [typed_defs]: "BooleanArray_MinTime = arr_MinTime"

definition BooleanArray_MaxTime :: "bool array_vals \<Rightarrow> int res" where
  [typed_defs]: "BooleanArray_MaxTime = arr_MaxTime"

definition BooleanArray_Len :: "bool array_vals \<Rightarrow> nat" where
  [typed_defs]: "BooleanArray_Len = arr_Len"

definition BooleanArray_search :: "bool array_vals \<Rightarrow> int \<Rightarrow> nat" where
  [typed_defs]: "BooleanArray_search = arr_search"

definition BooleanArray_FindRange :: "bool array_vals \<Rightarrow> int \<Rightarrow> int \<Rightarrow> int \<times> int" where
  [typed_defs]: "BooleanArray_FindRange = arr_FindRange"

definition BooleanArray_Exclude :: "bool array_vals \<Rightarrow> int \<Rightarrow> int \<Rightarrow> bool array_vals res" where
  [typed_defs]: "BooleanArray_Exclude = arr_Exclude"

definition BooleanArray_Include :: "bool array_vals \<Rightarrow> int \<Rightarrow> int \<Rightarrow> bool array_vals res" where
  [typed_defs]: "BooleanArray_Include = arr_Include"

definition BooleanArray_Merge :: "bool array_vals \<Rightarrow> bool array_vals \<Rightarrow> bool array_vals res" where
  [typed_defs]: "BooleanArray_Merge = arr_Merge False"

definition BooleanArray_Size :: "bool array_vals \<Rightarrow> nat" where
  [typed_defs]: "BooleanArray_Size = (\<lambda>a. length (Timestamps a) * 8 + length (Values a))"

end
