(* ===== verification/Simple8b_Word.thy ===== *)
theory Simple8b_Word
  imports Go_Prelude
begin

unbundle bit_operations_syntax

text \<open>
  One word of the simple8b format, \<^verbatim>\<open>pkg/encoding/simple8b/encoding.go\<close>: a four-bit selector in the
  high bits and \<open>n\<close> lanes of \<open>bits\<close> bits below it, or a run of ones. The theory holds the selector
  table with its pack and unpack functions, the greedy one-word \<^verbatim>\<open>Encode\<close> and its \<^verbatim>\<open>Decode\<close>, and
  shows that a word decodes to exactly the values packed into it. The fourteen lane formats share
  one proof, made in the locale \<open>lane_format\<close> and interpreted for each selector.
\<close>

section \<open>Packing and unpacking\<close>

definition MaxValue :: u64 where
  "MaxValue = push_bit 60 1 - 1"

text \<open>\<open>or_lanes bits k w xs\<close> is \<^verbatim>\<open>w | xs[0]<<(k*bits) | xs[1]<<((k+1)*bits) | ...\<close>.\<close>

primrec or_lanes :: "nat \<Rightarrow> nat \<Rightarrow> u64 \<Rightarrow> u64 list \<Rightarrow> u64" where
  "or_lanes bits k w [] = w"
| "or_lanes bits k w (x # xs) = or_lanes bits (Suc k) (w OR push_bit (k * bits) x) xs"

definition pack_n :: "nat \<Rightarrow> nat \<Rightarrow> nat \<Rightarrow> u64 list \<Rightarrow> u64 res" where
  "pack_n sel bits n src =
     (if length src < n then Inl (GoPanic ''index out of range'')
      else Inr (or_lanes bits 0 (push_bit 60 (of_nat sel)) (take n src)))"

definition pack240 :: "u64 list \<Rightarrow> u64 res" where "pack240 src = Inr 0"
definition pack120 :: "u64 list \<Rightarrow> u64 res" where "pack120 src = Inr 0"
definition pack60 :: "u64 list \<Rightarrow> u64 res" where "pack60 = pack_n 2 1 60"
definition pack30 :: "u64 list \<Rightarrow> u64 res" where "pack30 = pack_n 3 2 30"
definition pack20 :: "u64 list \<Rightarrow> u64 res" where "pack20 = pack_n 4 3 20"
definition pack15 :: "u64 list \<Rightarrow> u64 res" where "pack15 = pack_n 5 4 15"
definition pack12 :: "u64 list \<Rightarrow> u64 res" where "pack12 = pack_n 6 5 12"
definition pack10 :: "u64 list \<Rightarrow> u64 res" where "pack10 = pack_n 7 6 10"
definition pack8 :: "u64 list \<Rightarrow> u64 res" where "pack8 = pack_n 8 7 8"
definition pack7 :: "u64 list \<Rightarrow> u64 res" where "pack7 = pack_n 9 8 7"
definition pack6 :: "u64 list \<Rightarrow> u64 res" where "pack6 = pack_n 10 10 6"
definition pack5 :: "u64 list \<Rightarrow> u64 res" where "pack5 = pack_n 11 12 5"
definition pack4 :: "u64 list \<Rightarrow> u64 res" where "pack4 = pack_n 12 15 4"
definition pack3 :: "u64 list \<Rightarrow> u64 res" where "pack3 = pack_n 13 20 3"
definition pack2 :: "u64 list \<Rightarrow> u64 res" where "pack2 = pack_n 14 30 2"
definition pack1 :: "u64 list \<Rightarrow> u64 res" where "pack1 = pack_n 15 60 1"

text \<open>
  \<open>unpack_n bits msk n v dst\<close> sets \<^verbatim>\<open>dst[k] = (v >> (k*bits)) & msk\<close> for \<open>k < n\<close> and leaves the
  rest of the buffer alone.
\<close>

definition lanes_of :: "nat \<Rightarrow> u64 \<Rightarrow> nat \<Rightarrow> u64 \<Rightarrow> u64 list" where
  "lanes_of bits msk n v = map (\<lambda>k. drop_bit (k * bits) v AND msk) [0..<n]"

definition unpack_n :: "nat \<Rightarrow> u64 \<Rightarrow> nat \<Rightarrow> u64 \<Rightarrow> u64 list \<Rightarrow> u64 list" where
  "unpack_n bits msk n v dst = write_at 0 (lanes_of bits msk n v) dst"

definition unpack240 :: "u64 \<Rightarrow> u64 list \<Rightarrow> u64 list" where
  "unpack240 v dst = write_at 0 (replicate 240 1) dst"
definition unpack120 :: "u64 \<Rightarrow> u64 list \<Rightarrow> u64 list" where
  "unpack120 v dst = write_at 0 (replicate 120 1) dst"
definition unpack60 :: "u64 \<Rightarrow> u64 list \<Rightarrow> u64 list" where "unpack60 = unpack_n 1 1 60"
definition unpack30 :: "u64 \<Rightarrow> u64 list \<Rightarrow> u64 list" where "unpack30 = unpack_n 2 3 30"
definition unpack20 :: "u64 \<Rightarrow> u64 list \<Rightarrow> u64 list" where "unpack20 = unpack_n 3 7 20"
definition unpack15 :: "u64 \<Rightarrow> u64 list \<Rightarrow> u64 list" where "unpack15 = unpack_n 4 15 15"
definition unpack12 :: "u64 \<Rightarrow> u64 list \<Rightarrow> u64 list" where "unpack12 = unpack_n 5 31 12"
definition unpack10 :: "u64 \<Rightarrow> u64 list \<Rightarrow> u64 list" where "unpack10 = unpack_n 6 63 10"
definition unpack8 :: "u64 \<Rightarrow> u64 list \<Rightarrow> u64 list" where "unpack8 = unpack_n 7 127 8"
definition unpack7 :: "u64 \<Rightarrow> u64 list \<Rightarrow> u64 list" where "unpack7 = unpack_n 8 255 7"
definition unpack6 :: "u64 \<Rightarrow> u64 list \<Rightarrow> u64 list" where "unpack6 = unpack_n 10 1023 6"
definition unpack5 :: "u64 \<Rightarrow> u64 list \<Rightarrow> u64 list" where "unpack5 = unpack_n 12 4095 5"
definition unpack4 :: "u64 \<Rightarrow> u64 list \<Rightarrow> u64 list" where "unpack4 = unpack_n 15 32767 4"
definition unpack3 :: "u64 \<Rightarrow> u64 list \<Rightarrow> u64 list" where "unpack3 = unpack_n 20 1048575 3"
definition unpack2 :: "u64 \<Rightarrow> u64 list \<Rightarrow> u64 list" where "unpack2 = unpack_n 30 1073741823 2"
definition unpack1 :: "u64 \<Rightarrow> u64 list \<Rightarrow> u64 list" where "unpack1 = unpack_n 60 1152921504606846975 1"

record packing =
  pk_n :: nat
  pk_bit :: nat
  pk_unpack :: "u64 \<Rightarrow> u64 list \<Rightarrow> u64 list"
  pk_pack :: "u64 list \<Rightarrow> u64 res"

definition selector :: "packing list" where
  "selector =
    [\<lparr>pk_n = 240, pk_bit = 0, pk_unpack = unpack240, pk_pack = pack240\<rparr>,
     \<lparr>pk_n = 120, pk_bit = 0, pk_unpack = unpack120, pk_pack = pack120\<rparr>,
     \<lparr>pk_n = 60, pk_bit = 1, pk_unpack = unpack60, pk_pack = pack60\<rparr>,
     \<lparr>pk_n = 30, pk_bit = 2, pk_unpack = unpack30, pk_pack = pack30\<rparr>,
     \<lparr>pk_n = 20, pk_bit = 3, pk_unpack = unpack20, pk_pack = pack20\<rparr>,
     \<lparr>pk_n = 15, pk_bit = 4, pk_unpack = unpack15, pk_pack = pack15\<rparr>,
     \<lparr>pk_n = 12, pk_bit = 5, pk_unpack = unpack12, pk_pack = pack12\<rparr>,
     \<lparr>pk_n = 10, pk_bit = 6, pk_unpack = unpack10, pk_pack = pack10\<rparr>,
     \<lparr>pk_n = 8, pk_bit = 7, pk_unpack = unpack8, pk_pack = pack8\<rparr>,
     \<lparr>pk_n = 7, pk_bit = 8, pk_unpack = unpack7, pk_pack = pack7\<rparr>,
     \<lparr>pk_n = 6, pk_bit = 10, pk_unpack = unpack6, pk_pack = pack6\<rparr>,
     \<lparr>pk_n = 5, pk_bit = 12, pk_unpack = unpack5, pk_pack = pack5\<rparr>,
     \<lparr>pk_n = 4, pk_bit = 15, pk_unpack = unpack4, pk_pack = pack4\<rparr>,
     \<lparr>pk_n = 3, pk_bit = 20, pk_unpack = unpack3, pk_pack = pack3\<rparr>,
     \<lparr>pk_n = 2, pk_bit = 30, pk_unpack = unpack2, pk_pack = pack2\<rparr>,
     \<lparr>pk_n = 1, pk_bit = 60, pk_unpack = unpack1, pk_pack = pack1\<rparr>]"

section \<open>Encoding and decoding one word\<close>

definition canPack :: "u64 list \<Rightarrow> nat \<Rightarrow> nat \<Rightarrow> bool" where
  "canPack src n bits =
     (if length src < n then False
      else if bits = 0 then list_all (\<lambda>v. v = 1) src
      else list_all (\<lambda>s. \<not> s > push_bit bits 1 - 1) (take n src))"

definition packed :: "u64 res \<Rightarrow> nat \<Rightarrow> (u64 \<times> nat) res" where
  "packed r n = bind_res r (\<lambda>v. Inr (v, n))"

definition s8b_Encode :: "u64 list \<Rightarrow> (u64 \<times> nat) res" where
  "s8b_Encode src =
     (if canPack src 240 0 then Inr (0, 240)
      else if canPack src 120 0 then Inr (push_bit 60 1, 120)
      else if canPack src 60 1 then packed (pack60 (take 60 src)) 60
      else if canPack src 30 2 then packed (pack30 (take 30 src)) 30
      else if canPack src 20 3 then packed (pack20 (take 20 src)) 20
      else if canPack src 15 4 then packed (pack15 (take 15 src)) 15
      else if canPack src 12 5 then packed (pack12 (take 12 src)) 12
      else if canPack src 10 6 then packed (pack10 (take 10 src)) 10
      else if canPack src 8 7 then packed (pack8 (take 8 src)) 8
      else if canPack src 7 8 then packed (pack7 (take 7 src)) 7
      else if canPack src 6 10 then packed (pack6 (take 6 src)) 6
      else if canPack src 5 12 then packed (pack5 (take 5 src)) 5
      else if canPack src 4 15 then packed (pack4 (take 4 src)) 4
      else if canPack src 3 20 then packed (pack3 (take 3 src)) 3
      else if canPack src 2 30 then packed (pack2 (take 2 src)) 2
      else if canPack src 1 60 then packed (pack1 (take 1 src)) 1
      else if length src > 0 then Inl (GoError ''value out of bounds'')
      else Inr (0, 0))"

text \<open>
  The selector of a word, \<^verbatim>\<open>v >> 60\<close>, is below 16 for every word, so the error branch of \<open>s8b_Decode\<close>
  and \<open>s8b_Count\<close> is dead; it is kept as the source has it.
\<close>

abbreviation sel_of :: "u64 \<Rightarrow> nat" where
  "sel_of v \<equiv> unat (drop_bit 60 v)"

definition s8b_Decode :: "u64 list \<Rightarrow> u64 \<Rightarrow> (nat \<times> u64 list) res" where
  "s8b_Decode dst v =
     (if sel_of v \<ge> 16 then Inl (GoError ''invalid selector value'')
      else Inr (pk_n (selector ! sel_of v), pk_unpack (selector ! sel_of v) v dst))"

definition s8b_Count :: "u64 \<Rightarrow> nat res" where
  "s8b_Count v =
     (if sel_of v \<ge> 16 then Inl (GoError ''invalid selector value'')
      else Inr (pk_n (selector ! sel_of v)))"

section \<open>Lanes\<close>

text \<open>\<open>lanes\<close> and \<open>unlanes\<close> are the recursive reading of the shift-and-or formulas.\<close>

primrec lanes :: "nat \<Rightarrow> u64 list \<Rightarrow> u64" where
  "lanes bits [] = 0"
| "lanes bits (x # xs) = x OR push_bit bits (lanes bits xs)"

primrec unlanes :: "nat \<Rightarrow> nat \<Rightarrow> u64 \<Rightarrow> u64 list" where
  "unlanes bits 0 v = []"
| "unlanes bits (Suc n) v = take_bit bits v # unlanes bits n (drop_bit bits v)"

lemma or_lanes_eq: "or_lanes bits k w xs = w OR push_bit (k * bits) (lanes bits xs)"
proof (induction xs arbitrary: k w)
  case (Cons x xs)
  then show ?case by (simp add: push_bit_or add.commute or.assoc)
qed simp

lemma lanes_of_Suc:
  "lanes_of bits msk (Suc n) v = (v AND msk) # lanes_of bits msk n (drop_bit bits v)"
  unfolding lanes_of_def upt_conv_Cons [OF zero_less_Suc] map_Suc_upt [symmetric]
  by (simp add: drop_bit_drop_bit add.commute)

lemma lanes_of_eq_unlanes: "lanes_of bits (mask bits) n v = unlanes bits n v"
proof (induction n arbitrary: v)
  case 0
  then show ?case by (simp add: lanes_of_def)
next
  case (Suc n)
  then show ?case by (simp add: lanes_of_Suc take_bit_eq_mask)
qed

lemma length_unlanes [simp]: "length (unlanes bits n v) = n"
  by (induction n arbitrary: v) simp_all

lemma lanes_high_bits:
  assumes "\<forall>x \<in> set xs. unat x < 2 ^ bits" and "length xs * bits \<le> m"
  shows "\<not> bit (lanes bits xs) m"
  using assms
proof (induction xs arbitrary: m)
  case (Cons x xs)
  then have "\<not> bit x m" using high_bit_zero [of x bits m] by auto
  moreover have "\<not> bit (lanes bits xs) (m - bits)"
    using Cons by (intro Cons.IH) auto
  ultimately show ?case by (simp add: bit_simps)
qed simp

lemma unlanes_cong:
  "take_bit (n * bits) v = take_bit (n * bits) w \<Longrightarrow> unlanes bits n v = unlanes bits n w"
proof (induction n arbitrary: v w)
  case (Suc n)
  have lo: "take_bit bits v = take_bit bits (take_bit (Suc n * bits) v)" for v :: u64
    by (simp add: min_def)
  have hi: "take_bit (n * bits) (drop_bit bits v) =
      drop_bit bits (take_bit (Suc n * bits) v)" for v :: u64
    by (simp add: drop_bit_take_bit)
  have "take_bit bits v = take_bit bits w"
    unfolding lo [of v] lo [of w] Suc.prems ..
  moreover have "unlanes bits n (drop_bit bits v) = unlanes bits n (drop_bit bits w)"
    by (rule Suc.IH) (simp only: hi Suc.prems)
  ultimately show ?case by simp
qed simp

lemma unlanes_lanes:
  assumes "\<forall>x \<in> set xs. unat x < 2 ^ bits" and "length xs * bits \<le> 64"
  shows "unlanes bits (length xs) (lanes bits xs) = xs"
  using assms
proof (induction xs)
  case (Cons x xs)
  have x: "m \<ge> bits \<Longrightarrow> \<not> bit x m" for m
    using Cons.prems(1) high_bit_zero [of x bits m] by auto
  have l: "length xs * bits \<le> m \<Longrightarrow> \<not> bit (lanes bits xs) m" for m
    using Cons.prems(1) by (intro lanes_high_bits) auto
  have "take_bit bits (x OR push_bit bits (lanes bits xs)) = x"
    by (rule bit_word_eqI) (use x in \<open>auto simp: bit_simps not_le [symmetric]\<close>)
  moreover have "drop_bit bits (x OR push_bit bits (lanes bits xs)) = lanes bits xs"
    by (rule bit_word_eqI) (use x l Cons.prems(2) in \<open>auto simp: bit_simps not_le [symmetric]\<close>)
  ultimately show ?case using Cons by simp
qed simp

section \<open>The fourteen lane formats\<close>

lemma canPack_lanes:
  assumes "canPack src n bits" and "0 < bits" and "bits < 64"
  shows "n \<le> length src" and "\<forall>x \<in> set (take n src). unat x < 2 ^ bits"
proof -
  have p: "unat (push_bit bits 1 :: u64) = 2 ^ bits"
    using assms(3) by (simp add: push_bit_eq_mult unat_2p_u64)
  then have "(1::u64) \<le> push_bit bits 1"
    by (simp only: word_le_nat_alt) simp
  with p have m: "unat (push_bit bits 1 - 1 :: u64) = 2 ^ bits - 1"
    by (simp add: unat_sub)
  have "x \<le> push_bit bits 1 - 1 \<Longrightarrow> unat x < 2 ^ bits" for x :: u64
    unfolding word_le_nat_alt m by (metis Suc_pred' less_Suc_eq_le zero_less_numeral zero_less_power)
  with assms(1,2) show "n \<le> length src" and "\<forall>x \<in> set (take n src). unat x < 2 ^ bits"
    by (auto simp: canPack_def list_all_iff not_less split: if_splits)
qed

text \<open>The values a word stands for: what unpacking writes, with nothing after it.\<close>

definition word_vals :: "u64 \<Rightarrow> u64 list" where
  "word_vals w = pk_unpack (selector ! sel_of w) w []"

locale lane_format =
  fixes sel bits n :: nat and msk :: u64
    and unpack :: "u64 \<Rightarrow> u64 list \<Rightarrow> u64 list" and pack :: "u64 list \<Rightarrow> u64 res"
  assumes sel_range: "sel < 16"
    and bits_pos: "0 < bits"
    and lanes_pos: "0 < n"
    and fits: "n * bits \<le> 60"
    and msk_bits: "msk = mask bits"
    and unpack_eq: "unpack = unpack_n bits msk n"
    and pack_eq: "pack = pack_n sel bits n"
    and selector_eq: "selector ! sel = \<lparr>pk_n = n, pk_bit = bits, pk_unpack = unpack, pk_pack = pack\<rparr>"
begin

lemma bits_small: "bits \<le> 60"
  using fits lanes_pos by (cases n) auto

lemma unpack_vals: "unpack v dst = write_at 0 (unlanes bits n v) dst"
  by (simp add: unpack_eq unpack_n_def msk_bits lanes_of_eq_unlanes)

lemma sel_packed:
  assumes "\<forall>x \<in> set xs. unat x < 2 ^ bits" and "length xs = n"
  shows "sel_of (push_bit 60 (of_nat sel) OR lanes bits xs) = sel"
proof -
  have hi: "m \<ge> 60 \<Longrightarrow> \<not> bit (lanes bits xs) m" for m
    using lanes_high_bits [OF assms(1), of m] assms(2) fits by auto
  have "unat (of_nat sel :: u64) < 2 ^ 4"
    using sel_range by (simp add: unat_of_nat)
  then have lo: "m \<ge> 4 \<Longrightarrow> \<not> bit (of_nat sel :: u64) m" for m
    by (rule high_bit_zero)
  have "drop_bit 60 (push_bit 60 (of_nat sel) OR lanes bits xs) = of_nat sel"
    by (rule bit_word_eqI) (use hi lo in \<open>auto simp: bit_simps not_le [symmetric]\<close>)
  then show ?thesis
    using sel_range by (simp add: unat_of_nat)
qed

lemma unlanes_packed:
  assumes "\<forall>x \<in> set xs. unat x < 2 ^ bits" and "length xs = n"
  shows "unlanes bits n (push_bit 60 (of_nat sel) OR lanes bits xs) = xs"
proof -
  have "take_bit (n * bits) (push_bit 60 (of_nat sel) OR lanes bits xs)
        = take_bit (n * bits) (lanes bits xs)"
    using fits by (intro bit_word_eqI) (auto simp: bit_simps)
  then have "unlanes bits n (push_bit 60 (of_nat sel) OR lanes bits xs)
             = unlanes bits n (lanes bits xs)"
    by (rule unlanes_cong)
  with unlanes_lanes [of xs bits] assms fits show ?thesis by simp
qed

lemma word_vals_packed:
  assumes "\<forall>x \<in> set xs. unat x < 2 ^ bits" and "length xs = n"
  shows "word_vals (push_bit 60 (of_nat sel) OR lanes bits xs) = xs"
  using sel_packed [OF assms] unlanes_packed [OF assms] assms(2)
  by (simp add: word_vals_def selector_eq unpack_vals)

lemma Encode_branch:
  assumes "canPack src n bits"
  shows "\<exists>w. packed (pack (take n src)) n = Inr (w, n) \<and> n \<le> length src \<and> word_vals w = take n src"
proof -
  from canPack_lanes [OF assms bits_pos] bits_small
  have len: "n \<le> length src" and small: "\<forall>x \<in> set (take n src). unat x < 2 ^ bits"
    by auto
  have "packed (pack (take n src)) n =
        Inr (push_bit 60 (of_nat sel) OR lanes bits (take n src), n)"
    using len by (simp add: packed_def pack_eq pack_n_def or_lanes_eq min_def)
  with word_vals_packed [OF small] len show ?thesis by simp
qed

end

interpretation lf60: lane_format 2 1 60 1 unpack60 pack60
  by unfold_locales (simp_all add: unpack60_def pack60_def selector_def mask_eq_exp_minus_1)
interpretation lf30: lane_format 3 2 30 3 unpack30 pack30
  by unfold_locales (simp_all add: unpack30_def pack30_def selector_def mask_eq_exp_minus_1)
interpretation lf20: lane_format 4 3 20 7 unpack20 pack20
  by unfold_locales (simp_all add: unpack20_def pack20_def selector_def mask_eq_exp_minus_1)
interpretation lf15: lane_format 5 4 15 15 unpack15 pack15
  by unfold_locales (simp_all add: unpack15_def pack15_def selector_def mask_eq_exp_minus_1)
interpretation lf12: lane_format 6 5 12 31 unpack12 pack12
  by unfold_locales (simp_all add: unpack12_def pack12_def selector_def mask_eq_exp_minus_1)
interpretation lf10: lane_format 7 6 10 63 unpack10 pack10
  by unfold_locales (simp_all add: unpack10_def pack10_def selector_def mask_eq_exp_minus_1)
interpretation lf8: lane_format 8 7 8 127 unpack8 pack8
  by unfold_locales (simp_all add: unpack8_def pack8_def selector_def mask_eq_exp_minus_1)
interpretation lf7: lane_format 9 8 7 255 unpack7 pack7
  by unfold_locales (simp_all add: unpack7_def pack7_def selector_def mask_eq_exp_minus_1)
interpretation lf6: lane_format 10 10 6 1023 unpack6 pack6
  by unfold_locales (simp_all add: unpack6_def pack6_def selector_def mask_eq_exp_minus_1)
interpretation lf5: lane_format 11 12 5 4095 unpack5 pack5
  by unfold_locales (simp_all add: unpack5_def pack5_def selector_def mask_eq_exp_minus_1)
interpretation lf4: lane_format 12 15 4 32767 unpack4 pack4
  by unfold_locales (simp_all add: unpack4_def pack4_def selector_def mask_eq_exp_minus_1)
interpretation lf3: lane_format 13 20 3 1048575 unpack3 pack3
  by unfold_locales (simp_all add: unpack3_def pack3_def selector_def mask_eq_exp_minus_1)
interpretation lf2: lane_format 14 30 2 1073741823 unpack2 pack2
  by unfold_locales (simp_all add: unpack2_def pack2_def selector_def mask_eq_exp_minus_1)
interpretation lf1: lane_format 15 60 1 1152921504606846975 unpack1 pack1
  by unfold_locales (simp_all add: unpack1_def pack1_def selector_def mask_eq_exp_minus_1)

lemmas unpack_vals_all =
  lf60.unpack_vals lf30.unpack_vals lf20.unpack_vals lf15.unpack_vals lf12.unpack_vals
  lf10.unpack_vals lf8.unpack_vals lf7.unpack_vals lf6.unpack_vals lf5.unpack_vals
  lf4.unpack_vals lf3.unpack_vals lf2.unpack_vals lf1.unpack_vals
  unpack240_def unpack120_def

section \<open>Correctness of one word\<close>

lemma sel_of_less [simp]: "sel_of v < 16"
proof -
  have "unat v div 2 ^ 60 < 16"
    using unat_u64_less [of v] by (simp add: less_mult_imp_div_less)
  then show ?thesis by (simp only: unat_drop_bit_le)
qed

lemma sel_cases:
  fixes s :: nat
  assumes "s < 16"
  shows "s = 0 \<or> s = 1 \<or> s = 2 \<or> s = 3 \<or> s = 4 \<or> s = 5 \<or> s = 6 \<or> s = 7 \<or>
         s = 8 \<or> s = 9 \<or> s = 10 \<or> s = 11 \<or> s = 12 \<or> s = 13 \<or> s = 14 \<or> s = 15"
  using assms by arith

lemma selector_unpack:
  assumes "s < 16"
  shows "pk_unpack (selector ! s) v dst = write_at 0 (pk_unpack (selector ! s) v []) dst"
    and "length (pk_unpack (selector ! s) v []) = pk_n (selector ! s)"
  using sel_cases [OF assms]
  by (elim disjE; simp add: selector_def unpack_vals_all)+

lemma unpack_word_vals: "pk_unpack (selector ! sel_of v) v dst = write_at 0 (word_vals v) dst"
  unfolding word_vals_def by (rule selector_unpack(1)) simp

lemma length_word_vals: "length (word_vals v) = pk_n (selector ! sel_of v)"
  unfolding word_vals_def by (rule selector_unpack(2)) simp

lemma pk_n_pos: "s < 16 \<Longrightarrow> 0 < pk_n (selector ! s) \<and> pk_n (selector ! s) \<le> 240"
  by (drule sel_cases) (elim disjE; simp add: selector_def)

lemma word_vals_neq_Nil [simp]: "word_vals v \<noteq> []"
  using length_word_vals [of v] pk_n_pos [of "sel_of v"] by auto

lemma length_word_vals_le: "length (word_vals v) \<le> 240"
  using length_word_vals [of v] pk_n_pos [of "sel_of v"] by simp

lemma s8b_Decode_vals: "s8b_Decode dst v = Inr (length (word_vals v), write_at 0 (word_vals v) dst)"
  by (simp add: s8b_Decode_def not_le unpack_word_vals length_word_vals)

lemma s8b_Count_vals: "s8b_Count v = Inr (length (word_vals v))"
  by (simp add: s8b_Count_def not_le length_word_vals)

lemma word_vals_run:
  "word_vals 0 = replicate 240 1"
  "word_vals (push_bit 60 1) = replicate 120 1"
  "word_vals 1152921504606846976 = replicate 120 1"
proof -
  show "word_vals 0 = replicate 240 1"
    by (simp add: word_vals_def selector_def unpack_vals_all)
  have "drop_bit 60 (push_bit 60 1 :: u64) = 1"
    by (simp add: drop_bit_push_bit)
  then show run: "word_vals (push_bit 60 1) = replicate 120 1"
    by (simp only: word_vals_def) (simp add: selector_def unpack_vals_all)
  then show "word_vals 1152921504606846976 = replicate 120 1" by simp
qed

lemma all_ones_take:
  "list_all (\<lambda>v. v = (1::u64)) src \<Longrightarrow> n \<le> length src \<Longrightarrow> take n src = replicate n 1"
  by (auto simp: list_all_length intro!: nth_equalityI)

text \<open>The outcome of \<^verbatim>\<open>Encode\<close> on every input.\<close>

definition encodes :: "u64 list \<Rightarrow> (u64 \<times> nat) res \<Rightarrow> bool" where
  "encodes src r \<longleftrightarrow>
     (\<exists>w n. r = Inr (w, n) \<and> 0 < n \<and> n \<le> length src \<and> word_vals w = take n src)"

lemma encodesI: "(\<exists>w. r = Inr (w, n) \<and> n \<le> length src \<and> word_vals w = take n src) \<Longrightarrow> 0 < n \<Longrightarrow>
    encodes src r"
  unfolding encodes_def by blast

lemma s8b_Encode_encodes:
  assumes "src \<noteq> []" and "unat (hd src) < 2 ^ 60"
  shows "encodes src (s8b_Encode src)"
proof -
  have runs: "encodes src (Inr (0, 240))" if "canPack src 240 0"
    using that all_ones_take [of src 240] by (auto simp: encodes_def canPack_def word_vals_run split: if_splits)
  have runs2: "encodes src (Inr (1152921504606846976, 120))" if "canPack src 120 0"
    using that all_ones_take [of src 120] by (auto simp: encodes_def canPack_def word_vals_run split: if_splits)
  have "canPack src 1 60"
  proof -
    have "hd src \<le> push_bit 60 1 - 1"
      using assms(2) by (simp add: word_le_nat_alt)
    with assms(1) show ?thesis by (cases src) (auto simp: canPack_def not_less)
  qed
  then show ?thesis
    unfolding s8b_Encode_def
    by (simp add: runs runs2 encodesI [OF lf60.Encode_branch] encodesI [OF lf30.Encode_branch]
        encodesI [OF lf20.Encode_branch] encodesI [OF lf15.Encode_branch]
        encodesI [OF lf12.Encode_branch] encodesI [OF lf10.Encode_branch]
        encodesI [OF lf8.Encode_branch] encodesI [OF lf7.Encode_branch]
        encodesI [OF lf6.Encode_branch] encodesI [OF lf5.Encode_branch]
        encodesI [OF lf4.Encode_branch] encodesI [OF lf3.Encode_branch]
        encodesI [OF lf2.Encode_branch] encodesI [OF lf1.Encode_branch [unfolded One_nat_def]])
qed

lemma canPack_hd:
  assumes "canPack src n bits" and "0 < n" and "bits \<le> 60"
  shows "src \<noteq> []" and "unat (hd src) < 2 ^ 60"
proof -
  from assms(1,2) show ne: "src \<noteq> []"
    by (auto simp: canPack_def split: if_splits)
  show "unat (hd src) < 2 ^ 60"
  proof (cases "bits = 0")
    case True
    with assms(1) ne have "hd src = 1"
      by (cases src) (auto simp: canPack_def split: if_splits)
    then show ?thesis by simp
  next
    case False
    with canPack_lanes(2) [OF assms(1)] assms(2,3) ne have "unat (hd src) < 2 ^ bits"
      by (cases src; cases n) auto
    also have "\<dots> \<le> 2 ^ 60" using assms(3) by (rule power_increasing) simp
    finally show ?thesis .
  qed
qed

lemma s8b_Encode_too_large:
  assumes "src \<noteq> []" and "\<not> unat (hd src) < 2 ^ 60"
  shows "s8b_Encode src = Inl (GoError ''value out of bounds'')"
proof -
  have no: "\<not> canPack src n bits" if "0 < n" "bits \<le> 60" for n bits
    using canPack_hd(2) [of src n bits] that assms(2) by blast
  show ?thesis
    using assms(1) unfolding s8b_Encode_def by (simp add: no)
qed

lemma s8b_Encode_Nil: "s8b_Encode [] = Inr (0, 0)"
  by (simp add: s8b_Encode_def canPack_def)

lemma s8b_Encode_Inr:
  assumes "s8b_Encode src = Inr (w, n)"
  shows "n \<le> length src" and "src \<noteq> [] \<Longrightarrow> 0 < n \<and> word_vals w = take n src \<and> unat (hd src) < 2 ^ 60"
proof -
  have "src \<noteq> [] \<Longrightarrow> unat (hd src) < 2 ^ 60"
    using assms s8b_Encode_too_large by (metis Inl_Inr_False)
  with s8b_Encode_encodes [of src] assms
  show "src \<noteq> [] \<Longrightarrow> 0 < n \<and> word_vals w = take n src \<and> unat (hd src) < 2 ^ 60"
    by (auto simp: encodes_def)
  show "n \<le> length src"
  proof (cases "src = []")
    case True
    with assms show ?thesis by (simp add: s8b_Encode_Nil)
  next
    case False
    with \<open>src \<noteq> [] \<Longrightarrow> unat (hd src) < 2 ^ 60\<close> s8b_Encode_encodes [of src] assms
    show ?thesis by (auto simp: encodes_def)
  qed
qed

end
