(* ===== verification/Simple8b.thy ===== *)
theory Simple8b
  imports Simple8b_Word
begin

unbundle bit_operations_syntax

text \<open>
  Sequences of simple8b words, \<^verbatim>\<open>pkg/encoding/simple8b/encoding.go\<close>: the in-place batch encoder
  \<^verbatim>\<open>EncodeAll\<close>, the batch decoders \<^verbatim>\<open>DecodeAll\<close> and \<^verbatim>\<open>DecodeBytesBigEndian\<close>, the counting and
  iterating helpers, and the streaming \<^verbatim>\<open>Encoder\<close> and \<^verbatim>\<open>Decoder\<close>. Everything is related to one
  abstract reading of a word sequence, \<open>vals_of\<close>, the concatenation of the values of its words.
\<close>

section \<open>The batch encoder\<close>

definition numBits :: "(nat \<times> nat) list" where
  "numBits = [(60, 1), (30, 2), (20, 3), (15, 4), (12, 5), (10, 6), (8, 7), (7, 8),
              (6, 10), (5, 12), (4, 15), (3, 20), (2, 30), (1, 60)]"

definition ErrValueOutOfBounds :: go_error where
  "ErrValueOutOfBounds = GoError ''value out of bounds''"

text \<open>
  The innermost loop over \<^verbatim>\<open>remaining\<close>: \<^verbatim>\<open>continue CODES\<close> is \<open>None\<close>, leaving the loop is \<open>Some\<close> of
  the word. The shift amount is computed in a byte, as \<^verbatim>\<open>(byte(k) * bitN) & 0x3f\<close>.
\<close>

fun try_code :: "nat \<Rightarrow> nat \<Rightarrow> nat \<Rightarrow> u64 \<Rightarrow> u64 list \<Rightarrow> u64 option" where
  "try_code intN bitN k val [] = Some val"
| "try_code intN bitN k val (inV # rest) =
     (if k < intN then
        (if inV \<ge> push_bit (bitN mod 64) 1 then None
         else try_code intN bitN (Suc k)
                (val OR push_bit (((k mod 256) * bitN) mod 256 mod 64) inV) rest)
      else Some val)"

fun codes_loop :: "nat \<Rightarrow> (nat \<times> nat) list \<Rightarrow> u64 list \<Rightarrow> (u64 \<times> nat) option" where
  "codes_loop code [] remaining = None"
| "codes_loop code ((intN, bitN) # rows) remaining =
     (if intN > length remaining then codes_loop (Suc code) rows remaining
      else case try_code intN bitN 0 (push_bit 60 (of_nat (code + 2))) remaining of
             None \<Rightarrow> codes_loop (Suc code) rows remaining
           | Some val \<Rightarrow> Some (val, intN))"

text \<open>
  One turn of the outer loop: the word to write and how many values it takes, \<open>None\<close> when every code
  fails. \<open>k\<close> is the index of the last of the leading ones of \<open>a\<close>, or \<open>- 1\<close>.
\<close>

definition encode_next :: "u64 list \<Rightarrow> (u64 \<times> nat) option" where
  "encode_next remaining =
     (if length remaining \<ge> 120 then
        (let a = (if length remaining \<ge> 240 then take 240 remaining else take 120 remaining);
             k = int (length (takeWhile (\<lambda>v. v = 1) a)) - 1
         in if k = 239 then Some (0, 240)
            else if k \<ge> 119 then Some (push_bit 60 1, 120)
            else codes_loop 0 numBits remaining)
      else codes_loop 0 numBits remaining)"

section \<open>What a word sequence stands for\<close>

definition vals_of :: "u64 list \<Rightarrow> u64 list" where
  "vals_of ws = concat (map word_vals ws)"

lemma vals_of_simps [simp]:
  "vals_of [] = []"
  "vals_of (w # ws) = word_vals w @ vals_of ws"
  "vals_of (us @ ws) = vals_of us @ vals_of ws"
  by (simp_all add: vals_of_def)

definition small60 :: "u64 list \<Rightarrow> bool" where
  "small60 xs = list_all (\<lambda>x. x < push_bit 60 1) xs"

lemma less_2p_unat: "n < 64 \<Longrightarrow> (x::u64) < push_bit n 1 \<longleftrightarrow> unat x < 2 ^ n"
  by (simp add: word_less_nat_alt push_bit_eq_mult unat_2p_u64)

lemma small60_simps [simp]:
  "small60 []"
  "small60 (x # xs) \<longleftrightarrow> unat x < 2 ^ 60 \<and> small60 xs"
  "small60 (xs @ ys) \<longleftrightarrow> small60 xs \<and> small60 ys"
  using less_2p_unat [of 60] by (simp_all add: small60_def)

lemma small60_iff: "small60 xs \<longleftrightarrow> (\<forall>x \<in> set xs. unat x < 2 ^ 60)"
  using less_2p_unat [of 60] by (simp add: small60_def list_all_iff)

section \<open>Correctness of one encoding step\<close>

context lane_format
begin

lemma try_code_eq:
  assumes "k \<le> n"
  shows "try_code n bits k val xs =
    (if \<forall>x \<in> set (take (n - k) xs). unat x < 2 ^ bits
     then Some (or_lanes bits k val (take (n - k) xs)) else None)"
  using assms
proof (induction xs arbitrary: k val)
  case (Cons x xs)
  show ?case
  proof (cases "k < n")
    case True
    then have "Suc k * bits \<le> 60"
      using fits by (meson Suc_leI le_trans mult_le_mono1)
    then have kb: "k * bits < 60" using bits_pos by simp
    moreover have "k \<le> k * bits" using bits_pos by simp
    ultimately have "k < 256" by linarith
    with kb have shift: "((k mod 256) * bits) mod 256 mod 64 = k * bits" by simp
    have lim: "2 ^ (bits mod 64) \<le> x \<longleftrightarrow> \<not> unat x < 2 ^ bits"
      using less_2p_unat [of bits x] bits_small by (simp add: not_less [symmetric])
    obtain d where d: "n - k = Suc d" "n - Suc k = d"
      using True by (metis Suc_diff_Suc)
    from True have "try_code n bits (Suc k) val' xs =
        (if \<forall>x \<in> set (take d xs). unat x < 2 ^ bits
         then Some (or_lanes bits (Suc k) val' (take d xs)) else None)" for val'
      using Cons.IH [of "Suc k" val'] unfolding d by simp
    with True show ?thesis by (simp add: shift lim d)
  qed simp
qed simp

lemma try_code_word:
  assumes "n \<le> length xs"
  shows "try_code n bits 0 (push_bit 60 (of_nat sel)) xs =
    (if \<forall>x \<in> set (take n xs). unat x < 2 ^ bits
     then Some (push_bit 60 (of_nat sel) OR lanes bits (take n xs)) else None)"
  using assms by (simp add: try_code_eq or_lanes_eq)

end

text \<open>A step is right when the word it returns stands for the next values, all below \<open>2 ^ 60\<close>.\<close>

definition step_ok :: "u64 list \<Rightarrow> (u64 \<times> nat) option \<Rightarrow> bool" where
  "step_ok xs r = (case r of None \<Rightarrow> True
     | Some (w, n) \<Rightarrow> 0 < n \<and> n \<le> length xs \<and> word_vals w = take n xs \<and> small60 (take n xs))"

definition lane_row :: "nat \<Rightarrow> nat \<times> nat \<Rightarrow> bool" where
  "lane_row sel row \<longleftrightarrow> (\<exists>msk u p. lane_format sel (snd row) (fst row) msk u p)"

lemma codes_loop_ok:
  assumes "\<forall>i < length rows. lane_row (code + i + 2) (rows ! i)"
  shows "step_ok xs (codes_loop code rows xs)"
  using assms
proof (induction code rows xs rule: codes_loop.induct)
  case (1 code xs)
  then show ?case by (simp add: step_ok_def)
next
  case (2 code intN bitN rows xs)
  from "2.prems" [rule_format, of 0] obtain msk u p
    where lf: "lane_format (code + 2) bitN intN msk u p"
    by (auto simp: lane_row_def)
  have rest: "\<forall>i < length rows. lane_row (Suc code + i + 2) (rows ! i)"
    using "2.prems" [rule_format, of "Suc _"] by auto
  show ?case
  proof (cases "intN > length xs")
    case True
    with "2.IH"(1) [OF True rest] show ?thesis by simp
  next
    case False
    then have len: "intN \<le> length xs" by simp
    show ?thesis
    proof (cases "\<forall>x \<in> set (take intN xs). unat x < 2 ^ bitN")
      case True
      let ?w = "push_bit 60 (of_nat (code + 2)) OR lanes bitN (take intN xs)"
      have t: "try_code intN bitN 0 (push_bit 60 (of_nat (code + 2))) xs = Some ?w"
        using lane_format.try_code_word [OF lf len] True by simp
      have "word_vals ?w = take intN xs"
        using lane_format.word_vals_packed [OF lf True] len by simp
      moreover have "small60 (take intN xs)"
        using True lane_format.bits_small [OF lf] unfolding small60_iff
        by (meson le_less_trans less_le_trans power_increasing one_le_numeral)
      ultimately show ?thesis
        using False len lane_format.lanes_pos [OF lf] t by (simp add: step_ok_def del: of_nat_add)
    next
      case big: False
      have t: "try_code intN bitN 0 (push_bit 60 (of_nat (code + 2))) xs = None"
        using lane_format.try_code_word [OF lf len] big by auto
      from "2.IH"(2) [OF False t rest] False t show ?thesis by (simp del: of_nat_add)
    qed
  qed
qed

lemma numBits_rows: "\<forall>i < length numBits. lane_row (0 + i + 2) (numBits ! i)"
proof -
  have rows: "lane_row 2 (60, 1)" "lane_row 3 (30, 2)" "lane_row 4 (20, 3)" "lane_row 5 (15, 4)"
    "lane_row 6 (12, 5)" "lane_row 7 (10, 6)" "lane_row 8 (8, 7)" "lane_row 9 (7, 8)"
    "lane_row 10 (6, 10)" "lane_row 11 (5, 12)" "lane_row 12 (4, 15)" "lane_row 13 (3, 20)"
    "lane_row 14 (2, 30)" "lane_row 15 (1, 60)"
    unfolding lane_row_def fst_conv snd_conv
    using lf60.lane_format_axioms lf30.lane_format_axioms lf20.lane_format_axioms
      lf15.lane_format_axioms lf12.lane_format_axioms lf10.lane_format_axioms
      lf8.lane_format_axioms lf7.lane_format_axioms lf6.lane_format_axioms
      lf5.lane_format_axioms lf4.lane_format_axioms lf3.lane_format_axioms
      lf2.lane_format_axioms lf1.lane_format_axioms
    by blast+
  have "map (\<lambda>i. i + 2) [0..<14] = [2, 3, 4, 5, 6, 7, 8, 9, 10, 11, 12, 13, 14, 15::nat]"
    by code_simp
  then have "list_all2 lane_row (map (\<lambda>i. i + 2) [0..<14]) numBits"
    using rows by (simp only: numBits_def list_all2_Cons list.rel_intros)
  then show ?thesis
    by (simp add: list_all2_conv_all_nth)
qed

text \<open>The leading run of ones is at least \<open>m\<close> long exactly when the first \<open>m\<close> values are ones.\<close>

lemma ones_prefix:
  assumes "m \<le> length (takeWhile (\<lambda>v. v = (1::u64)) (take l xs))"
  shows "take m xs = replicate m 1" and "m \<le> length xs"
proof -
  let ?t = "takeWhile (\<lambda>v. v = (1::u64)) (take l xs)"
  have "length ?t \<le> length (take l xs)" by (rule length_takeWhile_le)
  with assms show "m \<le> length xs" by simp
  have "take m (take l xs) = take m ?t"
    using assms by (metis takeWhile_eq_take take_take min.absorb1)
  also have "\<dots> = replicate m 1"
    using assms by (intro all_ones_take) (auto simp: list_all_iff dest: set_takeWhileD)
  finally have "take (min m l) xs = replicate m 1" by simp
  then show "take m xs = replicate m 1"
    using \<open>m \<le> length xs\<close>
    by (metis length_replicate length_take min.absorb2 min.cobounded2 min.commute min_def)
qed

lemma encode_next_ok: "step_ok xs (encode_next xs)"
proof -
  have codes: "step_ok xs (codes_loop 0 numBits xs)"
    by (rule codes_loop_ok [OF numBits_rows])
  have run: "step_ok xs (Some (w, n))"
    if "n \<le> length (takeWhile (\<lambda>v. v = 1) (take l xs))" "word_vals w = replicate n 1" "0 < n" for l w n
    using ones_prefix [OF that(1)] that(2,3) by (auto simp: step_ok_def small60_iff)
  have r1: "step_ok xs (Some (0, 240))"
    if "length (takeWhile (\<lambda>v. v = 1) (take l xs)) = 240" for l
    using that by (intro run [of _ l]) (simp_all add: word_vals_run)
  have r2: "step_ok xs (Some (1152921504606846976, 120))"
    if "119 < length (takeWhile (\<lambda>v. v = 1) (take l xs))" for l
    using that by (intro run [of _ l]) (simp_all add: word_vals_run)
  show ?thesis
    unfolding encode_next_def Let_def
    using codes by (auto intro: r1 r2)
qed

lemma codes_loop_append:
  "(\<And>c. codes_loop c rows' xs \<noteq> None) \<Longrightarrow> codes_loop c (rows @ rows') xs \<noteq> None"
proof (induction rows arbitrary: c)
  case (Cons row rows)
  then show ?case by (cases row) (auto split: option.splits)
qed simp

lemma encode_next_None:
  assumes "xs \<noteq> []" and "encode_next xs = None"
  shows "\<not> unat (hd xs) < 2 ^ 60"
proof -
  have last: "codes_loop 0 numBits xs \<noteq> None" if "unat (hd xs) < 2 ^ 60"
  proof -
    have "try_code 1 60 0 w xs \<noteq> None" for w
      using assms(1) that less_2p_unat [of 60 "hd xs"] by (cases xs; cases "tl xs") (auto simp: not_le)
    moreover have "1 \<le> length xs" using assms(1) by (cases xs) auto
    ultimately have "codes_loop c [(1, 60)] xs \<noteq> None" for c
      by (auto split: option.splits)
    from codes_loop_append [OF this, of 0 "butlast numBits"] show ?thesis
      unfolding numBits_def by simp
  qed
  from assms(2) have "codes_loop 0 numBits xs = None"
    by (auto simp: encode_next_def Let_def split: if_splits)
  with last show ?thesis by blast
qed

section \<open>EncodeAll\<close>

text \<open>
  \<^verbatim>\<open>EncodeAll\<close> writes the words over its input (\<^verbatim>\<open>dst := src\<close>): \<open>i\<close> reads, \<open>j\<close> writes. The result
  carries the final contents of \<^verbatim>\<open>src\<close>, since callers share that memory.
\<close>

function EncodeAll_loop :: "nat \<Rightarrow> nat \<Rightarrow> u64 list \<Rightarrow> u64 list res \<times> u64 list" where
  "EncodeAll_loop i j src =
     (if i < length src then
        (case encode_next (drop i src) of
           None \<Rightarrow> (Inl ErrValueOutOfBounds, src)
         | Some (v, n) \<Rightarrow> EncodeAll_loop (i + n) (Suc j) (src[j := v]))
      else (Inr (take j src), src))"
  by pat_completeness auto
termination
proof (relation "measure (\<lambda>(i, j, src). length src - i)")
  fix i j :: nat and src :: "u64 list" and p v n
  assume "i < length src" and "encode_next (drop i src) = Some p" and "(v, n) = p"
  with encode_next_ok [of "drop i src"] have "0 < n"
    by (auto simp: step_ok_def)
  with \<open>i < length src\<close>
  show "((i + n, Suc j, src[j := v]), i, j, src) \<in> measure (\<lambda>(i, j, src). length src - i)"
    by simp
qed simp

declare EncodeAll_loop.simps [simp del]

definition s8b_EncodeAll :: "u64 list \<Rightarrow> u64 list res \<times> u64 list" where
  "s8b_EncodeAll src = EncodeAll_loop 0 0 src"

text \<open>
  The writes never reach the values still to be read (\<open>j \<le> i\<close>), so the in-place loop computes a word
  sequence that stands for the original values, and it fails exactly when one of them needs more than
  60 bits.
\<close>

lemma EncodeAll_loop_ok:
  assumes "j \<le> i" and "small60 (drop i src)" and "j \<le> length src"
  shows "\<exists>ws. EncodeAll_loop i j src = (Inr (take j src @ ws), take j src @ ws @ drop (j + length ws) src)
    \<and> vals_of ws = drop i src \<and> j + length ws \<le> length src"
  using assms
proof (induction i j src rule: EncodeAll_loop.induct)
  case (1 i j src)
  show ?case
  proof (cases "i < length src")
    case False
    with "1.prems" show ?thesis
      by (intro exI [of _ "[]"]) (auto simp: EncodeAll_loop.simps [of i j src])
  next
    case True
    then have hd: "drop i src \<noteq> []" "hd (drop i src) \<in> set (drop i src)" by auto
    with "1.prems"(2) have "unat (hd (drop i src)) < 2 ^ 60" unfolding small60_iff by blast
    with encode_next_None [of "drop i src"] hd obtain v n where e: "encode_next (drop i src) = Some (v, n)"
      by (metis not_None_eq surj_pair)
    with encode_next_ok [of "drop i src"]
    have n: "0 < n" "n \<le> length src - i" and v: "word_vals v = take n (drop i src)"
      by (auto simp: step_ok_def)
    have ji: "j < length src" "Suc j \<le> i + n" using True "1.prems"(1) n by auto
    have dr: "drop (i + n) (src[j := v]) = drop (i + n) src" using ji(2) by simp
    have "small60 (drop (i + n) (src[j := v]))"
      using "1.prems"(2) append_take_drop_id [of n "drop i src"] unfolding dr
      by (metis add.commute drop_drop small60_simps(3))
    with "1.IH" [OF True e refl ji(2)] ji(1) obtain ws where
      ws: "EncodeAll_loop (i + n) (Suc j) (src[j := v]) =
             (Inr (take (Suc j) (src[j := v]) @ ws),
              take (Suc j) (src[j := v]) @ ws @ drop (Suc j + length ws) (src[j := v]))"
        "vals_of ws = drop (i + n) src" "Suc j + length ws \<le> length src"
      unfolding dr by auto
    have "take (Suc j) (src[j := v]) = take j src @ [v]"
      using ji(1) by (simp add: take_Suc_conv_app_nth)
    moreover have "word_vals v @ drop (i + n) src = drop i src"
      unfolding v by (metis append_take_drop_id drop_drop add.commute)
    ultimately show ?thesis
      using ws e True by (intro exI [of _ "v # ws"]) (simp add: EncodeAll_loop.simps [of i j src])
  qed
qed

lemma EncodeAll_loop_err:
  assumes "j \<le> i" and "\<not> small60 (drop i src)"
  shows "\<exists>src'. EncodeAll_loop i j src = (Inl ErrValueOutOfBounds, src')"
  using assms
proof (induction i j src rule: EncodeAll_loop.induct)
  case (1 i j src)
  then have True: "i < length src" by (metis drop_all not_less small60_simps(1))
  show ?case
  proof (cases "encode_next (drop i src)")
    case None
    with True show ?thesis by (simp add: EncodeAll_loop.simps [of i j src])
  next
    case (Some p)
    obtain v n where p: "p = (v, n)" by (cases p)
    with Some encode_next_ok [of "drop i src"]
    have n: "0 < n" "n \<le> length src - i" "small60 (take n (drop i src))"
      by (auto simp: step_ok_def)
    have ji: "Suc j \<le> i + n" using True "1.prems"(1) n by auto
    have dr: "drop (i + n) (src[j := v]) = drop (i + n) src" using ji by simp
    have "\<not> small60 (drop (i + n) (src[j := v]))"
      using "1.prems"(2) n(3) append_take_drop_id [of n "drop i src"] unfolding dr
      by (metis add.commute drop_drop small60_simps(3))
    from "1.IH" [OF True Some p [symmetric] ji this] Some True p show ?thesis
      by (simp add: EncodeAll_loop.simps [of i j src])
  qed
qed

lemma s8b_EncodeAll_ok:
  assumes "small60 src"
  shows "\<exists>ws. s8b_EncodeAll src = (Inr ws, ws @ drop (length ws) src) \<and> vals_of ws = src
    \<and> length ws \<le> length src"
  using EncodeAll_loop_ok [of 0 0 src] assms by (simp add: s8b_EncodeAll_def)

lemma s8b_EncodeAll_err:
  "\<not> small60 src \<Longrightarrow> fst (s8b_EncodeAll src) = Inl ErrValueOutOfBounds"
  using EncodeAll_loop_err [of 0 0 src] by (auto simp: s8b_EncodeAll_def)

section \<open>Batch decoding\<close>

text \<open>
  The decoders write through an unchecked pointer to \<^verbatim>\<open>dst[j]\<close>. Taking the address panics when \<open>j\<close> is
  out of range; a write past the end of the slice is not checked by Go at all and is the value
  \<open>unsafe_write\<close> of the model.
\<close>

definition unsafe_write :: go_error where
  "unsafe_write = GoPanic ''unchecked write past the end of the slice''"

definition unpack_into :: "nat \<Rightarrow> u64 \<Rightarrow> u64 list \<Rightarrow> (nat \<times> u64 list) res" where
  "unpack_into j v dst =
     (let p = selector ! unat (drop_bit 60 v AND 0xF)
      in if j \<ge> length dst then Inl (GoPanic ''index out of range'')
         else if j + pk_n p > length dst then Inl unsafe_write
         else Inr (j + pk_n p, take j dst @ pk_unpack p v (drop j dst)))"

fun DecodeAll_loop :: "nat \<Rightarrow> u64 list \<Rightarrow> u64 list \<Rightarrow> (nat \<times> u64 list) res" where
  "DecodeAll_loop j dst [] = Inr (j, dst)"
| "DecodeAll_loop j dst (v # src) =
     (case unpack_into j v dst of Inl e \<Rightarrow> Inl e | Inr (j', dst') \<Rightarrow> DecodeAll_loop j' dst' src)"

definition s8b_DecodeAll :: "u64 list \<Rightarrow> u64 list \<Rightarrow> (nat \<times> u64 list) res" where
  "s8b_DecodeAll dst src = DecodeAll_loop 0 dst src"

fun DecodeBytes_loop :: "nat \<Rightarrow> u64 list \<Rightarrow> bytes \<Rightarrow> (nat \<times> u64 list) res" where
  "DecodeBytes_loop j dst src =
     (if src = [] then Inr (j, dst)
      else case unpack_into j (get_u64 src) dst of
             Inl e \<Rightarrow> Inl e
           | Inr (j', dst') \<Rightarrow> DecodeBytes_loop j' dst' (drop 8 src))"

declare DecodeBytes_loop.simps [simp del]

definition s8b_DecodeBytesBigEndian :: "u64 list \<Rightarrow> bytes \<Rightarrow> (nat \<times> u64 list) res" where
  "s8b_DecodeBytesBigEndian dst src =
     (if length src mod 8 \<noteq> 0 then Inl (GoError ''src length is not multiple of 8'')
      else DecodeBytes_loop 0 dst src)"

fun CountBytes_loop :: "nat \<Rightarrow> bytes \<Rightarrow> nat res" where
  "CountBytes_loop count b =
     (if length b \<ge> 8 then
        (let v = get_u64 b in
         if sel_of v \<ge> 16 then Inl (GoError ''invalid selector value'')
         else CountBytes_loop (count + pk_n (selector ! sel_of v)) (drop 8 b))
      else if length b > 0 then Inl (GoError ''invalid slice len remaining'')
      else Inr count)"

declare CountBytes_loop.simps [simp del]

definition s8b_CountBytes :: "bytes \<Rightarrow> nat res" where
  "s8b_CountBytes b = CountBytes_loop 0 b"

lemma sel_mask: "drop_bit 60 (v::u64) AND 0xF = drop_bit 60 v"
proof -
  have "(0xF :: u64) = mask 4" by (simp add: mask_eq_exp_minus_1)
  then have "drop_bit 60 v AND 0xF = take_bit 4 (drop_bit 60 v)" by (simp add: take_bit_eq_mask)
  also have "\<dots> = drop_bit 60 v"
    using sel_of_less [of v] by (intro take_bit_eq_selfI) simp
  finally show ?thesis .
qed

lemma unpack_into_eq:
  assumes "j + length (word_vals v) \<le> length dst"
  shows "unpack_into j v dst = Inr (j + length (word_vals v), write_at j (word_vals v) dst)"
proof -
  have "0 < length (word_vals v)" by simp
  with assms have "j < length dst" by linarith
  with assms show ?thesis
    by (simp add: unpack_into_def Let_def sel_mask unpack_word_vals length_word_vals write_at_def add.commute)
qed

lemma DecodeAll_loop_eq:
  assumes "j + length (vals_of ws) \<le> length dst"
  shows "DecodeAll_loop j dst ws = Inr (j + length (vals_of ws), write_at j (vals_of ws) dst)"
  using assms
proof (induction ws arbitrary: j dst)
  case Nil
  then show ?case by (simp add: write_at_def)
next
  case (Cons w ws)
  then have "j + length (word_vals w) \<le> length dst" by simp
  with Cons show ?case
    by (simp add: unpack_into_eq write_at_def ac_simps)
qed

lemma s8b_DecodeAll_ok:
  assumes "length (vals_of ws) \<le> length dst"
  shows "s8b_DecodeAll dst ws = Inr (length (vals_of ws), vals_of ws @ drop (length (vals_of ws)) dst)"
  using DecodeAll_loop_eq [of 0 ws dst] assms by (simp add: s8b_DecodeAll_def)

lemma DecodeBytes_loop_eq:
  assumes "8 dvd length b"
  shows "DecodeBytes_loop j dst b = DecodeAll_loop j dst (words_of b)"
  using assms
proof (induction b arbitrary: j dst rule: words_of.induct)
  case (1 b)
  show ?case
  proof (cases "length b < 8")
    case True
    with "1.prems" have "b = []" by (auto dest: nat_dvd_not_less)
    then show ?thesis by (simp add: DecodeBytes_loop.simps)
  next
    case False
    then have ne: "b \<noteq> []" by auto
    have "8 dvd length (drop 8 b)" using "1.prems" False by auto
    with "1.IH" [OF False] False ne show ?thesis
      by (subst DecodeBytes_loop.simps) (auto simp: words_of_step split: sum.split)
  qed
qed

lemma s8b_DecodeBytesBigEndian_ok:
  assumes "8 dvd length b" and "length (vals_of (words_of b)) \<le> length dst"
  shows "s8b_DecodeBytesBigEndian dst b =
    Inr (length (vals_of (words_of b)), vals_of (words_of b) @ drop (length (vals_of (words_of b))) dst)"
  using assms DecodeAll_loop_eq [of 0 "words_of b" dst]
  by (simp add: s8b_DecodeBytesBigEndian_def DecodeBytes_loop_eq dvd_eq_mod_eq_0)

lemma CountBytes_loop_eq:
  "CountBytes_loop c b =
     (if 8 dvd length b then Inr (c + length (vals_of (words_of b)))
      else Inl (GoError ''invalid slice len remaining''))"
proof (induction b arbitrary: c rule: words_of.induct)
  case (1 b)
  show ?case
  proof (cases "length b < 8")
    case True
    then show ?thesis
      by (subst CountBytes_loop.simps) (auto simp: words_of_short dest: nat_dvd_not_less)
  next
    case False
    moreover have "8 dvd length b \<longleftrightarrow> 8 dvd length (drop 8 b)"
      using False by (simp add: dvd_minus_self not_less)
    ultimately show ?thesis
      by (subst CountBytes_loop.simps)
        (simp add: Let_def not_le "1.IH" words_of_step length_word_vals add.assoc)
  qed
qed

lemma s8b_CountBytes_eq:
  "s8b_CountBytes b =
     (if 8 dvd length b then Inr (length (vals_of (words_of b)))
      else Inl (GoError ''invalid slice len remaining''))"
  by (simp add: s8b_CountBytes_def CountBytes_loop_eq)

section \<open>Memory safety\<close>

text \<open>The outcomes a decoder must not have on any input: a write past its destination or a bad index.\<close>

definition mem_safe :: "'a res \<Rightarrow> bool" where
  "mem_safe r \<longleftrightarrow> r \<noteq> Inl unsafe_write \<and> r \<noteq> Inl (GoPanic ''index out of range'')"

lemma mem_safe_simps [simp]:
  "mem_safe (Inr x)" "mem_safe (Inl (GoError m))"
  by (simp_all add: mem_safe_def unsafe_write_def)

lemma mem_safe_bind:
  "mem_safe r \<Longrightarrow> (\<And>x. r = Inr x \<Longrightarrow> mem_safe (f x)) \<Longrightarrow> mem_safe (bind_res r f)"
  by (cases r) (auto simp: mem_safe_def)

lemma mem_safe_size [simp]: "mem_safe (size_dst n dst)" "mem_safe (size_dst_u64 c dst)"
  by (simp_all add: size_dst_def size_dst_u64_def mem_safe_def unsafe_write_def)

lemma mem_safe_CountBytes [simp]: "mem_safe (s8b_CountBytes b)"
  by (simp add: s8b_CountBytes_eq)

lemma mem_safe_DecodeBytes:
  assumes "s8b_CountBytes b = Inr c" and "c \<le> length dst"
  shows "mem_safe (s8b_DecodeBytesBigEndian dst b)"
  using assms s8b_DecodeBytesBigEndian_ok [of b dst] by (auto simp: s8b_CountBytes_eq split: if_splits)

text \<open>The batch decoders choose the function for a format from a table of four.\<close>

lemma mem_safe_table:
  assumes "length fs = 4" and "\<And>f. f \<in> set fs \<Longrightarrow> mem_safe (f b dst)"
  shows "mem_safe ((fs ! unat (x AND 3 :: u8)) b dst)"
proof (rule assms(2))
  have "unat (x AND 3) \<le> unat (3 :: u8)" unfolding word_le_nat_alt [symmetric] by (rule word_and_le1)
  then show "fs ! unat (x AND 3) \<in> set fs" using assms(1) by (intro nth_mem) simp
qed

end
