(* ===== verification/Iterators.thy ===== *)
theory Iterators
  imports Go_Prelude
begin

text \<open>
  The decoders of the storage engine share one protocol: \<^verbatim>\<open>Next\<close> advances and says whether there is
  a value, \<^verbatim>\<open>Read\<close> returns it, \<^verbatim>\<open>Error\<close> reports what went wrong. The locale \<open>value_decoder\<close> states
  that contract: a state that represents the values \<open>xs\<close> yields them in order and then stops without
  an error. The loops that drive a decoder are modelled and proved here once, and every decoder of
  the development is an interpretation.
\<close>

section \<open>The loops\<close>

text \<open>\<^verbatim>\<open>for d.Next() { out = append(out, d.Read()) }\<close>; \<open>None\<close> when the loop does not end.\<close>

partial_function (option) drain ::
  "('s \<Rightarrow> bool \<times> 's) \<Rightarrow> ('s \<Rightarrow> 'v \<times> 's) \<Rightarrow> 's \<Rightarrow> 'v list \<Rightarrow> ('v list \<times> 's) option" where
  "drain nxt rd s acc =
     (case nxt s of (b, s') \<Rightarrow>
        if b then (case rd s' of (v, s'') \<Rightarrow> drain nxt rd s'' (acc @ [v]))
        else Some (acc, s'))"

text \<open>
  \<^verbatim>\<open>for j < len(a) && tdec.Next() && vdec.Next() { a[j] = (tdec.Read(), vdec.Read()); j++ }\<close>,
  with \<open>n = len(a) - j\<close>: the values decoded and the final states of both decoders.
\<close>

fun decode_pairs ::
  "('t \<Rightarrow> bool \<times> 't) \<Rightarrow> ('t \<Rightarrow> 'x \<times> 't) \<Rightarrow> ('s \<Rightarrow> bool \<times> 's) \<Rightarrow> ('s \<Rightarrow> 'v \<times> 's) \<Rightarrow>
   nat \<Rightarrow> 't \<Rightarrow> 's \<Rightarrow> ('x \<times> 'v) list \<times> 't \<times> 's" where
  "decode_pairs tn tr vn vr 0 t s = ([], t, s)"
| "decode_pairs tn tr vn vr (Suc n) t s =
     (case tn t of (bt, t1) \<Rightarrow>
        if \<not> bt then ([], t1, s)
        else case vn s of (bs, s1) \<Rightarrow>
          if \<not> bs then ([], t1, s1)
          else case tr t1 of (x, t2) \<Rightarrow> case vr s1 of (v, s2) \<Rightarrow>
            case decode_pairs tn tr vn vr n t2 s2 of (r, t3, s3) \<Rightarrow> ((x, v) # r, t3, s3))"

text \<open>The loop ends when each round that delivers a value decreases a well-founded measure.\<close>

lemma drain_terminates:
  assumes "wf R" and "I s"
    and "\<And>s s' v s''. I s \<Longrightarrow> nxt s = (True, s') \<Longrightarrow> rd s' = (v, s'') \<Longrightarrow> I s'' \<and> (s'', s) \<in> R"
  shows "\<exists>r. drain nxt rd s acc = Some r"
  using assms(1,2)
proof (induction s arbitrary: acc rule: wf_induct_rule)
  case (less s)
  obtain b s' where n: "nxt s = (b, s')" by fastforce
  show ?case
  proof (cases b)
    case True
    obtain v s'' where r: "rd s' = (v, s'')" by fastforce
    with assms(3) [OF less.prems, of s' v s''] n True have "I s''" "(s'', s) \<in> R" by simp_all
    with less.IH show ?thesis by (subst drain.simps) (simp add: n r True)
  next
    case False
    then show ?thesis by (subst drain.simps) (simp add: n)
  qed
qed

section \<open>The contract\<close>

locale value_decoder =
  fixes nxt :: "'s \<Rightarrow> bool \<times> 's"
    and rd :: "'s \<Rightarrow> 'v \<times> 's"
    and err :: "'s \<Rightarrow> go_error option"
    and rep :: "'s \<Rightarrow> 'v list \<Rightarrow> bool"
  assumes nxt_done: "rep s [] \<Longrightarrow> \<exists>s'. nxt s = (False, s') \<and> rep s' []"
    and nxt_more: "rep s (x # xs) \<Longrightarrow> \<exists>s' s''. nxt s = (True, s') \<and> rd s' = (x, s'') \<and> rep s'' xs"
    and rep_err: "rep s xs \<Longrightarrow> err s = None"
begin

lemma drain_rep:
  "rep s xs \<Longrightarrow> \<exists>s'. drain nxt rd s acc = Some (acc @ xs, s') \<and> rep s' []"
proof (induction xs arbitrary: s acc)
  case Nil
  with nxt_done [of s] obtain s' where "nxt s = (False, s')" "rep s' []" by blast
  then show ?case by (subst drain.simps) simp
next
  case (Cons x xs)
  then obtain s' s'' where "nxt s = (True, s')" "rd s' = (x, s'')" and r: "rep s'' xs"
    using nxt_more by blast
  moreover from Cons.IH [OF r, of "acc @ [x]"]
  obtain s3 where "drain nxt rd s'' (acc @ [x]) = Some (acc @ x # xs, s3)" "rep s3 []" by auto
  ultimately show ?case by (subst drain.simps) simp
qed

end

locale decoder_pair =
  t: value_decoder tn tr te trep + v: value_decoder vn vr ve vrep
  for tn :: "'t \<Rightarrow> bool \<times> 't" and tr :: "'t \<Rightarrow> 'x \<times> 't" and te trep
    and vn :: "'s \<Rightarrow> bool \<times> 's" and vr :: "'s \<Rightarrow> 'v \<times> 's" and ve vrep
begin

lemma decode_pairs_rep:
  assumes "trep t xs" and "vrep s vs" and "length xs = n" and "length vs = n"
  shows "\<exists>t' s'. decode_pairs tn tr vn vr n t s = (zip xs vs, t', s') \<and> trep t' [] \<and> vrep s' []"
  using assms
proof (induction n arbitrary: t s xs vs)
  case 0
  then show ?case by auto
next
  case (Suc n)
  then obtain x xs' v vs' where xs: "xs = x # xs'" and vs: "vs = v # vs'"
    by (metis length_Suc_conv)
  with Suc.prems obtain t1 t2 where t: "tn t = (True, t1)" "tr t1 = (x, t2)" "trep t2 xs'"
    using t.nxt_more by blast
  from vs Suc.prems obtain s1 s2 where s: "vn s = (True, s1)" "vr s1 = (v, s2)" "vrep s2 vs'"
    using v.nxt_more by blast
  from Suc.IH [OF t(3) s(3)] Suc.prems xs vs
  obtain t' s' where "decode_pairs tn tr vn vr n t2 s2 = (zip xs' vs', t', s')" "trep t' []" "vrep s' []"
    by auto
  with t s xs vs show ?case by simp
qed

end

end
