(* ===== verification/Simple8b_Stream.thy ===== *)
theory Simple8b_Stream
  imports Simple8b Iterators
begin

unbundle bit_operations_syntax

text \<open>
  The streaming half of \<^verbatim>\<open>pkg/encoding/simple8b/encoding.go\<close>: the \<^verbatim>\<open>Encoder\<close>, which buffers up to 240
  values and writes one word each time the buffer is full, the \<^verbatim>\<open>Decoder\<close>, and the helpers that walk
  an encoded slice. The encoder is shown to keep, in its bytes and its buffer, exactly the values
  written so far; the decoder is an interpretation of \<open>value_decoder\<close>.
\<close>

section \<open>Encoder\<close>

text \<open>
  \<open>e_cap\<close> is the capacity of \<^verbatim>\<open>buf\<close>, which \<^verbatim>\<open>Reset\<close> needs to re-slice it to 240; the values this
  brings back are never read and the model fills in zeros. \<open>e_bytes\<close> is the array behind the slice
  \<^verbatim>\<open>bytes\<close> and \<open>e_len\<close> the slice's length: \<^verbatim>\<open>SetValues\<close> shortens the slice and keeps the array. An
  append that does not fit grows the array by just what it needs (Go may leave more room, which no
  operation can observe).
\<close>

record s8b_encoder =
  e_buf :: "u64 list"
  e_cap :: nat
  e_h :: nat
  e_t :: nat
  e_bp :: nat
  e_bytes :: bytes
  e_len :: nat
  e_b :: bytes

definition reslice :: "nat \<Rightarrow> 'a::zero list \<Rightarrow> 'a list" where
  "reslice n xs = take n xs @ replicate (n - length xs) 0"

definition append_slice :: "nat \<Rightarrow> 'a list \<Rightarrow> 'a list \<Rightarrow> 'a list" where
  "append_slice len xs ys =
     (if len + length ys \<le> length xs then write_at len ys xs else take len xs @ ys)"

definition s8b_NewEncoder :: s8b_encoder where
  "s8b_NewEncoder = \<lparr>e_buf = replicate 240 0, e_cap = 240, e_h = 0, e_t = 0, e_bp = 0,
     e_bytes = replicate 128 0, e_len = 128, e_b = replicate 8 0\<rparr>"

definition Encoder_SetValues :: "u64 list \<Rightarrow> nat \<Rightarrow> s8b_encoder \<Rightarrow> s8b_encoder" where
  "Encoder_SetValues v cap_v e =
     e\<lparr>e_buf := v, e_cap := cap_v, e_t := length v, e_h := 0, e_len := 0\<rparr>"

definition Encoder_Reset :: "s8b_encoder \<Rightarrow> s8b_encoder res" where
  "Encoder_Reset e =
     (if e_cap e < 240 \<or> length (e_bytes e) < 128 then Inl (GoPanic ''slice bounds out of range'')
      else Inr (e\<lparr>e_t := 0, e_h := 0, e_bp := 0, e_buf := reslice 240 (e_buf e),
                  e_b := reslice 8 (e_b e), e_len := 128\<rparr>))"

text \<open>\<^verbatim>\<open>flush\<close> stores the encoded word after the bytes written so far, then moves the head forward.\<close>

definition Encoder_store :: "u64 \<Rightarrow> s8b_encoder \<Rightarrow> s8b_encoder" where
  "Encoder_store encoded e =
     (let b = put_u64 encoded in
      if e_bp e + 8 > e_len e
      then e\<lparr>e_b := b, e_bytes := append_slice (e_len e) (e_bytes e) b,
             e_len := e_len e + 8, e_bp := e_len e + 8\<rparr>
      else e\<lparr>e_b := b, e_bytes := write_at (e_bp e) b (e_bytes e), e_bp := e_bp e + 8\<rparr>)"

definition Encoder_advance :: "nat \<Rightarrow> s8b_encoder \<Rightarrow> s8b_encoder" where
  "Encoder_advance n e =
     (let e1 = e\<lparr>e_h := e_h e + n\<rparr> in if e_h e1 = e_t e1 then e1\<lparr>e_h := 0, e_t := 0\<rparr> else e1)"

definition Encoder_flush :: "s8b_encoder \<Rightarrow> s8b_encoder res" where
  "Encoder_flush e =
     (if e_t e = 0 then Inr e
      else if e_h e > e_t e \<or> e_t e > length (e_buf e) then Inl (GoPanic ''slice bounds out of range'')
      else case s8b_Encode (drop (e_h e) (take (e_t e) (e_buf e))) of
             Inl er \<Rightarrow> Inl er
           | Inr (encoded, n) \<Rightarrow> Inr (Encoder_advance n (Encoder_store encoded e)))"

text \<open>\<^verbatim>\<open>Write\<close> moves the buffered values to the front when the buffer is full but has room there.\<close>

definition Encoder_shift :: "s8b_encoder \<Rightarrow> s8b_encoder" where
  "Encoder_shift e =
     (if e_t e \<ge> length (e_buf e)
      then e\<lparr>e_buf := write_at 0 (drop (e_h e) (e_buf e)) (e_buf e), e_t := e_t e - e_h e, e_h := 0\<rparr>
      else e)"

definition Encoder_Write :: "u64 \<Rightarrow> s8b_encoder \<Rightarrow> s8b_encoder res" where
  "Encoder_Write v e =
     (case (if e_t e \<ge> length (e_buf e) then Encoder_flush e else Inr e) of
        Inl er \<Rightarrow> Inl er
      | Inr e1 \<Rightarrow>
          let e2 = Encoder_shift e1
          in if e_t e2 \<ge> length (e_buf e2) then Inl (GoPanic ''index out of range'')
             else Inr (e2\<lparr>e_buf := (e_buf e2)[e_t e2 := v], e_t := e_t e2 + 1\<rparr>))"

lemma Encoder_store_frame [simp]:
  "e_h (Encoder_store w e) = e_h e" "e_t (Encoder_store w e) = e_t e"
  "e_buf (Encoder_store w e) = e_buf e" "e_cap (Encoder_store w e) = e_cap e"
  by (simp_all add: Encoder_store_def Let_def)

lemma Encoder_advance_frame [simp]:
  "e_bp (Encoder_advance n e) = e_bp e" "e_bytes (Encoder_advance n e) = e_bytes e"
  "e_len (Encoder_advance n e) = e_len e" "e_buf (Encoder_advance n e) = e_buf e"
  "e_cap (Encoder_advance n e) = e_cap e"
  by (simp_all add: Encoder_advance_def Let_def)

lemma Encoder_advance_ht:
  "e_h (Encoder_advance n e) = (if e_h e + n = e_t e then 0 else e_h e + n)"
  "e_t (Encoder_advance n e) = (if e_h e + n = e_t e then 0 else e_t e)"
  by (simp_all add: Encoder_advance_def Let_def)

text \<open>Each flush of a non-empty buffer leaves less to flush, so the loop of \<^verbatim>\<open>Bytes\<close> ends.\<close>

definition enc_pending :: "s8b_encoder \<Rightarrow> nat" where
  "enc_pending e = (if e_t e = 0 then 0 else Suc (e_t e - e_h e))"

lemma Encoder_flush_pending:
  assumes "0 < e_t e" and "Encoder_flush e = Inr e'"
  shows "enc_pending e' < enc_pending e"
proof -
  let ?src = "drop (e_h e) (take (e_t e) (e_buf e))"
  from assms have ht: "e_h e \<le> e_t e" "e_t e \<le> length (e_buf e)"
    by (auto simp: Encoder_flush_def split: if_splits)
  with assms obtain w n where enc: "s8b_Encode ?src = Inr (w, n)"
    by (auto simp: Encoder_flush_def split: if_splits sum.splits)
  have len: "length ?src = e_t e - e_h e" using ht by simp
  have n: "n \<le> e_t e - e_h e" using s8b_Encode_Inr(1) [OF enc] len by simp
  have pos: "0 < n" if "e_h e < e_t e"
  proof -
    have "?src \<noteq> []" using that ht by simp
    from s8b_Encode_Inr(2) [OF enc this] show ?thesis by simp
  qed
  have "e_h e + n = e_t e \<or> 0 < n \<and> e_h e + n < e_t e"
    using ht n pos by (cases "e_h e < e_t e") auto
  with assms enc ht show ?thesis
    by (auto simp: Encoder_flush_def enc_pending_def Encoder_advance_ht split: if_splits)
qed

function Encoder_Bytes_loop :: "s8b_encoder \<Rightarrow> s8b_encoder res" where
  "Encoder_Bytes_loop e =
     (if e_t e > 0 then (case Encoder_flush e of Inl er \<Rightarrow> Inl er | Inr e' \<Rightarrow> Encoder_Bytes_loop e')
      else Inr e)"
  by pat_completeness auto
termination
  by (relation "measure enc_pending") (simp_all add: Encoder_flush_pending)

declare Encoder_Bytes_loop.simps [simp del]

definition Encoder_Bytes :: "s8b_encoder \<Rightarrow> (bytes \<times> s8b_encoder) res" where
  "Encoder_Bytes e = (case Encoder_Bytes_loop e of Inl er \<Rightarrow> Inl er
     | Inr e' \<Rightarrow> if e_bp e' > length (e_bytes e') then Inl (GoPanic ''slice bounds out of range'')
                else Inr (take (e_bp e') (e_bytes e'), e'))"

subsection \<open>What the encoder holds\<close>

text \<open>
  The values written so far are those of the flushed words followed by the buffered ones. The
  invariant is that of an encoder made by \<^verbatim>\<open>NewEncoder\<close> or \<^verbatim>\<open>Reset\<close> and fed by \<^verbatim>\<open>Write\<close>.
\<close>

definition enc_inv :: "s8b_encoder \<Rightarrow> bool" where
  "enc_inv e \<longleftrightarrow> length (e_buf e) = 240 \<and> e_cap e \<ge> 240 \<and> e_h e \<le> e_t e \<and> e_t e \<le> 240 \<and>
     (0 < e_t e \<longrightarrow> e_h e < e_t e) \<and> 8 dvd e_bp e \<and> 8 dvd e_len e \<and> e_bp e \<le> e_len e \<and>
     e_len e \<le> length (e_bytes e) \<and> 128 \<le> length (e_bytes e)"

definition enc_vals :: "s8b_encoder \<Rightarrow> u64 list" where
  "enc_vals e = vals_of (words_of (take (e_bp e) (e_bytes e))) @ drop (e_h e) (take (e_t e) (e_buf e))"

lemma enc_inv_New: "enc_inv s8b_NewEncoder" "enc_vals s8b_NewEncoder = []"
  by (simp_all add: enc_inv_def enc_vals_def s8b_NewEncoder_def)

lemma Encoder_Reset_inv:
  assumes "enc_inv e"
  shows "\<exists>e'. Encoder_Reset e = Inr e' \<and> enc_inv e' \<and> enc_vals e' = []"
  using assms by (auto simp: enc_inv_def enc_vals_def Encoder_Reset_def reslice_def)

text \<open>Appending one word after the flushed ones, in place or by growing the slice.\<close>

lemma flush_word_in_place:
  assumes "8 dvd bp" and "bp + 8 \<le> length bs"
  shows "words_of (take (bp + 8) (write_at bp (put_u64 w) bs)) = words_of (take bp bs) @ [w]"
  using take_write_at [of bp "put_u64 w" bs] assms words_of_put [of w "[]"]
  by (simp add: words_of_append min_absorb2)

lemma flush_word_append:
  assumes "8 dvd len" and "len \<le> length bs"
  shows "words_of (take (len + 8) (append_slice len bs (put_u64 w))) = words_of (take len bs) @ [w]"
proof (cases "len + 8 \<le> length bs")
  case True
  with flush_word_in_place [OF assms(1)] show ?thesis by (simp add: append_slice_def)
next
  case False
  with assms words_of_put [of w "[]"] show ?thesis
    by (simp add: append_slice_def words_of_append min_absorb2)
qed

text \<open>The invariant in two halves: the bytes, which \<open>Encoder_store\<close> changes, and the buffer.\<close>

definition bytes_inv :: "s8b_encoder \<Rightarrow> bool" where
  "bytes_inv e \<longleftrightarrow> 8 dvd e_bp e \<and> 8 dvd e_len e \<and> e_bp e \<le> e_len e \<and>
     e_len e \<le> length (e_bytes e) \<and> 128 \<le> length (e_bytes e)"

definition buf_inv :: "s8b_encoder \<Rightarrow> bool" where
  "buf_inv e \<longleftrightarrow> length (e_buf e) = 240 \<and> e_cap e \<ge> 240 \<and> e_h e \<le> e_t e \<and> e_t e \<le> 240 \<and>
     (0 < e_t e \<longrightarrow> e_h e < e_t e)"

lemma enc_inv_split: "enc_inv e \<longleftrightarrow> buf_inv e \<and> bytes_inv e"
  by (auto simp: enc_inv_def buf_inv_def bytes_inv_def)

lemma Encoder_store_ok:
  assumes "bytes_inv e"
  shows "bytes_inv (Encoder_store w e)"
    and "words_of (take (e_bp (Encoder_store w e)) (e_bytes (Encoder_store w e))) =
         words_of (take (e_bp e) (e_bytes e)) @ [w]"
proof -
  have "bytes_inv (Encoder_store w e) \<and>
      words_of (take (e_bp (Encoder_store w e)) (e_bytes (Encoder_store w e))) =
         words_of (take (e_bp e) (e_bytes e)) @ [w]"
  proof (cases "e_bp e + 8 \<le> e_len e")
    case True
    with assms flush_word_in_place [of "e_bp e" "e_bytes e" w] show ?thesis
      by (simp add: Encoder_store_def Let_def bytes_inv_def)
  next
    case False
    with assms have "e_bp e = e_len e"
      unfolding bytes_inv_def by (auto simp: dvd_def)
    moreover have "length (append_slice (e_len e) (e_bytes e) (put_u64 w)) \<ge> max (e_len e + 8) (length (e_bytes e))"
      using assms by (auto simp: append_slice_def bytes_inv_def)
    ultimately show ?thesis
      using False assms flush_word_append [of "e_len e" "e_bytes e" w]
      by (simp add: Encoder_store_def Let_def bytes_inv_def)
  qed
  then show "bytes_inv (Encoder_store w e)"
    and "words_of (take (e_bp (Encoder_store w e)) (e_bytes (Encoder_store w e))) =
         words_of (take (e_bp e) (e_bytes e)) @ [w]" by simp_all
qed

lemma Encoder_flush_ok:
  assumes "enc_inv e" and "small60 (enc_vals e)"
  shows "\<exists>e'. Encoder_flush e = Inr e' \<and> enc_inv e' \<and> enc_vals e' = enc_vals e \<and>
    (0 < e_t e \<longrightarrow> 0 < e_h e' \<or> e_t e' = 0)"
proof (cases "e_t e = 0")
  case True
  with assms show ?thesis by (simp add: Encoder_flush_def)
next
  case False
  let ?src = "drop (e_h e) (take (e_t e) (e_buf e))"
  from assms(1) have buf: "buf_inv e" and bytes: "bytes_inv e" by (simp_all add: enc_inv_split)
  have len: "length ?src = e_t e - e_h e" using buf by (simp add: buf_inv_def)
  then have ne: "?src \<noteq> []" using buf False by (auto simp: buf_inv_def)
  have "unat (hd ?src) < 2 ^ 60"
    using assms(2) ne by (cases ?src) (auto simp: enc_vals_def)
  with s8b_Encode_encodes [OF ne] obtain w n where
    enc: "s8b_Encode ?src = Inr (w, n)" and n: "0 < n" "n \<le> length ?src" "word_vals w = take n ?src"
    by (auto simp: encodes_def)
  let ?e = "Encoder_advance n (Encoder_store w e)"
  have rest: "word_vals w @ drop (e_h e + n) (take (e_t e) (e_buf e)) = ?src"
    unfolding n(3) by (metis append_take_drop_id drop_drop add.commute)
  have "Encoder_flush e = Inr ?e"
    using buf False enc by (simp add: Encoder_flush_def buf_inv_def)
  moreover have "enc_inv ?e"
    using Encoder_store_ok(1) [OF bytes, of w] buf n(1,2) len
    by (auto simp: enc_inv_split buf_inv_def bytes_inv_def Encoder_advance_ht)
  moreover have "enc_vals ?e = enc_vals e"
    using Encoder_store_ok(2) [OF bytes, of w] rest
    by (cases "e_h e + n = e_t e") (auto simp: enc_vals_def Encoder_advance_ht)
  moreover have "0 < e_h ?e \<or> e_t ?e = 0"
    using n(1) by (simp add: Encoder_advance_ht)
  ultimately show ?thesis by blast
qed

lemma Encoder_Write_ok:
  assumes "enc_inv e" and "small60 (enc_vals e)"
  shows "\<exists>e'. Encoder_Write v e = Inr e' \<and> enc_inv e' \<and> enc_vals e' = enc_vals e @ [v]"
proof -
  obtain e1 where e1: "(if e_t e \<ge> length (e_buf e) then Encoder_flush e else Inr e) = Inr e1"
    and inv: "enc_inv e1" and vals: "enc_vals e1 = enc_vals e"
    and room: "e_t e1 < 240 \<or> 0 < e_h e1"
  proof (cases "e_t e \<ge> length (e_buf e)")
    case True
    with assms(1) have "0 < e_t e" by (simp add: enc_inv_def)
    with Encoder_flush_ok [OF assms] True that show ?thesis by auto
  next
    case False
    with assms(1) that [of e] show ?thesis by (simp add: enc_inv_def)
  qed
  let ?e2 = "Encoder_shift e1"
  let ?e = "?e2\<lparr>e_buf := (e_buf ?e2)[e_t ?e2 := v], e_t := e_t ?e2 + 1\<rparr>"
  have buf: "buf_inv e1" and bytes: "bytes_inv e1" using inv by (simp_all add: enc_inv_split)
  have shift: "buf_inv ?e2" "e_t ?e2 < 240" "drop (e_h ?e2) (take (e_t ?e2) (e_buf ?e2)) =
      drop (e_h e1) (take (e_t e1) (e_buf e1))"
    using buf room by (auto simp: Encoder_shift_def buf_inv_def)
  have frame: "e_bp ?e2 = e_bp e1" "e_bytes ?e2 = e_bytes e1" "e_len ?e2 = e_len e1"
    by (simp_all add: Encoder_shift_def)
  have "drop (e_h ?e2) (take (e_t ?e2 + 1) ((e_buf ?e2)[e_t ?e2 := v])) =
      drop (e_h ?e2) (take (e_t ?e2) (e_buf ?e2)) @ [v]"
    using shift(1,2) by (simp add: buf_inv_def take_Suc_conv_app_nth)
  then have "enc_vals ?e = enc_vals e @ [v]"
    using vals shift(3) frame by (simp add: enc_vals_def)
  moreover have "enc_inv ?e"
    using shift(1,2) bytes frame by (simp add: enc_inv_split buf_inv_def bytes_inv_def)
  moreover have "Encoder_Write v e = Inr ?e"
    using e1 shift(1,2) by (simp add: Encoder_Write_def Let_def buf_inv_def)
  ultimately show ?thesis by blast
qed

primrec write_all :: "('e \<Rightarrow> u64 \<Rightarrow> 'e res) \<Rightarrow> 'e \<Rightarrow> u64 list \<Rightarrow> 'e res" where
  "write_all wr e [] = Inr e"
| "write_all wr e (v # vs) = (case wr e v of Inl er \<Rightarrow> Inl er | Inr e' \<Rightarrow> write_all wr e' vs)"

lemma Encoder_Bytes_loop_ok:
  assumes "enc_inv e" and "small60 (enc_vals e)"
  shows "\<exists>e'. Encoder_Bytes_loop e = Inr e' \<and> enc_inv e' \<and> enc_vals e' = enc_vals e \<and> e_t e' = 0"
  using assms
proof (induction e rule: Encoder_Bytes_loop.induct)
  case (1 e)
  show ?case
  proof (cases "0 < e_t e")
    case True
    from Encoder_flush_ok [OF "1.prems"] obtain e1
      where "Encoder_flush e = Inr e1" "enc_inv e1" "enc_vals e1 = enc_vals e" by blast
    with "1.IH" [OF True] "1.prems"(2) True show ?thesis
      by (subst Encoder_Bytes_loop.simps) auto
  next
    case False
    with "1.prems" show ?thesis by (subst Encoder_Bytes_loop.simps) auto
  qed
qed

lemma Encoder_Bytes_ok:
  assumes "enc_inv e" and "small60 (enc_vals e)"
  shows "\<exists>b e'. Encoder_Bytes e = Inr (b, e') \<and> enc_inv e' \<and> enc_vals e' = enc_vals e \<and>
    8 dvd length b \<and> vals_of (words_of b) = enc_vals e"
proof -
  from Encoder_Bytes_loop_ok [OF assms] obtain e' where
    "Encoder_Bytes_loop e = Inr e'" and inv: "enc_inv e'" and v: "enc_vals e' = enc_vals e" "e_t e' = 0"
    by blast
  moreover have "length (take (e_bp e') (e_bytes e')) = e_bp e'" "8 dvd e_bp e'" "e_bp e' \<le> length (e_bytes e')"
    using inv by (auto simp: enc_inv_def)
  moreover have "vals_of (words_of (take (e_bp e') (e_bytes e'))) = enc_vals e"
    using v by (simp add: enc_vals_def)
  ultimately show ?thesis
    by (simp add: Encoder_Bytes_def)
qed

section \<open>Decoder\<close>

record s8b_decoder =
  d_bytes :: bytes
  d_buf :: "u64 list"
  d_i :: nat
  d_n :: nat

definition s8b_NewDecoder :: "bytes \<Rightarrow> s8b_decoder" where
  "s8b_NewDecoder b = \<lparr>d_bytes = b, d_buf = replicate 240 0, d_i = 0, d_n = 0\<rparr>"

definition Decoder_SetBytes :: "bytes \<Rightarrow> s8b_decoder \<Rightarrow> s8b_decoder" where
  "Decoder_SetBytes b d = d\<lparr>d_bytes := b, d_i := 0, d_n := 0\<rparr>"

definition Decoder_read :: "s8b_decoder \<Rightarrow> s8b_decoder" where
  "Decoder_read d =
     (if length (d_bytes d) < 8 then d
      else case s8b_Decode (d_buf d) (get_u64 (take 8 (d_bytes d))) of
             Inl _ \<Rightarrow> d\<lparr>d_bytes := drop 8 (d_bytes d), d_n := 0, d_i := 0\<rparr>
           | Inr (n, buf) \<Rightarrow> d\<lparr>d_bytes := drop 8 (d_bytes d), d_buf := buf, d_n := n, d_i := 0\<rparr>)"

definition Decoder_Next :: "s8b_decoder \<Rightarrow> bool \<times> s8b_decoder" where
  "Decoder_Next d =
     (let d1 = d\<lparr>d_i := d_i d + 1\<rparr>;
          d2 = (if d_i d1 \<ge> d_n d1 then Decoder_read d1 else d1)
      in (length (d_bytes d2) \<ge> 8 \<or> d_i d2 < d_n d2, d2))"

text \<open>\<^verbatim>\<open>Read\<close> indexes the 240-element array; the state is unchanged.\<close>

definition Decoder_Read :: "s8b_decoder \<Rightarrow> u64 \<times> s8b_decoder" where
  "Decoder_Read d = (d_buf d ! d_i d, d)"

definition dec_rep :: "s8b_decoder \<Rightarrow> u64 list \<Rightarrow> bool" where
  "dec_rep d xs \<longleftrightarrow> length (d_buf d) = 240 \<and> d_n d \<le> 240 \<and>
     xs = drop (d_i d + 1) (take (d_n d) (d_buf d)) @ vals_of (words_of (d_bytes d))"

lemma get_u64_take8 [simp]: "get_u64 (take 8 b) = get_u64 b"
  by (simp add: get_u64_def)

lemma dec_rep_New: "dec_rep (s8b_NewDecoder b) (vals_of (words_of b))"
  by (simp add: dec_rep_def s8b_NewDecoder_def)

lemma dec_rep_SetBytes:
  "length (d_buf d) = 240 \<Longrightarrow> dec_rep (Decoder_SetBytes b d) (vals_of (words_of b))"
  by (simp add: dec_rep_def Decoder_SetBytes_def)

interpretation s8b_dec: value_decoder Decoder_Next Decoder_Read "\<lambda>_. None" dec_rep
proof
  fix s x xs
  assume "dec_rep s []"
  then have "d_n s \<le> d_i s + 1" "words_of (d_bytes s) = []" and b: "length (d_buf s) = 240" "d_n s \<le> 240"
    by (auto simp: dec_rep_def vals_of_def)
  moreover from this have "length (d_bytes s) < 8"
    by (metis list.discI not_less words_of_step)
  ultimately show "\<exists>s'. Decoder_Next s = (False, s') \<and> dec_rep s' []"
    by (auto simp: Decoder_Next_def Decoder_read_def Let_def dec_rep_def)
next
  fix s x xs
  assume rep: "dec_rep s (x # xs)"
  show "\<exists>s' s''. Decoder_Next s = (True, s') \<and> Decoder_Read s' = (x, s'') \<and> dec_rep s'' xs"
  proof (cases "d_i s + 1 < d_n s")
    case True
    with rep have "drop (d_i s + 1) (take (d_n s) (d_buf s)) =
        d_buf s ! (d_i s + 1) # drop (d_i s + 2) (take (d_n s) (d_buf s))"
      by (simp add: dec_rep_def Cons_nth_drop_Suc [symmetric])
    with True rep show ?thesis
      by (auto simp: Decoder_Next_def Decoder_Read_def Let_def dec_rep_def)
  next
    case False
    with rep have v: "vals_of (words_of (d_bytes s)) = x # xs" and b: "length (d_buf s) = 240"
      by (auto simp: dec_rep_def)
    then have len: "8 \<le> length (d_bytes s)"
      by (metis list.discI not_less vals_of_simps(1) words_of_short)
    let ?w = "get_u64 (d_bytes s)"
    obtain y ys where w: "word_vals ?w = y # ys" by (cases "word_vals ?w") auto
    with length_word_vals_le [of ?w] have l: "length ys < 240" by simp
    with v len w have "x = y" "xs = ys @ vals_of (words_of (drop 8 (d_bytes s)))"
      by (auto simp: words_of_step)
    with False len w b l show ?thesis
      by (auto simp: Decoder_Next_def Decoder_Read_def Decoder_read_def Let_def dec_rep_def s8b_Decode_vals)
  qed
qed simp

section \<open>Walking an encoded slice\<close>

text \<open>
  \<^verbatim>\<open>ForEach\<close> calls \<^verbatim>\<open>fn\<close> on each value until it returns false; the callback is a state transformer.
  The mask is \<^verbatim>\<open>uint64(^(int64(^0) << bits))\<close>.
\<close>

definition lane_mask :: "nat \<Rightarrow> u64" where
  "lane_mask bits = NOT (push_bit bits (NOT 0))"

primrec ForEach_word :: "nat \<Rightarrow> nat \<Rightarrow> ('s \<Rightarrow> u64 \<Rightarrow> bool \<times> 's) \<Rightarrow> u64 \<Rightarrow> 's \<Rightarrow> bool \<times> 's" where
  "ForEach_word bits 0 fn v s = (True, s)"
| "ForEach_word bits (Suc n) fn v s =
     (case fn s (v AND lane_mask bits) of (ok, s') \<Rightarrow>
        if \<not> ok then (False, s') else ForEach_word bits n fn (drop_bit bits v) s')"

fun s8b_ForEach :: "bytes \<Rightarrow> ('s \<Rightarrow> u64 \<Rightarrow> bool \<times> 's) \<Rightarrow> 's \<Rightarrow> 's res" where
  "s8b_ForEach b fn s =
     (if length b \<ge> 8 then
        (let v = get_u64 b; sel = sel_of v in
         if sel \<ge> 16 then Inl (GoError ''invalid selector value'')
         else case ForEach_word (pk_bit (selector ! sel)) (pk_n (selector ! sel)) fn v s of
                (ok, s') \<Rightarrow> if \<not> ok then Inr s' else s8b_ForEach (drop 8 b) fn s')
      else Inr s)"

declare s8b_ForEach.simps [simp del]

primrec CountBetween_word :: "nat \<Rightarrow> nat \<Rightarrow> u64 \<Rightarrow> u64 \<Rightarrow> u64 \<Rightarrow> nat \<Rightarrow> nat" where
  "CountBetween_word bits 0 lo hi v count = count"
| "CountBetween_word bits (Suc n) lo hi v count =
     (let val = v AND lane_mask bits in
      if val \<ge> lo \<and> val < hi then CountBetween_word bits n lo hi (drop_bit bits v) (count + 1)
      else if val > hi then count
      else CountBetween_word bits n lo hi (drop_bit bits v) count)"

fun CountBytesBetween_loop :: "u64 \<Rightarrow> u64 \<Rightarrow> nat \<Rightarrow> bytes \<Rightarrow> nat res" where
  "CountBytesBetween_loop lo hi count b =
     (if length b \<ge> 8 then
        (let v = get_u64 b; sel = sel_of v in
         if sel \<ge> 16 then Inl (GoError ''invalid selector value'')
         else if push_bit (pk_bit (selector ! sel)) 1 - 1 < lo
              then CountBytesBetween_loop lo hi count (drop 8 b)
         else CountBytesBetween_loop lo hi
                (CountBetween_word (pk_bit (selector ! sel)) (pk_n (selector ! sel)) lo hi v count)
                (drop 8 b))
      else if length b > 0 then Inl (GoError ''invalid slice len remaining'')
      else Inr count)"

declare CountBytesBetween_loop.simps [simp del]

definition s8b_CountBytesBetween :: "bytes \<Rightarrow> u64 \<Rightarrow> u64 \<Rightarrow> nat res" where
  "s8b_CountBytesBetween b lo hi = CountBytesBetween_loop lo hi 0 b"

lemma lane_mask_eq: "lane_mask bits = mask bits"
  by (rule bit_word_eqI) (auto simp: lane_mask_def bit_simps)

text \<open>
  What the walkers see of a word: the lanes of its selector's width. For the lane formats these are
  the values of the word; for the run formats, whose width is 0, they are zeros.
\<close>

definition walk_vals :: "u64 \<Rightarrow> u64 list" where
  "walk_vals v = unlanes (pk_bit (selector ! sel_of v)) (pk_n (selector ! sel_of v)) v"

lemma unlanes_0: "unlanes 0 n v = replicate n 0"
  by (induction n arbitrary: v) simp_all

lemma walk_vals_eq:
  "walk_vals v = (if sel_of v \<ge> 2 then word_vals v else replicate (length (word_vals v)) 0)"
proof -
  have "pk_unpack (selector ! s) v [] = unlanes (pk_bit (selector ! s)) (pk_n (selector ! s)) v"
    if "2 \<le> s" "s < 16" for s
    using sel_cases [OF that(2)] that(1)
    by (elim disjE; simp add: selector_def unpack_vals_all)
  moreover have "pk_bit (selector ! s) = 0" if "s < 2" for s
    using that by (cases s; cases "s - 1") (auto simp: selector_def)
  ultimately show ?thesis
    by (auto simp: walk_vals_def word_vals_def unlanes_0 not_le
        length_word_vals [unfolded word_vals_def])
qed

lemma ForEach_word_collect:
  "ForEach_word bits n (\<lambda>s v. (True, s @ [v])) v s = (True, s @ unlanes bits n v)"
  by (induction n arbitrary: v s) (simp_all add: lane_mask_eq take_bit_eq_mask)

lemma s8b_ForEach_collect:
  "s8b_ForEach b (\<lambda>s v. (True, s @ [v])) s = Inr (s @ concat (map walk_vals (words_of b)))"
proof (induction b arbitrary: s rule: words_of.induct)
  case (1 b)
  show ?case
  proof (cases "length b < 8")
    case True
    then show ?thesis by (subst s8b_ForEach.simps) (simp add: words_of_short)
  next
    case False
    then show ?thesis
      by (subst s8b_ForEach.simps)
        (simp add: Let_def not_le ForEach_word_collect "1.IH" words_of_step
          walk_vals_def [of "get_u64 b"])
  qed
qed

lemma CountBetween_word_eq:
  "\<forall>x \<in> set (unlanes bits n v). x \<le> hi \<Longrightarrow>
   CountBetween_word bits n lo hi v count = count + length (filter (\<lambda>x. lo \<le> x \<and> x < hi) (unlanes bits n v))"
  by (induction n arbitrary: v count) (auto simp: Let_def lane_mask_eq take_bit_eq_mask)

lemma unlanes_le_mask: "x \<in> set (unlanes bits n v) \<Longrightarrow> bits < 64 \<Longrightarrow> x \<le> push_bit bits 1 - 1"
proof (induction n arbitrary: v)
  case (Suc n)
  have "take_bit bits v \<le> push_bit bits 1 - 1"
    by (simp add: take_bit_eq_mask flip: mask_eq_exp_minus_1) (rule word_and_le1)
  with Suc show ?case by auto
qed simp

text \<open>
  \<^verbatim>\<open>CountBytesBetween\<close> stops looking at a word at the first value above \<^verbatim>\<open>max\<close>; on slices where no
  value is above \<^verbatim>\<open>max\<close> it counts what the walker sees in the half-open interval.
\<close>

lemma CountBytesBetween_eq:
  assumes "8 dvd length b" and "\<forall>x \<in> set (concat (map walk_vals (words_of b))). x \<le> hi"
  shows "CountBytesBetween_loop lo hi count b =
    Inr (count + length (filter (\<lambda>x. lo \<le> x \<and> x < hi) (concat (map walk_vals (words_of b)))))"
  using assms
proof (induction b arbitrary: count rule: words_of.induct)
  case (1 b)
  show ?case
  proof (cases "length b < 8")
    case True
    with "1.prems"(1) have "b = []" by (auto dest: nat_dvd_not_less)
    then show ?thesis by (subst CountBytesBetween_loop.simps) simp
  next
    case False
    let ?v = "get_u64 b"
    let ?bits = "pk_bit (selector ! sel_of ?v)" and ?n = "pk_n (selector ! sel_of ?v)"
    have w: "words_of b = ?v # words_of (drop 8 b)" using False by (simp add: words_of_step)
    have IH: "CountBytesBetween_loop lo hi c (drop 8 b) =
      Inr (c + length (filter (\<lambda>x. lo \<le> x \<and> x < hi) (concat (map walk_vals (words_of (drop 8 b))))))" for c
      using "1.IH" [OF False, of c] "1.prems" False w by (auto simp: dvd_minus_self)
    have bits: "?bits < 64"
      using sel_cases [OF sel_of_less [of ?v]] by (elim disjE; simp add: selector_def)
    have vals: "CountBetween_word ?bits ?n lo hi ?v count =
        count + length (filter (\<lambda>x. lo \<le> x \<and> x < hi) (walk_vals ?v))"
      unfolding walk_vals_def by (rule CountBetween_word_eq) (use "1.prems"(2) w in \<open>auto simp: walk_vals_def\<close>)
    have "x < lo" if "push_bit ?bits 1 - 1 < lo" "x \<in> set (walk_vals ?v)" for x
      by (rule le_less_trans [OF unlanes_le_mask that(1)])
        (use that(2) bits in \<open>simp_all add: walk_vals_def\<close>)
    then have skip: "filter (\<lambda>x. lo \<le> x \<and> x < hi) (walk_vals ?v) = []" if "push_bit ?bits 1 - 1 < lo"
      using that by (auto simp: filter_empty_conv not_le)
    show ?thesis
      using False IH vals skip unfolding w
      by (subst CountBytesBetween_loop.simps) (simp add: Let_def not_le)
  qed
qed

section \<open>Properties\<close>

lemma write_all_ok:
  assumes "enc_inv e" and "small60 (enc_vals e @ xs)"
  shows "\<exists>e'. write_all (\<lambda>e v. Encoder_Write v e) e xs = Inr e' \<and> enc_inv e' \<and> enc_vals e' = enc_vals e @ xs"
  using assms
proof (induction xs arbitrary: e)
  case (Cons x xs)
  then obtain e1 where "Encoder_Write x e = Inr e1" "enc_inv e1" "enc_vals e1 = enc_vals e @ [x]"
    using Encoder_Write_ok [of e x] by auto
  with Cons.IH [of e1] Cons.prems show ?case by auto
qed auto

text \<open>
  C26: \<^verbatim>\<open>EncodeAll\<close> succeeds on every list of values below \<open>2 ^ 60\<close>, needs no more words than there are
  values, writes them over the front of its argument, and \<^verbatim>\<open>DecodeAll\<close> into any destination that is long
  enough restores exactly the values, reports their number and leaves the rest of the destination alone.
\<close>

theorem s8b_EncodeAll_DecodeAll:
  assumes "small60 src" and "length src \<le> length dst"
  shows "\<exists>ws. s8b_EncodeAll src = (Inr ws, ws @ drop (length ws) src) \<and> length ws \<le> length src \<and>
    s8b_DecodeAll dst ws = Inr (length src, src @ drop (length src) dst)"
proof -
  from s8b_EncodeAll_ok [OF assms(1)] obtain ws where "s8b_EncodeAll src = (Inr ws, ws @ drop (length ws) src)"
    "vals_of ws = src" "length ws \<le> length src" by blast
  with s8b_DecodeAll_ok [of ws dst] assms(2) show ?thesis by auto
qed

theorem s8b_EncodeAll_DecodeAll_witness:
  "\<exists>ws. s8b_EncodeAll [7, 3, 1000] = (Inr ws, ws @ drop (length ws) [7, 3, 1000]) \<and> length ws \<le> length [7, 3, 1000 :: u64] \<and>
    s8b_DecodeAll [0, 0, 0, 9] ws = Inr (length [7, 3, 1000 :: u64], [7, 3, 1000] @ drop (length [7, 3, 1000 :: u64]) [0, 0, 0, 9])"
  by (rule s8b_EncodeAll_DecodeAll) (simp_all add: small60_iff)

text \<open>
  \<^verbatim>\<open>EncodeAll\<close> fails exactly when some value needs more than 60 bits, and then with
  \<^verbatim>\<open>ErrValueOutOfBounds\<close>; there is no other outcome, and the loop ends on every input.
\<close>

theorem s8b_EncodeAll_error_iff:
  "fst (s8b_EncodeAll src) = Inl ErrValueOutOfBounds \<longleftrightarrow> \<not> (list_all (\<lambda>v. unat v < 2 ^ 60) src)"
proof -
  have "small60 src \<longleftrightarrow> list_all (\<lambda>v. unat v < 2 ^ 60) src" by (simp add: small60_iff list_all_iff)
  then show ?thesis using s8b_EncodeAll_ok [of src] s8b_EncodeAll_err [of src] by auto
qed

text \<open>
  One call of \<^verbatim>\<open>Encode\<close> that succeeds on a non-empty list packs a non-empty prefix; \<^verbatim>\<open>Count\<close> gives the
  length of the prefix and \<^verbatim>\<open>Decode\<close> restores it.
\<close>

theorem s8b_Encode_Decode:
  assumes "s8b_Encode src = Inr (w, n)" and "src \<noteq> []"
  shows "0 < n \<and> n \<le> length src \<and> s8b_Count w = Inr n \<and>
    s8b_Decode dst w = Inr (n, take n src @ drop n dst)"
  using s8b_Encode_Inr [OF assms(1)] assms(2) by (simp add: s8b_Decode_vals s8b_Count_vals)

theorem s8b_Encode_Decode_witness:
  "0 < (2::nat) \<and> 2 \<le> length [5, 6 :: u64] \<and> s8b_Count (14 * 2 ^ 60 + 6 * 2 ^ 30 + 5) = Inr 2 \<and>
    s8b_Decode [0, 0, 1] (14 * 2 ^ 60 + 6 * 2 ^ 30 + 5) = Inr (2, take 2 [5, 6] @ drop 2 [0, 0, 1])"
  by (rule s8b_Encode_Decode) (code_simp, simp)

text \<open>
  The streaming \<^verbatim>\<open>Encoder\<close>. Values below \<open>2 ^ 60\<close> written one by one to an encoder, new or reset, are
  all in the bytes it returns: \<^verbatim>\<open>CountBytes\<close> gives their number, and a \<^verbatim>\<open>Decoder\<close> set to the bytes,
  whatever it was used for before, delivers exactly these values and then stops.
\<close>

theorem s8b_stream_roundtrip:
  assumes "small60 xs" and "e = s8b_NewEncoder \<or> (\<exists>e0. enc_inv e0 \<and> Encoder_Reset e0 = Inr e)"
    and "length (d_buf d) = 240"
  shows "\<exists>e' b e'' d'. write_all (\<lambda>e v. Encoder_Write v e) e xs = Inr e' \<and> Encoder_Bytes e' = Inr (b, e'') \<and>
    s8b_CountBytes b = Inr (length xs) \<and>
    drain Decoder_Next Decoder_Read (Decoder_SetBytes b d) [] = Some (xs, d')"
proof -
  have e: "enc_inv e" "enc_vals e = []"
    using assms(2) enc_inv_New Encoder_Reset_inv by (metis sum.inject(2))+
  obtain e' where w: "write_all (\<lambda>e v. Encoder_Write v e) e xs = Inr e'" "enc_inv e'" "enc_vals e' = xs"
    using write_all_ok [of e xs] e assms(1) by auto
  then obtain b e'' where b: "Encoder_Bytes e' = Inr (b, e'')" "8 dvd length b" "vals_of (words_of b) = xs"
    using Encoder_Bytes_ok [of e'] assms(1) by auto
  obtain d' where "drain Decoder_Next Decoder_Read (Decoder_SetBytes b d) [] = Some (xs, d')"
    using s8b_dec.drain_rep [OF dec_rep_SetBytes [OF assms(3), of b], of "[]"] b(3) by auto
  with w b show ?thesis by (auto simp: s8b_CountBytes_eq)
qed

theorem s8b_stream_roundtrip_witness:
  "\<exists>e' b e'' d'. write_all (\<lambda>e v. Encoder_Write v e) s8b_NewEncoder [1, 2, 3] = Inr e' \<and> Encoder_Bytes e' = Inr (b, e'') \<and>
    s8b_CountBytes b = Inr (length [1, 2, 3 :: u64]) \<and>
    drain Decoder_Next Decoder_Read (Decoder_SetBytes b (s8b_NewDecoder [])) [] = Some ([1, 2, 3], d')"
  by (rule s8b_stream_roundtrip) (simp_all add: small60_iff s8b_NewDecoder_def)

text \<open>
  C29: memory safety of \<^verbatim>\<open>DecodeBytesBigEndian\<close>, which writes through an unsafe pointer. Whatever the bytes,
  if \<^verbatim>\<open>CountBytes\<close> accepts them and the destination has room for the count it gives, decoding
  succeeds, writes exactly that many values and keeps the length of the destination; if \<^verbatim>\<open>CountBytes\<close>
  rejects them, decoding returns an error and does not panic.
\<close>

theorem s8b_DecodeBytes_safe:
  "case s8b_CountBytes b of
     Inr n \<Rightarrow> length dst < n \<or> (\<exists>dst'. s8b_DecodeBytesBigEndian dst b = Inr (n, dst') \<and>
                length dst' = length dst \<and> drop n dst' = drop n dst)
   | Inl _ \<Rightarrow> (\<exists>m. s8b_DecodeBytesBigEndian dst b = Inl (GoError m))"
proof (cases "8 dvd length b")
  case True
  then show ?thesis
    using s8b_DecodeBytesBigEndian_ok [OF True, of dst] by (auto simp: s8b_CountBytes_eq not_less)
next
  case False
  then show ?thesis by (simp add: s8b_CountBytes_eq s8b_DecodeBytesBigEndian_def dvd_eq_mod_eq_0)
qed

text \<open>
  What \<^verbatim>\<open>ForEach\<close> visits. For words with selector 2 and above these are the values of the word; the run
  words (selectors 0 and 1), which \<^verbatim>\<open>Decode\<close> reads as 240 or 120 ones, are visited as zeros.
\<close>

theorem s8b_ForEach_visits:
  "s8b_ForEach b (\<lambda>s v. (True, s @ [v])) [] =
    Inr (concat (map (\<lambda>w. if sel_of w \<ge> 2 then word_vals w else replicate (length (word_vals w)) 0) (words_of b)))"
  unfolding s8b_ForEach_collect by (simp add: walk_vals_eq [abs_def])

text \<open>
  \<^verbatim>\<open>CountBytesBetween\<close> on bytes without run words whose values do not exceed \<^verbatim>\<open>max\<close> returns how many
  of them lie in \<^verbatim>\<open>[min, max)\<close>, although it skips words whose width cannot hold \<^verbatim>\<open>min\<close>.
\<close>

theorem s8b_CountBytesBetween_counts:
  assumes "8 dvd length b" and "\<forall>w \<in> set (words_of b). sel_of w \<ge> 2"
    and "\<forall>x \<in> set (vals_of (words_of b)). x \<le> hi"
  shows "s8b_CountBytesBetween b lo hi =
    Inr (length (filter (\<lambda>x. lo \<le> x \<and> x < hi) (vals_of (words_of b))))"
proof -
  have "map walk_vals (words_of b) = map word_vals (words_of b)"
    using assms(2) by (simp add: walk_vals_eq)
  with CountBytesBetween_eq [OF assms(1), of hi lo 0] assms(3) show ?thesis
    unfolding s8b_CountBytesBetween_def vals_of_def by (simp only: add_0)
qed

theorem s8b_CountBytesBetween_counts_witness:
  "s8b_CountBytesBetween (put_u64 (14 * 2 ^ 60 + 6 * 2 ^ 30 + 5)) 6 10 =
    Inr (length (filter (\<lambda>x. 6 \<le> x \<and> x < 10) (vals_of (words_of (put_u64 (14 * 2 ^ 60 + 6 * 2 ^ 30 + 5))))))"
  by (rule s8b_CountBytesBetween_counts) (simp, simp add: words_of_put_plain, unfold words_of_put_plain, code_simp)

end
