(* ===== verification/S8b_Package.thy ===== *)
theory S8b_Package
  imports Simple8b_Stream
begin

text \<open>
  The streaming codecs of \<^verbatim>\<open>tsdb/tsm1\<close> import simple8b from \<^verbatim>\<open>github.com/jwilder/encoding\<close>, which is
  not part of the repository; the batch codecs import the repository's own copy. The outside package
  is therefore a parameter of the model: a record of the functions the codecs call. The locale
  \<open>s8b_package\<close> states what they rely on, and it is interpreted on the repository's copy
  (\<^verbatim>\<open>pkg/encoding/simple8b\<close>, "Imported from github.com/jwilder/encoding"), whose laws are proved in
  the theories before this one.
\<close>

record ('e, 'd) s8b_pkg =
  sp_MaxValue :: u64
  sp_EncodeAll :: "u64 list \<Rightarrow> u64 list res \<times> u64 list"
  sp_Decode :: "u64 list \<Rightarrow> u64 \<Rightarrow> (nat \<times> u64 list) res"
  sp_CountBytes :: "bytes \<Rightarrow> nat res"
  sp_NewEncoder :: 'e
  sp_Reset :: "'e \<Rightarrow> 'e res"
  sp_Write :: "u64 \<Rightarrow> 'e \<Rightarrow> 'e res"
  sp_Bytes :: "'e \<Rightarrow> (bytes \<times> 'e) res"
  sp_ZeroDecoder :: 'd
  sp_SetBytes :: "bytes \<Rightarrow> 'd \<Rightarrow> 'd"
  sp_Next :: "'d \<Rightarrow> bool \<times> 'd"
  sp_Read :: "'d \<Rightarrow> u64 \<times> 'd"

locale s8b_package =
  fixes P :: "('e, 'd) s8b_pkg"
    and wvals :: "u64 \<Rightarrow> u64 list"
    and erep :: "'e \<Rightarrow> u64 list \<Rightarrow> bool"
    and dvalid :: "'d \<Rightarrow> bool"
    and drep :: "'d \<Rightarrow> u64 list \<Rightarrow> bool"
  assumes MaxValue_eq: "sp_MaxValue P = 2 ^ 60 - 1"
    and EncodeAll_law: "small60 src \<Longrightarrow>
      \<exists>ws src'. sp_EncodeAll P src = (Inr ws, src') \<and> concat (map wvals ws) = src \<and> length src' = length src"
    and wvals_len: "0 < length (wvals w) \<and> length (wvals w) \<le> 240"
    and Decode_law: "length dst = 240 \<Longrightarrow>
      sp_Decode P dst w = Inr (length (wvals w), wvals w @ drop (length (wvals w)) dst)"
    and CountBytes_law: "8 dvd length b \<Longrightarrow>
      sp_CountBytes P b = Inr (length (concat (map wvals (words_of b))))"
    and NewEncoder_law: "erep (sp_NewEncoder P) []"
    and Reset_law: "erep e vs \<Longrightarrow> \<exists>e'. sp_Reset P e = Inr e' \<and> erep e' []"
    and Write_law: "erep e vs \<Longrightarrow> small60 vs \<Longrightarrow> \<exists>e'. sp_Write P v e = Inr e' \<and> erep e' (vs @ [v])"
    and Bytes_law: "erep e vs \<Longrightarrow> small60 vs \<Longrightarrow>
      \<exists>b e'. sp_Bytes P e = Inr (b, e') \<and> erep e' vs \<and> 8 dvd length b \<and> concat (map wvals (words_of b)) = vs"
    and ZeroDecoder_law: "dvalid (sp_ZeroDecoder P)"
    and SetBytes_law: "dvalid d \<Longrightarrow> drep (sp_SetBytes P b d) (concat (map wvals (words_of b)))"
    and drep_dvalid: "drep d xs \<Longrightarrow> dvalid d"
    and decoder_law: "value_decoder (sp_Next P) (sp_Read P) (\<lambda>_. None) drep"
begin

lemma MaxValue_less: "\<not> x > sp_MaxValue P \<longleftrightarrow> unat x < 2 ^ 60"
proof -
  have "unat (2 ^ 60 - 1 :: u64) = 2 ^ 60 - 1" by simp
  then show ?thesis
    unfolding MaxValue_eq not_less word_le_nat_alt by simp arith
qed

lemma drain_decoder:
  "drep d xs \<Longrightarrow> \<exists>d'. drain (sp_Next P) (sp_Read P) d acc = Some (acc @ xs, d') \<and> drep d' []"
  by (rule value_decoder.drain_rep [OF decoder_law])

lemma write_all_law:
  assumes "erep e vs" and "small60 (vs @ xs)"
  shows "\<exists>e'. write_all (\<lambda>e v. sp_Write P v e) e xs = Inr e' \<and> erep e' (vs @ xs)"
  using assms
proof (induction xs arbitrary: e vs)
  case (Cons x xs)
  then obtain e1 where "sp_Write P x e = Inr e1" "erep e1 (vs @ [x])"
    using Write_law [of e vs x] by auto
  with Cons.IH [of e1 "vs @ [x]"] Cons.prems show ?case by auto
qed auto

end

text \<open>The repository's copy of the package.\<close>

definition s8b_repo :: "(s8b_encoder, s8b_decoder) s8b_pkg" where
  "s8b_repo = \<lparr>sp_MaxValue = MaxValue, sp_EncodeAll = s8b_EncodeAll, sp_Decode = s8b_Decode,
     sp_CountBytes = s8b_CountBytes, sp_NewEncoder = s8b_NewEncoder, sp_Reset = Encoder_Reset,
     sp_Write = Encoder_Write, sp_Bytes = Encoder_Bytes, sp_ZeroDecoder = s8b_NewDecoder [],
     sp_SetBytes = Decoder_SetBytes, sp_Next = Decoder_Next, sp_Read = Decoder_Read\<rparr>"

definition repo_erep :: "s8b_encoder \<Rightarrow> u64 list \<Rightarrow> bool" where
  "repo_erep e vs \<longleftrightarrow> enc_inv e \<and> enc_vals e = vs"

definition repo_dvalid :: "s8b_decoder \<Rightarrow> bool" where
  "repo_dvalid d \<longleftrightarrow> length (d_buf d) = 240"

interpretation repo: s8b_package s8b_repo word_vals repo_erep repo_dvalid dec_rep
proof (rule s8b_package.intro)
  show "sp_MaxValue s8b_repo = 2 ^ 60 - 1" by (simp add: s8b_repo_def MaxValue_def)
  show "\<exists>ws src'. sp_EncodeAll s8b_repo src = (Inr ws, src') \<and> concat (map word_vals ws) = src \<and>
      length src' = length src" if "small60 src" for src
    using s8b_EncodeAll_ok [OF that] by (auto simp: s8b_repo_def vals_of_def)
  show "0 < length (word_vals w) \<and> length (word_vals w) \<le> 240" for w
    by (simp add: length_word_vals_le)
  show "sp_Decode s8b_repo dst w =
      Inr (length (word_vals w), word_vals w @ drop (length (word_vals w)) dst)" for dst w
    by (simp add: s8b_repo_def s8b_Decode_vals)
  show "sp_CountBytes s8b_repo b = Inr (length (concat (map word_vals (words_of b))))"
    if "8 dvd length b" for b
    using that by (simp add: s8b_repo_def s8b_CountBytes_eq vals_of_def)
  show "repo_erep (sp_NewEncoder s8b_repo) []"
    by (simp add: s8b_repo_def repo_erep_def enc_inv_New)
  show "\<exists>e'. sp_Reset s8b_repo e = Inr e' \<and> repo_erep e' []" if "repo_erep e vs" for e vs
    using Encoder_Reset_inv [of e] that by (auto simp: s8b_repo_def repo_erep_def)
  show "\<exists>e'. sp_Write s8b_repo v e = Inr e' \<and> repo_erep e' (vs @ [v])"
    if "repo_erep e vs" "small60 vs" for e vs v
    using Encoder_Write_ok [of e v] that by (auto simp: s8b_repo_def repo_erep_def)
  show "\<exists>b e'. sp_Bytes s8b_repo e = Inr (b, e') \<and> repo_erep e' vs \<and> 8 dvd length b \<and>
      concat (map word_vals (words_of b)) = vs" if "repo_erep e vs" "small60 vs" for e vs
    using Encoder_Bytes_ok [of e] that by (auto simp: s8b_repo_def repo_erep_def vals_of_def)
  show "repo_dvalid (sp_ZeroDecoder s8b_repo)"
    by (simp add: s8b_repo_def repo_dvalid_def s8b_NewDecoder_def)
  show "dec_rep (sp_SetBytes s8b_repo b d) (concat (map word_vals (words_of b)))" if "repo_dvalid d" for b d
    using dec_rep_SetBytes [of d b] that by (simp add: s8b_repo_def repo_dvalid_def vals_of_def)
  show "repo_dvalid d" if "dec_rep d xs" for d xs
    using that by (simp add: dec_rep_def repo_dvalid_def)
  show "value_decoder (sp_Next s8b_repo) (sp_Read s8b_repo) (\<lambda>_. None) dec_rep"
    using s8b_dec.value_decoder_axioms by (simp add: s8b_repo_def)
qed

end
