(* ===== verification/Deltas.thy ===== *)
theory Deltas
  imports Go_Prelude
begin

unbundle bit_operations_syntax

text \<open>
  Delta and zig-zag encoding, shared by the integer and timestamp codecs of \<^verbatim>\<open>tsdb/tsm1\<close>. All
  arithmetic is on 64-bit words, so differences that overflow wrap and the prefix sums undo them
  exactly.
\<close>

section \<open>Zig-zag encoding\<close>

text \<open>\<^verbatim>\<open>uint64(x<<1) ^ uint64(int64(x) >> 63)\<close>, with the arithmetic shift of a signed integer.\<close>

definition ZigZagEncode :: "i64 \<Rightarrow> u64" where
  "ZigZagEncode x = push_bit 1 x XOR signed_drop_bit 63 x"

text \<open>\<^verbatim>\<open>int64((v >> 1) ^ uint64((int64(v&1)<<63)>>63))\<close>\<close>

definition ZigZagDecode :: "u64 \<Rightarrow> i64" where
  "ZigZagDecode v = drop_bit 1 v XOR signed_drop_bit 63 (push_bit 63 (v AND 1))"

lemma bit_sign_word: "k < 64 \<Longrightarrow> bit (signed_drop_bit 63 (y :: u64)) k = bit y 63"
  by (cases k) (auto simp: bit_simps min_def)

lemma bit_ZigZagEncode: "k < 64 \<Longrightarrow> bit (ZigZagEncode x) k = ((0 < k \<and> bit x (k - 1)) \<noteq> bit x 63)"
  unfolding ZigZagEncode_def bit_xor_iff bit_push_bit_iff
  by (auto simp: bit_sign_word Suc_le_eq)

lemma bit_ZigZagDecode: "k < 64 \<Longrightarrow> bit (ZigZagDecode v) k = ((k < 63 \<and> bit v (Suc k)) \<noteq> bit v 0)"
  unfolding ZigZagDecode_def bit_xor_iff bit_drop_bit_eq
  by (simp only: bit_sign_word bit_push_bit_iff bit_and_iff)
    (auto simp: bit_1_iff dest: bit_u64_less)

lemma ZigZagDecode_Encode [simp]: "ZigZagDecode (ZigZagEncode x) = x"
proof (rule bit_word_eqI)
  fix n
  assume "n < LENGTH(64)"
  then show "bit (ZigZagDecode (ZigZagEncode x)) n = bit x n"
    by (cases "n = 63") (auto simp: bit_ZigZagDecode bit_ZigZagEncode)
qed

lemma ZigZagEncode_Decode [simp]: "ZigZagEncode (ZigZagDecode v) = v"
proof (rule bit_word_eqI)
  fix n
  assume "n < LENGTH(64)"
  then show "bit (ZigZagEncode (ZigZagDecode v)) n = bit v n"
    by (cases n) (auto simp: bit_ZigZagDecode bit_ZigZagEncode)
qed

section \<open>Deltas and prefix sums\<close>

primrec deltas :: "u64 \<Rightarrow> u64 list \<Rightarrow> u64 list" where
  "deltas p [] = []"
| "deltas p (x # xs) = (x - p) # deltas x xs"

primrec psums :: "u64 \<Rightarrow> u64 list \<Rightarrow> u64 list" where
  "psums p [] = []"
| "psums p (d # ds) = (p + d) # psums (p + d) ds"

lemma length_deltas [simp]: "length (deltas p xs) = length xs"
  by (induction xs arbitrary: p) simp_all

lemma length_psums [simp]: "length (psums p ds) = length ds"
  by (induction ds arbitrary: p) simp_all

lemma psums_deltas [simp]: "psums p (deltas p xs) = xs"
  by (induction xs arbitrary: p) simp_all

lemma deltas_psums [simp]: "deltas p (psums p ds) = ds"
  by (induction ds arbitrary: p) simp_all

lemma deltas_nth: "i < length xs \<Longrightarrow> deltas p xs ! i = xs ! i - (if i = 0 then p else xs ! (i - 1))"
  by (induction xs arbitrary: p i) (auto simp: nth_Cons split: nat.splits)

lemma deltas_append:
  "deltas p (xs @ [x]) = deltas p xs @ [x - (if xs = [] then p else last xs)]"
  by (induction xs arbitrary: p) auto

text \<open>A run of equal deltas is an arithmetic progression.\<close>

lemma psums_replicate: "psums p (replicate n d) = map (\<lambda>k. p + of_nat (Suc k) * d) [0..<n]"
proof (induction n arbitrary: p)
  case (Suc n)
  have "psums (p + d) (replicate n d) = map (\<lambda>k. p + of_nat (Suc (Suc k)) * d) [0..<n]"
    unfolding Suc by (simp add: algebra_simps)
  then show ?case
    unfolding upt_conv_Cons [OF zero_less_Suc] map_Suc_upt [symmetric] by (simp add: o_def)
qed simp

lemma psums_run:
  "psums 0 (f # replicate n d) = map (\<lambda>k. f + of_nat k * d) [0..<Suc n]"
  unfolding upt_conv_Cons [OF zero_less_Suc] map_Suc_upt [symmetric]
  by (simp add: psums_replicate o_def)

section \<open>Deltas in place\<close>

text \<open>
  The backward loop of the batch encoders over the caller's array: index \<open>Suc i\<close> is replaced by its
  delta to index \<open>i\<close>, passed through \<open>f\<close> (zig-zag for integers, the identity for timestamps), and the
  largest value stored is kept.
\<close>

fun delta_loop :: "(u64 \<Rightarrow> u64) \<Rightarrow> nat \<Rightarrow> u64 list \<Rightarrow> u64 \<Rightarrow> u64 list \<times> u64" where
  "delta_loop f 0 ds mx = (ds, mx)"
| "delta_loop f (Suc i) ds mx =
     (let ds1 = ds[Suc i := ds ! Suc i - ds ! i];
          ds2 = ds1[Suc i := f (ds1 ! Suc i)];
          mx' = (if ds2 ! Suc i > mx then ds2 ! Suc i else mx)
      in delta_loop f i ds2 mx')"

lemma delta_loop_Suc:
  "Suc i < length ds \<Longrightarrow>
   delta_loop f (Suc i) ds mx = delta_loop f i (ds[Suc i := f (ds ! Suc i - ds ! i)])
     (max (f (ds ! Suc i - ds ! i)) mx)"
  by (auto simp: Let_def max_def)

declare delta_loop.simps(2) [simp del]

lemma delta_loop_fst:
  assumes "i < length ds"
  shows "fst (delta_loop f i ds mx) =
    map (\<lambda>k. if 0 < k \<and> k \<le> i then f (ds ! k - ds ! (k - 1)) else ds ! k) [0..<length ds]"
  using assms
proof (induction i arbitrary: ds mx)
  case 0
  then show ?case by (auto intro: nth_equalityI)
next
  case (Suc i)
  then show ?case
    by (auto simp: delta_loop_Suc nth_list_update le_Suc_eq intro!: nth_equalityI)
qed

lemma delta_loop_snd:
  assumes "i < length ds"
  shows "snd (delta_loop f i ds mx) > m \<longleftrightarrow>
    mx > m \<or> (\<exists>k. 0 < k \<and> k \<le> i \<and> f (ds ! k - ds ! (k - 1)) > m)"
  using assms
proof (induction i arbitrary: ds mx)
  case (Suc i)
  have "(ds[Suc i := v]) ! k - (ds[Suc i := v]) ! (k - 1) = ds ! k - ds ! (k - 1)" if "k \<le> i" for k v
    using that by simp
  then show ?case
    using Suc by (auto simp: delta_loop_Suc less_max_iff_disj le_Suc_eq)
qed simp

lemma delta_loop_all:
  assumes "ds \<noteq> []"
  shows "fst (delta_loop f (length ds - 1) ds mx) = hd ds # map f (drop 1 (deltas 0 ds))"
    and "snd (delta_loop f (length ds - 1) ds mx) > m \<longleftrightarrow>
      mx > m \<or> list_ex (\<lambda>v. f v > m) (drop 1 (deltas 0 ds))"
proof -
  have len: "length ds - 1 < length ds" using assms by simp
  show "fst (delta_loop f (length ds - 1) ds mx) = hd ds # map f (drop 1 (deltas 0 ds))"
    unfolding delta_loop_fst [OF len] using assms
    by (auto simp: nth_Cons deltas_nth hd_conv_nth split: nat.splits intro!: nth_equalityI)
  have "(\<exists>k. 0 < k \<and> k \<le> length ds - 1 \<and> f (ds ! k - ds ! (k - 1)) > m) \<longleftrightarrow>
    (\<exists>j < length ds - 1. f (drop 1 (deltas 0 ds) ! j) > m)" (is "?L \<longleftrightarrow> ?R")
  proof
    assume ?L
    then obtain k where "0 < k" "k \<le> length ds - 1" "f (ds ! k - ds ! (k - 1)) > m" by blast
    then show ?R using assms by (intro exI [of _ "k - 1"]) (simp add: deltas_nth)
  next
    assume ?R
    then obtain j where "j < length ds - 1" "f (drop 1 (deltas 0 ds) ! j) > m" by blast
    then show ?L by (intro exI [of _ "Suc j"]) (simp add: deltas_nth)
  qed
  then have "(\<exists>k. 0 < k \<and> k \<le> length ds - 1 \<and> f (ds ! k - ds ! (k - 1)) > m) \<longleftrightarrow>
    list_ex (\<lambda>v. f v > m) (drop 1 (deltas 0 ds))"
    by (simp add: list_ex_length)
  then show "snd (delta_loop f (length ds - 1) ds mx) > m \<longleftrightarrow>
      mx > m \<or> list_ex (\<lambda>v. f v > m) (drop 1 (deltas 0 ds))"
    unfolding delta_loop_snd [OF len] list_ex_iff by simp
qed

section \<open>Runs of equal deltas\<close>

text \<open>The test of the batch encoders, index by index, and what it means.\<close>

definition all_equal_tail :: "u64 list \<Rightarrow> bool" where
  "all_equal_tail ds \<longleftrightarrow> list_all (\<lambda>i. ds ! 1 = ds ! i) [2..<length ds]"

definition run_tail :: "u64 list \<Rightarrow> bool" where
  "run_tail vs \<longleftrightarrow> list_all (\<lambda>v. v = vs ! 1) (tl vs)"

lemma run_tail_replicate: "run_tail vs \<Longrightarrow> tl vs = replicate (length vs - 1) (vs ! 1)"
  by (rule replicate_eqI) (auto simp: run_tail_def list_all_iff)

lemma run_tail_snoc: "length vs > 1 \<Longrightarrow> run_tail (vs @ [v]) \<longleftrightarrow> run_tail vs \<and> last vs = v"
  by (cases vs rule: list.exhaust, simp, cases "tl vs" rule: list.exhaust)
    (auto simp: run_tail_def list_all_iff dest: last_in_set)

lemma run_tail_short: "length vs \<le> 2 \<Longrightarrow> run_tail vs"
  by (cases vs; cases "tl vs") (auto simp: run_tail_def)

lemma all_equal_tail_run:
  assumes "length ds > 1"
  shows "all_equal_tail ds \<longleftrightarrow> run_tail ds"
proof -
  obtain a b ws where ds: "ds = a # b # ws"
    using assms by (cases ds rule: list.exhaust; cases "tl ds") auto
  have "[2..<length ds] = map (\<lambda>j. j + 2) [0..<length ws]"
    using map_add_upt [of 2 "length ws"] by (simp add: ds del: upt_Suc)
  then have "all_equal_tail ds \<longleftrightarrow> list_all (\<lambda>j. b = ws ! j) [0..<length ws]"
    unfolding all_equal_tail_def by (simp add: ds list.pred_map o_def)
  also have "\<dots> \<longleftrightarrow> list_all (\<lambda>v. b = v) ws" by (simp add: list_all_length)
  also have "\<dots> \<longleftrightarrow> run_tail ds" by (auto simp: ds run_tail_def list_all_iff)
  finally show ?thesis .
qed

lemma run_tail_steps:
  assumes "length vs > 1"
  shows "run_tail vs \<longleftrightarrow> (\<forall>k. 0 < k \<and> k < length vs - 1 \<longrightarrow> vs ! k = vs ! (k + 1))"
  using assms
proof (induction vs rule: rev_induct)
  case (snoc v vs)
  show ?case
  proof (cases "length vs > 1")
    case True
    then have lst: "last vs = vs ! (length vs - 1)" by (intro last_conv_nth) auto
    obtain n where n: "length vs = Suc (Suc n)" using True that [of "length vs - 2"] by simp
    have eq: "(\<forall>k. 0 < k \<and> k < length vs \<longrightarrow> (vs @ [v]) ! k = (vs @ [v]) ! (k + 1)) \<longleftrightarrow>
      vs ! (length vs - 1) = v \<and> (\<forall>k. 0 < k \<and> k < length vs - 1 \<longrightarrow> vs ! k = vs ! (k + 1))" (is "?L \<longleftrightarrow> ?R")
    proof
      assume L: ?L
      show ?R
      proof
        show "vs ! (length vs - 1) = v" using L [rule_format, of "Suc n"] n by (simp add: nth_append)
        show "\<forall>k. 0 < k \<and> k < length vs - 1 \<longrightarrow> vs ! k = vs ! (k + 1)"
        proof (intro allI impI)
          fix k
          assume "0 < k \<and> k < length vs - 1"
          then show "vs ! k = vs ! (k + 1)" using L [rule_format, of k] n by (simp add: nth_append)
        qed
      qed
    next
      assume R: ?R
      show ?L
      proof (intro allI impI)
        fix k
        assume "0 < k \<and> k < length vs"
        then show "(vs @ [v]) ! k = (vs @ [v]) ! (k + 1)"
          using conjunct1 [OF R] conjunct2 [OF R, THEN spec, of k]
          by (cases "k = Suc n") (auto simp: nth_append n less_Suc_eq)
      qed
    qed
    show ?thesis
      unfolding run_tail_snoc [OF True] snoc.IH [OF True] lst length_append_singleton diff_Suc_1 eq
      by (rule conj_commute)
  next
    case False
    then have "run_tail (vs @ [v])" by (intro run_tail_short) simp
    moreover have "\<not> (0 < k \<and> k < length (vs @ [v]) - 1)" for k using False by auto
    ultimately show ?thesis by blast
  qed
qed simp

end
