(* ===== verification/Int_Codec.thy ===== *)
theory Int_Codec
  imports S8b_Package Deltas
begin

unbundle bit_operations_syntax

text \<open>
  The integer codec of \<^verbatim>\<open>tsdb/tsm1\<close>: the streaming \<^verbatim>\<open>IntegerEncoder\<close> and \<^verbatim>\<open>IntegerDecoder\<close> of
  \<^verbatim>\<open>int.go\<close>. Values are delta- and zig-zag-encoded and stored run-length encoded, packed with
  simple8b, or raw. The packed format calls the outside simple8b package, the parameter \<open>P\<close>.
\<close>

definition intUncompressed :: u8 where "intUncompressed = 0"
definition intCompressedSimple :: u8 where "intCompressedSimple = 1"
definition intCompressedRLE :: u8 where "intCompressedRLE = 2"

lemmas int_tags = intUncompressed_def intCompressedSimple_def intCompressedRLE_def

section \<open>Encoder\<close>

record int_encoder =
  ie_prev :: i64
  ie_rle :: bool
  ie_values :: "u64 list"

definition NewIntegerEncoder :: int_encoder where
  "NewIntegerEncoder = \<lparr>ie_prev = 0, ie_rle = True, ie_values = []\<rparr>"

definition IntegerEncoder_Reset :: "int_encoder \<Rightarrow> int_encoder" where
  "IntegerEncoder_Reset e = e\<lparr>ie_prev := 0, ie_rle := True, ie_values := []\<rparr>"

definition IntegerEncoder_Write :: "int_encoder \<Rightarrow> i64 \<Rightarrow> int_encoder" where
  "IntegerEncoder_Write e v =
     (let delta = v - ie_prev e;
          enc = ZigZagEncode delta;
          rle = (if length (ie_values e) > 1 then ie_rle e \<and> last (ie_values e) = enc else ie_rle e)
      in e\<lparr>ie_prev := v, ie_rle := rle, ie_values := ie_values e @ [enc]\<rparr>)"

definition int_encodeRLE :: "u64 list \<Rightarrow> bytes res" where
  "int_encodeRLE values =
     (if length values < 2 then Inl (GoPanic ''index out of range'')
      else Inr (push_bit 4 intCompressedRLE # put_u64 (values ! 0) @ put_uvarint (values ! 1) @
                put_uvarint (of_nat (length values - 1))))"

definition int_packed_bytes :: "u64 \<Rightarrow> u64 list \<Rightarrow> bytes" where
  "int_packed_bytes first encoded = push_bit 4 intCompressedSimple # put_u64 first @ bytes_of encoded"

text \<open>\<^verbatim>\<open>EncodeAll\<close> overwrites \<^verbatim>\<open>e.values[1:]\<close>, so the encoder's values change too.\<close>

definition IntegerEncoder_encodePacked ::
  "('e, 'd) s8b_pkg \<Rightarrow> int_encoder \<Rightarrow> bytes res \<times> int_encoder" where
  "IntegerEncoder_encodePacked P e =
     (case ie_values e of
        [] \<Rightarrow> (Inr [], e)
      | first # rest \<Rightarrow>
          (case sp_EncodeAll P rest of (r, rest') \<Rightarrow>
             (case r of Inl er \<Rightarrow> Inl er | Inr encoded \<Rightarrow> Inr (int_packed_bytes first encoded),
              e\<lparr>ie_values := first # rest'\<rparr>)))"

definition int_encodeUncompressed :: "u64 list \<Rightarrow> bytes res" where
  "int_encodeUncompressed values =
     (if values = [] then Inr [] else Inr (push_bit 4 intUncompressed # bytes_of values))"

definition IntegerEncoder_Bytes :: "('e, 'd) s8b_pkg \<Rightarrow> int_encoder \<Rightarrow> bytes res \<times> int_encoder" where
  "IntegerEncoder_Bytes P e =
     (if ie_rle e \<and> length (ie_values e) > 2 then (int_encodeRLE (ie_values e), e)
      else if list_ex (\<lambda>v. v > sp_MaxValue P) (ie_values e) then (int_encodeUncompressed (ie_values e), e)
      else IntegerEncoder_encodePacked P e)"

section \<open>Decoder\<close>

record int_decoder =
  id_values :: "u64 list"
  id_bytes :: bytes
  id_i :: int
  id_n :: int
  id_prev :: i64
  id_first :: bool
  id_rleFirst :: u64
  id_rleDelta :: u64
  id_encoding :: u8
  id_err :: "go_error option"

definition ZeroIntegerDecoder :: int_decoder where
  "ZeroIntegerDecoder = \<lparr>id_values = replicate 240 0, id_bytes = [], id_i = 0, id_n = 0, id_prev = 0,
     id_first = False, id_rleFirst = 0, id_rleDelta = 0, id_encoding = 0, id_err = None\<rparr>"

definition IntegerDecoder_SetBytes :: "bytes \<Rightarrow> int_decoder \<Rightarrow> int_decoder" where
  "IntegerDecoder_SetBytes b d =
     (let d1 = (case b of [] \<Rightarrow> d\<lparr>id_encoding := 0, id_bytes := []\<rparr>
                | x # rest \<Rightarrow> d\<lparr>id_encoding := drop_bit 4 x, id_bytes := rest\<rparr>)
      in d1\<lparr>id_i := 0, id_n := 0, id_prev := 0, id_first := True,
            id_rleFirst := 0, id_rleDelta := 0, id_err := None\<rparr>)"

definition int_decodeRLE :: "int_decoder \<Rightarrow> int_decoder" where
  "int_decodeRLE d =
     (if id_bytes d = [] then d
      else if length (id_bytes d) < 8
      then d\<lparr>id_err := Some (GoError ''integerDecoder: not enough data to decode RLE starting value'')\<rparr>
      else
        let first = get_u64 (id_bytes d); b1 = drop 8 (id_bytes d); (val, n1) = get_uvarint b1 in
        if n1 \<le> 0 then d\<lparr>id_err := Some (GoError ''integerDecoder: invalid RLE delta value'')\<rparr>
        else let (count, n2) = get_uvarint (drop (nat n1) b1) in
          if n2 \<le> 0 then d\<lparr>id_err := Some (GoError ''integerDecoder: invalid RLE repeat value'')\<rparr>
          else d\<lparr>id_rleFirst := first, id_rleDelta := val, id_n := sint (count + 1), id_i := 0,
                 id_bytes := []\<rparr>)"

definition int_decodePacked :: "('e, 'd) s8b_pkg \<Rightarrow> int_decoder \<Rightarrow> int_decoder" where
  "int_decodePacked P d =
     (if id_bytes d = [] then d
      else if length (id_bytes d) < 8
      then d\<lparr>id_err := Some (GoError ''integerDecoder: not enough data to decode packed value'')\<rparr>
      else
        let v = get_u64 (id_bytes d);
            d1 = (if id_first d
                  then d\<lparr>id_first := False, id_n := 1, id_values := (id_values d)[0 := v]\<rparr>
                  else case sp_Decode P (id_values d) v of
                         Inl _ \<Rightarrow> d\<lparr>id_err := Some (GoError ''failed to decode value''), id_n := 0\<rparr>
                       | Inr (n, values) \<Rightarrow> d\<lparr>id_values := values, id_n := int n\<rparr>)
        in d1\<lparr>id_i := 0, id_bytes := drop 8 (id_bytes d)\<rparr>)"

definition int_decodeUncompressed :: "int_decoder \<Rightarrow> int_decoder" where
  "int_decodeUncompressed d =
     (if id_bytes d = [] then d
      else if length (id_bytes d) < 8
      then d\<lparr>id_err := Some (GoError ''integerDecoder: not enough data to decode uncompressed value'')\<rparr>
      else d\<lparr>id_values := (id_values d)[0 := get_u64 (id_bytes d)], id_i := 0, id_n := 1,
             id_bytes := drop 8 (id_bytes d)\<rparr>)"

definition IntegerDecoder_Next :: "('e, 'd) s8b_pkg \<Rightarrow> int_decoder \<Rightarrow> bool \<times> int_decoder" where
  "IntegerDecoder_Next P d =
     (if id_i d \<ge> id_n d \<and> id_bytes d = [] then (False, d)
      else
        let d1 = d\<lparr>id_i := id_i d + 1\<rparr>;
            d2 = (if id_i d1 \<ge> id_n d1 then
                    (if id_encoding d1 = intUncompressed then int_decodeUncompressed d1
                     else if id_encoding d1 = intCompressedSimple then int_decodePacked P d1
                     else if id_encoding d1 = intCompressedRLE then int_decodeRLE d1
                     else d1\<lparr>id_err := Some (GoError ''unknown encoding'')\<rparr>)
                  else d1)
        in (id_err d2 = None \<and> id_i d2 < id_n d2, d2))"

text \<open>Indexing \<^verbatim>\<open>d.values\<close> outside the array is a panic; the model records it as the decoder's error.\<close>

definition IntegerDecoder_Read :: "int_decoder \<Rightarrow> i64 \<times> int_decoder" where
  "IntegerDecoder_Read d =
     (if id_encoding d = intCompressedRLE
      then (ZigZagDecode (id_rleFirst d) + of_int (id_i d) * ZigZagDecode (id_rleDelta d), d)
      else if id_i d < 0 \<or> id_i d \<ge> int (length (id_values d))
      then (0, d\<lparr>id_err := Some (GoPanic ''index out of range'')\<rparr>)
      else let v = ZigZagDecode (id_values d ! nat (id_i d)) + id_prev d in (v, d\<lparr>id_prev := v\<rparr>))"

section \<open>What the encoder holds\<close>

definition zdeltas :: "i64 list \<Rightarrow> u64 list" where
  "zdeltas xs = map ZigZagEncode (deltas 0 xs)"

lemma length_zdeltas [simp]: "length (zdeltas xs) = length xs"
  by (simp add: zdeltas_def)

lemma zdeltas_decode: "psums 0 (map ZigZagDecode (zdeltas xs)) = xs"
  by (simp add: zdeltas_def o_def)

definition int_enc_rep :: "int_encoder \<Rightarrow> i64 list \<Rightarrow> bool" where
  "int_enc_rep e xs \<longleftrightarrow> ie_values e = zdeltas xs \<and> ie_prev e = (if xs = [] then 0 else last xs) \<and>
     (ie_rle e \<longleftrightarrow> run_tail (zdeltas xs))"

lemma int_enc_rep_init: "int_enc_rep NewIntegerEncoder []" "int_enc_rep (IntegerEncoder_Reset e) []"
  by (simp_all add: int_enc_rep_def NewIntegerEncoder_def IntegerEncoder_Reset_def zdeltas_def run_tail_def)

lemma zdeltas_snoc:
  "zdeltas (xs @ [x]) = zdeltas xs @ [ZigZagEncode (x - (if xs = [] then 0 else last xs))]"
  by (simp add: zdeltas_def deltas_append)

lemma int_enc_rep_Write:
  assumes "int_enc_rep e xs"
  shows "int_enc_rep (IntegerEncoder_Write e v) (xs @ [v])"
proof (cases "length xs > 1")
  case True
  then show ?thesis
    using assms run_tail_snoc [of "zdeltas xs"]
    by (auto simp: int_enc_rep_def IntegerEncoder_Write_def zdeltas_snoc Let_def)
next
  case False
  then show ?thesis
    using assms run_tail_short [of "zdeltas (xs @ [v])"] run_tail_short [of "zdeltas xs"]
    by (simp add: int_enc_rep_def IntegerEncoder_Write_def zdeltas_snoc Let_def)
qed

lemma int_enc_rep_fold: "int_enc_rep e xs \<Longrightarrow> int_enc_rep (foldl IntegerEncoder_Write e ys) (xs @ ys)"
  using int_enc_rep_Write by (induction ys arbitrary: e xs) (auto, fastforce)

section \<open>The block format\<close>

text \<open>
  What a block of integers looks like on disk, independent of how it is written or read; \<open>wv\<close> gives
  the values of a packed word. Both encoders produce it and both decoders read it.
\<close>

inductive int_fmt :: "(u64 \<Rightarrow> u64 list) \<Rightarrow> bytes \<Rightarrow> i64 list \<Rightarrow> bool" for wv where
  empty: "int_fmt wv [] []"
| raw: "int_fmt wv (push_bit 4 intUncompressed # bytes_of (zdeltas xs)) xs"
| packed: "zdeltas xs = f # concat (map wv ws) \<Longrightarrow> int_fmt wv (int_packed_bytes f ws) xs"
| rle: "zdeltas xs = f # replicate n d \<Longrightarrow> n + 1 < 2 ^ 63 \<Longrightarrow>
    int_fmt wv (push_bit 4 intCompressedRLE # put_u64 f @ put_uvarint d @ put_uvarint (of_nat n)) xs"

definition int_run :: "u64 \<Rightarrow> u64 \<Rightarrow> nat \<Rightarrow> i64" where
  "int_run f d k = ZigZagDecode f + of_nat k * ZigZagDecode d"

lemma rle_values: "zdeltas xs = f # replicate n d \<Longrightarrow>
    xs = map (int_run f d) [0..<Suc n]"
  unfolding int_run_def using zdeltas_decode [of xs] psums_run [of "ZigZagDecode f" n "ZigZagDecode d"] by simp

lemma zdeltas_run:
  assumes "run_tail (zdeltas xs)" and "length xs > 1"
  shows "zdeltas xs = zdeltas xs ! 0 # replicate (length xs - 1) (zdeltas xs ! 1)"
  using run_tail_replicate [OF assms(1)] assms(2)
  by (cases "zdeltas xs") (auto simp flip: length_zdeltas [of xs])

context s8b_package
begin

lemma int_Bytes_fmt:
  assumes rep: "int_enc_rep e xs" and len: "length xs < 2 ^ 63"
  shows "\<exists>b e'. IntegerEncoder_Bytes P e = (Inr b, e') \<and> int_fmt wvals b xs"
proof -
  have v: "ie_values e = zdeltas xs" using rep by (simp add: int_enc_rep_def)
  consider (rle) "ie_rle e" "length (zdeltas xs) > 2"
    | (raw) "\<not> (ie_rle e \<and> length (zdeltas xs) > 2)" "list_ex (\<lambda>v. v > sp_MaxValue P) (zdeltas xs)"
    | (pack) "\<not> (ie_rle e \<and> length (zdeltas xs) > 2)" "\<not> list_ex (\<lambda>v. v > sp_MaxValue P) (zdeltas xs)"
    by blast
  then show ?thesis
  proof cases
    case rle
    with rep have "run_tail (zdeltas xs)" by (simp add: int_enc_rep_def)
    from int_fmt.rle [OF zdeltas_run [OF this]] rle len v show ?thesis
      by (simp add: IntegerEncoder_Bytes_def int_encodeRLE_def)
  next
    case raw
    then show ?thesis
      using v int_fmt.raw [of wvals xs]
      by (auto simp: IntegerEncoder_Bytes_def int_encodeUncompressed_def)
  next
    case pack
    show ?thesis
    proof (cases "zdeltas xs")
      case Nil
      then have "xs = []" by (metis length_0_conv length_zdeltas)
      with pack v Nil int_fmt.empty show ?thesis
        by (auto simp: IntegerEncoder_Bytes_def IntegerEncoder_encodePacked_def)
    next
      case (Cons f rest)
      with pack have "small60 rest"
        unfolding small60_iff list_ex_iff using MaxValue_less by auto
      then obtain ws s' where "sp_EncodeAll P rest = (Inr ws, s')" "concat (map wvals ws) = rest"
        using EncodeAll_law by blast
      with pack v Cons int_fmt.packed [of xs f wvals ws] show ?thesis
        by (auto simp: IntegerEncoder_Bytes_def IntegerEncoder_encodePacked_def simp del: length_zdeltas)
    qed
  qed
qed

end

section \<open>What the decoder still has to deliver\<close>

definition int_pending :: "int_decoder \<Rightarrow> u64 list" where
  "int_pending d = drop (nat (id_i d) + 1) (take (nat (id_n d)) (id_values d))"

definition int_rest :: "(u64 \<Rightarrow> u64 list) \<Rightarrow> int_decoder \<Rightarrow> u64 list" where
  "int_rest wv d =
     (let ws = words_of (id_bytes d) in
      if id_encoding d = intUncompressed then ws
      else if id_first d then take 1 ws @ concat (map wv (drop 1 ws)) else concat (map wv ws))"

definition int_seq_rep :: "(u64 \<Rightarrow> u64 list) \<Rightarrow> int_decoder \<Rightarrow> i64 list \<Rightarrow> bool" where
  "int_seq_rep wv d xs \<longleftrightarrow> id_err d = None \<and> length (id_values d) = 240 \<and> 0 \<le> id_i d \<and> 0 \<le> id_n d \<and>
     id_n d \<le> 240 \<and> (id_encoding d = intUncompressed \<or> id_encoding d = intCompressedSimple) \<and>
     8 dvd length (id_bytes d) \<and> xs = psums (id_prev d) (map ZigZagDecode (int_pending d @ int_rest wv d))"

definition int_rle_rep :: "int_decoder \<Rightarrow> i64 list \<Rightarrow> bool" where
  "int_rle_rep d xs \<longleftrightarrow> id_err d = None \<and> id_encoding d = intCompressedRLE \<and> 0 \<le> id_i d \<and>
     (id_bytes d = [] \<and> xs = map (int_run (id_rleFirst d) (id_rleDelta d)) [nat (id_i d) + 1 ..< nat (id_n d)] \<or>
      id_i d = 0 \<and> id_n d = 0 \<and> (\<exists>f dl n. n + 1 < 2 ^ 63 \<and>
        id_bytes d = put_u64 f @ put_uvarint dl @ put_uvarint (of_nat n) \<and> xs = map (int_run f dl) [0..<Suc n]))"

definition int_dec_rep :: "(u64 \<Rightarrow> u64 list) \<Rightarrow> int_decoder \<Rightarrow> i64 list \<Rightarrow> bool" where
  "int_dec_rep wv d xs \<longleftrightarrow> length (id_values d) = 240 \<and> (int_seq_rep wv d xs \<or> int_rle_rep d xs)"

lemma int_rle_Read:
  assumes "id_encoding d = intCompressedRLE" and "0 \<le> id_i d"
  shows "IntegerDecoder_Read d = (int_run (id_rleFirst d) (id_rleDelta d) (nat (id_i d)), d)"
  using assms by (simp add: IntegerDecoder_Read_def int_run_def)

lemma int_rle_running:
  assumes d: "id_err d = None" "id_encoding d = intCompressedRLE" "0 \<le> id_i d" "id_bytes d = []"
    and xs: "xs = map (int_run (id_rleFirst d) (id_rleDelta d)) [nat (id_i d) + 1 ..< nat (id_n d)]"
  shows "xs = [] \<Longrightarrow> \<exists>d'. IntegerDecoder_Next P d = (False, d') \<and> int_rle_rep d' [] \<and> id_values d' = id_values d"
    and "xs = y # ys \<Longrightarrow> \<exists>d' d''. IntegerDecoder_Next P d = (True, d') \<and>
      IntegerDecoder_Read d' = (y, d'') \<and> int_rle_rep d'' ys \<and> id_values d'' = id_values d"
proof -
  assume "xs = []"
  with xs d(3) have "id_n d \<le> id_i d + 1" by simp linarith
  with d show "\<exists>d'. IntegerDecoder_Next P d = (False, d') \<and> int_rle_rep d' [] \<and> id_values d' = id_values d"
    by (auto simp: IntegerDecoder_Next_def int_tags int_decodeRLE_def int_rle_rep_def Let_def)
next
  assume ys: "xs = y # ys"
  with xs d(3) have less: "id_i d + 1 < id_n d" by (cases "id_i d + 1 < id_n d") auto
  then have u: "[nat (id_i d) + 1 ..< nat (id_n d)] = nat (id_i d + 1) # [nat (id_i d + 1) + 1 ..< nat (id_n d)]"
    using d(3) by (simp add: upt_rec nat_add_distrib)
  let ?d = "d\<lparr>id_i := id_i d + 1\<rparr>"
  have "IntegerDecoder_Next P d = (True, ?d)"
    using d less by (simp add: IntegerDecoder_Next_def)
  moreover have "IntegerDecoder_Read ?d = (y, ?d)"
    using int_rle_Read [of ?d] d xs ys u by simp
  moreover have "int_rle_rep ?d ys"
    using d xs ys u by (simp add: int_rle_rep_def)
  ultimately show "\<exists>d' d''. IntegerDecoder_Next P d = (True, d') \<and>
      IntegerDecoder_Read d' = (y, d'') \<and> int_rle_rep d'' ys \<and> id_values d'' = id_values d" by auto
qed

lemma int_decodeRLE_ok:
  assumes "id_bytes d = put_u64 f @ put_uvarint dl @ put_uvarint (of_nat n)" and "n + 1 < 2 ^ 63"
  shows "int_decodeRLE d = d\<lparr>id_rleFirst := f, id_rleDelta := dl, id_n := int n + 1, id_i := 0, id_bytes := []\<rparr>"
proof -
  have "sint (of_nat n + 1 :: u64) = int n + 1"
    using assms(2) sint_of_nat_small [of "n + 1"] by (simp add: add.commute)
  then show ?thesis
    using get_put_uvarint [of "of_nat n" "[]"] put_uvarint_neq_Nil
    by (simp add: int_decodeRLE_def assms(1) get_put_uvarint Let_def)
qed

lemma int_rle_start:
  assumes d: "id_err d = None" "id_encoding d = intCompressedRLE" "id_i d = 0" "id_n d = 0"
    "id_bytes d = put_u64 f @ put_uvarint dl @ put_uvarint (of_nat n)" and n: "n + 1 < 2 ^ 63"
  shows "\<exists>d'. IntegerDecoder_Next P d = (True, d') \<and> IntegerDecoder_Read d' = (int_run f dl 0, d') \<and>
    int_rle_rep d' (map (int_run f dl) [1..<Suc n]) \<and> id_values d' = id_values d"
proof -
  let ?d = "d\<lparr>id_rleFirst := f, id_rleDelta := dl, id_n := int n + 1, id_i := 0, id_bytes := []\<rparr>"
  have "IntegerDecoder_Next P d = (True, ?d)"
    using d n int_decodeRLE_ok [of "d\<lparr>id_i := 1\<rparr>" f dl n] put_uvarint_neq_Nil
    by (simp add: IntegerDecoder_Next_def int_tags)
  moreover have "IntegerDecoder_Read ?d = (int_run f dl 0, ?d)"
    using int_rle_Read [of ?d] d by simp
  moreover have "nat (int n + 1) = Suc n" by simp
  then have "int_rle_rep ?d (map (int_run f dl) [1..<Suc n])"
    using d by (simp add: int_rle_rep_def del: upt_Suc)
  ultimately show ?thesis by auto
qed

lemma int_rle_step:
  assumes "int_rle_rep d xs"
  shows "xs = [] \<Longrightarrow> \<exists>d'. IntegerDecoder_Next P d = (False, d') \<and> int_rle_rep d' [] \<and> id_values d' = id_values d"
    and "xs = y # ys \<Longrightarrow> \<exists>d' d''. IntegerDecoder_Next P d = (True, d') \<and>
      IntegerDecoder_Read d' = (y, d'') \<and> int_rle_rep d'' ys \<and> id_values d'' = id_values d"
proof -
  assume "xs = []"
  with assms show "\<exists>d'. IntegerDecoder_Next P d = (False, d') \<and> int_rle_rep d' [] \<and> id_values d' = id_values d"
    using int_rle_running(1) [of d xs P] by (auto simp: int_rle_rep_def simp del: upt_Suc)
next
  assume ys: "xs = y # ys"
  show "\<exists>d' d''. IntegerDecoder_Next P d = (True, d') \<and>
      IntegerDecoder_Read d' = (y, d'') \<and> int_rle_rep d'' ys \<and> id_values d'' = id_values d"
  proof (cases "id_bytes d = []")
    case True
    with assms ys show ?thesis
      using int_rle_running(2) [of d xs y ys P] by (auto simp: int_rle_rep_def)
  next
    case False
    with assms obtain f dl n where s: "id_err d = None" "id_encoding d = intCompressedRLE" "id_i d = 0"
      "id_n d = 0" "id_bytes d = put_u64 f @ put_uvarint dl @ put_uvarint (of_nat n)" "n + 1 < 2 ^ 63"
      and "xs = map (int_run f dl) [0..<Suc n]"
      unfolding int_rle_rep_def by blast
    with ys have "y = int_run f dl 0" "ys = map (int_run f dl) [1..<Suc n]"
      by (auto simp: upt_conv_Cons simp del: upt_Suc)
    with int_rle_start [OF s, of P] show ?thesis by blast
  qed
qed

lemma int_rep_frame [simp]:
  "int_pending (d\<lparr>id_prev := v\<rparr>) = int_pending d" "int_rest wv (d\<lparr>id_prev := v\<rparr>) = int_rest wv d"
  "int_rest wv (d\<lparr>id_i := i\<rparr>) = int_rest wv d"
  by (simp_all add: int_pending_def int_rest_def Let_def)

lemma int_seq_at:
  assumes d: "id_err d = None" "length (id_values d) = 240" "0 \<le> id_i d" "id_i d < id_n d" "id_n d \<le> 240"
      "id_encoding d = intUncompressed \<or> id_encoding d = intCompressedSimple" "8 dvd length (id_bytes d)"
    and xs: "xs = psums (id_prev d) (map ZigZagDecode (drop (nat (id_i d)) (take (nat (id_n d)) (id_values d)) @ int_rest wv d))"
  shows "\<exists>y ys d'. xs = y # ys \<and> IntegerDecoder_Read d = (y, d') \<and> int_seq_rep wv d' ys"
proof -
  let ?v = "id_values d ! nat (id_i d)"
  let ?y = "ZigZagDecode ?v + id_prev d"
  let ?d = "d\<lparr>id_prev := ?y\<rparr>"
  have "drop (nat (id_i d)) (take (nat (id_n d)) (id_values d)) = ?v # int_pending d"
    using d Cons_nth_drop_Suc [of "nat (id_i d)" "take (nat (id_n d)) (id_values d)"]
    by (simp add: int_pending_def)
  then have "xs = ?y # psums ?y (map ZigZagDecode (int_pending ?d @ int_rest wv ?d))"
    using xs by (simp add: add.commute)
  moreover have "IntegerDecoder_Read d = (?y, ?d)"
    using d by (auto simp: IntegerDecoder_Read_def int_tags Let_def)
  ultimately show ?thesis
    using d by (auto simp: int_seq_rep_def)
qed

definition int_load :: "('e, 'd) s8b_pkg \<Rightarrow> int_decoder \<Rightarrow> int_decoder" where
  "int_load P d = (if id_encoding d = intUncompressed then int_decodeUncompressed d else int_decodePacked P d)"

context s8b_package
begin

lemma int_load_ok:
  assumes d: "id_err d = None" "length (id_values d) = 240" "8 dvd length (id_bytes d)" "id_bytes d \<noteq> []"
  defines "d' \<equiv> int_load P d"
  shows "id_err d' = None \<and> length (id_values d') = 240 \<and> id_i d' = 0 \<and> 0 < id_n d' \<and> id_n d' \<le> 240 \<and>
    id_encoding d' = id_encoding d \<and> id_prev d' = id_prev d \<and> 8 dvd length (id_bytes d') \<and>
    take (nat (id_n d')) (id_values d') @ int_rest wvals d' = int_rest wvals d"
proof -
  from d have len: "8 \<le> length (id_bytes d)" by (simp add: dvd_imp_le)
  have w: "words_of (id_bytes d) = get_u64 (id_bytes d) # words_of (drop 8 (id_bytes d))"
    using len by (rule words_of_step)
  have t1: "take (Suc 0) ((id_values d)[0 := v]) = [v]" for v
    using d(2) by (cases "id_values d") auto
  have dv: "8 dvd length (id_bytes d) - 8" using d(3) by (simp add: dvd_diff_nat)
  show ?thesis
    using d len w t1 dv wvals_len [of "get_u64 (id_bytes d)"] Decode_law [OF d(2), of "get_u64 (id_bytes d)"]
    by (simp add: d'_def int_load_def int_decodeUncompressed_def int_decodePacked_def int_rest_def int_tags Let_def)
qed

lemma int_seq_step:
  assumes "int_seq_rep wvals d xs"
  shows "xs = [] \<Longrightarrow> \<exists>d'. IntegerDecoder_Next P d = (False, d') \<and> int_seq_rep wvals d' []"
    and "xs = y # ys \<Longrightarrow> \<exists>d' d''. IntegerDecoder_Next P d = (True, d') \<and>
      IntegerDecoder_Read d' = (y, d'') \<and> int_seq_rep wvals d'' ys"
proof -
  let ?d = "d\<lparr>id_i := id_i d + 1\<rparr>"
  have d: "id_err d = None" "length (id_values d) = 240" "0 \<le> id_i d" "id_n d \<le> 240" "0 \<le> id_n d"
      "id_encoding d = intUncompressed \<or> id_encoding d = intCompressedSimple" "8 dvd length (id_bytes d)"
    and xs: "xs = psums (id_prev d) (map ZigZagDecode (int_pending d @ int_rest wvals d))"
    using assms by (auto simp: int_seq_rep_def)
  consider (buffered) "id_i d + 1 < id_n d" | (load) "id_n d \<le> id_i d + 1" "id_bytes d \<noteq> []"
    | (stop) "id_n d \<le> id_i d + 1" "id_bytes d = []" by linarith
  then have "(\<exists>d'. xs = [] \<and> IntegerDecoder_Next P d = (False, d') \<and> int_seq_rep wvals d' []) \<or>
    (\<exists>y ys d' d''. xs = y # ys \<and> IntegerDecoder_Next P d = (True, d') \<and>
      IntegerDecoder_Read d' = (y, d'') \<and> int_seq_rep wvals d'' ys)"
  proof cases
    case buffered
    have "\<exists>y ys d''. xs = y # ys \<and> IntegerDecoder_Read ?d = (y, d'') \<and> int_seq_rep wvals d'' ys"
      using d buffered xs by (intro int_seq_at) (auto simp: int_pending_def nat_add_distrib)
    moreover have "IntegerDecoder_Next P d = (True, ?d)"
      using buffered d by (simp add: IntegerDecoder_Next_def)
    ultimately show ?thesis by blast
  next
    case load
    let ?l = "int_load P ?d"
    have l: "id_err ?l = None \<and> length (id_values ?l) = 240 \<and> id_i ?l = 0 \<and> 0 < id_n ?l \<and> id_n ?l \<le> 240 \<and>
      id_encoding ?l = id_encoding d \<and> id_prev ?l = id_prev d \<and> 8 dvd length (id_bytes ?l) \<and>
      take (nat (id_n ?l)) (id_values ?l) @ int_rest wvals ?l = int_rest wvals d"
      using int_load_ok [of ?d] d load by simp
    then have "\<exists>y ys d''. xs = y # ys \<and> IntegerDecoder_Read ?l = (y, d'') \<and> int_seq_rep wvals d'' ys"
      using d load xs by (intro int_seq_at) (auto simp: int_pending_def)
    moreover have "IntegerDecoder_Next P d = (True, ?l)"
      using load d l by (auto simp: IntegerDecoder_Next_def int_load_def int_tags Let_def)
    ultimately show ?thesis by blast
  next
    case stop
    then have "xs = []" using xs d by (simp add: int_pending_def int_rest_def)
    moreover have "\<exists>d'. IntegerDecoder_Next P d = (False, d') \<and> int_seq_rep wvals d' []"
      using stop d by (auto simp: IntegerDecoder_Next_def int_tags int_decodeUncompressed_def
        int_decodePacked_def int_seq_rep_def int_pending_def int_rest_def Let_def)
    ultimately show ?thesis by blast
  qed
  then show "xs = [] \<Longrightarrow> \<exists>d'. IntegerDecoder_Next P d = (False, d') \<and> int_seq_rep wvals d' []"
    and "xs = y # ys \<Longrightarrow> \<exists>d' d''. IntegerDecoder_Next P d = (True, d') \<and>
      IntegerDecoder_Read d' = (y, d'') \<and> int_seq_rep wvals d'' ys" by auto
qed

lemma int_value_decoder:
  "value_decoder (IntegerDecoder_Next P) IntegerDecoder_Read id_err (int_dec_rep wvals)"
proof
  fix s :: int_decoder and xs
  assume "int_dec_rep wvals s xs"
  then show "id_err s = None" by (auto simp: int_dec_rep_def int_seq_rep_def int_rle_rep_def)
next
  fix s
  assume "int_dec_rep wvals s []"
  then show "\<exists>s'. IntegerDecoder_Next P s = (False, s') \<and> int_dec_rep wvals s' []"
    using int_seq_step(1) [of s "[]"] int_rle_step(1) [of s "[]" P]
    by (fastforce simp: int_dec_rep_def int_seq_rep_def)
next
  fix s x xs
  assume "int_dec_rep wvals s (x # xs)"
  then show "\<exists>s' s''. IntegerDecoder_Next P s = (True, s') \<and> IntegerDecoder_Read s' = (x, s'') \<and>
      int_dec_rep wvals s'' xs"
    using int_seq_step(2) [of s "x # xs" x xs] int_rle_step(2) [of s "x # xs" x xs P]
    by (fastforce simp: int_dec_rep_def int_seq_rep_def)
qed

end

sublocale s8b_package < intd: value_decoder "IntegerDecoder_Next P" IntegerDecoder_Read id_err "int_dec_rep wvals"
  by (rule int_value_decoder)

lemma int_fmt_dec:
  assumes "int_fmt wv b xs" and "length (id_values d) = 240"
  shows "int_dec_rep wv (IntegerDecoder_SetBytes b d) xs"
  using assms
proof (induction rule: int_fmt.induct)
  case empty
  then show ?case
    by (simp add: int_dec_rep_def int_seq_rep_def IntegerDecoder_SetBytes_def int_tags int_pending_def int_rest_def)
next
  case (raw xs)
  then show ?case
    by (simp add: int_dec_rep_def int_seq_rep_def IntegerDecoder_SetBytes_def int_tags int_pending_def
        int_rest_def zdeltas_decode)
next
  case (packed xs f ws)
  then show ?case
    using zdeltas_decode [of xs]
    by (simp add: int_dec_rep_def int_seq_rep_def IntegerDecoder_SetBytes_def int_tags int_pending_def
        int_rest_def int_packed_bytes_def)
next
  case (rle xs f n dl)
  let ?d = "IntegerDecoder_SetBytes (push_bit 4 intCompressedRLE # put_u64 f @ put_uvarint dl @ put_uvarint (of_nat n)) d"
  have "id_err ?d = None" "id_encoding ?d = intCompressedRLE" "id_i ?d = 0" "id_n ?d = 0"
    "id_bytes ?d = put_u64 f @ put_uvarint dl @ put_uvarint (of_nat n)" "length (id_values ?d) = 240"
    using rle by (simp_all add: IntegerDecoder_SetBytes_def int_tags)
  with rle_values [OF rle(1)] rle(2) show ?case
    unfolding int_dec_rep_def int_rle_rep_def by (metis order_refl)
qed

section \<open>Corrupt input\<close>

lemma int_Read_frame:
  "IntegerDecoder_Read d = (v, d') \<Longrightarrow> id_bytes d' = id_bytes d \<and> id_n d' = id_n d \<and> id_i d' = id_i d \<and>
    length (id_values d') = length (id_values d)"
  by (auto simp: IntegerDecoder_Read_def Let_def split: if_splits)

lemma int_uncompressed_shrinks:
  "id_bytes (int_decodeUncompressed d) = id_bytes d \<and> id_i (int_decodeUncompressed d) = id_i d \<and>
     id_n (int_decodeUncompressed d) = id_n d \<or>
   length (id_bytes (int_decodeUncompressed d)) < length (id_bytes d)"
  by (auto simp: int_decodeUncompressed_def)

lemma int_rle_shrinks:
  "id_bytes (int_decodeRLE d) = id_bytes d \<and> id_i (int_decodeRLE d) = id_i d \<and> id_n (int_decodeRLE d) = id_n d \<or>
   length (id_bytes (int_decodeRLE d)) < length (id_bytes d)"
  by (auto simp: int_decodeRLE_def Let_def split: prod.split)

lemma int_packed_shrinks:
  "id_bytes (int_decodePacked P d) = id_bytes d \<and> id_i (int_decodePacked P d) = id_i d \<and>
     id_n (int_decodePacked P d) = id_n d \<or>
   length (id_bytes (int_decodePacked P d)) < length (id_bytes d)"
  by (auto simp: int_decodePacked_def Let_def)

text \<open>A round that delivers a value consumes bytes or advances within the values it has.\<close>

lemma int_Next_progress:
  assumes "IntegerDecoder_Next P d = (True, d')"
  shows "length (id_bytes d') < length (id_bytes d) \<or>
    id_bytes d' = id_bytes d \<and> id_n d' = id_n d \<and> id_i d' = id_i d + 1 \<and> id_i d' < id_n d"
proof -
  let ?d = "d\<lparr>id_i := id_i d + 1\<rparr>"
  let ?r = "if id_encoding d = intUncompressed then int_decodeUncompressed ?d
    else if id_encoding d = intCompressedSimple then int_decodePacked P ?d
    else if id_encoding d = intCompressedRLE then int_decodeRLE ?d
    else ?d\<lparr>id_err := Some (GoError ''unknown encoding'')\<rparr>"
  have "d' = (if id_n d \<le> id_i d + 1 then ?r else ?d)" "id_i d' < id_n d'"
    using assms by (auto simp: IntegerDecoder_Next_def Let_def split: if_splits)
  moreover have "id_bytes ?r = id_bytes d \<and> id_i ?r = id_i d + 1 \<and> id_n ?r = id_n d \<or>
      length (id_bytes ?r) < length (id_bytes d)"
    using int_uncompressed_shrinks [of ?d] int_packed_shrinks [of P ?d] int_rle_shrinks [of ?d] by simp
  ultimately show ?thesis by (auto split: if_splits)
qed

lemma int_drain_ends: "\<exists>r. drain (IntegerDecoder_Next P) IntegerDecoder_Read d acc = Some r"
proof (rule drain_terminates [where I = "\<lambda>_. True", OF wf_measures])
  fix d d' d'' :: int_decoder and v
  assume "IntegerDecoder_Next P d = (True, d')" and r: "IntegerDecoder_Read d' = (v, d'')"
  from int_Next_progress [OF this(1)] int_Read_frame [OF r]
  show "True \<and> (d'', d) \<in> measures [\<lambda>d. length (id_bytes d), \<lambda>d. nat (id_n d - id_i d)]" by auto
qed simp

end
