(* ===== verification/Int_Batch.thy ===== *)
theory Int_Batch
  imports Int_Codec
begin

unbundle bit_operations_syntax

text \<open>
  The batch integer codec of \<^verbatim>\<open>tsdb/tsm1/batch_integer.go\<close>: \<^verbatim>\<open>IntegerArrayEncodeAll\<close> works in the
  caller's array and \<^verbatim>\<open>IntegerArrayDecodeAll\<close> into one. They use the repository's simple8b, and their
  blocks have the format \<^const>\<open>int_fmt\<close> of the streaming codec.
\<close>

section \<open>Encoding\<close>

definition int_batch_rle :: "u64 list \<Rightarrow> u8 slice \<Rightarrow> bytes res" where
  "int_batch_rle ds b =
     (let out = push_bit 4 intCompressedRLE # put_u64 (ds ! 0) @ put_uvarint (ds ! 1) @
                put_uvarint (of_nat (length ds - 1))
      in bind_res (put_slice out (grow_slice 31 b)) (\<lambda>b'. Inr (take (length out) b')))"

definition int_batch_raw :: "u64 list \<Rightarrow> u8 slice \<Rightarrow> bytes res" where
  "int_batch_raw ds b =
     (let sz = 1 + length ds * 8
      in bind_res (put_slice (push_bit 4 intUncompressed # bytes_of ds) (grow_slice sz b))
           (\<lambda>b'. Inr (take sz b')))"

text \<open>The packed branch returns \<^verbatim>\<open>b\<close> itself, not \<^verbatim>\<open>b[:sz]\<close>.\<close>

definition int_batch_packed :: "u64 \<Rightarrow> u64 list \<Rightarrow> u8 slice \<Rightarrow> bytes res" where
  "int_batch_packed first encoded b =
     put_slice (int_packed_bytes first encoded) (grow_slice (1 + (length encoded + 1) * 8) b)"

text \<open>The result and what is left in the caller's array.\<close>

definition IntegerArrayEncodeAll :: "i64 list \<Rightarrow> u8 slice \<Rightarrow> bytes res \<times> i64 list" where
  "IntegerArrayEncodeAll src b =
     (if src = [] then (Inr [], [])
      else case delta_loop ZigZagEncode (length src - 1) src 0 of (ds1, mx) \<Rightarrow>
        let ds = ds1[0 := ZigZagEncode (ds1 ! 0)] in
        if length ds > 2 \<and> all_equal_tail ds then (int_batch_rle ds b, ds)
        else if mx > MaxValue then (int_batch_raw ds b, ds)
        else case s8b_EncodeAll (drop 1 ds) of (r, rest) \<Rightarrow>
          (case r of Inl e \<Rightarrow> Inl e | Inr encoded \<Rightarrow> int_batch_packed (ds ! 0) encoded b, ds ! 0 # rest))"

definition UnsignedArrayEncodeAll :: "u64 list \<Rightarrow> u8 slice \<Rightarrow> bytes res \<times> u64 list" where
  "UnsignedArrayEncodeAll src b = IntegerArrayEncodeAll src b"

section \<open>Decoding\<close>

fun int_raw_loop :: "bytes \<Rightarrow> nat \<Rightarrow> nat \<Rightarrow> i64 \<Rightarrow> i64 list" where
  "int_raw_loop b i 0 prev = []"
| "int_raw_loop b i (Suc n) prev =
     (let p = prev + ZigZagDecode (get_u64 (drop (i * 8) b)) in p # int_raw_loop b (Suc i) n p)"

definition integerBatchDecodeAllUncompressed :: "bytes \<Rightarrow> i64 list \<Rightarrow> i64 list res" where
  "integerBatchDecodeAllUncompressed b0 dst =
     (let b = drop 1 b0 in
      if length b mod 8 \<noteq> 0 then Inl (GoError ''integerArrayDecodeAll: expected multiple of 8 bytes'')
      else bind_res (size_dst (length b div 8) dst) (\<lambda>dst. Inr (int_raw_loop b 0 (length dst) 0)))"

fun int_sum_loop :: "i64 \<Rightarrow> u64 list \<Rightarrow> i64 list" where
  "int_sum_loop prev [] = []"
| "int_sum_loop prev (v # vs) = (let p = prev + ZigZagDecode v in p # int_sum_loop p vs)"

definition integerBatchDecodeAllSimple :: "bytes \<Rightarrow> i64 list \<Rightarrow> i64 list res" where
  "integerBatchDecodeAllSimple b0 dst =
     (let b = drop 1 b0 in
      if length b < 8 then Inl (GoError ''integerArrayDecodeAll: not enough data to decode packed value'')
      else bind_res (s8b_CountBytes (drop 8 b)) (\<lambda>c.
        let count = c + 1 in
        bind_res (size_dst count dst) (\<lambda>dst.
          let first = ZigZagDecode (get_u64 b) in
          bind_res (s8b_DecodeBytesBigEndian (drop 1 dst) (drop 8 b)) (\<lambda>(n, buf).
            if n \<noteq> count - 1
            then Inl (GoError ''integerArrayDecodeAll: unexpected number of values decoded'')
            else Inr (first # int_sum_loop first buf)))))"

fun int_run_loop :: "nat \<Rightarrow> i64 \<Rightarrow> i64 \<Rightarrow> i64 list" where
  "int_run_loop 0 acc delta = []"
| "int_run_loop (Suc n) acc delta = acc # int_run_loop n (acc + delta) delta"

definition integerBatchDecodeAllRLE :: "bytes \<Rightarrow> i64 list \<Rightarrow> i64 list res" where
  "integerBatchDecodeAllRLE b0 dst =
     (let b = drop 1 b0 in
      if length b < 8
      then Inl (GoError ''integerArrayDecodeAll: not enough data to decode RLE starting value'')
      else
        let first = ZigZagDecode (get_u64 b); (val, n1) = get_uvarint (drop 8 b) in
        if n1 \<le> 0 then Inl (GoError ''integerArrayDecodeAll: invalid RLE delta value'')
        else
          let delta = ZigZagDecode val; (c, n2) = get_uvarint (drop (8 + nat n1) b) in
          if n2 \<le> 0 then Inl (GoError ''integerArrayDecodeAll: invalid RLE repeat value'')
          else bind_res (size_dst_u64 (c + 1) dst) (\<lambda>dst.
            Inr (if delta = 0 then replicate (length dst) first
                 else int_run_loop (length dst) first delta)))"

definition integerBatchDecodeAllInvalid :: "bytes \<Rightarrow> i64 list \<Rightarrow> i64 list res" where
  "integerBatchDecodeAllInvalid b dst = Inl (GoError ''unknown encoding'')"

definition integerBatchDecoderFunc :: "(bytes \<Rightarrow> i64 list \<Rightarrow> i64 list res) list" where
  "integerBatchDecoderFunc = [integerBatchDecodeAllUncompressed, integerBatchDecodeAllSimple,
     integerBatchDecodeAllRLE, integerBatchDecodeAllInvalid]"

definition IntegerArrayDecodeAll :: "bytes \<Rightarrow> i64 list \<Rightarrow> i64 list res" where
  "IntegerArrayDecodeAll b dst =
     (case b of [] \<Rightarrow> Inr []
      | x # _ \<Rightarrow>
          let encoding = (if drop_bit 4 x > intCompressedRLE then 3 else drop_bit 4 x)
          in (integerBatchDecoderFunc ! unat (encoding AND 3)) b dst)"

definition UnsignedArrayDecodeAll :: "bytes \<Rightarrow> u64 list \<Rightarrow> u64 list res" where
  "UnsignedArrayDecodeAll b dst =
     (case b of [] \<Rightarrow> Inr []
      | x # _ \<Rightarrow>
          let encoding = (if drop_bit 4 x > intCompressedRLE then 3 else drop_bit 4 x)
          in (integerBatchDecoderFunc ! unat (encoding AND 3)) b dst)"

section \<open>The encoder produces the format\<close>

lemma int_delta_loop:
  assumes "src \<noteq> []"
  shows "(fst (delta_loop ZigZagEncode (length src - 1) src 0))[0 :=
      ZigZagEncode (fst (delta_loop ZigZagEncode (length src - 1) src 0) ! 0)] = zdeltas src"
    and "\<not> snd (delta_loop ZigZagEncode (length src - 1) src 0) > MaxValue \<longleftrightarrow> small60 (drop 1 (zdeltas src))"
proof -
  show "(fst (delta_loop ZigZagEncode (length src - 1) src 0))[0 :=
      ZigZagEncode (fst (delta_loop ZigZagEncode (length src - 1) src 0) ! 0)] = zdeltas src"
    unfolding delta_loop_all(1) [OF assms] zdeltas_def using assms by (cases src) auto
  have "\<not> (0 :: u64) > MaxValue" by simp
  then show "\<not> snd (delta_loop ZigZagEncode (length src - 1) src 0) > MaxValue \<longleftrightarrow> small60 (drop 1 (zdeltas src))"
    unfolding delta_loop_all(2) [OF assms] small60_iff zdeltas_def list_ex_iff
    using repo.MaxValue_less by (simp add: s8b_repo_def drop_map)
qed

lemma length_int_rle:
  "length (t # put_u64 f @ put_uvarint d @ put_uvarint n) \<le> 31"
  using length_put_uvarint_le10 [of d] length_put_uvarint_le10 [of n] by simp

lemma int_batch_rle_eq:
  "int_batch_rle ds b = Inr (push_bit 4 intCompressedRLE # put_u64 (ds ! 0) @ put_uvarint (ds ! 1) @
     put_uvarint (of_nat (length ds - 1)))"
  unfolding int_batch_rle_def Let_def by (rule take_put_grow_slice [OF length_int_rle])

lemma int_batch_raw_eq: "int_batch_raw ds b = Inr (push_bit 4 intUncompressed # bytes_of ds)"
  unfolding int_batch_raw_def Let_def
  using take_put_grow_slice [of "push_bit 4 intUncompressed # bytes_of ds" "1 + length ds * 8"]
  by (simp add: mult.commute)

lemma int_batch_packed_eq:
  "int_batch_packed f ws b = Inr (int_packed_bytes f ws @ drop (length (int_packed_bytes f ws)) (fst b))"
proof -
  have len: "length (int_packed_bytes f ws) = 1 + (length ws + 1) * 8" by (simp add: int_packed_bytes_def)
  show ?thesis
    unfolding int_batch_packed_def len [symmetric] by (simp add: put_grow_slice drop_grow_slice)
qed

lemma IntegerArrayEncodeAll_eq:
  assumes "src \<noteq> []"
  shows "fst (IntegerArrayEncodeAll src b) =
    (if length src > 2 \<and> run_tail (zdeltas src) then int_batch_rle (zdeltas src) b
     else if \<not> small60 (drop 1 (zdeltas src)) then int_batch_raw (zdeltas src) b
     else case fst (s8b_EncodeAll (drop 1 (zdeltas src))) of Inl e \<Rightarrow> Inl e
          | Inr ws \<Rightarrow> int_batch_packed (zdeltas src ! 0) ws b)"
proof -
  have "length src > 2 \<Longrightarrow> all_equal_tail (zdeltas src) \<longleftrightarrow> run_tail (zdeltas src)"
    by (rule all_equal_tail_run) simp
  then show ?thesis
    unfolding IntegerArrayEncodeAll_def case_prod_beta Let_def int_delta_loop [OF assms] length_zdeltas
    using int_delta_loop(2) [OF assms] assms by auto
qed

text \<open>The block is well formed; a packed block is followed by what the caller's slice held there.\<close>

lemma IntegerArrayEncodeAll_fmt:
  assumes len: "length src < 2 ^ 63"
  shows "\<exists>r stale. fst (IntegerArrayEncodeAll src b) = Inr (r @ stale) \<and> int_fmt word_vals r src \<and>
    (stale = [] \<or> stale = drop (length r) (fst b) \<and> 9 \<le> length r)"
proof (cases "src = []")
  case True
  then show ?thesis by (auto simp: IntegerArrayEncodeAll_def int_fmt.empty)
next
  case False
  note eq = IntegerArrayEncodeAll_eq [OF False, of b]
  consider (rle) "length src > 2" "run_tail (zdeltas src)"
    | (raw) "\<not> (length src > 2 \<and> run_tail (zdeltas src))" "\<not> small60 (drop 1 (zdeltas src))"
    | (pack) "\<not> (length src > 2 \<and> run_tail (zdeltas src))" "small60 (drop 1 (zdeltas src))" by blast
  then show ?thesis
  proof cases
    case rle
    then have "fst (IntegerArrayEncodeAll src b) = int_batch_rle (zdeltas src) b" unfolding eq by auto
    moreover have "int_fmt word_vals (push_bit 4 intCompressedRLE # put_u64 (zdeltas src ! 0) @
        put_uvarint (zdeltas src ! 1) @ put_uvarint (of_nat (length (zdeltas src) - 1))) src"
      using int_fmt.rle [OF zdeltas_run [OF rle(2)], of word_vals] rle len by simp
    ultimately show ?thesis unfolding int_batch_rle_eq by (intro exI [of _ "[]"] exI conjI) auto
  next
    case raw
    then have "fst (IntegerArrayEncodeAll src b) = int_batch_raw (zdeltas src) b" unfolding eq by auto
    then show ?thesis
      unfolding int_batch_raw_eq by (intro exI [of _ "[]"] exI conjI) (auto intro: int_fmt.raw)
  next
    case pack
    obtain f rest where z: "zdeltas src = f # rest"
      using False by (cases src) (auto simp: zdeltas_def)
    from pack z obtain ws src' where e: "s8b_EncodeAll rest = (Inr ws, src')" "concat (map word_vals ws) = rest"
      using s8b_EncodeAll_ok [of rest] by (auto simp: vals_of_def)
    then have "int_fmt word_vals (int_packed_bytes f ws) src" using z by (auto intro: int_fmt.packed)
    moreover have "fst (IntegerArrayEncodeAll src b) = int_batch_packed f ws b"
      unfolding eq using pack z e by auto
    moreover have "9 \<le> length (int_packed_bytes f ws)" by (simp add: int_packed_bytes_def)
    ultimately show ?thesis unfolding int_batch_packed_eq by blast
  qed
qed

section \<open>The decoder reads the format\<close>

lemma int_raw_loop_eq:
  "n + i = length ws \<Longrightarrow> int_raw_loop (bytes_of ws) i n p = psums p (map ZigZagDecode (drop i ws))"
proof (induction n arbitrary: i p)
  case (Suc n)
  have "drop i ws = ws ! i # drop (Suc i) ws" using Suc.prems by (simp add: Cons_nth_drop_Suc)
  then show ?case using Suc by (simp add: Let_def drop_bytes_of)
qed simp

lemma int_sum_loop_eq: "int_sum_loop p vs = psums p (map ZigZagDecode vs)"
  by (induction vs arbitrary: p) (simp_all add: Let_def)

lemma int_run_loop_eq: "int_run_loop n acc delta = map (\<lambda>k. acc + of_nat k * delta) [0..<n]"
proof (induction n arbitrary: acc)
  case (Suc n)
  show ?case
    unfolding upt_conv_Cons [OF zero_less_Suc] map_Suc_upt [symmetric]
    by (simp add: Suc o_def algebra_simps)
qed simp

lemma integerBatchDecodeAllUncompressed_ok:
  assumes "length xs \<le> max_words"
  shows "integerBatchDecodeAllUncompressed (t # bytes_of (zdeltas xs)) dst = Inr xs"
  using size_dst_ok [OF assms, of dst] int_raw_loop_eq [of "length xs" 0 "zdeltas xs" 0] zdeltas_decode [of xs]
  by (auto simp: integerBatchDecodeAllUncompressed_def Let_def)

lemma integerBatchDecodeAllSimple_ok:
  assumes "zdeltas xs = f # concat (map word_vals ws)" and "length xs \<le> max_words"
  shows "integerBatchDecodeAllSimple (int_packed_bytes f ws) dst = Inr xs"
proof -
  have len: "length xs = length (vals_of ws) + 1"
    using arg_cong [OF assms(1), of length] by (simp add: vals_of_def)
  from size_dst_ok [OF assms(2), of dst] len
  obtain ys where ys: "size_dst (length (vals_of ws) + 1) dst = Inr ys" "length ys = length (vals_of ws) + 1"
    by auto
  then have "s8b_DecodeBytesBigEndian (drop 1 ys) (bytes_of ws) = Inr (length (vals_of ws), vals_of ws)"
    using s8b_DecodeBytesBigEndian_ok [of "bytes_of ws" "drop 1 ys"] by simp
  moreover have "s8b_CountBytes (bytes_of ws) = Inr (length (vals_of ws))"
    by (simp add: s8b_CountBytes_eq)
  ultimately show ?thesis
    using ys zdeltas_decode [of xs] assms(1)
    by (simp add: integerBatchDecodeAllSimple_def int_packed_bytes_def Let_def int_sum_loop_eq vals_of_def)
qed

lemma integerBatchDecodeAllRLE_ok:
  assumes "zdeltas xs = f # replicate n d" and "length xs \<le> max_words"
  shows "integerBatchDecodeAllRLE (t # put_u64 f @ put_uvarint d @ put_uvarint (of_nat n)) dst = Inr xs"
proof -
  have len: "length xs = Suc n" using arg_cong [OF assms(1), of length] by simp
  from size_dst_u64_ok [OF assms(2), of dst] len
  obtain ys where ys: "size_dst_u64 (of_nat n + 1) dst = Inr ys" "length ys = Suc n" by (auto simp: add.commute)
  have xs: "xs = map (int_run f d) [0..<Suc n]" using rle_values [OF assms(1)] .
  have "ZigZagDecode d = 0 \<Longrightarrow> replicate (Suc n) (ZigZagDecode f) = xs"
    unfolding xs int_run_def by (simp add: map_replicate_const del: upt_Suc replicate_Suc)
  moreover have "int_run_loop (Suc n) (ZigZagDecode f) (ZigZagDecode d) = xs"
    unfolding xs int_run_loop_eq int_run_def ..
  ultimately show ?thesis
    using ys get_put_uvarint [of "of_nat n" "[]"]
    by (simp add: integerBatchDecodeAllRLE_def Let_def)
qed

lemma IntegerArrayDecodeAll_fmt:
  assumes "int_fmt word_vals b xs" and "length xs \<le> max_words"
  shows "IntegerArrayDecodeAll b dst = Inr xs"
  using assms
proof (induction rule: int_fmt.induct)
  case empty
  then show ?case by (simp add: IntegerArrayDecodeAll_def)
next
  case (raw xs)
  then show ?case
    by (simp add: IntegerArrayDecodeAll_def integerBatchDecoderFunc_def int_tags
        integerBatchDecodeAllUncompressed_ok)
next
  case (packed xs f ws)
  then show ?case
    using integerBatchDecodeAllSimple_ok [of xs f ws dst]
    by (simp add: IntegerArrayDecodeAll_def integerBatchDecoderFunc_def int_tags int_packed_bytes_def)
next
  case (rle xs f n d)
  then show ?case
    using integerBatchDecodeAllRLE_ok [of xs f n d "push_bit 4 intCompressedRLE" dst]
    by (simp add: IntegerArrayDecodeAll_def integerBatchDecoderFunc_def int_tags)
qed

lemma integerBatch_mem_safe:
  "mem_safe (integerBatchDecodeAllUncompressed b dst)"
  "mem_safe (integerBatchDecodeAllSimple b dst)"
  "mem_safe (integerBatchDecodeAllRLE b dst)"
  "mem_safe (integerBatchDecodeAllInvalid b dst)"
  unfolding integerBatchDecodeAllUncompressed_def integerBatchDecodeAllSimple_def
    integerBatchDecodeAllRLE_def integerBatchDecodeAllInvalid_def Let_def
  by (auto intro!: mem_safe_bind mem_safe_DecodeBytes split: prod.split dest: length_size_dst)

section \<open>Properties\<close>

text \<open>
  C27: the streaming integer codec. For any simple8b package that keeps its contract, every list of
  integers written to a new or reset \<^verbatim>\<open>IntegerEncoder\<close> encodes without error, and an \<^verbatim>\<open>IntegerDecoder\<close>
  set to the bytes, whatever its earlier state, delivers exactly the list, stops, and has no error.
  This covers all three formats and deltas that overflow 64 bits.
\<close>

theorem int_stream_roundtrip:
  assumes "s8b_package P wv er dv dr" and "e = NewIntegerEncoder \<or> (\<exists>e0. e = IntegerEncoder_Reset e0)"
    and "length xs < 2 ^ 63" and "length (id_values d) = 240"
  shows "\<exists>b e' d'. IntegerEncoder_Bytes P (foldl IntegerEncoder_Write e xs) = (Inr b, e') \<and>
    drain (IntegerDecoder_Next P) IntegerDecoder_Read (IntegerDecoder_SetBytes b d) [] = Some (xs, d') \<and>
    id_err d' = None"
proof -
  have "int_enc_rep (foldl IntegerEncoder_Write e xs) xs"
    using assms(2) int_enc_rep_init int_enc_rep_fold [of e "[]" xs] by auto
  from s8b_package.int_Bytes_fmt [OF assms(1) this assms(3)]
  obtain b e' where b: "IntegerEncoder_Bytes P (foldl IntegerEncoder_Write e xs) = (Inr b, e')" "int_fmt wv b xs"
    by blast
  note dec = s8b_package.int_value_decoder [OF assms(1)]
  from value_decoder.drain_rep [OF dec int_fmt_dec [OF b(2) assms(4)], of "[]"]
  show ?thesis using b(1) value_decoder.rep_err [OF dec] by fastforce
qed

theorem int_stream_roundtrip_witness:
  "\<exists>b e' d'. IntegerEncoder_Bytes s8b_repo (foldl IntegerEncoder_Write NewIntegerEncoder [4, 7, - 2]) = (Inr b, e') \<and>
    drain (IntegerDecoder_Next s8b_repo) IntegerDecoder_Read (IntegerDecoder_SetBytes b ZeroIntegerDecoder) [] =
      Some ([4, 7, - 2], d') \<and> id_err d' = None"
  by (rule int_stream_roundtrip [OF repo.s8b_package_axioms]) (simp_all add: ZeroIntegerDecoder_def)

text \<open>
  C30: the batch integer codec. \<^verbatim>\<open>IntegerArrayEncodeAll\<close> into a slice of at most nine bytes (the engine
  passes none) encodes every array without error, and \<^verbatim>\<open>IntegerArrayDecodeAll\<close> restores it into any
  destination.
\<close>

theorem int_batch_roundtrip:
  assumes "length src \<le> max_words" and "length (fst b) \<le> 9"
  shows "\<exists>r. fst (IntegerArrayEncodeAll src b) = Inr r \<and> IntegerArrayDecodeAll r dst = Inr src"
proof -
  have "length src < 2 ^ 63" using assms(1) by (simp add: max_words_def)
  from IntegerArrayEncodeAll_fmt [OF this, of b] obtain r stale
    where r: "fst (IntegerArrayEncodeAll src b) = Inr (r @ stale)" "int_fmt word_vals r src"
      and "stale = [] \<or> stale = drop (length r) (fst b) \<and> 9 \<le> length r" by blast
  then have "stale = []" using assms(2) by auto
  with r IntegerArrayDecodeAll_fmt [OF r(2) assms(1), of dst] show ?thesis by simp
qed

theorem int_batch_roundtrip_witness:
  "\<exists>r. fst (IntegerArrayEncodeAll [5, 9, 9, 2] ([], [])) = Inr r \<and> IntegerArrayDecodeAll r [1, 1] = Inr [5, 9, 9, 2]"
  by (rule int_batch_roundtrip) (simp_all add: max_words_def)

text \<open>
  C32: the two codecs read each other's blocks. What the batch encoder writes, the streaming decoder over
  any simple8b package with the same word format delivers; what the streaming encoder writes, the batch
  decoder restores.
\<close>

theorem int_codecs_interchange:
  assumes "s8b_package P word_vals er dv dr" and "length xs \<le> max_words" and "length (id_values d) = 240"
  shows "(\<exists>b d'. fst (IntegerArrayEncodeAll xs ([], [])) = Inr b \<and>
      drain (IntegerDecoder_Next P) IntegerDecoder_Read (IntegerDecoder_SetBytes b d) [] = Some (xs, d')) \<and>
    (\<exists>b e'. IntegerEncoder_Bytes P (foldl IntegerEncoder_Write NewIntegerEncoder xs) = (Inr b, e') \<and>
      IntegerArrayDecodeAll b dst = Inr xs)"
proof
  have len: "length xs < 2 ^ 63" using assms(2) by (simp add: max_words_def)
  from IntegerArrayEncodeAll_fmt [OF len, of "([], [])"] obtain b
    where b: "fst (IntegerArrayEncodeAll xs ([], [])) = Inr b" "int_fmt word_vals b xs" by auto
  from value_decoder.drain_rep [OF s8b_package.int_value_decoder [OF assms(1)]
      int_fmt_dec [OF b(2) assms(3)], of "[]"] b(1)
  show "\<exists>b d'. fst (IntegerArrayEncodeAll xs ([], [])) = Inr b \<and>
      drain (IntegerDecoder_Next P) IntegerDecoder_Read (IntegerDecoder_SetBytes b d) [] = Some (xs, d')" by auto
  have "int_enc_rep (foldl IntegerEncoder_Write NewIntegerEncoder xs) xs"
    using int_enc_rep_init int_enc_rep_fold [of NewIntegerEncoder "[]" xs] by simp
  from s8b_package.int_Bytes_fmt [OF assms(1) this len] IntegerArrayDecodeAll_fmt [OF _ assms(2)]
  show "\<exists>b e'. IntegerEncoder_Bytes P (foldl IntegerEncoder_Write NewIntegerEncoder xs) = (Inr b, e') \<and>
      IntegerArrayDecodeAll b dst = Inr xs" by blast
qed

theorem int_codecs_interchange_witness:
  "(\<exists>b d'. fst (IntegerArrayEncodeAll [3, 1] ([], [])) = Inr b \<and>
      drain (IntegerDecoder_Next s8b_repo) IntegerDecoder_Read (IntegerDecoder_SetBytes b ZeroIntegerDecoder) [] =
        Some ([3, 1], d')) \<and>
   (\<exists>b e'. IntegerEncoder_Bytes s8b_repo (foldl IntegerEncoder_Write NewIntegerEncoder [3, 1]) = (Inr b, e') \<and>
      IntegerArrayDecodeAll b [] = Inr [3, 1])"
  by (rule int_codecs_interchange [OF repo.s8b_package_axioms])
    (simp_all add: max_words_def ZeroIntegerDecoder_def)

text \<open>
  C34: corrupt blocks. Whatever the bytes, \<^verbatim>\<open>IntegerArrayDecodeAll\<close> neither writes outside its destination
  nor indexes out of range, and the loop over the streaming decoder ends.
\<close>

theorem int_decode_corrupt_safe:
  "mem_safe (IntegerArrayDecodeAll b dst) \<and>
   (\<exists>r. drain (IntegerDecoder_Next P) IntegerDecoder_Read (IntegerDecoder_SetBytes b d) [] = Some r)"
proof
  show "\<exists>r. drain (IntegerDecoder_Next P) IntegerDecoder_Read (IntegerDecoder_SetBytes b d) [] = Some r"
    by (rule int_drain_ends)
  have "mem_safe ((integerBatchDecoderFunc ! unat (x AND 3)) b dst)" for x :: u8
    by (rule mem_safe_table) (auto simp: integerBatchDecoderFunc_def integerBatch_mem_safe)
  then show "mem_safe (IntegerArrayDecodeAll b dst)"
    unfolding IntegerArrayDecodeAll_def Let_def by (cases b) (simp_all only: list.case mem_safe_simps)
qed

text \<open>
  The packed branch of \<^verbatim>\<open>IntegerArrayEncodeAll\<close> returns the whole slice it was given. With a slice longer
  than the block, the bytes that follow are decoded as further values: one value encoded into
  seventeen zero bytes decodes to 241 values.
\<close>

theorem int_batch_stale_bytes:
  "\<exists>r ys. fst (IntegerArrayEncodeAll [5] (replicate 17 0, [])) = Inr r \<and> length r = 17 \<and>
    IntegerArrayDecodeAll r [] = Inr ys \<and> length ys = 241"
proof -
  have enc: "fst (IntegerArrayEncodeAll [5] (replicate 17 0, [])) = Inr (int_packed_bytes 10 [] @ put_u64 0)"
    by code_simp
  let ?xs = "psums 0 (map ZigZagDecode (10 # word_vals 0))"
  have "length (word_vals 0) = 240" by code_simp
  then have len: "length ?xs = 241" by simp
  have "int_fmt word_vals (int_packed_bytes 10 [0]) ?xs"
    by (rule int_fmt.packed) (simp add: zdeltas_def o_def)
  from IntegerArrayDecodeAll_fmt [OF this, of "[]"] len
  have "IntegerArrayDecodeAll (int_packed_bytes 10 [] @ put_u64 0) [] = Inr ?xs"
    by (simp add: int_packed_bytes_def max_words_def)
  with enc len show ?thesis
    by (intro exI [of _ "int_packed_bytes 10 [] @ put_u64 0"] exI [of _ ?xs]) (simp add: int_packed_bytes_def)
qed

end
