(* ===== verification/Time_Codec.thy ===== *)
theory Time_Codec
  imports S8b_Package Deltas
begin

unbundle bit_operations_syntax

text \<open>
  The timestamp codec of \<^verbatim>\<open>tsdb/tsm1/timestamp.go\<close>. Timestamps are delta-encoded; deltas are scaled
  down by the largest power of ten, at most \<open>10 ^ 12\<close>, that divides all of them, and stored run-length
  encoded, packed with simple8b, or raw. The exponent is the low nibble of the first byte.
\<close>

definition timeUncompressed :: u8 where "timeUncompressed = 0"
definition timeCompressedPackedSimple :: u8 where "timeCompressedPackedSimple = 1"
definition timeCompressedRLE :: u8 where "timeCompressedRLE = 2"

lemmas time_tags = timeUncompressed_def timeCompressedPackedSimple_def timeCompressedRLE_def

text \<open>
  \<^verbatim>\<open>byte(math.Log10(float64(div)))\<close>: the logarithm is truncated; it is exact on the powers of ten up
  to \<open>10 ^ 12\<close>, the only arguments that occur. \<^verbatim>\<open>math.Pow10\<close> is exact up to \<open>10 ^ 15\<close>.
\<close>

definition log10_byte :: "u64 \<Rightarrow> u8" where
  "log10_byte d = of_nat (length (takeWhile (\<lambda>k. 10 ^ k \<le> unat d) [1..<20]))"

definition pow10_nibble :: "u8 \<Rightarrow> u64" where
  "pow10_nibble x = 10 ^ unat (x AND 0xF)"

section \<open>The common divisor\<close>

text \<open>\<^verbatim>\<open>for divisor > 1 && v%divisor != 0 { divisor /= 10 }\<close>\<close>

function reduce_div :: "u64 \<Rightarrow> u64 \<Rightarrow> u64" where
  "reduce_div v d = (if d > 1 \<and> v mod d \<noteq> 0 then reduce_div v (d div 10) else d)"
  by auto
termination
proof (relation "measure (\<lambda>(v, d). unat d)", simp)
  fix v d :: u64
  assume "1 < d \<and> v mod d \<noteq> 0"
  then have "0 < unat d" by (simp add: word_less_nat_alt)
  then have "unat (d div 10) < unat d" by (simp add: unat_div)
  then show "((v, d div 10), (v, d)) \<in> measure (\<lambda>(v, d). unat d)" by simp
qed

declare reduce_div.simps [simp del]

definition div_ok :: "u64 \<Rightarrow> u64 set \<Rightarrow> nat \<Rightarrow> bool" where
  "div_ok d V j \<longleftrightarrow> j \<le> 12 \<and> d = 10 ^ j \<and> (\<forall>v \<in> V. 10 ^ j dvd unat v)"

lemma unat_pow10: "j \<le> 12 \<Longrightarrow> unat (10 ^ j :: u64) = 10 ^ j"
proof -
  assume "j \<le> 12"
  then have "(10::nat) ^ j \<le> 10 ^ 12" by (intro power_increasing) auto
  then have "(10::nat) ^ j < 2 ^ 64" by simp
  then show ?thesis using unat_of_nat_small [of "10 ^ j"] by simp
qed

lemma pow10_div10: "j < 12 \<Longrightarrow> (10 ^ Suc j :: u64) div 10 = 10 ^ j"
  using unat_pow10 [of "Suc j"] unat_pow10 [of j]
  by (simp add: word_unat_eq_iff unat_div)

lemma reduce_div_pow10:
  "j \<le> 12 \<Longrightarrow> \<exists>i \<le> j. reduce_div v (10 ^ j) = 10 ^ i \<and> 10 ^ i dvd unat v"
proof (induction j)
  case 0
  show ?case by (subst reduce_div.simps) simp
next
  case (Suc j)
  show ?case
  proof (cases "v mod 10 ^ Suc j = 0")
    case True
    then have "unat v mod 10 ^ Suc j = 0"
      using unat_pow10 [OF Suc.prems] by (metis unat_0 unat_mod)
    then show ?thesis
      using True by (intro exI [of _ "Suc j"]) (subst reduce_div.simps, simp add: dvd_eq_mod_eq_0)
  next
    case False
    have "(1 :: u64) < 10 ^ Suc j"
      unfolding word_less_nat_alt unat_pow10 [OF Suc.prems] unat_1 by (rule one_less_power) auto
    with False have "reduce_div v (10 ^ Suc j) = reduce_div v (10 ^ j)"
      by (subst reduce_div.simps) (use pow10_div10 [of j] Suc.prems in simp)
    with Suc show ?thesis by (metis Suc_leD le_SucI)
  qed
qed

lemma div_ok_reduce:
  assumes "div_ok d V j"
  shows "\<exists>i. div_ok (reduce_div v d) (insert v V) i"
proof -
  from assms have j: "j \<le> 12" "d = 10 ^ j" and V: "\<forall>v \<in> V. 10 ^ j dvd unat v" by (auto simp: div_ok_def)
  from reduce_div_pow10 [OF j(1), of v] j obtain i
    where i: "i \<le> j" "reduce_div v d = 10 ^ i" "10 ^ i dvd unat v" by auto
  have "10 ^ i dvd unat w" if "w \<in> V" for w
    using V that i(1) by (meson dvd_trans le_imp_power_dvd)
  with i j show ?thesis unfolding div_ok_def by (intro exI [of _ i]) auto
qed

lemma div_ok_scale:
  assumes "div_ok d V j" and "v \<in> V"
  shows "v div d * d = v"
proof -
  have "unat d dvd unat v" using assms unat_pow10 [of j] by (auto simp: div_ok_def)
  then have "unat (v div d) * unat d = unat v" by (simp add: unat_div)
  then have "of_nat (unat (v div d) * unat d) = v" by simp
  then show ?thesis by simp
qed

lemma log10_byte_pow10:
  assumes "j \<le> 12"
  shows "log10_byte (10 ^ j) = of_nat j"
proof -
  have "[1..<20] = [1..<Suc j] @ [Suc j..<20]" using upt_add_eq_append [of 1 "Suc j" "20 - Suc j"] assms by simp
  moreover have "takeWhile (\<lambda>k. 10 ^ k \<le> (10::nat) ^ j) [Suc j..<20] = []"
    using assms by (subst upt_rec) simp
  moreover have "takeWhile (\<lambda>k. 10 ^ k \<le> (10::nat) ^ j) ([1..<Suc j] @ [Suc j..<20]) =
      [1..<Suc j] @ takeWhile (\<lambda>k. 10 ^ k \<le> (10::nat) ^ j) [Suc j..<20]"
    by (rule takeWhile_append2) auto
  ultimately have "takeWhile (\<lambda>k. 10 ^ k \<le> (10::nat) ^ j) [1..<20] = [1..<Suc j]"
    by (simp only: append_Nil2)
  then show ?thesis using unat_pow10 [OF assms] by (simp add: log10_byte_def del: upt_Suc)
qed

text \<open>The tag byte: format in the high nibble, exponent in the low one.\<close>

lemma time_tag_nibbles:
  assumes "t \<in> {0, 1, 2}" and "j \<le> 12"
  shows "drop_bit 4 (push_bit 4 t OR of_nat j :: u8) = t"
    and "pow10_nibble (push_bit 4 t OR of_nat j) = 10 ^ j"
proof -
  have "list_all (\<lambda>t. list_all (\<lambda>j. drop_bit 4 (push_bit 4 t OR of_nat j :: u8) = t \<and>
      unat ((push_bit 4 t OR of_nat j :: u8) AND 0xF) = j) [0..<13]) [0, 1, 2]" by code_simp
  moreover have "t \<in> set [0, 1, 2]" "j \<in> set [0..<13]" using assms by auto
  ultimately have "drop_bit 4 (push_bit 4 t OR of_nat j :: u8) = t \<and>
      unat ((push_bit 4 t OR of_nat j :: u8) AND 0xF) = j"
    by (simp only: list_all_iff)
  then show "drop_bit 4 (push_bit 4 t OR of_nat j :: u8) = t"
    and "pow10_nibble (push_bit 4 t OR of_nat j) = 10 ^ j" by (simp_all add: pow10_nibble_def)
qed

section \<open>Encoder\<close>

record 'e time_encoder =
  te_ts :: "u64 list"
  te_bytes :: bytes  \<comment> \<open>the array behind \<^verbatim>\<open>e.bytes\<close>, up to its capacity\<close>
  te_enc :: 'e

definition NewTimeEncoder :: "('e, 'd) s8b_pkg \<Rightarrow> 'e time_encoder" where
  "NewTimeEncoder P = \<lparr>te_ts = [], te_bytes = [], te_enc = sp_NewEncoder P\<rparr>"

definition TimeEncoder_Reset :: "('e, 'd) s8b_pkg \<Rightarrow> 'e time_encoder \<Rightarrow> 'e time_encoder res" where
  "TimeEncoder_Reset P e =
     bind_res (sp_Reset P (te_enc e)) (\<lambda>enc. Inr (e\<lparr>te_ts := [], te_enc := enc\<rparr>))"

definition TimeEncoder_Write :: "'e time_encoder \<Rightarrow> i64 \<Rightarrow> 'e time_encoder" where
  "TimeEncoder_Write e t = e\<lparr>te_ts := te_ts e @ [t]\<rparr>"

fun reduce_loop :: "nat \<Rightarrow> u64 list \<Rightarrow> u64 \<Rightarrow> u64 \<Rightarrow> bool \<Rightarrow> u64 \<times> u64 \<times> bool \<times> u64 list" where
  "reduce_loop 0 ds mx d rle = (mx, d, rle, ds)"
| "reduce_loop (Suc i) ds mx d rle =
     (let ds' = ds[Suc i := ds ! Suc i - ds ! i];
          v = ds' ! Suc i;
          mx' = (if v > mx then v else mx)
      in reduce_loop i ds' mx' (reduce_div v d)
           (Suc i = length ds' - 1 \<or> rle \<and> ds' ! (Suc i + 1) = ds' ! Suc i))"

definition TimeEncoder_reduce :: "u64 list \<Rightarrow> u64 \<times> u64 \<times> bool \<times> u64 list" where
  "TimeEncoder_reduce ts = reduce_loop (length ts - 1) ts 0 (10 ^ 12) True"

text \<open>\<open>te_put sz out e\<close> makes room for \<open>sz\<close> bytes in \<^verbatim>\<open>e.bytes\<close> and stores \<open>out\<close> at its start.\<close>

definition te_put :: "nat \<Rightarrow> bytes \<Rightarrow> 'e time_encoder \<Rightarrow> (bytes \<times> 'e time_encoder) res" where
  "te_put sz out e =
     (let arr = (if length (te_bytes e) < sz then replicate sz 0 else te_bytes e) in
      if sz < length out then Inl (GoPanic ''index out of range'')
      else let arr' = write_at 0 out arr in Inr (take (length out) arr', e\<lparr>te_bytes := arr'\<rparr>))"

definition time_encodePacked ::
  "('e, 'd) s8b_pkg \<Rightarrow> u64 \<Rightarrow> u64 list \<Rightarrow> 'e time_encoder \<Rightarrow> (bytes \<times> 'e time_encoder) res" where
  "time_encodePacked P d dts e =
     bind_res (if d > 1 then write_all (\<lambda>s v. sp_Write P (v div d) s) (te_enc e) (drop 1 dts)
               else write_all (\<lambda>s v. sp_Write P v s) (te_enc e) (drop 1 dts)) (\<lambda>enc.
     bind_res (sp_Bytes P enc) (\<lambda>(deltas, enc').
       te_put (8 + 1 + length deltas)
         ((push_bit 4 timeCompressedPackedSimple OR log10_byte d) # put_u64 (dts ! 0) @ deltas)
         (e\<lparr>te_enc := enc'\<rparr>)))"

definition time_encodeRaw :: "'e time_encoder \<Rightarrow> (bytes \<times> 'e time_encoder) res" where
  "time_encodeRaw e =
     te_put (1 + length (te_ts e) * 8) (push_bit 4 timeUncompressed # bytes_of (te_ts e)) e"

definition time_encodeRLE ::
  "u64 \<Rightarrow> u64 \<Rightarrow> u64 \<Rightarrow> nat \<Rightarrow> 'e time_encoder \<Rightarrow> (bytes \<times> 'e time_encoder) res" where
  "time_encodeRLE first delta d n e =
     te_put 31 ((push_bit 4 timeCompressedRLE OR log10_byte d) # put_u64 first @
                put_uvarint (delta div d) @ put_uvarint (of_nat n)) e"

definition TimeEncoder_Bytes :: "('e, 'd) s8b_pkg \<Rightarrow> 'e time_encoder \<Rightarrow> (bytes \<times> 'e time_encoder) res" where
  "TimeEncoder_Bytes P e =
     (if te_ts e = [] then Inr ([], e)
      else case TimeEncoder_reduce (te_ts e) of (mx, d, rle, dts) \<Rightarrow>
        let e1 = e\<lparr>te_ts := dts\<rparr> in
        if rle \<and> length (te_ts e1) > 1
        then time_encodeRLE (te_ts e1 ! 0) (te_ts e1 ! 1) d (length (te_ts e1)) e1
        else if mx > sp_MaxValue P then time_encodeRaw e1
        else time_encodePacked P d dts e1)"

section \<open>Decoder\<close>

record 'd time_decoder =
  td_v :: i64
  td_i :: int
  td_n :: int
  td_ts :: "u64 list"
  td_dec :: 'd
  td_err :: "go_error option"
  td_rleDelta :: i64
  td_encoding :: u8

fun time_sum_loop :: "u64 \<Rightarrow> u64 \<Rightarrow> u64 list \<Rightarrow> u64 list" where
  "time_sum_loop d lst [] = []"
| "time_sum_loop d lst (v # vs) =
     (let x = lst + (if d > 1 then v * d else v) in x # time_sum_loop d x vs)"

text \<open>\<open>None\<close>: the simple8b decoder does not stop.\<close>

definition time_decodePacked ::
  "('e, 'd) s8b_pkg \<Rightarrow> bytes \<Rightarrow> 'd time_decoder \<Rightarrow> 'd time_decoder option" where
  "time_decodePacked P b d =
     (if length b < 9
      then Some (d\<lparr>td_err := Some (GoError ''timeDecoder: not enough data to decode packed timestamps'')\<rparr>)
      else
        let dv = pow10_nibble (b ! 0); first = get_u64 (drop 1 b)
        in case drain (sp_Next P) (sp_Read P) (sp_SetBytes P (drop 9 b) (td_dec d)) [] of
             None \<Rightarrow> None
           | Some (vs, dec) \<Rightarrow>
               Some (d\<lparr>td_dec := dec, td_i := 0, td_ts := first # time_sum_loop dv first vs\<rparr>))"

definition time_decodeRLE :: "bytes \<Rightarrow> 'd time_decoder \<Rightarrow> 'd time_decoder" where
  "time_decodeRLE b d =
     (if length b < 9
      then d\<lparr>td_err := Some (GoError ''timeDecoder: not enough data for initial RLE timestamp'')\<rparr>
      else
        let md = pow10_nibble (b ! 0); first = get_u64 (drop 1 b); (v0, n1) = get_uvarint (drop 9 b) in
        if n1 \<le> 0 then d\<lparr>td_err := Some (GoError ''timeDecoder: invalid run length in decodeRLE'')\<rparr>
        else
          let v = v0 * md; (count, n2) = get_uvarint (drop (9 + nat n1) b) in
          if n2 \<le> 0 then d\<lparr>td_err := Some (GoError ''timeDecoder: invalid repeat value in decodeRLE'')\<rparr>
          else d\<lparr>td_v := first - v, td_rleDelta := v, td_i := - 1, td_n := sint count\<rparr>)"

fun time_raw_loop :: "bytes \<Rightarrow> nat \<Rightarrow> nat \<Rightarrow> u64 \<Rightarrow> u64 list" where
  "time_raw_loop b i 0 prev = []"
| "time_raw_loop b i (Suc n) prev =
     (let delta = get_u64 (drop (i * 8) b); x = (if i > 0 then prev + delta else delta)
      in x # time_raw_loop b (Suc i) n x)"

definition time_decodeRaw :: "bytes \<Rightarrow> 'd time_decoder \<Rightarrow> 'd time_decoder" where
  "time_decodeRaw b d = d\<lparr>td_i := 0, td_ts := time_raw_loop b 0 (length b div 8) 0\<rparr>"

definition time_decode :: "('e, 'd) s8b_pkg \<Rightarrow> bytes \<Rightarrow> 'd time_decoder \<Rightarrow> 'd time_decoder option" where
  "time_decode P b d =
     (if b = [] then Some d
      else if td_encoding d = timeUncompressed then Some (time_decodeRaw (drop 1 b) d)
      else if td_encoding d = timeCompressedRLE then Some (time_decodeRLE b d)
      else if td_encoding d = timeCompressedPackedSimple then time_decodePacked P b d
      else Some (d\<lparr>td_err := Some (GoError ''unknown encoding'')\<rparr>))"

definition TimeDecoder_Init :: "('e, 'd) s8b_pkg \<Rightarrow> bytes \<Rightarrow> 'd time_decoder \<Rightarrow> 'd time_decoder option" where
  "TimeDecoder_Init P b d =
     (let d1 = d\<lparr>td_v := 0, td_i := 0, td_ts := [], td_err := None\<rparr>;
          d2 = (case b of [] \<Rightarrow> d1 | x # _ \<Rightarrow> d1\<lparr>td_encoding := drop_bit 4 x\<rparr>)
      in time_decode P b d2)"

definition TimeDecoder_Next :: "'d time_decoder \<Rightarrow> bool \<times> 'd time_decoder" where
  "TimeDecoder_Next d =
     (if td_err d \<noteq> None then (False, d)
      else if td_encoding d = timeCompressedRLE then
        (if td_i d \<ge> td_n d then (False, d)
         else let d1 = d\<lparr>td_i := td_i d + 1, td_v := td_v d + td_rleDelta d\<rparr>
              in (td_i d1 < td_n d1, d1))
      else if td_i d \<ge> int (length (td_ts d)) then (False, d)
      else (True, d\<lparr>td_v := td_ts d ! nat (td_i d), td_i := td_i d + 1\<rparr>))"

definition TimeDecoder_Read :: "'d time_decoder \<Rightarrow> i64 \<times> 'd time_decoder" where
  "TimeDecoder_Read d = (td_v d, d)"

definition CountTimestamps :: "('e, 'd) s8b_pkg \<Rightarrow> bytes \<Rightarrow> int res" where
  "CountTimestamps P b =
     (case b of [] \<Rightarrow> Inr 0
      | x # rest \<Rightarrow>
          let encoding = drop_bit 4 x in
          if encoding = timeUncompressed then Inr (int (length rest div 8))
          else if encoding = timeCompressedRLE then
            bind_res (slice_from 9 b) (\<lambda>b9.
            bind_res (slice_from (9 + snd (get_uvarint b9)) b) (\<lambda>bi.
              Inr (sint (fst (get_uvarint bi)))))
          else if encoding = timeCompressedPackedSimple then
            bind_res (slice_from 9 b) (\<lambda>b9.
              Inr ((case sp_CountBytes P b9 of Inl _ \<Rightarrow> 0 | Inr c \<Rightarrow> int c) + 1))
          else Inr 0)"

section \<open>What \<^verbatim>\<open>reduce\<close> computes\<close>

lemma reduce_loop_Suc:
  "Suc i < length ds \<Longrightarrow> reduce_loop (Suc i) ds mx d rle =
     reduce_loop i (ds[Suc i := ds ! Suc i - ds ! i]) (max (ds ! Suc i - ds ! i) mx)
       (reduce_div (ds ! Suc i - ds ! i) d)
       (Suc i = length ds - 1 \<or> rle \<and> ds ! (Suc i + 1) = ds ! Suc i - ds ! i)"
  by (auto simp: Let_def max_def)

declare reduce_loop.simps(2) [simp del]

lemma reduce_loop_delta:
  "i < length ds \<Longrightarrow> \<exists>d' rle'. reduce_loop i ds mx d rle =
     (snd (delta_loop id i ds mx), d', rle', fst (delta_loop id i ds mx))"
  by (induction i arbitrary: ds mx d rle) (simp_all add: reduce_loop_Suc delta_loop_Suc)

lemma reduce_loop_div:
  assumes "i < length ds" and "div_ok d V j"
  shows "\<exists>j'. div_ok (fst (snd (reduce_loop i ds mx d rle))) (V \<union> (\<lambda>k. ds ! k - ds ! (k - 1)) ` {1..i}) j'"
  using assms
proof (induction i arbitrary: ds mx d rle V j)
  case (Suc i)
  let ?v = "ds ! Suc i - ds ! i"
  have eq: "insert ?v V \<union> (\<lambda>k. (ds[Suc i := ?v]) ! k - (ds[Suc i := ?v]) ! (k - 1)) ` {1..i} =
      V \<union> (\<lambda>k. ds ! k - ds ! (k - 1)) ` {1..Suc i}"
  proof -
    have "(\<lambda>k. (ds[Suc i := ?v]) ! k - (ds[Suc i := ?v]) ! (k - 1)) ` {1..i} = (\<lambda>k. ds ! k - ds ! (k - 1)) ` {1..i}"
      by (rule image_cong) auto
    moreover have "{1..Suc i} = insert (Suc i) {1..i}" by (simp add: atLeastAtMostSuc_conv)
    ultimately show ?thesis by simp
  qed
  obtain j1 where "div_ok (reduce_div ?v d) (insert ?v V) j1"
    using div_ok_reduce [OF Suc.prems(2)] by blast
  from Suc.IH [OF _ this, of "ds[Suc i := ?v]"] Suc.prems(1) show ?case
    unfolding reduce_loop_Suc [OF Suc.prems(1)] eq [symmetric] by simp
qed auto

lemma reduce_loop_rle:
  assumes "i < length ds" and "0 < i"
  shows "fst (snd (snd (reduce_loop i ds mx d rle))) \<longleftrightarrow>
    (i = length ds - 1 \<or> rle \<and> ds ! (i + 1) = ds ! i - ds ! (i - 1)) \<and>
    (\<forall>k. 0 < k \<and> k < i \<longrightarrow> ds ! k - ds ! (k - 1) = ds ! (k + 1) - ds ! k)"
  using assms
proof (induction i arbitrary: ds mx d rle)
  case (Suc i)
  show ?case
  proof (cases "i = 0")
    case True
    then show ?thesis using Suc.prems by (simp add: reduce_loop_Suc)
  next
    case False
    have "(\<forall>k. 0 < k \<and> k < Suc i \<longrightarrow> ds ! k - ds ! (k - 1) = ds ! (k + 1) - ds ! k) \<longleftrightarrow>
      (ds ! i - ds ! (i - 1) = ds ! Suc i - ds ! i) \<and>
      (\<forall>k. 0 < k \<and> k < i \<longrightarrow> ds ! k - ds ! (k - 1) = ds ! (k + 1) - ds ! k)"
      using False by (auto simp: less_Suc_eq)
    then show ?thesis
      using False Suc.prems by (auto simp: reduce_loop_Suc Suc.IH)
  qed
qed simp

lemma TimeEncoder_reduce_ok:
  assumes "ts \<noteq> []"
  shows "\<exists>mx d rle j. TimeEncoder_reduce ts = (mx, d, rle, deltas 0 ts) \<and>
    div_ok d (set (drop 1 (deltas 0 ts))) j \<and> (length ts > 1 \<longrightarrow> (rle \<longleftrightarrow> run_tail (deltas 0 ts))) \<and>
    (\<forall>m. mx > m \<longleftrightarrow> list_ex (\<lambda>v. v > m) (drop 1 (deltas 0 ts)))"
proof -
  let ?i = "length ts - 1"
  have i: "?i < length ts" using assms by simp
  obtain d rle where r: "TimeEncoder_reduce ts =
      (snd (delta_loop id ?i ts 0), d, rle, fst (delta_loop id ?i ts 0))"
    using reduce_loop_delta [OF i] unfolding TimeEncoder_reduce_def by blast
  have hd: "hd ts # map id (drop 1 (deltas 0 ts)) = deltas 0 ts" using assms by (cases ts) auto
  have dset: "set (drop 1 (deltas 0 ts)) = (\<lambda>k. ts ! k - ts ! (k - 1)) ` {1..?i}"
  proof -
    have "drop 1 (deltas 0 ts) = map (\<lambda>k. ts ! k - ts ! (k - 1)) [1..<length ts]"
      by (rule nth_equalityI) (auto simp: deltas_nth)
    moreover have "{1..<length ts} = {1..?i}" using i by auto
    ultimately show ?thesis by (simp only: set_map set_upt)
  qed
  have "div_ok (10 ^ 12) {} 12" by (simp add: div_ok_def)
  from reduce_loop_div [OF i this, of 0 True] r dset obtain j where "div_ok d (set (drop 1 (deltas 0 ts))) j"
    unfolding TimeEncoder_reduce_def by auto
  moreover have "rle \<longleftrightarrow> run_tail (deltas 0 ts)" if "length ts > 1"
  proof -
    have "rle \<longleftrightarrow> (\<forall>k. 0 < k \<and> k < ?i \<longrightarrow> deltas 0 ts ! k = deltas 0 ts ! (k + 1))"
      using reduce_loop_rle [OF i, of 0 "10 ^ 12" True] that r
      unfolding TimeEncoder_reduce_def by (auto simp: deltas_nth)
    then show ?thesis using run_tail_steps [of "deltas 0 ts"] that by simp
  qed
  moreover have "snd (delta_loop id ?i ts 0) > m \<longleftrightarrow> list_ex (\<lambda>v. v > m) (drop 1 (deltas 0 ts))" for m
    unfolding delta_loop_all(2) [OF assms] by simp
  ultimately show ?thesis using r delta_loop_all(1) [OF assms, of id 0] hd by auto
qed

section \<open>The block format\<close>

inductive time_fmt :: "(u64 \<Rightarrow> u64 list) \<Rightarrow> bytes \<Rightarrow> i64 list \<Rightarrow> bool" for wv where
  raw: "time_fmt wv (push_bit 4 timeUncompressed # bytes_of (deltas 0 xs)) xs"
| packed: "deltas 0 xs = f # map (\<lambda>v. v * 10 ^ j) (concat (map wv (words_of b))) \<Longrightarrow> j \<le> 12 \<Longrightarrow>
    8 dvd length b \<Longrightarrow>
    time_fmt wv ((push_bit 4 timeCompressedPackedSimple OR of_nat j) # put_u64 f @ b) xs"
| rle: "deltas 0 xs = f # replicate n (d * 10 ^ j) \<Longrightarrow> j \<le> 12 \<Longrightarrow> n + 1 < 2 ^ 63 \<Longrightarrow>
    time_fmt wv ((push_bit 4 timeCompressedRLE OR of_nat j) # put_u64 f @ put_uvarint d @
      put_uvarint (of_nat (n + 1))) xs"

lemma te_put_ok: "length out \<le> sz \<Longrightarrow> \<exists>e'. te_put sz out e = Inr (out, e')"
  by (simp add: te_put_def Let_def)

lemma length_time_rle: "length (t # put_u64 f @ put_uvarint d @ put_uvarint n) \<le> 31"
  using length_put_uvarint_le10 [of d] length_put_uvarint_le10 [of n] by simp

lemma time_rle_fmt:
  assumes "run_tail (deltas 0 ts)" and "length ts > 1" and "length ts < 2 ^ 63"
    and "div_ok d (set (drop 1 (deltas 0 ts))) j"
  shows "time_fmt wv ((push_bit 4 timeCompressedRLE OR of_nat j) # put_u64 (deltas 0 ts ! 0) @
    put_uvarint (deltas 0 ts ! 1 div d) @ put_uvarint (of_nat (length ts))) ts"
proof -
  have "deltas 0 ts ! 1 \<in> set (drop 1 (deltas 0 ts))"
    using assms(2) by (cases ts; cases "tl ts") auto
  then have "deltas 0 ts ! 1 div d * 10 ^ j = deltas 0 ts ! 1"
    using div_ok_scale [OF assms(4)] assms(4) by (auto simp: div_ok_def)
  moreover have "deltas 0 ts = deltas 0 ts ! 0 # replicate (length ts - 1) (deltas 0 ts ! 1)"
    using run_tail_replicate [OF assms(1)] assms(2) by (cases ts) auto
  ultimately have "deltas 0 ts = deltas 0 ts ! 0 # replicate (length ts - 1) (deltas 0 ts ! 1 div d * 10 ^ j)"
    by simp
  from time_fmt.rle [OF this, of wv] assms show ?thesis by (simp add: div_ok_def)
qed

lemma time_scaled_small:
  assumes "small60 vs"
  shows "small60 (map (\<lambda>v. v div d) vs)"
  using assms unfolding small60_iff by (auto simp: unat_div intro: le_less_trans [OF div_le_dividend])

lemma write_all_scaled:
  "write_all (\<lambda>s v. sp_Write P (v div d) s) e vs = write_all (\<lambda>s v. sp_Write P v s) e (map (\<lambda>v. v div d) vs)"
  by (induction vs arbitrary: e) (auto split: sum.split)

context s8b_package
begin

lemma time_encodePacked_fmt:
  assumes rep: "erep (te_enc e) []" and small: "small60 (drop 1 (deltas 0 ts))"
    and ne: "ts \<noteq> []" and d: "div_ok d (set (drop 1 (deltas 0 ts))) j"
  shows "\<exists>b e'. time_encodePacked P d (deltas 0 ts) e = Inr (b, e') \<and> time_fmt wvals b ts"
proof -
  let ?vs = "map (\<lambda>v. v div d) (drop 1 (deltas 0 ts))"
  have j: "j \<le> 12" "d = 10 ^ j" using d by (auto simp: div_ok_def)
  have "d > 1 \<or> d = 1"
    using unat_pow10 [OF j(1)] one_less_power [of "10::nat" j] unfolding j(2) word_less_nat_alt
    by (cases "j = 0") auto
  then have wr: "(if d > 1 then write_all (\<lambda>s v. sp_Write P (v div d) s) (te_enc e) (drop 1 (deltas 0 ts))
      else write_all (\<lambda>s v. sp_Write P v s) (te_enc e) (drop 1 (deltas 0 ts))) =
      write_all (\<lambda>s v. sp_Write P v s) (te_enc e) ?vs"
    by (auto simp: write_all_scaled)
  obtain enc where w: "write_all (\<lambda>s v. sp_Write P v s) (te_enc e) ?vs = Inr enc" "erep enc ?vs"
    using write_all_law [OF rep, of ?vs] time_scaled_small [OF small] by auto
  from Bytes_law [OF w(2) time_scaled_small [OF small]] obtain bs enc'
    where b: "sp_Bytes P enc = Inr (bs, enc')" "8 dvd length bs" "concat (map wvals (words_of bs)) = ?vs" by blast
  let ?out = "(push_bit 4 timeCompressedPackedSimple OR log10_byte d) # put_u64 (deltas 0 ts ! 0) @ bs"
  obtain e' where "te_put (8 + 1 + length bs) ?out (e\<lparr>te_enc := enc'\<rparr>) = Inr (?out, e')"
    using te_put_ok [of ?out "8 + 1 + length bs" "e\<lparr>te_enc := enc'\<rparr>"] by auto
  then have "time_encodePacked P d (deltas 0 ts) e = Inr (?out, e')"
    unfolding time_encodePacked_def wr using w b by simp
  moreover have "deltas 0 ts = deltas 0 ts ! 0 # map (\<lambda>v. v * 10 ^ j) (concat (map wvals (words_of bs)))"
  proof -
    have "map (\<lambda>v. v * 10 ^ j) ?vs = drop 1 (deltas 0 ts)"
      using div_ok_scale [OF d] j(2) by (simp add: o_def map_idI)
    then show ?thesis unfolding b(3) using ne by (cases ts) auto
  qed
  then have "time_fmt wvals ?out ts"
    using time_fmt.packed [of ts _ j wvals bs] j b(2) log10_byte_pow10 [of j] by simp
  ultimately show ?thesis by blast
qed

lemma time_Bytes_fmt:
  assumes ts: "te_ts e = ts" "ts \<noteq> []" "length ts < 2 ^ 63" and rep: "erep (te_enc e) []"
  shows "\<exists>b e'. TimeEncoder_Bytes P e = Inr (b, e') \<and> time_fmt wvals b ts"
proof -
  from TimeEncoder_reduce_ok [OF ts(2)] obtain mx d rle j
    where red: "TimeEncoder_reduce ts = (mx, d, rle, deltas 0 ts)"
      and d: "div_ok d (set (drop 1 (deltas 0 ts))) j"
      and rle: "length ts > 1 \<longrightarrow> (rle \<longleftrightarrow> run_tail (deltas 0 ts))"
      and mx: "\<And>m. mx > m \<longleftrightarrow> list_ex (\<lambda>v. v > m) (drop 1 (deltas 0 ts))" by blast
  let ?e = "e\<lparr>te_ts := deltas 0 ts\<rparr>"
  have eq: "TimeEncoder_Bytes P e =
      (if rle \<and> length ts > 1 then time_encodeRLE (deltas 0 ts ! 0) (deltas 0 ts ! 1) d (length ts) ?e
       else if mx > sp_MaxValue P then time_encodeRaw ?e else time_encodePacked P d (deltas 0 ts) ?e)"
    using ts red by (simp add: TimeEncoder_Bytes_def Let_def)
  consider (rle) "rle" "length ts > 1" | (raw) "\<not> (rle \<and> length ts > 1)" "mx > sp_MaxValue P"
    | (pack) "\<not> (rle \<and> length ts > 1)" "\<not> mx > sp_MaxValue P" by blast
  then show ?thesis
  proof cases
    case 1: rle
    have "log10_byte d = of_nat j" using d log10_byte_pow10 by (simp add: div_ok_def)
    with te_put_ok [OF length_time_rle] 1 time_rle_fmt [OF _ _ ts(3) d] rle show ?thesis
      unfolding eq time_encodeRLE_def by (simp del: One_nat_def) blast
  next
    case raw
    then have "TimeEncoder_Bytes P e = time_encodeRaw ?e" unfolding eq by auto
    moreover have "\<exists>e'. time_encodeRaw ?e = Inr (push_bit 4 timeUncompressed # bytes_of (deltas 0 ts), e')"
      using te_put_ok [of "push_bit 4 timeUncompressed # bytes_of (deltas 0 ts)" "1 + length ts * 8" ?e]
      by (simp add: time_encodeRaw_def mult.commute)
    ultimately show ?thesis using time_fmt.raw [of wvals ts] by auto
  next
    case pack
    then have "TimeEncoder_Bytes P e = time_encodePacked P d (deltas 0 ts) ?e" unfolding eq by auto
    moreover have "small60 (drop 1 (deltas 0 ts))"
      using pack(2) mx unfolding small60_iff list_ex_iff using MaxValue_less by blast
    ultimately show ?thesis using time_encodePacked_fmt [of ?e ts d j] rep ts(2) d by simp
  qed
qed

end

section \<open>What the decoder still has to deliver\<close>

definition time_dec_rep :: "'d time_decoder \<Rightarrow> i64 list \<Rightarrow> bool" where
  "time_dec_rep d xs \<longleftrightarrow> td_err d = None \<and>
     (if td_encoding d = timeCompressedRLE
      then xs = map (\<lambda>k. td_v d + of_nat k * td_rleDelta d) [1..<nat (td_n d - td_i d)]
      else 0 \<le> td_i d \<and> xs = drop (nat (td_i d)) (td_ts d))"

lemma run_from: "map (\<lambda>k. a + of_nat k * (d::u64)) [1..<Suc n] = map (\<lambda>k. (a + d) + of_nat k * d) [0..<n]"
  unfolding map_Suc_upt [symmetric] One_nat_def by (simp add: o_def algebra_simps del: upt_Suc)

interpretation timed: value_decoder TimeDecoder_Next TimeDecoder_Read td_err time_dec_rep
proof
  fix d :: "'a time_decoder" and xs
  assume "time_dec_rep d xs"
  then show "td_err d = None" by (simp add: time_dec_rep_def)
next
  fix d :: "'a time_decoder"
  assume "time_dec_rep d []"
  then show "\<exists>d'. TimeDecoder_Next d = (False, d') \<and> time_dec_rep d' []"
    by (auto simp: time_dec_rep_def TimeDecoder_Next_def Let_def split: if_splits)
next
  fix d :: "'a time_decoder" and x xs
  assume rep: "time_dec_rep d (x # xs)"
  show "\<exists>d' d''. TimeDecoder_Next d = (True, d') \<and> TimeDecoder_Read d' = (x, d'') \<and> time_dec_rep d'' xs"
  proof (cases "td_encoding d = timeCompressedRLE")
    case True
    with rep have xs: "x # xs = map (\<lambda>k. td_v d + of_nat k * td_rleDelta d) [1..<nat (td_n d - td_i d)]"
      and err: "td_err d = None" by (auto simp: time_dec_rep_def)
    then have "1 < nat (td_n d - td_i d)" by (cases "1 < nat (td_n d - td_i d)") auto
    then obtain m where m: "nat (td_n d - td_i d) = Suc (Suc m)" and i: "td_i d + 1 < td_n d"
      using that [of "nat (td_n d - td_i d) - 2"] by auto
    have "nat (td_n d - (td_i d + 1)) = Suc m" using m by linarith
    then show ?thesis
      using True err i xs unfolding m run_from
      by (simp add: time_dec_rep_def TimeDecoder_Next_def TimeDecoder_Read_def Let_def upt_conv_Cons del: upt_Suc)
  next
    case False
    with rep have i: "0 \<le> td_i d" "x # xs = drop (nat (td_i d)) (td_ts d)" "td_err d = None"
      by (auto simp: time_dec_rep_def)
    then have lt: "nat (td_i d) < length (td_ts d)" by (metis drop_all list.distinct(1) not_less)
    with i have "x = td_ts d ! nat (td_i d)" "xs = drop (nat (td_i d + 1)) (td_ts d)"
      by (auto simp: Cons_nth_drop_Suc [symmetric] nat_add_distrib)
    with False i lt show ?thesis
      by (simp add: time_dec_rep_def TimeDecoder_Next_def TimeDecoder_Read_def)
  qed
qed

lemma time_sum_loop_eq:
  "d > 1 \<or> d = 1 \<Longrightarrow> time_sum_loop d p vs = psums p (map (\<lambda>v. v * d) vs)"
  by (induction vs arbitrary: p) (auto simp: Let_def)

lemma pow10_ge1: "j \<le> 12 \<Longrightarrow> (10 ^ j :: u64) > 1 \<or> (10 ^ j :: u64) = 1"
  using unat_pow10 [of j] one_less_power [of "10::nat" j] unfolding word_less_nat_alt by (cases "j = 0") auto

lemma time_raw_loop_eq:
  "n + i = length ws \<Longrightarrow> (i = 0 \<longrightarrow> p = 0) \<Longrightarrow> time_raw_loop (bytes_of ws) i n p = psums p (drop i ws)"
proof (induction n arbitrary: i p)
  case (Suc n)
  have "drop i ws = ws ! i # drop (Suc i) ws" using Suc.prems by (simp add: Cons_nth_drop_Suc)
  then show ?case using Suc by (simp add: Let_def drop_bytes_of)
qed simp

lemma time_rle_values:
  assumes "deltas 0 xs = f # replicate n d"
  shows "xs = map (\<lambda>k. f + of_nat k * d) [0..<Suc n]" and "length xs = Suc n"
  using psums_deltas [of 0 xs] psums_run [of f n d] arg_cong [OF assms, of length] by (simp_all add: assms)

lemma time_decodeRLE_ok:
  assumes "n + 1 < 2 ^ 63" and "pow10_nibble t = 10 ^ j"
  shows "time_decodeRLE (t # put_u64 f @ put_uvarint d @ put_uvarint (of_nat (n + 1))) s =
    s\<lparr>td_v := f - d * 10 ^ j, td_rleDelta := d * 10 ^ j, td_i := - 1, td_n := int n + 1\<rparr>"
proof -
  have "sint (of_nat (n + 1) :: u64) = int n + 1" using assms(1) sint_of_nat_small [of "n + 1"] by simp
  then show ?thesis
    using assms get_put_uvarint [of "of_nat (n + 1)" "[]"]
    by (simp add: time_decodeRLE_def Let_def)
qed

context s8b_package
begin

lemma time_Init_fmt:
  assumes "time_fmt wvals b xs" and "dvalid (td_dec d)"
  shows "\<exists>d'. TimeDecoder_Init P b d = Some d' \<and> time_dec_rep d' xs \<and> dvalid (td_dec d')"
  using assms
proof (induction rule: time_fmt.induct)
  case (raw xs)
  then show ?case
    using time_raw_loop_eq [of "length xs" 0 "deltas 0 xs" 0]
    by (simp add: TimeDecoder_Init_def time_decode_def time_decodeRaw_def time_dec_rep_def time_tags Let_def)
next
  case (packed xs f j b)
  let ?t = "push_bit 4 timeCompressedPackedSimple OR of_nat j :: u8"
  from drain_decoder [OF SetBytes_law [OF packed(4)], of b "[]"] obtain dec
    where dr: "drain (sp_Next P) (sp_Read P) (sp_SetBytes P b (td_dec d)) [] =
      Some (concat (map wvals (words_of b)), dec)" and "drep dec []" by auto
  have t: "drop_bit 4 ?t = timeCompressedPackedSimple" "pow10_nibble ?t = 10 ^ j"
    using time_tag_nibbles [of timeCompressedPackedSimple j] packed(2) by (simp_all add: time_tags)
  have "xs = psums 0 (f # map (\<lambda>v. v * 10 ^ j) (concat (map wvals (words_of b))))"
    unfolding packed(1) [symmetric] by simp
  then have "xs = f # time_sum_loop (10 ^ j) f (concat (map wvals (words_of b)))"
    using time_sum_loop_eq [OF pow10_ge1 [OF packed(2)]] by simp
  with dr t \<open>drep dec []\<close> show ?case
    using drep_dvalid
    by (auto simp: TimeDecoder_Init_def time_decode_def time_decodePacked_def time_dec_rep_def time_tags Let_def)
next
  case (rle xs f n dl j)
  let ?t = "push_bit 4 timeCompressedRLE OR of_nat j :: u8"
  have t: "drop_bit 4 ?t = timeCompressedRLE" "pow10_nibble ?t = 10 ^ j"
    using time_tag_nibbles [of timeCompressedRLE j] rle(2) by (simp_all add: time_tags)
  have "nat (int n + 1 - (- 1)) = Suc (Suc n)" by simp
  then have "map (\<lambda>k. (f - dl * 10 ^ j) + of_nat k * (dl * 10 ^ j)) [1..<nat (int n + 1 - (- 1))] = xs"
    using time_rle_values(1) [OF rle(1)] by (simp only: run_from diff_add_cancel)
  moreover have "TimeDecoder_Init P (?t # put_u64 f @ put_uvarint dl @ put_uvarint (of_nat (n + 1))) d =
      Some (time_decodeRLE (?t # put_u64 f @ put_uvarint dl @ put_uvarint (of_nat (n + 1)))
        (d\<lparr>td_v := 0, td_i := 0, td_ts := [], td_err := None, td_encoding := timeCompressedRLE\<rparr>))"
    using t(1) by (simp add: TimeDecoder_Init_def time_decode_def time_tags Let_def)
  ultimately show ?case
    unfolding time_decodeRLE_ok [OF rle(3) t(2)] time_dec_rep_def using rle(4) by simp
qed

lemma CountTimestamps_fmt:
  assumes "time_fmt wvals b xs"
  shows "CountTimestamps P b = Inr (int (length xs))"
  using assms
proof (induction rule: time_fmt.induct)
  case (raw xs)
  then show ?case by (simp add: CountTimestamps_def time_tags)
next
  case (packed xs f j b)
  have "length xs = Suc (length (concat (map wvals (words_of b))))"
    using arg_cong [OF packed(1), of length] by simp
  then show ?case
    using CountBytes_law [OF packed(3)] time_tag_nibbles(1) [of timeCompressedPackedSimple j] packed(2)
    by (simp add: CountTimestamps_def time_tags slice_from_def Let_def)
next
  case (rle xs f n d j)
  have "sint (of_nat (n + 1) :: u64) = int n + 1" using rle(3) sint_of_nat_small [of "n + 1"] by simp
  then show ?case
    using time_rle_values(2) [OF rle(1)] time_tag_nibbles(1) [of timeCompressedRLE j] rle(2)
      get_put_uvarint [of "of_nat (n + 1)" "[]"]
    by (simp add: CountTimestamps_def time_tags slice_from_def Let_def nat_add_distrib)
qed

end

section \<open>Corrupt input\<close>

lemma time_Next_progress:
  assumes "TimeDecoder_Next d = (True, d')"
  shows "td_encoding d' = td_encoding d \<and> td_n d' = td_n d \<and> td_ts d' = td_ts d \<and> td_i d' = td_i d + 1 \<and>
    td_i d < (if td_encoding d = timeCompressedRLE then td_n d else int (length (td_ts d)))"
  using assms by (auto simp: TimeDecoder_Next_def Let_def split: if_splits)

lemma time_drain_ends: "\<exists>r. drain TimeDecoder_Next TimeDecoder_Read d acc = Some r"
proof (rule drain_terminates [where I = "\<lambda>_. True"])
  fix d d' d'' :: "'d time_decoder" and v
  assume "TimeDecoder_Next d = (True, d')" and "TimeDecoder_Read d' = (v, d'')"
  with time_Next_progress [of d d']
  show "True \<and> (d'', d) \<in> measure (\<lambda>d. nat ((if td_encoding d = timeCompressedRLE then td_n d
      else int (length (td_ts d))) - td_i d))"
    by (auto simp: TimeDecoder_Read_def)
qed simp_all

end
