(* ===== verification/Time_Batch.thy ===== *)
theory Time_Batch
  imports Time_Codec
begin

unbundle bit_operations_syntax

text \<open>
  The batch timestamp codec of \<^verbatim>\<open>tsdb/tsm1/batch_timestamp.go\<close>, over the repository's simple8b. Its
  blocks have the format \<^const>\<open>time_fmt\<close> of the streaming codec.
\<close>

section \<open>Encoding\<close>

definition time_batch_rle :: "u64 list \<Rightarrow> u8 slice \<Rightarrow> bytes res" where
  "time_batch_rle ds b =
     (let dv = reduce_div (ds ! 1) (10 ^ 12);
          tag = (if dv > 1 then push_bit 4 timeCompressedRLE OR log10_byte dv else push_bit 4 timeCompressedRLE);
          delta = (if dv > 1 then ds ! 1 div dv else ds ! 1);
          out = tag # put_u64 (ds ! 0) @ put_uvarint delta @ put_uvarint (of_nat (length ds))
      in bind_res (put_slice out (grow_slice 31 b)) (\<lambda>b'. Inr (take (length out) b')))"

definition time_batch_raw :: "u64 list \<Rightarrow> u8 slice \<Rightarrow> bytes res" where
  "time_batch_raw ds b =
     (let sz = 1 + length ds * 8
      in bind_res (put_slice (push_bit 4 timeUncompressed # bytes_of ds) (grow_slice sz b))
           (\<lambda>b'. Inr (take sz b')))"

text \<open>\<^verbatim>\<open>for i := 1; i < len(deltas) && div > 1; i++\<close>\<close>

fun time_div_loop :: "u64 list \<Rightarrow> u64 \<Rightarrow> u64" where
  "time_div_loop [] d = d"
| "time_div_loop (v # vs) d = (if d > 1 then time_div_loop vs (reduce_div v d) else d)"

definition time_batch_packed :: "u64 \<Rightarrow> u64 \<Rightarrow> u64 list \<Rightarrow> u8 slice \<Rightarrow> bytes res" where
  "time_batch_packed first dv encoded b =
     (let sz = 1 + (length encoded + 1) * 8
      in bind_res (put_slice ((push_bit 4 timeCompressedPackedSimple OR log10_byte dv) # put_u64 first @
                     bytes_of encoded) (grow_slice sz b)) (\<lambda>b'. Inr (take sz b')))"

text \<open>The result and what is left in the caller's array.\<close>

definition TimeArrayEncodeAll :: "i64 list \<Rightarrow> u8 slice \<Rightarrow> bytes res \<times> i64 list" where
  "TimeArrayEncodeAll src b =
     (if src = [] then (Inr [], [])
      else case (if length src > 1 then delta_loop id (length src - 1) src 0 else (src, 0)) of (ds, mx) \<Rightarrow>
        if length ds > 1 \<and> all_equal_tail ds then (time_batch_rle ds b, ds)
        else if mx > MaxValue then (time_batch_raw ds b, ds)
        else
          let dv = time_div_loop (drop 1 ds) (10 ^ 12);
              scaled = (if dv > 1 then map (\<lambda>v. v div dv) (drop 1 ds) else drop 1 ds)
          in case s8b_EncodeAll scaled of (r, rest) \<Rightarrow>
            (case r of Inl e \<Rightarrow> Inl e | Inr encoded \<Rightarrow> time_batch_packed (ds ! 0) dv encoded b, ds ! 0 # rest))"

section \<open>Decoding\<close>

fun time_batch_raw_loop :: "bytes \<Rightarrow> nat \<Rightarrow> nat \<Rightarrow> u64 \<Rightarrow> i64 list" where
  "time_batch_raw_loop b i 0 prev = []"
| "time_batch_raw_loop b i (Suc n) prev =
     (let p = prev + get_u64 (drop (i * 8) b) in p # time_batch_raw_loop b (Suc i) n p)"

definition timeBatchDecodeAllUncompressed :: "bytes \<Rightarrow> i64 list \<Rightarrow> i64 list res" where
  "timeBatchDecodeAllUncompressed b0 dst =
     (let b = drop 1 b0 in
      if length b mod 8 \<noteq> 0 then Inl (GoError ''timeArrayDecodeAll: expected multiple of 8 bytes'')
      else bind_res (size_dst (length b div 8) dst) (\<lambda>dst. Inr (time_batch_raw_loop b 0 (length dst) 0)))"

definition timeBatchDecodeAllSimple :: "bytes \<Rightarrow> i64 list \<Rightarrow> i64 list res" where
  "timeBatchDecodeAllSimple b dst =
     (if length b < 9
      then Inl (GoError ''timeArrayDecodeAll: not enough data to decode packed timestamps'')
      else
        let dv = pow10_nibble (b ! 0) in
        bind_res (s8b_CountBytes (drop 9 b)) (\<lambda>c.
          let count = c + 1 in
          bind_res (size_dst count dst) (\<lambda>dst.
            let first = get_u64 (drop 1 b) in
            bind_res (s8b_DecodeBytesBigEndian (drop 1 dst) (drop 9 b)) (\<lambda>(n, buf).
              if n \<noteq> count - 1
              then Inl (GoError ''timeArrayDecodeAll: unexpected number of values decoded'')
              else Inr (first # time_sum_loop dv first buf)))))"

fun time_run_loop :: "nat \<Rightarrow> u64 \<Rightarrow> u64 \<Rightarrow> i64 list" where
  "time_run_loop 0 acc delta = []"
| "time_run_loop (Suc n) acc delta = acc # time_run_loop n (acc + delta) delta"

definition timeBatchDecodeAllRLE :: "bytes \<Rightarrow> i64 list \<Rightarrow> i64 list res" where
  "timeBatchDecodeAllRLE b dst =
     (if length b < 9
      then Inl (GoError ''timeArrayDecodeAll: not enough data to decode RLE starting value'')
      else
        let md = pow10_nibble (b ! 0); first = get_u64 (drop 1 b); (delta0, n1) = get_uvarint (drop 9 b) in
        if n1 \<le> 0 then Inl (GoError ''timeArrayDecodeAll: invalid run length in decodeRLE'')
        else
          let delta = delta0 * md; (count, n2) = get_uvarint (drop (9 + nat n1) b) in
          if n2 \<le> 0 then Inl (GoError ''timeDecoder: invalid repeat value in decodeRLE'')
          else bind_res (size_dst_u64 count dst) (\<lambda>dst. Inr (time_run_loop (length dst) first delta)))"

definition timeBatchDecodeAllInvalid :: "bytes \<Rightarrow> i64 list \<Rightarrow> i64 list res" where
  "timeBatchDecodeAllInvalid b dst = Inl (GoError ''unknown encoding'')"

definition timeBatchDecoderFunc :: "(bytes \<Rightarrow> i64 list \<Rightarrow> i64 list res) list" where
  "timeBatchDecoderFunc = [timeBatchDecodeAllUncompressed, timeBatchDecodeAllSimple,
     timeBatchDecodeAllRLE, timeBatchDecodeAllInvalid]"

definition TimeArrayDecodeAll :: "bytes \<Rightarrow> i64 list \<Rightarrow> i64 list res" where
  "TimeArrayDecodeAll b dst =
     (case b of [] \<Rightarrow> Inr []
      | x # _ \<Rightarrow>
          let encoding = (if drop_bit 4 x > timeCompressedRLE then 3 else drop_bit 4 x)
          in (timeBatchDecoderFunc ! unat (encoding AND 3)) b dst)"

section \<open>The encoder produces the format\<close>

lemma time_div_loop_ok:
  "div_ok d V j \<Longrightarrow> \<exists>i. div_ok (time_div_loop vs d) (V \<union> set vs) i"
proof (induction vs arbitrary: d V j)
  case (Cons v vs)
  show ?case
  proof (cases "d > 1")
    case True
    obtain i where "div_ok (reduce_div v d) (insert v V) i" using div_ok_reduce [OF Cons.prems] by blast
    from Cons.IH [OF this] True show ?thesis by simp
  next
    case False
    with Cons.prems have "d = 1" "j = 0"
      using unat_pow10 [of j] one_less_power [of "10::nat" j]
      by (cases "j = 0"; simp add: div_ok_def word_less_nat_alt)+
    then show ?thesis using False by (auto simp: div_ok_def)
  qed
qed auto

lemma time_batch_rle_fmt:
  assumes "run_tail (deltas 0 ts)" and "length ts > 1" and "length ts < 2 ^ 63"
  shows "\<exists>r. time_batch_rle (deltas 0 ts) b = Inr r \<and> time_fmt wv r ts"
proof -
  let ?ds = "deltas 0 ts"
  let ?d = "reduce_div (?ds ! 1) (10 ^ 12)"
  have "div_ok (10 ^ 12) {} 12" by (simp add: div_ok_def)
  then obtain j where d: "div_ok ?d {?ds ! 1} j" using div_ok_reduce by fast
  then have d': "div_ok ?d (set (drop 1 ?ds)) j"
    using run_tail_replicate [OF assms(1)] by (simp add: div_ok_def drop_Suc)
  have j: "j \<le> 12" "?d = 10 ^ j" using d by (auto simp: div_ok_def)
  have one: "?d > 1 \<or> ?d = 1" using pow10_ge1 [OF j(1)] by (simp only: j(2))
  have lg: "log10_byte ?d = of_nat j" using log10_byte_pow10 [OF j(1)] by (simp only: j(2))
  have tag: "(if ?d > 1 then push_bit 4 timeCompressedRLE OR log10_byte ?d else push_bit 4 timeCompressedRLE) =
      push_bit 4 timeCompressedRLE OR of_nat j"
    using one lg log10_byte_pow10 [of 0] by auto
  have delta: "(if ?d > 1 then ?ds ! 1 div ?d else ?ds ! 1) = ?ds ! 1 div ?d"
    using one by auto
  let ?out = "(push_bit 4 timeCompressedRLE OR of_nat j) # put_u64 (?ds ! 0) @
    put_uvarint (?ds ! 1 div ?d) @ put_uvarint (of_nat (length ?ds))"
  have "time_batch_rle ?ds b = Inr ?out"
    unfolding time_batch_rle_def Let_def tag delta by (rule take_put_grow_slice [OF length_time_rle])
  moreover have "time_fmt wv ?out ts" using time_rle_fmt [OF assms d'] by simp
  ultimately show ?thesis by blast
qed

lemma time_batch_raw_eq: "time_batch_raw ds b = Inr (push_bit 4 timeUncompressed # bytes_of ds)"
  unfolding time_batch_raw_def Let_def
  using take_put_grow_slice [of "push_bit 4 timeUncompressed # bytes_of ds" "1 + length ds * 8"]
  by (simp add: mult.commute)

lemma time_batch_packed_eq:
  "time_batch_packed f dv ws b =
    Inr ((push_bit 4 timeCompressedPackedSimple OR log10_byte dv) # put_u64 f @ bytes_of ws)"
  unfolding time_batch_packed_def Let_def
  using take_put_grow_slice [of "(push_bit 4 timeCompressedPackedSimple OR log10_byte dv) # put_u64 f @ bytes_of ws"
      "1 + (length ws + 1) * 8"]
  by (simp add: mult.commute)

lemma TimeArrayEncodeAll_eq:
  assumes "src \<noteq> []"
  shows "fst (TimeArrayEncodeAll src b) =
    (let ds = deltas 0 src; dv = time_div_loop (drop 1 ds) (10 ^ 12) in
     if length src > 1 \<and> run_tail ds then time_batch_rle ds b
     else if \<not> small60 (drop 1 ds) then time_batch_raw ds b
     else case fst (s8b_EncodeAll (if dv > 1 then map (\<lambda>v. v div dv) (drop 1 ds) else drop 1 ds)) of
            Inl e \<Rightarrow> Inl e | Inr ws \<Rightarrow> time_batch_packed (ds ! 0) dv ws b)"
proof -
  let ?r = "if length src > 1 then delta_loop id (length src - 1) src 0 else (src, 0)"
  have "hd src # map id (drop 1 (deltas 0 src)) = deltas 0 src" using assms by (cases src) auto
  then have 1: "fst ?r = deltas 0 src"
    using delta_loop_all(1) [OF assms, of id 0] assms by (cases src; cases "tl src") auto
  have "\<not> (0 :: u64) > MaxValue" by simp
  then have 2: "\<not> snd ?r > MaxValue \<longleftrightarrow> small60 (drop 1 (deltas 0 src))"
    using delta_loop_all(2) [OF assms, of MaxValue id 0] repo.MaxValue_less assms
    unfolding small60_iff by (cases src; cases "tl src") (auto simp: list_ex_iff s8b_repo_def)
  have "length src > 1 \<Longrightarrow> all_equal_tail (deltas 0 src) \<longleftrightarrow> run_tail (deltas 0 src)"
    by (rule all_equal_tail_run) simp
  then show ?thesis
    unfolding TimeArrayEncodeAll_def case_prod_beta Let_def 1 length_deltas using 2 assms by auto
qed

lemma TimeArrayEncodeAll_fmt:
  assumes ne: "src \<noteq> []" and len: "length src < 2 ^ 63"
  shows "\<exists>r. fst (TimeArrayEncodeAll src b) = Inr r \<and> time_fmt word_vals r src"
proof -
  let ?ds = "deltas 0 src"
  let ?dv = "time_div_loop (drop 1 ?ds) (10 ^ 12)"
  note eq = TimeArrayEncodeAll_eq [OF ne, of b, unfolded Let_def]
  consider (rle) "length src > 1" "run_tail ?ds"
    | (raw) "\<not> (length src > 1 \<and> run_tail ?ds)" "\<not> small60 (drop 1 ?ds)"
    | (pack) "\<not> (length src > 1 \<and> run_tail ?ds)" "small60 (drop 1 ?ds)" by blast
  then show ?thesis
  proof cases
    case rle
    then show ?thesis unfolding eq using time_batch_rle_fmt [OF rle(2,1) len, of b word_vals] by simp
  next
    case raw
    then have "fst (TimeArrayEncodeAll src b) = time_batch_raw ?ds b" unfolding eq by auto
    then show ?thesis using time_fmt.raw [of word_vals src] by (simp add: time_batch_raw_eq)
  next
    case pack
    have "div_ok (10 ^ 12) {} 12" by (simp add: div_ok_def)
    then obtain j where d: "div_ok ?dv (set (drop 1 ?ds)) j" using time_div_loop_ok by force
    then have j: "j \<le> 12" "?dv = 10 ^ j" by (auto simp: div_ok_def)
    let ?vs = "map (\<lambda>v. v div ?dv) (drop 1 ?ds)"
    have "?dv > 1 \<or> ?dv = 1" using pow10_ge1 [OF j(1)] by (simp only: j(2))
    then have sc: "(if ?dv > 1 then ?vs else drop 1 ?ds) = ?vs" by (auto simp: map_idI)
    obtain ws s' where e: "s8b_EncodeAll ?vs = (Inr ws, s')" "concat (map word_vals ws) = ?vs"
      using s8b_EncodeAll_ok [OF time_scaled_small [OF pack(2)]] unfolding vals_of_def by blast
    have "fst (TimeArrayEncodeAll src b) = time_batch_packed (?ds ! 0) ?dv ws b"
      unfolding eq sc e using pack by auto
    moreover have "?ds = ?ds ! 0 # map (\<lambda>v. v * 10 ^ j) (concat (map word_vals (words_of (bytes_of ws))))"
    proof -
      have "map (\<lambda>v. v * 10 ^ j) ?vs = drop 1 ?ds"
        using div_ok_scale [OF d] j(2) by (simp add: o_def map_idI)
      then show ?thesis unfolding words_of_bytes_of_plain e(2) using ne by (cases src) auto
    qed
    then have "time_fmt word_vals ((push_bit 4 timeCompressedPackedSimple OR of_nat j) # put_u64 (?ds ! 0) @
        bytes_of ws) src"
      by (rule time_fmt.packed) (simp_all add: j(1))
    moreover have "log10_byte ?dv = of_nat j" using log10_byte_pow10 [OF j(1)] by (simp only: j(2))
    ultimately show ?thesis by (simp add: time_batch_packed_eq)
  qed
qed

section \<open>The decoder reads the format\<close>

lemma time_batch_raw_loop_eq:
  "n + i = length ws \<Longrightarrow> time_batch_raw_loop (bytes_of ws) i n p = psums p (drop i ws)"
proof (induction n arbitrary: i p)
  case (Suc n)
  have "drop i ws = ws ! i # drop (Suc i) ws" using Suc.prems by (simp add: Cons_nth_drop_Suc)
  then show ?case using Suc by (simp add: Let_def drop_bytes_of)
qed simp

lemma time_run_loop_eq: "time_run_loop n acc delta = map (\<lambda>k. acc + of_nat k * delta) [0..<n]"
proof (induction n arbitrary: acc)
  case (Suc n)
  show ?case
    unfolding upt_conv_Cons [OF zero_less_Suc] map_Suc_upt [symmetric]
    by (simp add: Suc o_def algebra_simps)
qed simp

lemma timeBatchDecodeAllSimple_ok:
  assumes xs: "deltas 0 xs = f # map (\<lambda>v. v * 10 ^ j) (concat (map word_vals (words_of b)))"
    and "8 dvd length b" and j: "j \<le> 12" "pow10_nibble t = 10 ^ j" and len: "length xs \<le> max_words"
  shows "timeBatchDecodeAllSimple (t # put_u64 f @ b) dst = Inr xs"
proof -
  let ?vs = "vals_of (words_of b)"
  have n: "length xs = length ?vs + 1"
    using arg_cong [OF xs, of length] by (simp add: vals_of_def)
  from size_dst_ok [OF len, of dst] n
  obtain ys where ys: "size_dst (length ?vs + 1) dst = Inr ys" "length ys = length ?vs + 1" by auto
  then have "s8b_DecodeBytesBigEndian (drop 1 ys) b = Inr (length ?vs, ?vs)"
    using s8b_DecodeBytesBigEndian_ok [of b "drop 1 ys"] assms(2) by simp
  moreover have "s8b_CountBytes b = Inr (length ?vs)" using assms(2) by (simp add: s8b_CountBytes_eq)
  moreover have "xs = psums 0 (f # map (\<lambda>v. v * 10 ^ j) ?vs)"
    unfolding vals_of_def xs [symmetric] by simp
  then have "xs = f # time_sum_loop (10 ^ j) f ?vs"
    using time_sum_loop_eq [OF pow10_ge1 [OF j(1)]] by simp
  ultimately show ?thesis
    using ys j(2) by (simp add: timeBatchDecodeAllSimple_def Let_def)
qed

lemma timeBatchDecodeAllRLE_ok:
  assumes "deltas 0 xs = f # replicate n (d * 10 ^ j)" and "pow10_nibble t = 10 ^ j" and "length xs \<le> max_words"
  shows "timeBatchDecodeAllRLE (t # put_u64 f @ put_uvarint d @ put_uvarint (of_nat (n + 1))) dst = Inr xs"
proof -
  have len: "length xs = n + 1" using time_rle_values(2) [OF assms(1)] by simp
  from size_dst_u64_ok [OF assms(3), of dst] len
  obtain ys where ys: "size_dst_u64 (of_nat (n + 1)) dst = Inr ys" "length ys = Suc n" by auto
  moreover have "time_run_loop (Suc n) f (d * 10 ^ j) = xs"
    unfolding time_run_loop_eq time_rle_values(1) [OF assms(1), symmetric] ..
  ultimately show ?thesis
    using assms(2) get_put_uvarint [of "of_nat (n + 1)" "[]"]
    by (simp add: timeBatchDecodeAllRLE_def Let_def del: of_nat_add)
qed

lemma TimeArrayDecodeAll_fmt:
  assumes "time_fmt word_vals b xs" and "length xs \<le> max_words"
  shows "TimeArrayDecodeAll b dst = Inr xs"
  using assms
proof (induction rule: time_fmt.induct)
  case (raw xs)
  then show ?case
    using size_dst_ok [OF raw, of dst] time_batch_raw_loop_eq [of "length xs" 0 "deltas 0 xs" 0]
    by (auto simp: TimeArrayDecodeAll_def timeBatchDecoderFunc_def time_tags
        timeBatchDecodeAllUncompressed_def Let_def)
next
  case (packed xs f j b)
  note t = time_tag_nibbles [of timeCompressedPackedSimple j]
  have "timeBatchDecodeAllSimple ((push_bit 4 timeCompressedPackedSimple OR of_nat j) # put_u64 f @ b) dst = Inr xs"
    by (rule timeBatchDecodeAllSimple_ok) (use packed t in \<open>simp_all add: time_tags\<close>)
  then show ?case
    using t(1) packed(2) by (simp add: TimeArrayDecodeAll_def timeBatchDecoderFunc_def time_tags Let_def)
next
  case (rle xs f n d j)
  note t = time_tag_nibbles [of timeCompressedRLE j]
  have "timeBatchDecodeAllRLE ((push_bit 4 timeCompressedRLE OR of_nat j) # put_u64 f @ put_uvarint d @
      put_uvarint (of_nat (n + 1))) dst = Inr xs"
    by (rule timeBatchDecodeAllRLE_ok) (use rle t in \<open>simp_all add: time_tags\<close>)
  then show ?case
    using t(1) rle(2) by (simp add: TimeArrayDecodeAll_def timeBatchDecoderFunc_def time_tags Let_def del: of_nat_add)
qed

section \<open>Properties\<close>

lemma timeBatch_mem_safe:
  "mem_safe (timeBatchDecodeAllUncompressed b dst)"
  "mem_safe (timeBatchDecodeAllSimple b dst)"
  "mem_safe (timeBatchDecodeAllRLE b dst)"
  "mem_safe (timeBatchDecodeAllInvalid b dst)"
  unfolding timeBatchDecodeAllUncompressed_def timeBatchDecodeAllSimple_def
    timeBatchDecodeAllRLE_def timeBatchDecodeAllInvalid_def Let_def
  by (auto intro!: mem_safe_bind mem_safe_DecodeBytes split: prod.split dest: length_size_dst)

text \<open>
  C28: the streaming timestamp codec. For any simple8b package that keeps its contract, every non-empty
  list of timestamps written to a new \<^verbatim>\<open>TimeEncoder\<close> encodes without error; \<^verbatim>\<open>CountTimestamps\<close> gives its
  length from the bytes alone; a \<^verbatim>\<open>TimeDecoder\<close> initialised with the bytes, whatever its earlier state,
  delivers exactly the list in order, stops, and has no error. The scaling by powers of ten loses nothing.
\<close>

theorem time_stream_roundtrip:
  assumes "s8b_package P wv er dv dr" and "xs \<noteq> []" and "length xs < 2 ^ 63" and "dv (td_dec d)"
  shows "\<exists>b e' d' d''. TimeEncoder_Bytes P (foldl TimeEncoder_Write (NewTimeEncoder P) xs) = Inr (b, e') \<and>
    CountTimestamps P b = Inr (int (length xs)) \<and> TimeDecoder_Init P b d = Some d' \<and>
    drain TimeDecoder_Next TimeDecoder_Read d' [] = Some (xs, d'') \<and> td_err d'' = None"
proof -
  have w: "te_ts (foldl TimeEncoder_Write e xs) = te_ts e @ xs \<and> te_enc (foldl TimeEncoder_Write e xs) = te_enc e" for e :: "'a time_encoder"
    by (induction xs arbitrary: e) (simp_all add: TimeEncoder_Write_def)
  have "er (te_enc (foldl TimeEncoder_Write (NewTimeEncoder P) xs)) []"
    using s8b_package.NewEncoder_law [OF assms(1)] w [of "NewTimeEncoder P"] by (simp add: NewTimeEncoder_def)
  from s8b_package.time_Bytes_fmt [OF assms(1) _ assms(2,3) this] w [of "NewTimeEncoder P"] obtain b e'
    where b: "TimeEncoder_Bytes P (foldl TimeEncoder_Write (NewTimeEncoder P) xs) = Inr (b, e')" "time_fmt wv b xs"
    by (auto simp: NewTimeEncoder_def)
  from s8b_package.time_Init_fmt [OF assms(1) b(2) assms(4)] obtain d'
    where d: "TimeDecoder_Init P b d = Some d'" "time_dec_rep d' xs" by blast
  from timed.drain_rep [OF d(2), of "[]"] obtain d''
    where "drain TimeDecoder_Next TimeDecoder_Read d' [] = Some (xs, d'')" "time_dec_rep d'' []" by auto
  with b d s8b_package.CountTimestamps_fmt [OF assms(1) b(2)] timed.rep_err show ?thesis by blast
qed

theorem time_stream_roundtrip_witness:
  "\<exists>b e' d' d''. TimeEncoder_Bytes s8b_repo (foldl TimeEncoder_Write (NewTimeEncoder s8b_repo) [1000, 3000, 4000]) = Inr (b, e') \<and>
    CountTimestamps s8b_repo b = Inr (int (length [1000, 3000, 4000 :: i64])) \<and>
    TimeDecoder_Init s8b_repo b \<lparr>td_v = 0, td_i = 0, td_n = 0, td_ts = [], td_dec = s8b_NewDecoder [],
      td_err = None, td_rleDelta = 0, td_encoding = 0\<rparr> = Some d' \<and>
    drain TimeDecoder_Next TimeDecoder_Read d' [] = Some ([1000, 3000, 4000], d'') \<and> td_err d'' = None"
  by (rule time_stream_roundtrip [OF repo.s8b_package_axioms])
    (simp_all add: repo_dvalid_def s8b_NewDecoder_def)

text \<open>
  C31: the batch timestamp codec. \<^verbatim>\<open>TimeArrayEncodeAll\<close> encodes every array into any slice without error,
  and \<^verbatim>\<open>TimeArrayDecodeAll\<close> restores it into any destination.
\<close>

theorem time_batch_roundtrip:
  assumes "length src \<le> max_words"
  shows "\<exists>r. fst (TimeArrayEncodeAll src b) = Inr r \<and> TimeArrayDecodeAll r dst = Inr src"
proof (cases "src = []")
  case True
  then show ?thesis by (simp add: TimeArrayEncodeAll_def TimeArrayDecodeAll_def)
next
  case False
  have "length src < 2 ^ 63" using assms by (simp add: max_words_def)
  from TimeArrayEncodeAll_fmt [OF False this, of b] TimeArrayDecodeAll_fmt [OF _ assms, of _ dst]
  show ?thesis by blast
qed

theorem time_batch_roundtrip_witness:
  "\<exists>r. fst (TimeArrayEncodeAll [100, 200, 250] (replicate 40 1, [])) = Inr r \<and>
    TimeArrayDecodeAll r [] = Inr [100, 200, 250]"
  by (rule time_batch_roundtrip) (simp add: max_words_def)

text \<open>
  C33: the streaming and the batch timestamp codec read each other's blocks.
\<close>

theorem time_codecs_interchange:
  assumes "s8b_package P word_vals er dv dr" and "xs \<noteq> []" and "length xs \<le> max_words" and "dv (td_dec d)"
    and "te_ts e = xs" and "er (te_enc e) []"
  shows "(\<exists>b d' d''. fst (TimeArrayEncodeAll xs s) = Inr b \<and> TimeDecoder_Init P b d = Some d' \<and>
      drain TimeDecoder_Next TimeDecoder_Read d' [] = Some (xs, d'')) \<and>
    (\<exists>b e'. TimeEncoder_Bytes P e = Inr (b, e') \<and> TimeArrayDecodeAll b dst = Inr xs)"
proof
  have len: "length xs < 2 ^ 63" using assms(3) by (simp add: max_words_def)
  from TimeArrayEncodeAll_fmt [OF assms(2) len, of s] obtain b
    where b: "fst (TimeArrayEncodeAll xs s) = Inr b" "time_fmt word_vals b xs" by blast
  from s8b_package.time_Init_fmt [OF assms(1) b(2) assms(4)] obtain d'
    where d: "TimeDecoder_Init P b d = Some d'" "time_dec_rep d' xs" by blast
  from timed.drain_rep [OF d(2), of "[]"] b d
  show "\<exists>b d' d''. fst (TimeArrayEncodeAll xs s) = Inr b \<and> TimeDecoder_Init P b d = Some d' \<and>
      drain TimeDecoder_Next TimeDecoder_Read d' [] = Some (xs, d'')" by auto
  from s8b_package.time_Bytes_fmt [OF assms(1,5,2) len assms(6)] TimeArrayDecodeAll_fmt [OF _ assms(3), of _ dst]
  show "\<exists>b e'. TimeEncoder_Bytes P e = Inr (b, e') \<and> TimeArrayDecodeAll b dst = Inr xs" by blast
qed

theorem time_codecs_interchange_witness:
  "(\<exists>b d' d''. fst (TimeArrayEncodeAll [7, 8] ([], [])) = Inr b \<and>
      TimeDecoder_Init s8b_repo b \<lparr>td_v = 0, td_i = 0, td_n = 0, td_ts = [], td_dec = s8b_NewDecoder [],
        td_err = None, td_rleDelta = 0, td_encoding = 0\<rparr> = Some d' \<and>
      drain TimeDecoder_Next TimeDecoder_Read d' [] = Some ([7, 8], d'')) \<and>
    (\<exists>b e'. TimeEncoder_Bytes s8b_repo \<lparr>te_ts = [7, 8], te_bytes = [], te_enc = s8b_NewEncoder\<rparr> = Inr (b, e') \<and>
      TimeArrayDecodeAll b [] = Inr [7, 8])"
  by (rule time_codecs_interchange [OF repo.s8b_package_axioms])
    (simp_all add: repo_dvalid_def s8b_NewDecoder_def max_words_def repo_erep_def enc_inv_New)

text \<open>
  C35: corrupt timestamp blocks. Whatever the bytes, \<^verbatim>\<open>TimeArrayDecodeAll\<close> neither writes outside its
  destination nor indexes out of range, and the loop over a \<^verbatim>\<open>TimeDecoder\<close> in any state ends.
\<close>

theorem time_decode_corrupt_safe:
  "mem_safe (TimeArrayDecodeAll b dst) \<and> (\<exists>r. drain TimeDecoder_Next TimeDecoder_Read d [] = Some r)"
proof
  show "\<exists>r. drain TimeDecoder_Next TimeDecoder_Read d [] = Some r" by (rule time_drain_ends)
  have "mem_safe ((timeBatchDecoderFunc ! unat (x AND 3)) b dst)" for x :: u8
    by (rule mem_safe_table) (auto simp: timeBatchDecoderFunc_def timeBatch_mem_safe)
  then show "mem_safe (TimeArrayDecodeAll b dst)"
    unfolding TimeArrayDecodeAll_def Let_def by (cases b) (simp_all only: list.case mem_safe_simps)
qed

text \<open>
  \<^verbatim>\<open>Init\<close> with no bytes keeps the encoding and the length of the block before. After a run-length
  encoded block of three timestamps with delta 10, a decoder initialised with an empty block still
  delivers two timestamps.
\<close>

theorem time_Init_empty_after_rle:
  "\<exists>d1 d2. TimeDecoder_Init s8b_repo ([0x20] @ put_u64 100 @ put_uvarint 10 @ put_uvarint 3)
      \<lparr>td_v = 0, td_i = 0, td_n = 0, td_ts = [], td_dec = s8b_NewDecoder [],
       td_err = None, td_rleDelta = 0, td_encoding = 0\<rparr> = Some d1 \<and>
    TimeDecoder_Init s8b_repo [] d1 = Some d2 \<and>
    fst (the (drain TimeDecoder_Next TimeDecoder_Read d2 [])) = [10, 20]"
proof -
  let ?d = "\<lparr>td_v = 0, td_i = 0, td_n = 3, td_ts = [], td_dec = s8b_NewDecoder [],
       td_err = None, td_rleDelta = 10, td_encoding = 2\<rparr> :: s8b_decoder time_decoder"
  have "TimeDecoder_Init s8b_repo ([0x20] @ put_u64 100 @ put_uvarint 10 @ put_uvarint 3)
      \<lparr>td_v = 0, td_i = 0, td_n = 0, td_ts = [], td_dec = s8b_NewDecoder [],
       td_err = None, td_rleDelta = 0, td_encoding = 0\<rparr> = Some (?d\<lparr>td_v := 90, td_i := - 1\<rparr>)"
    by code_simp
  moreover have "TimeDecoder_Init s8b_repo [] (?d\<lparr>td_v := 90, td_i := - 1\<rparr>) = Some ?d"
    by (simp add: TimeDecoder_Init_def time_decode_def)
  moreover have "time_dec_rep ?d [10, 20]"
    by (simp add: time_dec_rep_def time_tags upt_rec)
  ultimately show ?thesis using timed.drain_rep [of ?d "[10, 20]" "[]"] by auto
qed

end
