(* ===== verification/Byte_Bits.thy ===== *)
theory Byte_Bits
  imports Go_Prelude
begin

unbundle bit_operations_syntax

text \<open>
  Byte strings as bit strings, most significant bit first, and the 64-bit words their pieces stand for.
  The boolean and the float codec pack their data this way.
\<close>

section \<open>Bits of a byte string\<close>

definition byte_bits :: "u8 \<Rightarrow> bool list" where
  "byte_bits v = map (\<lambda>k. bit v (7 - k)) [0..<8]"

definition bits_of :: "bytes \<Rightarrow> bool list" where
  "bits_of bs = concat (map byte_bits bs)"

lemma length_byte_bits [simp]: "length (byte_bits v) = 8"
  by (simp add: byte_bits_def)

lemma nth_byte_bits: "k < 8 \<Longrightarrow> byte_bits v ! k = bit v (7 - k)"
  by (simp add: byte_bits_def)

lemma bits_of_simps [simp]:
  "bits_of [] = []" "bits_of (v # vs) = byte_bits v @ bits_of vs" "bits_of (us @ vs) = bits_of us @ bits_of vs"
  by (simp_all add: bits_of_def)

lemma length_bits_of [simp]: "length (bits_of bs) = 8 * length bs"
  by (induction bs) simp_all

lemma nth_bits_of: "m < 8 * length bs \<Longrightarrow> bits_of bs ! m = bit (bs ! (m div 8)) (7 - m mod 8)"
proof (induction bs arbitrary: m)
  case (Cons v bs)
  show ?case
  proof (cases "m < 8")
    case True
    then show ?thesis by (simp add: nth_append nth_byte_bits)
  next
    case False
    then have "m div 8 = Suc ((m - 8) div 8)" "m mod 8 = (m - 8) mod 8"
      by (simp_all add: div_if mod_if)
    with False Cons show ?thesis by (simp add: nth_append)
  qed
qed simp

text \<open>Setting or clearing one bit of a byte.\<close>

lemma bit_128: "bit (128 :: u8) i \<longleftrightarrow> i = 7"
proof -
  have e: "(128 :: u8) = push_bit 7 1" by simp
  show ?thesis unfolding e bit_push_bit_iff bit_1_iff by auto
qed

lemma bit_128_shifted: "k < 8 \<Longrightarrow> bit (drop_bit k (128 :: u8)) j \<longleftrightarrow> j = 7 - k"
  unfolding bit_drop_bit_eq o_apply bit_128 by auto

lemma bits_of_set:
  assumes "n < 8 * length b"
  shows "bits_of (b[n div 8 := (if v then b ! (n div 8) OR drop_bit (n mod 8) 128
      else b ! (n div 8) AND NOT (drop_bit (n mod 8) 128))]) = (bits_of b)[n := v]"
    (is "bits_of (b[_ := ?w]) = _")
proof (rule nth_equalityI)
  fix m
  assume "m < length (bits_of (b[n div 8 := ?w]))"
  then have m: "m < 8 * length b" by simp
  have w: "bit ?w j = (if j = 7 - n mod 8 then v else bit (b ! (n div 8)) j)" if "j < 8" for j
    using that bit_128_shifted [of "n mod 8" j] by (auto simp: bit_simps)
  show "bits_of (b[n div 8 := ?w]) ! m = (bits_of b)[n := v] ! m"
  proof (cases "m div 8 = n div 8")
    case True
    have "7 - m mod 8 = 7 - n mod 8 \<longleftrightarrow> m = n"
    proof -
      have "m mod 8 < 8" "n mod 8 < 8" by simp_all
      then have "7 - m mod 8 = 7 - n mod 8 \<longleftrightarrow> m mod 8 = n mod 8" by linarith
      also have "\<dots> \<longleftrightarrow> m = n" using True by (metis div_mult_mod_eq)
      finally show ?thesis .
    qed
    with True m assms w [of "7 - m mod 8"] show ?thesis
      by (simp add: nth_bits_of nth_list_update)
  next
    case False
    then have "m \<noteq> n" by auto
    with False m show ?thesis by (simp add: nth_bits_of)
  qed
qed simp
lemma bits_of_take: "bits_of (take k b) = take (8 * k) (bits_of b)"
  by (induction b arbitrary: k) (auto simp: take_Cons' diff_mult_distrib2)

lemma bits_of_drop: "bits_of (drop k b) = drop (8 * k) (bits_of b)"
  by (induction b arbitrary: k) (auto simp: drop_Cons' diff_mult_distrib2)

section \<open>Bits of a word\<close>

text \<open>The \<open>n\<close> low bits of a word, highest first.\<close>

definition lo_bits :: "nat \<Rightarrow> u64 \<Rightarrow> bool list" where
  "lo_bits n v = map (\<lambda>k. bit v (n - 1 - k)) [0..<n]"

text \<open>The word a bit string stands for.\<close>

definition bits_val :: "bool list \<Rightarrow> u64" where
  "bits_val bs = foldl (\<lambda>a b. push_bit 1 a OR of_bool b) 0 bs"

lemma length_lo_bits [simp]: "length (lo_bits n v) = n"
  by (simp add: lo_bits_def)

lemma nth_lo_bits: "k < n \<Longrightarrow> lo_bits n v ! k = bit v (n - 1 - k)"
  by (simp add: lo_bits_def)

lemma bits_val_snoc: "bits_val (bs @ [b]) = push_bit 1 (bits_val bs) OR of_bool b"
  by (simp add: bits_val_def)

lemma bit_bits_val: "bit (bits_val bs) k \<longleftrightarrow> k < 64 \<and> k < length bs \<and> bs ! (length bs - 1 - k)"
proof (induction bs arbitrary: k rule: rev_induct)
  case Nil
  then show ?case by (simp add: bits_val_def)
next
  case (snoc b bs)
  show ?case
  proof (cases k)
    case 0
    then show ?thesis
      unfolding bits_val_snoc bit_or_iff bit_push_bit_iff by (simp add: bit_0)
  next
    case (Suc j)
    then show ?thesis
      unfolding bits_val_snoc bit_or_iff bit_push_bit_iff snoc.IH
      by (auto simp: bit_simps nth_append)
  qed
qed

lemma bits_val_lo_bits: "n \<le> 64 \<Longrightarrow> bits_val (lo_bits n v) = take_bit n v"
  by (rule bit_word_eqI) (auto simp: bit_bits_val nth_lo_bits bit_take_bit_iff)

lemma lo_bits_bits_val: "length bs \<le> 64 \<Longrightarrow> lo_bits (length bs) (bits_val bs) = bs"
  by (rule nth_equalityI) (auto simp: nth_lo_bits bit_bits_val)

lemma lo_bits_append8: "lo_bits (n + 8) (push_bit 8 v OR ucast (b :: u8)) = lo_bits n v @ byte_bits b"
  if "n + 8 \<le> 64"
proof (rule nth_equalityI)
  fix i
  assume "i < length (lo_bits (n + 8) (push_bit 8 v OR ucast b))"
  then show "lo_bits (n + 8) (push_bit 8 v OR ucast b) ! i = (lo_bits n v @ byte_bits b) ! i"
    using that by (auto simp: nth_lo_bits nth_append nth_byte_bits bit_simps dest: bit_imp_le_length)
qed simp

lemma lo_bits_be_word: "length bs \<le> 8 \<Longrightarrow> lo_bits (8 * length bs) (be_word bs) = bits_of bs"
proof (induction bs rule: rev_induct)
  case (snoc b bs)
  then show ?case
    using lo_bits_append8 [of "8 * length bs" "be_word bs" b] by (simp add: be_word_def add.commute)
qed (simp add: lo_bits_def)

end
