(* ===== verification/Bool_Codec.thy ===== *)
theory Bool_Codec
  imports Iterators Simple8b Byte_Bits
begin

unbundle bit_operations_syntax

text \<open>
  The boolean codec of \<^verbatim>\<open>tsdb/tsm1\<close>: \<^verbatim>\<open>BooleanEncoder\<close> and \<^verbatim>\<open>BooleanDecoder\<close> of \<^verbatim>\<open>bool.go\<close> and
  \<^verbatim>\<open>BooleanArrayEncodeAll\<close> and \<^verbatim>\<open>BooleanArrayDecodeAll\<close> of \<^verbatim>\<open>batch_boolean.go\<close>. A block is a header byte,
  the number of booleans as a varint, and the booleans packed eight to a byte, first one highest.
\<close>

section \<open>Streaming encoder\<close>

definition booleanCompressedBitPacked :: u8 where "booleanCompressedBitPacked = 1"

record bool_encoder =
  ben_bytes :: bytes
  ben_b :: u8
  ben_i :: nat
  ben_n :: nat

definition NewBooleanEncoder :: bool_encoder where
  "NewBooleanEncoder = \<lparr>ben_bytes = [], ben_b = 0, ben_i = 0, ben_n = 0\<rparr>"

definition BooleanEncoder_Reset :: "bool_encoder \<Rightarrow> bool_encoder" where
  "BooleanEncoder_Reset e = e\<lparr>ben_bytes := [], ben_b := 0, ben_i := 0, ben_n := 0\<rparr>"

text \<open>\<^verbatim>\<open>for e.i < 8 { e.b = e.b << 1; e.i++ }\<close>\<close>

function bool_pad :: "u8 \<Rightarrow> nat \<Rightarrow> u8 \<times> nat" where
  "bool_pad b i = (if i < 8 then bool_pad (push_bit 1 b) (i + 1) else (b, i))"
  by auto
termination by (relation "measure (\<lambda>(b, i). 8 - i)") auto

declare bool_pad.simps [simp del]

definition BooleanEncoder_flush :: "bool_encoder \<Rightarrow> bool_encoder" where
  "BooleanEncoder_flush e =
     (case bool_pad (ben_b e) (ben_i e) of (b, i) \<Rightarrow>
        if i > 0 then e\<lparr>ben_bytes := ben_bytes e @ [b], ben_b := 0, ben_i := 0\<rparr>
        else e\<lparr>ben_b := b, ben_i := i\<rparr>)"

text \<open>\<^verbatim>\<open>e.b = e.b << 1; if b { e.b |= 1 }\<close>\<close>

definition bool_shift :: "bool \<Rightarrow> u8 \<Rightarrow> u8" where
  "bool_shift v b = (let b' = push_bit 1 b in if v then b' OR 1 else b')"

definition BooleanEncoder_Write :: "bool_encoder \<Rightarrow> bool \<Rightarrow> bool_encoder" where
  "BooleanEncoder_Write e v =
     (let e1 = (if ben_i e \<ge> 8 then BooleanEncoder_flush e else e)
      in e1\<lparr>ben_b := bool_shift v (ben_b e1), ben_i := ben_i e1 + 1, ben_n := ben_n e1 + 1\<rparr>)"

definition BooleanEncoder_Bytes :: "bool_encoder \<Rightarrow> bytes res \<times> bool_encoder" where
  "BooleanEncoder_Bytes e =
     (let e1 = BooleanEncoder_flush e
      in (Inr ((push_bit 4 booleanCompressedBitPacked # put_uvarint (of_nat (ben_n e1))) @ ben_bytes e1), e1))"

section \<open>Streaming decoder\<close>

record bool_decoder =
  bd_b :: bytes
  bd_i :: int
  bd_n :: int
  bd_err :: "go_error option"

definition BooleanDecoder_SetBytes :: "bytes \<Rightarrow> bool_decoder \<Rightarrow> bool_decoder" where
  "BooleanDecoder_SetBytes b0 e =
     (if b0 = [] then e
      else
        let b = drop 1 b0; (count, n) = get_uvarint b in
        if n \<le> 0 then e\<lparr>bd_err := Some (GoError ''booleanDecoder: invalid count'')\<rparr>
        else
          let rest = drop (nat n) b; mn = int (length rest * 8); cnt = sint count
          in e\<lparr>bd_b := rest, bd_i := - 1, bd_n := (if mn < cnt then mn else cnt)\<rparr>)"

definition BooleanDecoder_Next :: "bool_decoder \<Rightarrow> bool \<times> bool_decoder" where
  "BooleanDecoder_Next e =
     (if bd_err e \<noteq> None then (False, e)
      else let e1 = e\<lparr>bd_i := bd_i e + 1\<rparr> in (bd_i e1 < bd_n e1, e1))"

text \<open>An index outside the bytes is a panic, recorded as the decoder's error.\<close>

definition BooleanDecoder_Read :: "bool_decoder \<Rightarrow> bool \<times> bool_decoder" where
  "BooleanDecoder_Read e =
     (let idx = bd_i e div 8; pos = nat (7 - bd_i e mod 8); msk = push_bit pos 1
      in if idx < 0 \<or> idx \<ge> int (length (bd_b e))
         then (False, e\<lparr>bd_err := Some (GoPanic ''index out of range'')\<rparr>)
         else (bd_b e ! nat idx AND msk = msk, e))"

section \<open>Batch encoder\<close>

definition bool_grow :: "nat \<Rightarrow> u8 slice \<Rightarrow> bytes" where
  "bool_grow sz b = (case b of (xs, spare) \<Rightarrow>
     if length xs < sz \<and> length xs + length spare > sz then take sz (xs @ spare)
     else if length xs < sz then xs @ replicate sz 0
     else xs)"

fun bool_set_loop :: "bool list \<Rightarrow> nat \<Rightarrow> bytes \<Rightarrow> (nat \<times> bytes) res" where
  "bool_set_loop [] n b = Inr (n, b)"
| "bool_set_loop (v # vs) n b =
     (if n div 8 \<ge> length b then Inl (GoPanic ''index out of range'')
      else bool_set_loop vs (n + 1)
        (b[n div 8 := (if v then b ! (n div 8) OR drop_bit (n mod 8) 128
                       else b ! (n div 8) AND NOT (drop_bit (n mod 8) 128))]))"

definition BooleanArrayEncodeAll :: "bool list \<Rightarrow> u8 slice \<Rightarrow> bytes res" where
  "BooleanArrayEncodeAll src b0 =
     (let sz = 1 + 8 + (length src + 7) div 8;
          hdr = push_bit 4 booleanCompressedBitPacked # put_uvarint (of_nat (length src))
      in bind_res (put_slice hdr (bool_grow sz b0)) (\<lambda>b.
         bind_res (bool_set_loop src (8 * length hdr) b) (\<lambda>(n, b').
           let len = (if n mod 8 > 0 then n div 8 + 1 else n div 8) in
           if len > length b' then Inl (GoPanic ''slice bounds out of range'') else Inr (take len b'))))"

section \<open>Batch decoder\<close>

text \<open>\<^verbatim>\<open>for i := byte(128); i > 0 && j < len(dst); i >>= 1\<close>, over the masks \<^verbatim>\<open>i\<close> takes.\<close>

fun bool_mask_loop :: "u8 list \<Rightarrow> u8 \<Rightarrow> nat \<Rightarrow> bool list \<Rightarrow> nat \<times> bool list" where
  "bool_mask_loop [] v j dst = (j, dst)"
| "bool_mask_loop (i # is) v j dst =
     (if j < length dst then bool_mask_loop is v (j + 1) (dst[j := (v AND i \<noteq> 0)]) else (j, dst))"

fun bool_byte_loop :: "bytes \<Rightarrow> nat \<Rightarrow> bool list \<Rightarrow> bool list" where
  "bool_byte_loop [] j dst = dst"
| "bool_byte_loop (v # vs) j dst =
     (case bool_mask_loop [128, 64, 32, 16, 8, 4, 2, 1] v j dst of (j', dst') \<Rightarrow> bool_byte_loop vs j' dst')"

text \<open>\<^verbatim>\<open>dst\<close> is the array up to its capacity; a negative count makes \<^verbatim>\<open>dst[:count]\<close> panic.\<close>

definition BooleanArrayDecodeAll :: "bytes \<Rightarrow> bool list \<Rightarrow> bool list res" where
  "BooleanArrayDecodeAll b0 dst =
     (if b0 = [] then Inr []
      else
        let b1 = drop 1 b0; (val, n) = get_uvarint b1 in
        if n \<le> 0 then Inl (GoError ''booleanBatchDecoder: invalid count'')
        else
          let b = drop (nat n) b1; mn = int (length b * 8);
              count = (if mn < sint val then mn else sint val)
          in if int (length dst) < count then Inr (bool_byte_loop b 0 (replicate (nat count) False))
             else if count < 0 then Inl (GoPanic ''slice bounds out of range'')
             else Inr (bool_byte_loop b 0 (take (nat count) dst)))"

section \<open>The block format\<close>

inductive bool_fmt :: "bytes \<Rightarrow> bool list \<Rightarrow> bool" where
  "length xs < 2 ^ 63 \<Longrightarrow> length xs \<le> 8 * length pk \<Longrightarrow> take (length xs) (bits_of pk) = xs \<Longrightarrow>
   bool_fmt (push_bit 4 booleanCompressedBitPacked # put_uvarint (of_nat (length xs)) @ pk) xs"

text \<open>The booleans in the byte being filled, oldest first.\<close>

definition low_bits :: "u8 \<Rightarrow> nat \<Rightarrow> bool list" where
  "low_bits b i = map (\<lambda>k. bit b (i - 1 - k)) [0..<i]"

lemma length_low_bits [simp]: "length (low_bits b i) = i"
  by (simp add: low_bits_def)

lemma low_bits_8: "low_bits b 8 = byte_bits b"
  by (simp add: low_bits_def byte_bits_def)

lemma bit_bool_shift: "bit (bool_shift v b) j \<longleftrightarrow> (if j = 0 then v else j < 8 \<and> bit b (j - 1))"
  unfolding bool_shift_def Let_def by (auto simp only: bit_push_bit_iff bit_or_iff bit_1_iff split: if_splits) auto

lemma low_bits_shift: "i < 8 \<Longrightarrow> low_bits (bool_shift v b) (Suc i) = low_bits b i @ [v]"
  by (rule nth_equalityI) (auto simp: low_bits_def nth_append bit_bool_shift less_Suc_eq simp del: upt_Suc)

lemma push_bool_shift: "push_bit 1 b = bool_shift False b"
  by (simp add: bool_shift_def)

lemma bool_pad_eq:
  "i \<le> 8 \<Longrightarrow> byte_bits (fst (bool_pad b i)) = low_bits b i @ replicate (8 - i) False \<and> snd (bool_pad b i) = 8"
proof (induction b i rule: bool_pad.induct)
  case (1 b i)
  show ?case
  proof (cases "i < 8")
    case True
    then have "replicate (8 - i) False = False # replicate (8 - (i + 1)) False"
      by (simp add: Suc_diff_Suc [symmetric])
    moreover have "bool_pad b i = bool_pad (push_bit 1 b) (i + 1)"
      using True by (subst bool_pad.simps) simp
    ultimately show ?thesis
      using 1 True low_bits_shift [OF True, of False b] unfolding push_bool_shift by simp
  next
    case False
    with 1 have "i = 8" by simp
    moreover have "bool_pad b i = (b, i)" using False by (subst bool_pad.simps) simp
    ultimately show ?thesis by (simp add: low_bits_8)
  qed
qed

definition bool_enc_rep :: "bool_encoder \<Rightarrow> bool list \<Rightarrow> bool" where
  "bool_enc_rep e xs \<longleftrightarrow> ben_i e \<le> 8 \<and> ben_n e = length xs \<and> xs = bits_of (ben_bytes e) @ low_bits (ben_b e) (ben_i e)"

lemma BooleanEncoder_flush_bits:
  assumes "ben_i e \<le> 8"
  shows "BooleanEncoder_flush e =
      e\<lparr>ben_bytes := ben_bytes e @ [fst (bool_pad (ben_b e) (ben_i e))], ben_b := 0, ben_i := 0\<rparr>"
  using bool_pad_eq [OF assms, of "ben_b e"] by (auto simp: BooleanEncoder_flush_def split: prod.split)

lemma bool_enc_rep_Write:
  assumes "bool_enc_rep e xs"
  shows "bool_enc_rep (BooleanEncoder_Write e v) (xs @ [v])"
proof -
  let ?e = "if ben_i e \<ge> 8 then BooleanEncoder_flush e else e"
  have i: "ben_i e \<le> 8" using assms by (simp add: bool_enc_rep_def)
  have "bool_enc_rep ?e xs \<and> ben_i ?e < 8"
    using assms BooleanEncoder_flush_bits [OF i] bool_pad_eq [OF i, of "ben_b e"]
    by (auto simp: bool_enc_rep_def low_bits_def le_antisym)
  then show ?thesis
    using low_bits_shift [of "ben_i ?e" v "ben_b ?e"]
    by (simp add: BooleanEncoder_Write_def Let_def bool_enc_rep_def)
qed

lemma bool_enc_rep_fold: "bool_enc_rep e xs \<Longrightarrow> bool_enc_rep (foldl BooleanEncoder_Write e ys) (xs @ ys)"
proof (induction ys arbitrary: e xs)
  case (Cons y ys)
  from Cons.IH [OF bool_enc_rep_Write [OF Cons.prems, of y]] show ?case by simp
qed simp

lemma bool_Bytes_fmt:
  assumes "bool_enc_rep e xs" and "length xs < 2 ^ 63"
  shows "\<exists>b e'. BooleanEncoder_Bytes e = (Inr b, e') \<and> bool_fmt b xs"
proof -
  have i: "ben_i e \<le> 8" and xs: "ben_n e = length xs" "xs = bits_of (ben_bytes e) @ low_bits (ben_b e) (ben_i e)"
    using assms by (auto simp: bool_enc_rep_def)
  let ?pk = "ben_bytes e @ [fst (bool_pad (ben_b e) (ben_i e))]"
  have bits: "bits_of ?pk = xs @ replicate (8 - ben_i e) False"
    using bool_pad_eq [OF i, of "ben_b e"] by (subst xs(2)) simp
  then have "length xs \<le> 8 * length ?pk" by (metis length_append length_bits_of le_add1)
  with assms(2) bits have "bool_fmt (push_bit 4 booleanCompressedBitPacked # put_uvarint (of_nat (length xs)) @ ?pk) xs"
    by (intro bool_fmt.intros) simp_all
  then show ?thesis
    by (simp add: BooleanEncoder_Bytes_def BooleanEncoder_flush_bits [OF i] xs(1))
qed

section \<open>The batch encoder produces the format\<close>

lemma bool_set_loop_ok:
  assumes "n + length vs \<le> 8 * length b"
  shows "\<exists>b'. bool_set_loop vs n b = Inr (n + length vs, b') \<and> length b' = length b \<and>
    bits_of b' = write_at n vs (bits_of b) \<and> take (n div 8) b' = take (n div 8) b"
  using assms
proof (induction vs arbitrary: n b)
  case Nil
  then show ?case by (simp add: write_at_def)
next
  case (Cons v vs)
  let ?b = "b[n div 8 := (if v then b ! (n div 8) OR drop_bit (n mod 8) 128
                       else b ! (n div 8) AND NOT (drop_bit (n mod 8) 128))]"
  have n: "n < 8 * length b" "n div 8 < length b" using Cons.prems by auto
  from Cons.IH [of "n + 1" ?b] Cons.prems obtain b'
    where b': "bool_set_loop vs (n + 1) ?b = Inr (n + 1 + length vs, b')" "length b' = length b"
      "bits_of b' = write_at (n + 1) vs (bits_of ?b)" "take ((n + 1) div 8) b' = take ((n + 1) div 8) ?b" by auto
  have "bits_of b' = write_at n (v # vs) (bits_of b)"
    unfolding b'(3) bits_of_set [OF n(1)] write_at_def
    using n Cons.prems by (simp add: take_update_swap take_Suc_conv_app_nth list_update_append)
  moreover have "take (n div 8) b' = take (n div 8) b"
  proof -
    have "n div 8 \<le> (n + 1) div 8" by (simp add: div_le_mono)
    then have "take (n div 8) b' = take (n div 8) (take ((n + 1) div 8) b')" by (simp add: min_absorb1)
    also have "\<dots> = take (n div 8) b" unfolding b'(4) using \<open>n div 8 \<le> (n + 1) div 8\<close> by (simp add: min_absorb1)
    finally show ?thesis .
  qed
  ultimately show ?case using b' n by simp
qed

lemma length_bool_grow: "sz \<le> length (bool_grow sz b)"
  by (auto simp: bool_grow_def split: prod.split)

lemma BooleanArrayEncodeAll_fmt:
  assumes "length src < 2 ^ 56"
  shows "\<exists>r. BooleanArrayEncodeAll src b = Inr r \<and> bool_fmt r src"
proof -
  define hdr where "hdr = push_bit 4 booleanCompressedBitPacked # put_uvarint (of_nat (length src))"
  define sz where "sz = 1 + 8 + (length src + 7) div 8"
  define b0 where "b0 = bool_grow sz b"
  define b1 where "b1 = write_at 0 hdr b0"
  have "length (put_uvarint (of_nat (length src))) \<le> 8"
    using length_put_uvarint_le [of "of_nat (length src)" 8] assms unat_of_nat_small [of "length src"] by simp
  then have lh: "length hdr \<le> 9" by (simp add: hdr_def)
  have "length src \<le> 8 * ((length src + 7) div 8)" by presburger
  then have room: "8 * length hdr + length src \<le> 8 * sz" using lh by (simp add: sz_def)
  have len: "sz \<le> length b0" unfolding b0_def by (rule length_bool_grow)
  moreover have "9 \<le> sz" by (simp add: sz_def)
  ultimately have hb: "length hdr \<le> length b0" using lh by linarith
  then have l1: "length b1 = length b0" unfolding b1_def by (intro length_write_at) simp
  have put: "put_slice hdr b0 = Inr b1" using hb by (simp add: put_slice_def b1_def)
  from room len l1 have "8 * length hdr + length src \<le> 8 * length b1" by linarith
  from bool_set_loop_ok [OF this] obtain b'
    where b': "bool_set_loop src (8 * length hdr) b1 = Inr (8 * length hdr + length src, b')" "length b' = length b0"
      "bits_of b' = write_at (8 * length hdr) src (bits_of b1)" "take (8 * length hdr div 8) b' = take (8 * length hdr div 8) b1"
    unfolding l1 by blast
  define n where "n = 8 * length hdr + length src"
  define k where "k = (if n mod 8 > 0 then n div 8 + 1 else n div 8)"
  have k: "n \<le> 8 * k" "8 * k < n + 8" unfolding k_def by presburger+
  have kl: "k \<le> length b'" using k(2) len b'(2) room unfolding n_def by linarith
  have res: "BooleanArrayEncodeAll src b = Inr (take k b')"
    using put b'(1) kl unfolding BooleanArrayEncodeAll_def Let_def sz_def [symmetric] hdr_def [symmetric] b0_def [symmetric]
    by (simp add: n_def [symmetric] k_def)
  let ?pk = "drop (length hdr) (take k b')"
  have hk: "length hdr \<le> k" using k(1) unfolding n_def by linarith
  then have "take (length hdr) (take k b') = hdr" using b'(4) hb by (simp add: min_absorb1 b1_def)
  then have split: "take k b' = hdr @ ?pk" by (metis append_take_drop_id)
  have "take (length src) (bits_of ?pk) = src"
    unfolding bits_of_drop bits_of_take b'(3) drop_take take_take
    using k(1) hb l1 unfolding n_def write_at_def by (simp add: min_absorb1)
  moreover have "length src \<le> 8 * length ?pk" using k(1) kl unfolding n_def by simp
  ultimately have "bool_fmt (hdr @ ?pk) src"
    using bool_fmt.intros [of src ?pk] assms by (simp add: hdr_def)
  with res split show ?thesis by auto
qed

section \<open>The decoders read the format\<close>

definition bool_dec_rep :: "bool_decoder \<Rightarrow> bool list \<Rightarrow> bool" where
  "bool_dec_rep d xs \<longleftrightarrow> bd_err d = None \<and> - 1 \<le> bd_i d \<and> bd_n d \<le> int (8 * length (bd_b d)) \<and>
     xs = drop (nat (bd_i d + 1)) (take (nat (bd_n d)) (bits_of (bd_b d)))"

lemma bit_iff_mask: "(v AND push_bit p 1 = push_bit p 1) \<longleftrightarrow> bit (v :: u8) p" if "p < 8"
proof
  assume "v AND push_bit p 1 = push_bit p 1"
  then have "bit (v AND push_bit p 1) p \<longleftrightarrow> bit (push_bit p 1 :: u8) p" by (rule arg_cong)
  then show "bit v p" using that by (simp only: bit_and_iff bit_push_bit_iff bit_1_iff) auto
next
  assume "bit v p"
  then show "v AND push_bit p 1 = push_bit p 1"
    by (intro bit_word_eqI) (auto simp: bit_simps)
qed

interpretation boold: value_decoder BooleanDecoder_Next BooleanDecoder_Read bd_err bool_dec_rep
proof
  fix d and xs :: "bool list"
  assume "bool_dec_rep d xs"
  then show "bd_err d = None" by (simp add: bool_dec_rep_def)
next
  fix d
  assume "bool_dec_rep d []"
  then show "\<exists>d'. BooleanDecoder_Next d = (False, d') \<and> bool_dec_rep d' []"
    by (auto simp: bool_dec_rep_def BooleanDecoder_Next_def Let_def)
next
  fix d x and xs :: "bool list"
  assume rep: "bool_dec_rep d (x # xs)"
  let ?d = "d\<lparr>bd_i := bd_i d + 1\<rparr>"
  let ?m = "nat (bd_i d + 1)"
  let ?t = "take (nat (bd_n d)) (bits_of (bd_b d))"
  have err: "bd_err d = None" and i: "- 1 \<le> bd_i d" and n: "bd_n d \<le> int (8 * length (bd_b d))"
    and xs: "x # xs = drop ?m ?t" using rep by (auto simp: bool_dec_rep_def)
  then have lt: "?m < length ?t" by (metis drop_all list.distinct(1) not_less)
  then have m: "?m < 8 * length (bd_b d)" "int ?m < bd_n d" using i by auto
  have "nat (bd_i ?d + 1) = Suc ?m" using i by simp
  then have x: "x = bits_of (bd_b d) ! ?m" "xs = drop (nat (bd_i ?d + 1)) ?t"
    using xs lt m by (auto simp: Cons_nth_drop_Suc [symmetric])
  have "BooleanDecoder_Next d = (True, ?d)" using err m i by (simp add: BooleanDecoder_Next_def)
  moreover have "BooleanDecoder_Read ?d = (x, ?d)"
  proof -
    have idx: "(bd_i d + 1) div 8 = int (?m div 8)" "(bd_i d + 1) mod 8 = int (?m mod 8)"
      using i by (simp_all add: zdiv_int zmod_int)
    have pos: "nat (7 - (bd_i d + 1) mod 8) = 7 - ?m mod 8" unfolding idx by simp
    have lt8: "7 - ?m mod 8 < 8" by simp
    have "?m div 8 < length (bd_b d)" using m(1) by auto
    then show ?thesis
      unfolding BooleanDecoder_Read_def Let_def
      using bit_iff_mask [OF lt8] nth_bits_of [OF m(1)] x(1) pos idx(1) by simp
  qed
  moreover have "bool_dec_rep ?d xs" using err i n x(2) by (simp add: bool_dec_rep_def)
  ultimately show "\<exists>d' d''. BooleanDecoder_Next d = (True, d') \<and> BooleanDecoder_Read d' = (x, d'') \<and> bool_dec_rep d'' xs"
    by blast
qed

lemma bool_fmt_dec:
  assumes "bool_fmt b xs" and "bd_err d = None"
  shows "bool_dec_rep (BooleanDecoder_SetBytes b d) xs"
  using assms
proof (induction rule: bool_fmt.induct)
  case (1 xs pk)
  have s: "sint (of_nat (length xs) :: u64) = int (length xs)" using 1(1) by (rule sint_of_nat_small)
  have "int (length xs) \<le> int (8 * length pk)" using 1(2) by linarith
  then show ?case
    using 1 s by (simp add: BooleanDecoder_SetBytes_def bool_dec_rep_def Let_def)
qed

lemma bool_mask_loop_eq:
  "j \<le> length dst \<Longrightarrow> bool_mask_loop ms v j dst =
    (j + min (length dst - j) (length ms),
     write_at j (take (length dst - j) (map (\<lambda>i. v AND i \<noteq> 0) ms)) dst)"
proof (induction ms arbitrary: j dst)
  case (Cons i ms)
  show ?case
  proof (cases "j < length dst")
    case True
    then obtain r where r: "length dst - j = Suc r" by (metis Suc_diff_Suc)
    let ?ys = "take r (map (\<lambda>i. v AND i \<noteq> 0) ms)"
    have r': "length dst - Suc j = r" using r by linarith
    have "length ?ys \<le> r" by simp
    then have "j + length ?ys < length dst" using r by linarith
    from write_at_Cons [OF this] Cons.IH [of "j + 1" "dst[j := (v AND i \<noteq> 0)]"] True r r' show ?thesis by simp
  next
    case False
    with Cons.prems show ?thesis by (simp add: write_at_def)
  qed
qed (simp add: write_at_def)

lemma and_bit_neq_0: "p < 8 \<Longrightarrow> (v AND 2 ^ p \<noteq> 0) \<longleftrightarrow> bit (v :: u8) p"
proof -
  assume p: "p < 8"
  have "bit (v AND push_bit p 1) p \<longleftrightarrow> bit v p" using p by (auto simp: bit_simps)
  moreover have "\<not> bit v p \<Longrightarrow> v AND push_bit p 1 = 0" by (intro bit_word_eqI) (auto simp: bit_simps)
  ultimately have "(v AND push_bit p 1 \<noteq> 0) \<longleftrightarrow> bit v p" by (metis bit_0_eq bot_apply bot_bool_def)
  then show ?thesis by simp
qed

lemma mask_bits: "map (\<lambda>i. v AND i \<noteq> 0) [128, 64, 32, 16, 8, 4, 2, 1] = byte_bits v"
proof -
  have "map (\<lambda>i. v AND i \<noteq> 0) (map (\<lambda>k. 2 ^ (7 - k)) [0..<8]) = byte_bits v"
    by (simp add: byte_bits_def and_bit_neq_0 del: upt_conv_Cons)
  then show ?thesis by (simp add: upt_rec)
qed

lemma bool_byte_loop_eq:
  "j \<le> length dst \<Longrightarrow> bool_byte_loop vs j dst = write_at j (take (length dst - j) (bits_of vs)) dst"
proof (induction vs arbitrary: j dst)
  case (Cons v vs)
  let ?m = "min (length dst - j) 8"
  let ?dst = "write_at j (take (length dst - j) (byte_bits v)) dst"
  have loop: "bool_mask_loop [128, 64, 32, 16, 8, 4, 2, 1] v j dst = (j + ?m, ?dst)"
    unfolding bool_mask_loop_eq [OF Cons.prems] mask_bits by simp
  have "length ?dst = length dst" by (rule length_write_at) (use Cons.prems in simp)
  moreover have "write_at (j + ?m) (take (length dst - (j + ?m)) (bits_of vs)) ?dst =
      write_at j (take (length dst - j) (byte_bits v @ bits_of vs)) dst"
    using Cons.prems by (cases "length dst - j \<le> 8") (auto simp: write_at_def ac_simps)
  moreover have "j + ?m \<le> length dst" using Cons.prems by linarith
  ultimately show ?case using Cons.IH [of "j + ?m" ?dst] loop by simp
qed (simp add: write_at_def)

lemma BooleanArrayDecodeAll_fmt:
  assumes "bool_fmt b xs"
  shows "BooleanArrayDecodeAll b dst = Inr xs"
  using assms
proof (induction rule: bool_fmt.induct)
  case (1 xs pk)
  have s: "sint (of_nat (length xs) :: u64) = int (length xs)" using 1(1) by (rule sint_of_nat_small)
  have "\<not> int (length pk * 8) < int (length xs)" using 1(2) by linarith
  moreover have "bool_byte_loop pk 0 ys = xs" if "length ys = length xs" for ys
    using bool_byte_loop_eq [of 0 ys pk] that 1 by simp
  ultimately show ?case
    using s by (simp add: BooleanArrayDecodeAll_def Let_def)
qed

section \<open>Properties\<close>

text \<open>
  The streaming boolean codec. Booleans written to a new or reset \<^verbatim>\<open>BooleanEncoder\<close> are delivered in
  order by a \<^verbatim>\<open>BooleanDecoder\<close> without an error, which then stops.
\<close>

theorem bool_stream_roundtrip:
  assumes "e = NewBooleanEncoder \<or> (\<exists>e0. e = BooleanEncoder_Reset e0)" and "length xs < 2 ^ 63" and "bd_err d = None"
  shows "\<exists>b e' d'. BooleanEncoder_Bytes (foldl BooleanEncoder_Write e xs) = (Inr b, e') \<and>
    drain BooleanDecoder_Next BooleanDecoder_Read (BooleanDecoder_SetBytes b d) [] = Some (xs, d') \<and> bd_err d' = None"
proof -
  have "bool_enc_rep e []"
    using assms(1) by (auto simp: bool_enc_rep_def NewBooleanEncoder_def BooleanEncoder_Reset_def low_bits_def)
  from bool_Bytes_fmt [OF bool_enc_rep_fold [OF this, of xs]] assms(2) obtain b e'
    where b: "BooleanEncoder_Bytes (foldl BooleanEncoder_Write e xs) = (Inr b, e')" "bool_fmt b xs" by auto
  from boold.drain_rep [OF bool_fmt_dec [OF b(2) assms(3)], of "[]"] b(1) boold.rep_err show ?thesis by fastforce
qed

theorem bool_stream_roundtrip_witness:
  "\<exists>b e' d'. BooleanEncoder_Bytes (foldl BooleanEncoder_Write NewBooleanEncoder [True, False, True]) = (Inr b, e') \<and>
    drain BooleanDecoder_Next BooleanDecoder_Read
      (BooleanDecoder_SetBytes b \<lparr>bd_b = [], bd_i = 0, bd_n = 0, bd_err = None\<rparr>) [] = Some ([True, False, True], d') \<and>
    bd_err d' = None"
  by (rule bool_stream_roundtrip) simp_all

text \<open>
  The batch boolean codec, into any slice and any destination; the two decoders agree on its blocks.
\<close>

theorem bool_batch_roundtrip:
  assumes "length src < 2 ^ 56" and "bd_err d = None"
  shows "\<exists>r d'. BooleanArrayEncodeAll src b = Inr r \<and> BooleanArrayDecodeAll r dst = Inr src \<and>
    drain BooleanDecoder_Next BooleanDecoder_Read (BooleanDecoder_SetBytes r d) [] = Some (src, d')"
proof -
  from BooleanArrayEncodeAll_fmt [OF assms(1), of b] obtain r
    where r: "BooleanArrayEncodeAll src b = Inr r" "bool_fmt r src" by blast
  from boold.drain_rep [OF bool_fmt_dec [OF r(2) assms(2)], of "[]"] r BooleanArrayDecodeAll_fmt [OF r(2), of dst]
  show ?thesis by auto
qed

theorem bool_batch_roundtrip_witness:
  "\<exists>r d'. BooleanArrayEncodeAll [True, True, False] (replicate 30 255, []) = Inr r \<and>
    BooleanArrayDecodeAll r [] = Inr [True, True, False] \<and>
    drain BooleanDecoder_Next BooleanDecoder_Read
      (BooleanDecoder_SetBytes r \<lparr>bd_b = [], bd_i = 0, bd_n = 0, bd_err = None\<rparr>) [] = Some ([True, True, False], d')"
  by (rule bool_batch_roundtrip) simp_all

text \<open>
  \<^verbatim>\<open>SetBytes\<close> of a \<^verbatim>\<open>BooleanDecoder\<close> does not clear an error. A decoder that once met a block with a bad
  count delivers nothing from then on, whatever it is set to: good blocks read with it, as with a
  decoder taken from the pool, fail.
\<close>

theorem bool_decoder_sticky_error:
  assumes "bd_err d \<noteq> None"
  shows "BooleanDecoder_Next (BooleanDecoder_SetBytes b d) = (False, BooleanDecoder_SetBytes b d) \<and>
    bd_err (BooleanDecoder_SetBytes b d) \<noteq> None"
  using assms by (auto simp: BooleanDecoder_SetBytes_def BooleanDecoder_Next_def Let_def split: prod.split)

theorem bool_decoder_sticky_error_witness:
  "BooleanDecoder_Next (BooleanDecoder_SetBytes [0x10, 1, 0x80]
      (BooleanDecoder_SetBytes [0x10] \<lparr>bd_b = [], bd_i = 0, bd_n = 0, bd_err = None\<rparr>)) =
    (False, BooleanDecoder_SetBytes [0x10, 1, 0x80]
      (BooleanDecoder_SetBytes [0x10] \<lparr>bd_b = [], bd_i = 0, bd_n = 0, bd_err = None\<rparr>)) \<and>
   bd_err (BooleanDecoder_SetBytes [0x10, 1, 0x80]
      (BooleanDecoder_SetBytes [0x10] \<lparr>bd_b = [], bd_i = 0, bd_n = 0, bd_err = None\<rparr>)) \<noteq> None"
  by (rule bool_decoder_sticky_error) code_simp

text \<open>
  A block whose count does not fit a signed integer makes \<^verbatim>\<open>BooleanArrayDecodeAll\<close> panic, where the
  streaming decoder reports no values.
\<close>

theorem bool_batch_negative_count:
  assumes "sint n < 0"
  shows "BooleanArrayDecodeAll (h # put_uvarint n @ b) dst = Inl (GoPanic ''slice bounds out of range'') \<and>
    fst (BooleanDecoder_Next (BooleanDecoder_SetBytes (h # put_uvarint n @ b) d)) = False"
proof -
  have "\<not> int (length b * 8) < sint n" "\<not> int (length dst) < sint n" using assms by linarith+
  then show ?thesis
    using assms by (auto simp: BooleanArrayDecodeAll_def BooleanDecoder_SetBytes_def BooleanDecoder_Next_def Let_def)
qed

theorem bool_batch_negative_count_witness:
  "BooleanArrayDecodeAll (0x10 # put_uvarint (- 1) @ []) [] = Inl (GoPanic ''slice bounds out of range'') \<and>
    fst (BooleanDecoder_Next (BooleanDecoder_SetBytes (0x10 # put_uvarint (- 1) @ [])
      \<lparr>bd_b = [], bd_i = 0, bd_n = 0, bd_err = None\<rparr>)) = False"
  by (rule bool_batch_negative_count) simp

end
