(* ===== verification/String_Codec.thy ===== *)
theory String_Codec
  imports Iterators
begin

unbundle bit_operations_syntax

text \<open>
  The string codec of \<^verbatim>\<open>tsdb/tsm1\<close>: \<^verbatim>\<open>string.go\<close> and \<^verbatim>\<open>batch_string.go\<close>. Each string is its length as a
  varint and its bytes; the concatenation is compressed with snappy, a package outside the repository.
  Snappy is a parameter of the model, a record of the functions the codec calls, and \<open>snappy_ok\<close> states
  what is relied on.
\<close>

section \<open>Snappy\<close>

text \<open>\<open>sn_Encode dst src\<close> is the result of \<^verbatim>\<open>snappy.Encode(dst, src)\<close> and the destination after the call.\<close>

record snappy =
  sn_Encode :: "bytes \<Rightarrow> bytes \<Rightarrow> bytes \<times> bytes"
  sn_Decode :: "bytes \<Rightarrow> bytes res"
  sn_MaxEncodedLen :: "nat \<Rightarrow> int"

definition snappy_ok :: "snappy \<Rightarrow> bool" where
  "snappy_ok S \<longleftrightarrow>
     (\<forall>dst src. sn_MaxEncodedLen S (length src) \<ge> 0 \<longrightarrow> sn_Decode S (fst (sn_Encode S dst src)) = Inr src) \<and>
     (\<forall>dst src. 0 \<le> sn_MaxEncodedLen S (length src) \<and> sn_MaxEncodedLen S (length src) \<le> int (length dst) \<longrightarrow>
        (case sn_Encode S dst src of (r, dst') \<Rightarrow> length r \<le> length dst \<and> length dst' = length dst \<and> take (length r) dst' = r)) \<and>
     (\<forall>m n. n \<le> m \<and> sn_MaxEncodedLen S m \<ge> 0 \<longrightarrow>
        0 \<le> sn_MaxEncodedLen S n \<and> sn_MaxEncodedLen S n \<le> sn_MaxEncodedLen S m) \<and>
     (\<forall>n. sn_MaxEncodedLen S n \<ge> 0 \<longrightarrow> n < 2 ^ 32) \<and>
     (\<forall>n. sn_MaxEncodedLen S n < 0 \<longrightarrow> sn_MaxEncodedLen S n = - 1) \<and>
     sn_Decode S [0] = Inr []"

text \<open>An instance: the data stored behind its length.\<close>

definition snappy_stored :: snappy where
  "snappy_stored = \<lparr>
     sn_Encode = (\<lambda>dst src. let r = put_uvarint (of_nat (length src)) @ src
                            in (r, if length r \<le> length dst then write_at 0 r dst else dst)),
     sn_Decode = (\<lambda>b. case get_uvarint b of (n, k) \<Rightarrow>
                        if k \<le> 0 \<or> length b - nat k \<noteq> unat n then Inl (GoError ''snappy: corrupt input'')
                        else Inr (drop (nat k) b)),
     sn_MaxEncodedLen = (\<lambda>n. if n < 2 ^ 32 then 32 + int n + int (n div 6) else - 1)\<rparr>"

lemma snappy_stored_simps:
  "fst (sn_Encode snappy_stored dst src) = put_uvarint (of_nat (length src)) @ src"
  "sn_MaxEncodedLen snappy_stored n = (if n < 2 ^ 32 then 32 + int n + int (n div 6) else - 1)"
  by (simp_all add: snappy_stored_def Let_def)

lemma snappy_stored_ok: "snappy_ok snappy_stored"
  unfolding snappy_ok_def
proof (intro conjI allI impI)
  fix dst src :: bytes
  assume "sn_MaxEncodedLen snappy_stored (length src) \<ge> 0"
  then have "length src < 2 ^ 32" by (simp add: snappy_stored_simps split: if_splits)
  then show "sn_Decode snappy_stored (fst (sn_Encode snappy_stored dst src)) = Inr src"
    using unat_of_nat_small [of "length src"] unfolding snappy_stored_simps by (simp add: snappy_stored_def)
next
  fix dst src :: bytes
  assume "0 \<le> sn_MaxEncodedLen snappy_stored (length src) \<and>
    sn_MaxEncodedLen snappy_stored (length src) \<le> int (length dst)"
  then have "32 + length src \<le> length dst" by (simp add: snappy_stored_simps split: if_splits)
  then have "length (put_uvarint (of_nat (length src)) @ src) \<le> length dst"
    using length_put_uvarint_le10 [of "of_nat (length src)"] by simp
  then show "case sn_Encode snappy_stored dst src of (r, dst') \<Rightarrow> length r \<le> length dst \<and> length dst' = length dst \<and> take (length r) dst' = r"
    using take_write_at [of 0 "put_uvarint (of_nat (length src)) @ src" dst] by (simp add: snappy_stored_def Let_def)
next
  fix m n :: nat
  assume mn: "n \<le> m \<and> sn_MaxEncodedLen snappy_stored m \<ge> 0"
  then have "m < 2 ^ 32" "n div 6 \<le> m div 6" by (simp_all add: snappy_stored_simps div_le_mono split: if_splits)
  with mn show "0 \<le> sn_MaxEncodedLen snappy_stored n"
    and "sn_MaxEncodedLen snappy_stored n \<le> sn_MaxEncodedLen snappy_stored m"
    by (simp_all add: snappy_stored_simps)
next
  have "put_uvarint 0 = [0]" by code_simp
  with get_put_uvarint [of 0 "[]"] have "get_uvarint [0] = (0, 1)" by simp
  then show "sn_Decode snappy_stored [0] = Inr []" by (simp add: snappy_stored_def)
qed (simp_all add: snappy_stored_simps split: if_splits)

lemma snappy_okD:
  assumes "snappy_ok S"
  shows "sn_MaxEncodedLen S (length src) \<ge> 0 \<Longrightarrow> sn_Decode S (fst (sn_Encode S dst src)) = Inr src"
    and "0 \<le> sn_MaxEncodedLen S (length src) \<Longrightarrow> sn_MaxEncodedLen S (length src) \<le> int (length dst) \<Longrightarrow>
      length (fst (sn_Encode S dst src)) \<le> length dst \<and> length (snd (sn_Encode S dst src)) = length dst \<and>
        take (length (fst (sn_Encode S dst src))) (snd (sn_Encode S dst src)) = fst (sn_Encode S dst src)"
    and "n \<le> m \<Longrightarrow> sn_MaxEncodedLen S m \<ge> 0 \<Longrightarrow> 0 \<le> sn_MaxEncodedLen S n \<and> sn_MaxEncodedLen S n \<le> sn_MaxEncodedLen S m"
    and "sn_MaxEncodedLen S n \<ge> 0 \<Longrightarrow> n < 2 ^ 32"
    and "sn_MaxEncodedLen S n \<noteq> - 1 \<Longrightarrow> sn_MaxEncodedLen S n \<ge> 0"
    and "sn_Decode S [0] = Inr []"
proof -
  note S = assms [unfolded snappy_ok_def case_prod_beta]
  show "sn_MaxEncodedLen S (length src) \<ge> 0 \<Longrightarrow> sn_Decode S (fst (sn_Encode S dst src)) = Inr src" using S by blast
  show "0 \<le> sn_MaxEncodedLen S (length src) \<Longrightarrow> sn_MaxEncodedLen S (length src) \<le> int (length dst) \<Longrightarrow>
      length (fst (sn_Encode S dst src)) \<le> length dst \<and> length (snd (sn_Encode S dst src)) = length dst \<and>
        take (length (fst (sn_Encode S dst src))) (snd (sn_Encode S dst src)) = fst (sn_Encode S dst src)"
    using S by blast
  show "n \<le> m \<Longrightarrow> sn_MaxEncodedLen S m \<ge> 0 \<Longrightarrow> 0 \<le> sn_MaxEncodedLen S n \<and> sn_MaxEncodedLen S n \<le> sn_MaxEncodedLen S m"
    using S by blast
  show "sn_MaxEncodedLen S n \<ge> 0 \<Longrightarrow> n < 2 ^ 32" using S by blast
  show "sn_MaxEncodedLen S n \<noteq> - 1 \<Longrightarrow> sn_MaxEncodedLen S n \<ge> 0" using S by (meson not_less)
  show "sn_Decode S [0] = Inr []" using S by blast
qed

section \<open>Streaming encoder\<close>

definition stringCompressedSnappy :: u8 where "stringCompressedSnappy = 1"

record string_encoder =
  se_bytes :: bytes

definition NewStringEncoder :: string_encoder where
  "NewStringEncoder = \<lparr>se_bytes = []\<rparr>"

definition StringEncoder_Reset :: "string_encoder \<Rightarrow> string_encoder" where
  "StringEncoder_Reset e = e\<lparr>se_bytes := []\<rparr>"

definition StringEncoder_Write :: "string_encoder \<Rightarrow> bytes \<Rightarrow> string_encoder" where
  "StringEncoder_Write e s = e\<lparr>se_bytes := se_bytes e @ put_uvarint (of_nat (length s)) @ s\<rparr>"

definition StringEncoder_Bytes :: "snappy \<Rightarrow> string_encoder \<Rightarrow> bytes res" where
  "StringEncoder_Bytes S e =
     (if sn_MaxEncodedLen S (length (se_bytes e)) < 0 then Inl (GoPanic ''snappy: decoded block is too large'')
      else Inr (push_bit 4 stringCompressedSnappy # fst (sn_Encode S [] (se_bytes e))))"

section \<open>Streaming decoder\<close>

record string_decoder =
  sd_b :: bytes
  sd_l :: int
  sd_i :: int
  sd_err :: "go_error option"

text \<open>The error returned, if any, and the decoder after the call.\<close>

definition StringDecoder_SetBytes :: "snappy \<Rightarrow> bytes \<Rightarrow> string_decoder \<Rightarrow> go_error option \<times> string_decoder" where
  "StringDecoder_SetBytes S b e =
     (case (if b = [] then Inr [] else sn_Decode S (drop 1 b)) of
        Inl _ \<Rightarrow> (Some (GoError ''failed to decode string block''), e)
      | Inr data \<Rightarrow> (None, e\<lparr>sd_b := data, sd_l := 0, sd_i := 0, sd_err := None\<rparr>))"

definition StringDecoder_Next :: "string_decoder \<Rightarrow> bool \<times> string_decoder" where
  "StringDecoder_Next e =
     (if sd_err e \<noteq> None then (False, e)
      else let e1 = e\<lparr>sd_i := sd_i e + sd_l e\<rparr> in (sd_i e1 < int (length (sd_b e1)), e1))"

definition StringDecoder_Read :: "string_decoder \<Rightarrow> bytes \<times> string_decoder" where
  "StringDecoder_Read e =
     (case slice_from (sd_i e) (sd_b e) of
        Inl er \<Rightarrow> ([], e\<lparr>sd_err := Some er\<rparr>)
      | Inr rest \<Rightarrow>
          (case get_uvarint rest of (len, n) \<Rightarrow>
             if n \<le> 0 then ([], e\<lparr>sd_err := Some (GoError ''stringDecoder: invalid encoded string length'')\<rparr>)
             else
               let e1 = e\<lparr>sd_l := wrap64 (sint len + n)\<rparr>;
                   lower = sd_i e + n;
                   upper = wrap64 (lower + sint len)
               in if upper < lower then ([], e1\<lparr>sd_err := Some (GoError ''stringDecoder: length overflow'')\<rparr>)
                  else if upper > int (length (sd_b e)) then
                    ([], e1\<lparr>sd_err := Some (GoError ''stringDecoder: not enough data to represent encoded string'')\<rparr>)
                  else (take (nat upper - nat lower) (drop (nat lower) (sd_b e)), e1)))"

section \<open>Batch encoder\<close>

definition ErrStringArrayEncodeTooLarge :: go_error where
  "ErrStringArrayEncodeTooLarge = GoError ''StringArrayEncodeAll: source length too large''"

text \<open>\<^verbatim>\<open>n += PutUvarint(dta[n:], len(s)); n += copy(dta[n:], s)\<close>\<close>

fun str_put_loop :: "bytes list \<Rightarrow> nat \<Rightarrow> bytes \<Rightarrow> (nat \<times> bytes) res" where
  "str_put_loop [] n dta = Inr (n, dta)"
| "str_put_loop (s # ss) n dta =
     (let u = put_uvarint (of_nat (length s)) in
      if n + length u > length dta then Inl (GoPanic ''index out of range'')
      else
        let n1 = n + length u; s' = take (length dta - n1) s
        in str_put_loop ss (n1 + length s') (write_at n1 s' (write_at n u dta)))"

text \<open>\<open>b\<close> is the array of the slice up to its capacity.\<close>

definition StringArrayEncodeAll :: "snappy \<Rightarrow> bytes list \<Rightarrow> bytes \<Rightarrow> bytes res" where
  "StringArrayEncodeAll S src b =
     (let srcSz = 2 + length src * 5 + sum_list (map length src);
          mle = sn_MaxEncodedLen S srcSz in
      if src \<noteq> [] \<and> mle = - 1 then Inl ErrStringArrayEncodeTooLarge
      else
        let compressedSz = (if src = [] then 0 else nat (mle + 1));
            totSz = srcSz + compressedSz;
            b1 = (if length b < totSz then replicate totSz 0 else take totSz b) in
        if src = [] then Inr (take 2 (b1[0 := push_bit 4 stringCompressedSnappy]))
        else bind_res (str_put_loop src 0 (drop compressedSz b1)) (\<lambda>(n, dta).
          case sn_Encode S (drop 1 (take compressedSz b1)) (take n dta) of (r, dst) \<Rightarrow>
            let out = push_bit 4 stringCompressedSnappy # dst
            in if length r + 1 > length out then Inl (GoPanic ''slice bounds out of range'')
               else Inr (take (length r + 1) out)))"

section \<open>Batch decoder\<close>

text \<open>The next index is \<^verbatim>\<open>i + l\<close>, which is \<^verbatim>\<open>upper\<close>.\<close>

function str_decode_loop :: "bytes \<Rightarrow> nat \<Rightarrow> bytes list res" where
  "str_decode_loop b i =
     (if i < length b then
        (case get_uvarint (drop i b) of (len, n) \<Rightarrow>
           if n \<le> 0 then Inl (GoError ''stringArrayDecodeAll: invalid encoded string length'')
           else
             let lower = int i + n; upper = wrap64 (lower + sint len) in
             if upper < lower then Inl (GoError ''stringArrayDecodeAll: length overflow'')
             else if upper > int (length b) then Inl (GoError ''stringArrayDecodeAll: short buffer'')
             else bind_res (str_decode_loop b (nat upper)) (\<lambda>vs.
               Inr (take (nat upper - nat lower) (drop (nat lower) b) # vs)))
      else Inr [])"
  by auto
termination
  by (relation "measure (\<lambda>(b, i). length b - i)") auto

declare str_decode_loop.simps [simp del]

definition StringArrayDecodeAll :: "snappy \<Rightarrow> bytes \<Rightarrow> bytes list \<Rightarrow> bytes list res" where
  "StringArrayDecodeAll S b dst =
     (if b = [] then Inr []
      else case sn_Decode S (drop 1 b) of
             Inl _ \<Rightarrow> Inl (GoError ''failed to decode string block'')
           | Inr data \<Rightarrow> str_decode_loop data 0)"

section \<open>The data behind the compression\<close>

definition str_data :: "bytes list \<Rightarrow> bytes" where
  "str_data ss = concat (map (\<lambda>s. put_uvarint (of_nat (length s)) @ s) ss)"

lemma str_data_simps [simp]:
  "str_data [] = []" "str_data (s # ss) = put_uvarint (of_nat (length s)) @ s @ str_data ss"
  "str_data (ss @ ts) = str_data ss @ str_data ts"
  by (simp_all add: str_data_def)

lemma foldl_StringEncoder_Write: "se_bytes (foldl StringEncoder_Write e ss) = se_bytes e @ str_data ss"
  by (induction ss arbitrary: e) (simp_all add: StringEncoder_Write_def)

text \<open>What reading one string at index \<open>i\<close> gives.\<close>

lemma str_at:
  assumes "drop i b = str_data (s # ss)" and "length b < 2 ^ 63" and "i \<le> length b"
  defines "n \<equiv> length (put_uvarint (of_nat (length s)))"
  shows "get_uvarint (drop i b) = (of_nat (length s), int n)" and "sint (of_nat (length s) :: u64) = int (length s)"
    and "0 < n" and "i + n + length s \<le> length b" and "take (length s) (drop (i + n) b) = s"
    and "drop (i + n + length s) b = str_data ss"
proof -
  have d: "drop i b = put_uvarint (of_nat (length s)) @ s @ str_data ss" using assms(1) by simp
  then have "length (drop i b) = n + length s + length (str_data ss)" by (simp add: n_def)
  then have len: "length b = i + n + length s + length (str_data ss)" using assms(3) by simp
  then show "i + n + length s \<le> length b" by simp
  show "get_uvarint (drop i b) = (of_nat (length s), int n)" unfolding d n_def by simp
  show "sint (of_nat (length s) :: u64) = int (length s)" using len assms(2) by (intro sint_of_nat_small) simp
  show "0 < n" by (simp add: n_def)
  have "drop (i + n) b = drop n (drop i b)" by (simp add: add.commute)
  then have d2: "drop (i + n) b = s @ str_data ss" unfolding d n_def by simp
  then show "take (length s) (drop (i + n) b) = s" by simp
  have "drop (i + n + length s) b = drop (length s) (drop (i + n) b)" by (simp add: add.commute)
  then show "drop (i + n + length s) b = str_data ss" unfolding d2 by simp
qed

definition str_dec_rep :: "string_decoder \<Rightarrow> bytes list \<Rightarrow> bool" where
  "str_dec_rep d ss \<longleftrightarrow> sd_err d = None \<and> length (sd_b d) < 2 ^ 63 \<and> 0 \<le> sd_i d \<and> 0 \<le> sd_l d \<and>
     drop (nat (sd_i d + sd_l d)) (sd_b d) = str_data ss"

lemma StringDecoder_Read_ok:
  assumes i: "sd_i d = int i" "i \<le> length (sd_b d)"
    and b: "drop i (sd_b d) = str_data (s # ss)" "length (sd_b d) < 2 ^ 63"
  shows "StringDecoder_Read d =
    (s, d\<lparr>sd_l := int (length s + length (put_uvarint (of_nat (length s))))\<rparr>)"
proof -
  define n where "n = length (put_uvarint (of_nat (length s)))"
  note at = str_at [OF b i(2), folded n_def]
  have w: "wrap64 (int (length s) + int n) = int (length s + n)"
      "wrap64 (int i + int n + int (length s)) = int (i + n + length s)"
    using at(4) b(2) by (auto intro!: wrap64_small)
  have e: "int i + int n = int (i + n)" by simp
  show ?thesis
    unfolding StringDecoder_Read_def slice_from_def n_def [symmetric] using at i w
    by (simp add: Let_def e del: of_nat_add)
qed

interpretation strd: value_decoder StringDecoder_Next StringDecoder_Read sd_err str_dec_rep
proof
  fix d and ss :: "bytes list"
  assume "str_dec_rep d ss"
  then show "sd_err d = None" by (simp add: str_dec_rep_def)
next
  fix d
  assume "str_dec_rep d []"
  then show "\<exists>d'. StringDecoder_Next d = (False, d') \<and> str_dec_rep d' []"
    by (auto simp: str_dec_rep_def StringDecoder_Next_def Let_def)
next
  fix d s and ss :: "bytes list"
  assume rep: "str_dec_rep d (s # ss)"
  then obtain i where i: "sd_i d + sd_l d = int i" by (metis add_nonneg_nonneg nonneg_int_cases str_dec_rep_def)
  let ?d = "d\<lparr>sd_i := int i\<rparr>"
  let ?n = "length (put_uvarint (of_nat (length s)))"
  have b: "drop i (sd_b d) = str_data (s # ss)" "length (sd_b d) < 2 ^ 63" and err: "sd_err d = None"
    using rep i by (auto simp: str_dec_rep_def)
  have "drop i (sd_b d) \<noteq> []" unfolding b(1) by simp
  then have lt: "i < length (sd_b d)" by simp
  have "StringDecoder_Next d = (True, ?d)" using err i lt by (simp add: StringDecoder_Next_def)
  moreover have "StringDecoder_Read ?d = (s, ?d\<lparr>sd_l := int (length s + ?n)\<rparr>)"
    by (rule StringDecoder_Read_ok) (use b lt in auto)
  moreover have "nat (int i + int (length s + ?n)) = i + ?n + length s" by linarith
  then have "str_dec_rep (?d\<lparr>sd_l := int (length s + ?n)\<rparr>) ss"
    using str_at(6) [OF b less_imp_le [OF lt]] err b(2) by (simp add: str_dec_rep_def)
  ultimately show "\<exists>d' d''. StringDecoder_Next d = (True, d') \<and> StringDecoder_Read d' = (s, d'') \<and> str_dec_rep d'' ss"
    by blast
qed

lemma str_decode_loop_ok:
  "drop i b = str_data ss \<Longrightarrow> length b < 2 ^ 63 \<Longrightarrow> str_decode_loop b i = Inr ss"
proof (induction ss arbitrary: i)
  case Nil
  then show ?case by (subst str_decode_loop.simps) simp
next
  case (Cons s ss)
  let ?n = "length (put_uvarint (of_nat (length s)))"
  have "drop i b \<noteq> []" unfolding Cons.prems(1) by simp
  then have lt: "i < length b" by simp
  note at = str_at [OF Cons.prems less_imp_le [OF lt]]
  have w: "wrap64 (int i + int ?n + int (length s)) = int (i + ?n + length s)"
    using at(4) Cons.prems(2) by (auto intro!: wrap64_small)
  have e: "int i + int ?n = int (i + ?n)" by simp
  show ?case
    using Cons.IH [OF at(6) Cons.prems(2)] at lt w
    by (subst str_decode_loop.simps) (simp add: Let_def e del: of_nat_add)
qed

section \<open>The batch encoder\<close>

lemma str_put_loop_ok:
  assumes "n + length (str_data ss) \<le> length dta"
  shows "str_put_loop ss n dta = Inr (n + length (str_data ss), write_at n (str_data ss) dta)"
  using assms
proof (induction ss arbitrary: n dta)
  case Nil
  then show ?case by (simp add: write_at_def)
next
  case (Cons s ss)
  let ?u = "put_uvarint (of_nat (length s))"
  let ?dta = "write_at (n + length ?u) s (write_at n ?u dta)"
  have room: "n + length ?u + length s + length (str_data ss) \<le> length dta" using Cons.prems by simp
  then have "take (length dta - (n + length ?u)) s = s" "\<not> n + length ?u > length dta" by simp_all
  then have "str_put_loop (s # ss) n dta = str_put_loop ss (n + length ?u + length s) ?dta"
    by (simp only: str_put_loop.simps Let_def if_False)
  moreover have "?dta = write_at n (?u @ s) dta"
    using room by (intro write_at_append) simp
  moreover have "length (write_at n (?u @ s) dta) = length dta" using room by (intro length_write_at) simp
  moreover have "write_at (n + length (?u @ s)) (str_data ss) (write_at n (?u @ s) dta) = write_at n ((?u @ s) @ str_data ss) dta"
    using room by (intro write_at_append) simp
  ultimately show ?case using Cons.IH [of "n + length (?u @ s)" "write_at n (?u @ s) dta"] room by (simp add: add.assoc)
qed

lemma length_str_data:
  "(\<forall>s \<in> set ss. length s < 2 ^ 35) \<Longrightarrow> length (str_data ss) \<le> length ss * 5 + sum_list (map length ss)"
proof (induction ss)
  case (Cons s ss)
  have "length (put_uvarint (of_nat (length s))) \<le> 5"
    using length_put_uvarint_le [of "of_nat (length s)" 5] unat_of_nat_small [of "length s"] Cons.prems by simp
  with Cons show ?case by simp
qed simp

lemma StringArrayEncodeAll_ok:
  assumes S: "snappy_ok S" and ne: "src \<noteq> []"
    and fits: "sn_MaxEncodedLen S (2 + length src * 5 + sum_list (map length src)) \<noteq> - 1"
  shows "\<exists>r. StringArrayEncodeAll S src b = Inr (push_bit 4 stringCompressedSnappy # r) \<and>
    sn_Decode S r = Inr (str_data src) \<and> length (str_data src) < 2 ^ 63"
proof -
  define sz where "sz = 2 + length src * 5 + sum_list (map length src)"
  define m where "m = nat (sn_MaxEncodedLen S sz + 1)"
  define b1 where "b1 = (if length b < sz + m then replicate (sz + m) 0 else take (sz + m) b)"
  have mle0: "0 \<le> sn_MaxEncodedLen S sz" using snappy_okD(5) [OF S] fits unfolding sz_def by blast
  note mle = mle0 snappy_okD(4) [OF S mle0]
  have "\<forall>s \<in> set src. length s < 2 ^ 35"
  proof
    fix s
    assume "s \<in> set src"
    then have "length s \<le> sum_list (map length src)" by (auto intro: member_le_sum_list)
    then have "length s < 2 ^ 32" using mle(2) unfolding sz_def by linarith
    then show "length s < 2 ^ 35" by simp
  qed
  then have len: "length (str_data src) \<le> sz" using length_str_data unfolding sz_def by fastforce
  have lb: "length b1 = sz + m" by (simp add: b1_def)
  let ?dta = "drop m b1"
  have put: "str_put_loop src 0 ?dta = Inr (length (str_data src), write_at 0 (str_data src) ?dta)"
    using str_put_loop_ok [of 0 src ?dta] len lb by simp
  let ?dst = "drop 1 (take m b1)"
  have "int (length ?dst) = sn_MaxEncodedLen S sz" using lb mle by (simp add: m_def)
  moreover have mono: "0 \<le> sn_MaxEncodedLen S (length (str_data src)) \<and>
      sn_MaxEncodedLen S (length (str_data src)) \<le> sn_MaxEncodedLen S sz"
    using snappy_okD(3) [OF S len mle(1)] .
  ultimately obtain r dst' where enc: "sn_Encode S ?dst (str_data src) = (r, dst')"
    and r: "length r \<le> length ?dst" "length dst' = length ?dst \<and> take (length r) dst' = r" "sn_Decode S r = Inr (str_data src)"
    using snappy_okD(1,2) [OF S, of "str_data src" ?dst] by (cases "sn_Encode S ?dst (str_data src)") auto
  have "StringArrayEncodeAll S src b = Inr (push_bit 4 stringCompressedSnappy # r)"
    using ne fits put enc r(1,2) len
    unfolding StringArrayEncodeAll_def Let_def sz_def [symmetric] if_not_P [OF ne] m_def [symmetric] b1_def [symmetric]
    by simp
  with r(3) len mle(2) show ?thesis by auto
qed

section \<open>Corrupt input\<close>

text \<open>Each string read moves the index forward by at least the byte of its length.\<close>

lemma str_Read_progress:
  assumes "StringDecoder_Next d = (True, d1)" and "StringDecoder_Read d1 = (v, d2)" and "length (sd_b d) < 2 ^ 62"
    and "0 \<le> sd_i d" "0 \<le> sd_l d"
  shows "sd_err d2 \<noteq> None \<or> sd_b d2 = sd_b d \<and> 0 \<le> sd_i d2 \<and> 0 \<le> sd_l d2 \<and> sd_i d2 = sd_i d + sd_l d \<and>
    sd_i d2 < int (length (sd_b d)) \<and> 0 < sd_l d2"
proof (cases "get_uvarint (drop (nat (sd_i d + sd_l d)) (sd_b d))")
  case (Pair len n)
  let ?i = "sd_i d + sd_l d"
  have d1: "d1 = d\<lparr>sd_i := ?i\<rparr>" "?i < int (length (sd_b d))"
    using assms(1) by (auto simp: StringDecoder_Next_def Let_def split: if_splits)
  have sl: "slice_from ?i (sd_b d) = Inr (drop (nat ?i) (sd_b d))"
    using d1(2) assms(4,5) by (simp add: slice_from_def)
  show ?thesis
  proof (cases "n \<le> 0 \<or> wrap64 (?i + n + sint len) < ?i + n \<or> wrap64 (?i + n + sint len) > int (length (sd_b d))")
    case True
    then have "sd_err d2 \<noteq> None"
      using assms(2) Pair sl unfolding d1(1) StringDecoder_Read_def by (auto simp: Let_def split: if_splits)
    then show ?thesis by simp
  next
    case False
    let ?u = "wrap64 (?i + n + sint len)"
    have "wrap64 (n + sint len) = ?u - ?i"
      by (rule wrap64_cong) (use False assms(3-5) d1(2) in \<open>auto simp: add.assoc\<close>)
    then have "wrap64 (sint len + n) > 0" using False by (simp add: add.commute)
    moreover have "sd_b d2 = sd_b d \<and> sd_i d2 = ?i \<and> sd_l d2 = wrap64 (sint len + n)"
      using assms(2) Pair sl False unfolding d1(1) StringDecoder_Read_def by (auto simp: Let_def split: if_splits)
    ultimately show ?thesis using d1(2) assms(4,5) by simp
  qed
qed

lemma str_drain_ends:
  assumes "length (sd_b d) < 2 ^ 62" and "0 \<le> sd_i d" and "0 \<le> sd_l d"
  shows "\<exists>r. drain StringDecoder_Next StringDecoder_Read d acc = Some r"
proof (rule drain_terminates [where I = "\<lambda>d. sd_err d \<noteq> None \<or> length (sd_b d) < 2 ^ 62 \<and> 0 \<le> sd_i d \<and> 0 \<le> sd_l d"
    and R = "measures [\<lambda>d. if sd_err d = None then 1 else 0, \<lambda>d. nat (int (length (sd_b d)) - (sd_i d + sd_l d))]"])
  fix d d1 d2 v
  assume I: "sd_err d \<noteq> None \<or> length (sd_b d) < 2 ^ 62 \<and> 0 \<le> sd_i d \<and> 0 \<le> sd_l d"
    and n: "StringDecoder_Next d = (True, d1)" and r: "StringDecoder_Read d1 = (v, d2)"
  have err: "sd_err d = None" using n by (auto simp: StringDecoder_Next_def split: if_splits)
  with I str_Read_progress [OF n r]
  show "(sd_err d2 \<noteq> None \<or> length (sd_b d2) < 2 ^ 62 \<and> 0 \<le> sd_i d2 \<and> 0 \<le> sd_l d2) \<and>
    (d2, d) \<in> measures [\<lambda>d. if sd_err d = None then 1 else 0, \<lambda>d. nat (int (length (sd_b d)) - (sd_i d + sd_l d))]"
    by auto
qed (use assms in auto)

section \<open>Properties\<close>

text \<open>
  C36: the streaming string codec, over any snappy that keeps its contract. Strings written to a new or reset
  \<^verbatim>\<open>StringEncoder\<close>, empty ones included, are delivered in order by a \<^verbatim>\<open>StringDecoder\<close> in any earlier state,
  which then stops without an error.
\<close>

theorem str_stream_roundtrip:
  assumes "snappy_ok S" and "e = NewStringEncoder \<or> (\<exists>e0. e = StringEncoder_Reset e0)"
    and "sn_MaxEncodedLen S (length (str_data ss)) \<ge> 0"
  shows "\<exists>b d1 d2. StringEncoder_Bytes S (foldl StringEncoder_Write e ss) = Inr b \<and>
    StringDecoder_SetBytes S b d = (None, d1) \<and>
    drain StringDecoder_Next StringDecoder_Read d1 [] = Some (ss, d2) \<and> sd_err d2 = None"
proof -
  have e: "se_bytes (foldl StringEncoder_Write e ss) = str_data ss"
    using assms(2) foldl_StringEncoder_Write by (auto simp: NewStringEncoder_def StringEncoder_Reset_def)
  let ?d = "d\<lparr>sd_b := str_data ss, sd_l := 0, sd_i := 0, sd_err := None\<rparr>"
  have "length (str_data ss) < 2 ^ 32" using snappy_okD(4) [OF assms(1,3)] .
  then have "str_dec_rep ?d ss" by (simp add: str_dec_rep_def)
  from strd.drain_rep [OF this, of "[]"] strd.rep_err obtain d2
    where "drain StringDecoder_Next StringDecoder_Read ?d [] = Some (ss, d2)" "sd_err d2 = None" by auto
  then show ?thesis
    using snappy_okD(1) [OF assms(1,3), of "[]"] e assms(3)
    by (auto simp: StringEncoder_Bytes_def StringDecoder_SetBytes_def)
qed

theorem str_stream_roundtrip_witness:
  "\<exists>b d1 d2. StringEncoder_Bytes snappy_stored (foldl StringEncoder_Write NewStringEncoder [[104, 105], [], [0]]) = Inr b \<and>
    StringDecoder_SetBytes snappy_stored b \<lparr>sd_b = [1], sd_l = 0, sd_i = 0, sd_err = None\<rparr> = (None, d1) \<and>
    drain StringDecoder_Next StringDecoder_Read d1 [] = Some ([[104, 105], [], [0]], d2) \<and> sd_err d2 = None"
proof (rule str_stream_roundtrip [OF snappy_stored_ok])
  have "length (str_data [[104, 105], [], [0]]) \<le> 33"
    using length_put_uvarint_le10 [of 2] length_put_uvarint_le10 [of 1] length_put_uvarint_le10 [of 0] by simp
  then show "0 \<le> sn_MaxEncodedLen snappy_stored (length (str_data [[104, 105], [], [0]]))"
    by (simp add: snappy_stored_simps)
qed simp

text \<open>
  C37: the batch string codec. \<^verbatim>\<open>StringArrayEncodeAll\<close> of a non-empty list within the size snappy accepts
  writes within its buffer, whatever the buffer held, and \<^verbatim>\<open>StringArrayDecodeAll\<close> and the streaming decoder
  restore the strings; beyond that size the result is \<^verbatim>\<open>ErrStringArrayEncodeTooLarge\<close>.
\<close>

theorem str_batch_roundtrip:
  assumes "snappy_ok S" and "src \<noteq> []"
  defines "sz \<equiv> 2 + length src * 5 + sum_list (map length src)"
  shows "if sn_MaxEncodedLen S sz = - 1 then StringArrayEncodeAll S src b = Inl ErrStringArrayEncodeTooLarge
    else \<exists>r d1 d2. StringArrayEncodeAll S src b = Inr r \<and> StringArrayDecodeAll S r dst = Inr src \<and>
      StringDecoder_SetBytes S r d = (None, d1) \<and> drain StringDecoder_Next StringDecoder_Read d1 [] = Some (src, d2)"
proof (cases "sn_MaxEncodedLen S sz = - 1")
  case True
  then show ?thesis using assms(2) unfolding sz_def by (simp add: StringArrayEncodeAll_def)
next
  case False
  from StringArrayEncodeAll_ok [OF assms(1,2) False [unfolded sz_def], of b] obtain r
    where r: "StringArrayEncodeAll S src b = Inr (push_bit 4 stringCompressedSnappy # r)"
      "sn_Decode S r = Inr (str_data src)" "length (str_data src) < 2 ^ 63" by blast
  let ?d = "d\<lparr>sd_b := str_data src, sd_l := 0, sd_i := 0, sd_err := None\<rparr>"
  have "str_dec_rep ?d src" using r(3) by (simp add: str_dec_rep_def)
  from strd.drain_rep [OF this, of "[]"] obtain d2
    where "drain StringDecoder_Next StringDecoder_Read ?d [] = Some (src, d2)" by auto
  moreover have "StringArrayDecodeAll S (push_bit 4 stringCompressedSnappy # r) dst = Inr src"
    using r(2,3) str_decode_loop_ok [of 0 "str_data src" src] by (simp add: StringArrayDecodeAll_def)
  ultimately show ?thesis using False r(1,2) by (simp add: StringDecoder_SetBytes_def)
qed

theorem str_batch_roundtrip_witness:
  "if sn_MaxEncodedLen snappy_stored (2 + length [[104::u8], []] * 5 + sum_list (map length [[104::u8], []])) = - 1
   then StringArrayEncodeAll snappy_stored [[104], []] [] = Inl ErrStringArrayEncodeTooLarge
   else \<exists>r d1 d2. StringArrayEncodeAll snappy_stored [[104], []] [] = Inr r \<and>
      StringArrayDecodeAll snappy_stored r [] = Inr [[104], []] \<and>
      StringDecoder_SetBytes snappy_stored r \<lparr>sd_b = [1], sd_l = 0, sd_i = 0, sd_err = None\<rparr> = (None, d1) \<and>
      drain StringDecoder_Next StringDecoder_Read d1 [] = Some ([[104], []], d2)"
  by (rule str_batch_roundtrip [OF snappy_stored_ok]) simp

text \<open>
  The loop over a \<^verbatim>\<open>StringDecoder\<close> ends on any decompressed data below \<open>2 ^ 62\<close> bytes, corrupt or not.
\<close>

theorem str_decode_ends:
  assumes "StringDecoder_SetBytes S b d = (None, d1)" and "length (sd_b d1) < 2 ^ 62"
  shows "\<exists>r. drain StringDecoder_Next StringDecoder_Read d1 [] = Some r"
  by (rule str_drain_ends) (use assms in \<open>auto simp: StringDecoder_SetBytes_def split: sum.splits\<close>)

theorem str_decode_ends_witness:
  "\<exists>r. drain StringDecoder_Next StringDecoder_Read
     \<lparr>sd_b = [255, 255], sd_l = 0, sd_i = 0, sd_err = None\<rparr> [] = Some r"
proof -
  have "put_uvarint 2 = [2]" by code_simp
  with get_put_uvarint [of 2 "[255, 255]"] have "get_uvarint [2, 255, 255] = (2, 1)" by simp
  then show ?thesis
    by (intro str_decode_ends [of snappy_stored "[0x10, 2, 255, 255]" "\<lparr>sd_b = [], sd_l = 0, sd_i = 0, sd_err = None\<rparr>"])
      (simp_all add: StringDecoder_SetBytes_def snappy_stored_def)
qed

text \<open>
  \<^verbatim>\<open>StringArrayEncodeAll\<close> of no strings returns two bytes but sets only the first. With a buffer whose
  second byte is not zero, what it returns does not decode.
\<close>

theorem str_batch_empty_stale:
  "StringArrayEncodeAll snappy_stored [] [0, 7] = Inr [0x10, 7] \<and>
   StringArrayDecodeAll snappy_stored [0x10, 7] [] = Inl (GoError ''failed to decode string block'')"
proof
  show "StringArrayEncodeAll snappy_stored [] [0, 7] = Inr [0x10, 7]"
    by (simp add: StringArrayEncodeAll_def stringCompressedSnappy_def)
  have "put_uvarint 7 = [7]" by code_simp
  with get_put_uvarint [of 7 "[]"] have "get_uvarint [7] = (7, 1)" by simp
  then show "StringArrayDecodeAll snappy_stored [0x10, 7] [] = Inl (GoError ''failed to decode string block'')"
    by (simp add: StringArrayDecodeAll_def snappy_stored_def)
qed

end
