(* ===== verification/Bit_Reader.thy ===== *)
theory Bit_Reader
  imports Byte_Bits
begin

unbundle bit_operations_syntax

text \<open>
  The \<^verbatim>\<open>BitReader\<close> of \<^verbatim>\<open>tsdb/tsm1/bit_reader.go\<close>: a byte slice read through a 64-bit buffer. The relation
  \<open>br_rep r bs\<close> says that the reader stands before the bit string \<open>bs\<close>; each operation is shown to
  act on that string.
\<close>

section \<open>The reader\<close>

text \<open>The fields \<^verbatim>\<open>data\<close>, \<^verbatim>\<open>buf.v\<close> and \<^verbatim>\<open>buf.n\<close>.\<close>

record bit_reader =
  br_data :: bytes
  br_v :: u64
  br_n :: nat

definition io_EOF :: go_error where "io_EOF = GoError ''EOF''"

text \<open>A left shift by an unsigned difference: a negative difference wraps to a huge count and shifts everything out.\<close>

definition shl_diff :: "u64 \<Rightarrow> nat \<Rightarrow> nat \<Rightarrow> u64" where
  "shl_diff x a b = (if b \<le> a then push_bit (a - b) x else 0)"

fun readBuf_loop :: "bytes \<Rightarrow> u64 \<Rightarrow> nat \<Rightarrow> u64 \<times> nat" where
  "readBuf_loop [] v n = (v, n)"
| "readBuf_loop (b # bs) v n = readBuf_loop bs (v OR shl_diff (ucast b) 64 (n + 8)) (n + 8)"

definition readBuf :: "bit_reader \<Rightarrow> bit_reader" where
  "readBuf r =
     (let byteN = min (8 - br_n r div 8) (length (br_data r)) in
      if byteN = 8 then r\<lparr>br_v := get_u64 (br_data r), br_n := 64, br_data := drop 8 (br_data r)\<rparr>
      else case readBuf_loop (take byteN (br_data r)) (br_v r) (br_n r) of (v, n) \<Rightarrow>
        r\<lparr>br_v := v, br_n := n, br_data := drop byteN (br_data r)\<rparr>)"

definition BitReader_Reset :: "bytes \<Rightarrow> bit_reader \<Rightarrow> bit_reader" where
  "BitReader_Reset data r = readBuf (r\<lparr>br_data := data, br_v := 0, br_n := 0\<rparr>)"

definition NewBitReader :: "bytes \<Rightarrow> bit_reader" where
  "NewBitReader data = BitReader_Reset data \<lparr>br_data = [], br_v = 0, br_n = 0\<rparr>"

definition CanReadBitFast :: "bit_reader \<Rightarrow> bool" where
  "CanReadBitFast r \<longleftrightarrow> br_n r > 1"

definition ReadBitFast :: "bit_reader \<Rightarrow> bool \<times> bit_reader" where
  "ReadBitFast r = (br_v r AND push_bit 63 1 \<noteq> 0, r\<lparr>br_v := push_bit 1 (br_v r), br_n := br_n r - 1\<rparr>)"

text \<open>\<^verbatim>\<open>if r.buf.n == 0 { r.readBuf() }\<close>\<close>

definition refill :: "bit_reader \<Rightarrow> bit_reader" where
  "refill r = (if br_n r = 0 then readBuf r else r)"

definition ReadBits :: "nat \<Rightarrow> bit_reader \<Rightarrow> u64 res \<times> bit_reader" where
  "ReadBits nbits r =
     (if br_n r = 0 then (Inl io_EOF, r)
      else if nbits \<le> br_n r then
        if nbits = 64 then (Inr (br_v r), readBuf (r\<lparr>br_v := 0, br_n := 0\<rparr>))
        else (Inr (drop_bit (64 - nbits) (br_v r)),
              refill (r\<lparr>br_v := push_bit nbits (br_v r), br_n := br_n r - nbits\<rparr>))
      else
        let v = br_v r; n = br_n r;
            r1 = readBuf (r\<lparr>br_v := 0, br_n := 0\<rparr>);
            bufN = min (nbits - n) (br_n r1)
        in (Inr (drop_bit (64 - nbits) (v OR drop_bit n (br_v r1))),
            refill (r1\<lparr>br_v := push_bit bufN (br_v r1), br_n := br_n r1 - bufN\<rparr>)))"

definition ReadBit :: "bit_reader \<Rightarrow> bool res \<times> bit_reader" where
  "ReadBit r = (case ReadBits 1 r of (Inl e, r') \<Rightarrow> (Inl e, r') | (Inr v, r') \<Rightarrow> (Inr (v \<noteq> 0), r'))"

section \<open>The bit string ahead of a reader\<close>

text \<open>The buffer is left-aligned: its bits below the \<open>n\<close> available ones are zero.\<close>

definition buf_rep :: "bit_reader \<Rightarrow> bool list \<Rightarrow> bool" where
  "buf_rep r bs \<longleftrightarrow>
     br_n r \<le> 64 \<and> br_n r \<le> length bs \<and> drop (br_n r) bs = bits_of (br_data r) \<and>
     (\<forall>j<64. bit (br_v r) j \<longleftrightarrow> 63 - j < br_n r \<and> bs ! (63 - j))"

definition br_rep :: "bit_reader \<Rightarrow> bool list \<Rightarrow> bool" where
  "br_rep r bs \<longleftrightarrow> buf_rep r bs \<and> (br_n r = 0 \<longrightarrow> br_data r = [])"

lemma br_rep_empty_iff: "br_rep r bs \<Longrightarrow> br_n r = 0 \<longleftrightarrow> bs = []"
  by (auto simp: br_rep_def buf_rep_def)

lemma readBuf_loop_bits:
  assumes "n + 8 * length bs \<le> 64"
  shows "snd (readBuf_loop bs v n) = n + 8 * length bs \<and>
    (\<forall>j<64. bit (fst (readBuf_loop bs v n)) j \<longleftrightarrow>
      bit v j \<or> n \<le> 63 - j \<and> 63 - j < n + 8 * length bs \<and> bits_of bs ! (63 - j - n))"
  using assms
proof (induction bs v n rule: readBuf_loop.induct)
  case (2 b bs v n)
  have sh: "bit (shl_diff (ucast b) 64 (n + 8)) j \<longleftrightarrow> n \<le> 63 - j \<and> 63 - j < n + 8 \<and> byte_bits b ! (63 - j - n)"
    if "j < 64" for j
  proof -
    have "bit (shl_diff (ucast b) 64 (n + 8)) j \<longleftrightarrow> 64 - (n + 8) \<le> j \<and> bit b (j - (64 - (n + 8)))"
      using that 2(2) by (auto simp: shl_diff_def bit_simps)
    also have "\<dots> \<longleftrightarrow> n \<le> 63 - j \<and> 63 - j < n + 8 \<and> byte_bits b ! (63 - j - n)"
    proof (cases "n \<le> 63 - j \<and> 63 - j < n + 8")
      case True
      moreover have "n \<le> 56" using 2(2) by simp
      ultimately have "7 - (63 - j - n) = j - (64 - (n + 8))" using that by auto
      with True show ?thesis using that 2(2) by (auto simp: nth_byte_bits)
    next
      case False
      then show ?thesis using that 2(2) by (auto dest: bit_imp_le_length)
    qed
    finally show ?thesis .
  qed
  from 2 have IH: "\<forall>j<64. bit (fst (readBuf_loop (b # bs) v n)) j \<longleftrightarrow>
      bit (v OR shl_diff (ucast b) 64 (n + 8)) j \<or>
      n + 8 \<le> 63 - j \<and> 63 - j < n + 8 + 8 * length bs \<and> bits_of bs ! (63 - j - (n + 8))"
    by simp
  have "bit (fst (readBuf_loop (b # bs) v n)) j \<longleftrightarrow>
      bit v j \<or> n \<le> 63 - j \<and> 63 - j < n + 8 * length (b # bs) \<and> bits_of (b # bs) ! (63 - j - n)" if "j < 64" for j
    using IH [rule_format, OF that] sh [OF that]
    by (cases "63 - j < n + 8") (auto simp: bit_or_iff nth_append)
  with 2 show ?case by simp
qed auto

lemma buf_rep_readBuf:
  assumes "br_n r = 0" and "br_v r = 0"
  shows "br_rep (readBuf r) (bits_of (br_data r))"
proof (cases "length (br_data r) \<ge> 8")
  case True
  let ?d = "br_data r"
  have "lo_bits 64 (get_u64 ?d) = bits_of (take 8 ?d)"
    using lo_bits_be_word [of "take 8 ?d"] True by (simp add: get_u64_def)
  then have "bit (get_u64 ?d) j \<longleftrightarrow> bits_of ?d ! (63 - j)" if "j < 64" for j
    using that nth_lo_bits [of "63 - j" 64 "get_u64 ?d"] True by (simp add: bits_of_take)
  with True assms show ?thesis
    by (auto simp: readBuf_def br_rep_def buf_rep_def bits_of_drop)
next
  case False
  let ?d = "br_data r"
  obtain v n where vn: "readBuf_loop ?d 0 0 = (v, n)" by fastforce
  from False have "8 * length ?d \<le> 64" by simp
  from readBuf_loop_bits [of 0 ?d 0] this vn have
    "n = 8 * length ?d" "\<forall>j<64. bit v j \<longleftrightarrow> 63 - j < 8 * length ?d \<and> bits_of ?d ! (63 - j)"
    by simp_all
  with False assms vn show ?thesis
    by (simp add: readBuf_def br_rep_def buf_rep_def)
qed

lemma buf_rep_zero: "buf_rep r bs \<Longrightarrow> br_n r = 0 \<Longrightarrow> br_v r = 0 \<and> bs = bits_of (br_data r)"
  by (auto simp: buf_rep_def intro!: bit_word_eqI)

lemma br_rep_refill: "buf_rep r bs \<Longrightarrow> br_rep (refill r) bs"
  using buf_rep_readBuf [of r] buf_rep_zero [of r bs] by (auto simp: refill_def br_rep_def)

lemma br_rep_Reset: "br_rep (BitReader_Reset data r) (bits_of data)"
  using buf_rep_readBuf [of "r\<lparr>br_data := data, br_v := 0, br_n := 0\<rparr>"] by (simp add: BitReader_Reset_def)

lemma buf_rep_shift:
  assumes "buf_rep r bs" and "k \<le> br_n r"
  shows "buf_rep (r\<lparr>br_v := push_bit k (br_v r), br_n := br_n r - k\<rparr>) (drop k bs)"
proof -
  have "bit (push_bit k (br_v r)) j \<longleftrightarrow> 63 - j < br_n r - k \<and> drop k bs ! (63 - j)" if j: "j < 64" for j
  proof (cases "k \<le> j")
    case True
    then have "63 - (j - k) = k + (63 - j)" using j by simp
    with True assms j show ?thesis by (auto simp: buf_rep_def bit_push_bit_iff)
  next
    case False
    then show ?thesis using assms j by (auto simp: buf_rep_def bit_push_bit_iff)
  qed
  then show ?thesis using assms by (auto simp: buf_rep_def)
qed

section \<open>The operations on the bit string\<close>

text \<open>The \<open>m\<close> next bits, with zeros where the string has ended.\<close>

definition next_bits :: "nat \<Rightarrow> bool list \<Rightarrow> bool list" where
  "next_bits m bs = take m (bs @ replicate m False)"

lemma length_next_bits [simp]: "length (next_bits m bs) = m"
  by (simp add: next_bits_def)

lemma nth_next_bits: "k < m \<Longrightarrow> next_bits m bs ! k \<longleftrightarrow> k < length bs \<and> bs ! k"
  by (auto simp: next_bits_def nth_append)

lemma next_bits_append: "length as = m \<Longrightarrow> next_bits m (as @ bs) = as"
  by (simp add: next_bits_def)

lemma top_bits_val:
  assumes "1 \<le> m" "m \<le> 64" and "\<And>j. j < 64 \<Longrightarrow> 64 - m \<le> j \<Longrightarrow> bit w j \<longleftrightarrow> 63 - j < length bs \<and> bs ! (63 - j)"
  shows "drop_bit (64 - m) w = bits_val (next_bits m bs)"
proof (rule bit_word_eqI)
  fix k
  assume k: "k < LENGTH(64)"
  show "bit (drop_bit (64 - m) w) k \<longleftrightarrow> bit (bits_val (next_bits m bs)) k"
  proof (cases "k < m")
    case True
    then have "63 - (64 - m + k) = m - 1 - k" using assms(2) by simp
    with True assms(3) [of "64 - m + k"] assms(1,2) show ?thesis
      by (simp add: bit_drop_bit_eq bit_bits_val nth_next_bits)
  next
    case False
    then show ?thesis using assms(2) by (auto simp: bit_drop_bit_eq bit_bits_val dest: bit_imp_le_length)
  qed
qed

lemma ReadBits_EOF: "br_rep r [] \<Longrightarrow> ReadBits m r = (Inl io_EOF, r)"
  using br_rep_empty_iff [of r "[]"] by (simp add: ReadBits_def)

lemma ReadBits_within:
  assumes r: "br_rep r bs" and m: "1 \<le> m" "m \<le> br_n r"
  shows "\<exists>r'. ReadBits m r = (Inr (bits_val (next_bits m bs)), r') \<and> br_rep r' (drop m bs)"
proof -
  have b: "buf_rep r bs" and n: "br_n r \<le> 64" using r by (auto simp: br_rep_def buf_rep_def)
  have v: "drop_bit (64 - m) (br_v r) = bits_val (next_bits m bs)"
    by (rule top_bits_val) (use b m n in \<open>auto simp: buf_rep_def\<close>)
  show ?thesis
  proof (cases "m = 64")
    case True
    then have "drop m bs = bits_of (br_data r)" "br_n r = 64" using b m n by (auto simp: buf_rep_def)
    with True v m buf_rep_readBuf [of "r\<lparr>br_v := 0, br_n := 0\<rparr>"] show ?thesis by (simp add: ReadBits_def)
  next
    case False
    with v m br_rep_refill [OF buf_rep_shift [OF b m(2)]] show ?thesis by (simp add: ReadBits_def)
  qed
qed

lemma ReadBits_across:
  assumes r: "br_rep r bs" and m: "br_n r < m" "m \<le> 64" and ne: "bs \<noteq> []"
  shows "\<exists>r'. ReadBits m r = (Inr (bits_val (next_bits m bs)), r') \<and> br_rep r' (drop m bs)"
proof -
  define n where "n = br_n r"
  define r1 where "r1 = readBuf (r\<lparr>br_v := 0, br_n := 0\<rparr>)"
  define k where "k = min (m - n) (br_n r1)"
  have b: "buf_rep r bs" and n: "n \<noteq> 0" "n \<le> length bs" "n < m"
    using r ne m br_rep_empty_iff [OF r] by (auto simp: br_rep_def buf_rep_def n_def)
  have r1: "br_rep r1 (drop n bs)"
    using buf_rep_readBuf [of "r\<lparr>br_v := 0, br_n := 0\<rparr>"] b by (simp add: r1_def buf_rep_def n_def)
  then have b1: "buf_rep r1 (drop n bs)" and n1: "br_n r1 \<le> length (drop n bs)" by (auto simp: br_rep_def buf_rep_def)
  have full: "br_n r1 = 64 \<or> br_data r1 = [] \<and> br_n r1 = length (drop n bs)"
  proof -
    have "drop n bs = bits_of (br_data r)" using b by (simp add: buf_rep_def n_def)
    then show ?thesis
      using readBuf_loop_bits [of 0 "br_data r" 0]
      by (cases "length (br_data r) \<ge> 8") (auto simp: r1_def readBuf_def split: prod.split)
  qed
  have "drop_bit (64 - m) (br_v r OR drop_bit n (br_v r1)) = bits_val (next_bits m bs)"
  proof (rule top_bits_val)
    fix j :: nat
    assume j: "j < 64" "64 - m \<le> j"
    have v: "bit (br_v r) j \<longleftrightarrow> 63 - j < n \<and> bs ! (63 - j)" using b j by (simp add: buf_rep_def n_def)
    show "bit (br_v r OR drop_bit n (br_v r1)) j \<longleftrightarrow> 63 - j < length bs \<and> bs ! (63 - j)"
    proof (cases "63 - j < n")
      case True
      then have "\<not> bit (br_v r1) (n + j)" using j by (auto dest: bit_imp_le_length)
      with True v n show ?thesis by (simp add: bit_or_iff bit_drop_bit_eq)
    next
      case False
      then have "n + j < 64" "n + (63 - (n + j)) = 63 - j" "63 - (n + j) < br_n r1 \<longleftrightarrow> 63 - j < length bs"
        using j full n n1 by auto
      with False v b1 n show ?thesis by (auto simp: buf_rep_def bit_or_iff bit_drop_bit_eq)
    qed
  qed (use m n in auto)
  moreover have "br_rep (refill (r1\<lparr>br_v := push_bit k (br_v r1), br_n := br_n r1 - k\<rparr>)) (drop m bs)"
  proof -
    have "drop k (drop n bs) = drop m bs"
      using full n m n1 by (auto simp: k_def min_def)
    with br_rep_refill [OF buf_rep_shift [OF b1, of k]] show ?thesis by (simp add: k_def)
  qed
  ultimately show ?thesis
    using n m by (simp add: ReadBits_def Let_def flip: n_def r1_def k_def)
qed

lemma ReadBits_ok:
  assumes "br_rep r bs" "1 \<le> m" "m \<le> 64" "bs \<noteq> []"
  shows "\<exists>r'. ReadBits m r = (Inr (bits_val (next_bits m bs)), r') \<and> br_rep r' (drop m bs)"
  using ReadBits_within ReadBits_across assms by (metis not_le)

lemma ReadBits_append:
  assumes "br_rep r (as @ bs)" and "length as = m" and "1 \<le> m" "m \<le> 64"
  shows "\<exists>r'. ReadBits m r = (Inr (bits_val as), r') \<and> br_rep r' bs"
  using ReadBits_ok [OF assms(1,3,4)] assms(2,3) by (force simp: next_bits_append)

lemma bits_val_single: "bits_val [b] \<noteq> 0 \<longleftrightarrow> b"
  by (simp add: bits_val_def)

lemma ReadBit_Cons: "br_rep r (b # bs) \<Longrightarrow> \<exists>r'. ReadBit r = (Inr b, r') \<and> br_rep r' bs"
  using ReadBits_append [of r "[b]" bs 1] bits_val_single [of b] by (auto simp: ReadBit_def)

lemma ReadBit_EOF: "br_rep r [] \<Longrightarrow> ReadBit r = (Inl io_EOF, r)"
  by (simp add: ReadBit_def ReadBits_EOF)

lemma ReadBitFast_Cons:
  assumes "br_rep r (b # bs)" and "CanReadBitFast r"
  shows "fst (ReadBitFast r) = b \<and> br_rep (snd (ReadBitFast r)) bs"
proof -
  have n: "1 < br_n r" and b: "buf_rep r (b # bs)" using assms by (simp_all add: CanReadBitFast_def br_rep_def)
  have "bit (br_v r) 63 \<longleftrightarrow> b" using b n by (auto simp: buf_rep_def)
  moreover have "br_v r AND push_bit 63 1 \<noteq> 0 \<longleftrightarrow> bit (br_v r) 63"
    using and_exp_eq_0_iff_not_bit [of "br_v r" 63] by simp
  ultimately show ?thesis
    using buf_rep_shift [OF b, of 1] n by (simp add: ReadBitFast_def br_rep_def)
qed

end
