(* ===== verification/Float_Codec.thy ===== *)
theory Float_Codec
  imports Bit_Reader Iterators
begin

unbundle bit_operations_syntax

text \<open>
  The streaming float codec of \<^verbatim>\<open>tsdb/tsm1/float.go\<close>. A float is its 64-bit pattern (\<^verbatim>\<open>math.Float64bits\<close>); a
  block is a header byte and the values XORed with their predecessors, each difference written as the
  window of bits between its leading and trailing zeros. The bit writer
  (\<^verbatim>\<open>github.com/dgryski/go-bitstream\<close>, outside the repository) is a parameter, a record of the operations
  called, and \<open>bit_stream_ok\<close> states what is relied on.
\<close>

section \<open>The bit writer\<close>

text \<open>
  Each operation takes the writer and the buffer below it and returns both. \<open>pend w\<close> are the bits
  the writer holds back because they do not fill a byte.
\<close>

record 'w bit_stream =
  bw_New :: 'w
  bw_WriteBit :: "bool \<Rightarrow> 'w \<Rightarrow> bytes \<Rightarrow> 'w \<times> bytes"
  bw_WriteBits :: "u64 \<Rightarrow> nat \<Rightarrow> 'w \<Rightarrow> bytes \<Rightarrow> 'w \<times> bytes"
  bw_Flush :: "bool \<Rightarrow> 'w \<Rightarrow> bytes \<Rightarrow> 'w \<times> bytes"
  bw_Resume :: "u8 \<Rightarrow> nat \<Rightarrow> 'w \<Rightarrow> 'w"

definition bit_stream_ok :: "'w bit_stream \<Rightarrow> ('w \<Rightarrow> bool list) \<Rightarrow> bool" where
  "bit_stream_ok W pend \<longleftrightarrow>
     pend (bw_New W) = [] \<and>
     (\<forall>w. pend (bw_Resume W 0 8 w) = []) \<and>
     (\<forall>b w buf. case bw_WriteBit W b w buf of (w', buf') \<Rightarrow>
        bits_of buf' @ pend w' = bits_of buf @ pend w @ [b]) \<and>
     (\<forall>v n w buf. n \<le> 64 \<longrightarrow> (case bw_WriteBits W v n w buf of (w', buf') \<Rightarrow>
        bits_of buf' @ pend w' = bits_of buf @ pend w @ lo_bits n v)) \<and>
     (\<forall>b w buf. case bw_Flush W b w buf of (w', buf') \<Rightarrow>
        pend w' = [] \<and> (\<exists>k<8. bits_of buf' = bits_of buf @ pend w @ replicate k b))"

text \<open>An instance: the writer is the list of the bits held back.\<close>

definition emit_bit :: "bool \<Rightarrow> bool list \<Rightarrow> bytes \<Rightarrow> bool list \<times> bytes" where
  "emit_bit b w buf = (if length w \<ge> 7 then ([], buf @ [ucast (bits_val (take 7 w @ [b]))]) else (w @ [b], buf))"

fun emit_bits :: "bool list \<Rightarrow> bool list \<Rightarrow> bytes \<Rightarrow> bool list \<times> bytes" where
  "emit_bits [] w buf = (w, buf)"
| "emit_bits (b # bs) w buf = (case emit_bit b w buf of (w', buf') \<Rightarrow> emit_bits bs w' buf')"

definition list_stream :: "bool list bit_stream" where
  "list_stream = \<lparr>bw_New = [], bw_WriteBit = emit_bit, bw_WriteBits = (\<lambda>v n. emit_bits (lo_bits n v)),
     bw_Flush = (\<lambda>b w buf. if w = [] then (w, buf) else emit_bits (replicate (8 - length (take 7 w)) b) (take 7 w) buf),
     bw_Resume = (\<lambda>_ _ _. [])\<rparr>"

section \<open>Encoder\<close>

definition floatCompressedGorilla :: u8 where "floatCompressedGorilla = 1"

definition uvnan :: u64 where "uvnan = 0x7FF8000000000001"

text \<open>\<^verbatim>\<open>math.IsNaN\<close> on the bit pattern: exponent all ones and a mantissa that is not zero.\<close>

definition IsNaN :: "u64 \<Rightarrow> bool" where
  "IsNaN v \<longleftrightarrow> v AND 0x7FF0000000000000 = 0x7FF0000000000000 \<and> v AND 0x000FFFFFFFFFFFFF \<noteq> 0"

text \<open>\<^verbatim>\<open>bits.LeadingZeros64\<close> and \<^verbatim>\<open>bits.TrailingZeros64\<close>\<close>

definition LeadingZeros64 :: "u64 \<Rightarrow> nat" where
  "LeadingZeros64 v = length (takeWhile Not (lo_bits 64 v))"

definition TrailingZeros64 :: "u64 \<Rightarrow> nat" where
  "TrailingZeros64 v = length (takeWhile Not (rev (lo_bits 64 v)))"

record 'w float_encoder =
  fe_val :: u64
  fe_err :: "go_error option"
  fe_leading :: u64
  fe_trailing :: u64
  fe_buf :: bytes
  fe_bw :: 'w
  fe_first :: bool
  fe_finished :: bool

definition NewFloatEncoder :: "'w bit_stream \<Rightarrow> 'w float_encoder" where
  "NewFloatEncoder W = \<lparr>fe_val = 0, fe_err = None, fe_leading = NOT 0, fe_trailing = 0,
     fe_buf = [push_bit 4 floatCompressedGorilla], fe_bw = bw_New W, fe_first = True, fe_finished = False\<rparr>"

definition FloatEncoder_Reset :: "'w bit_stream \<Rightarrow> 'w float_encoder \<Rightarrow> 'w float_encoder" where
  "FloatEncoder_Reset W s = s\<lparr>fe_val := 0, fe_err := None, fe_leading := NOT 0, fe_trailing := 0,
     fe_buf := [push_bit 4 floatCompressedGorilla], fe_bw := bw_Resume W 0 8 (fe_bw s),
     fe_finished := False, fe_first := True\<rparr>"

definition FloatEncoder_Bytes :: "'w float_encoder \<Rightarrow> bytes \<times> go_error option" where
  "FloatEncoder_Bytes s = (fe_buf s, fe_err s)"

text \<open>\<^verbatim>\<open>s.bw.WriteBit(b)\<close> and \<^verbatim>\<open>s.bw.WriteBits(v, n)\<close>, into the encoder's buffer\<close>

definition fe_bit :: "'w bit_stream \<Rightarrow> bool \<Rightarrow> 'w float_encoder \<Rightarrow> 'w float_encoder" where
  "fe_bit W b s = (case bw_WriteBit W b (fe_bw s) (fe_buf s) of (w, buf) \<Rightarrow> s\<lparr>fe_bw := w, fe_buf := buf\<rparr>)"

definition fe_bits :: "'w bit_stream \<Rightarrow> u64 \<Rightarrow> nat \<Rightarrow> 'w float_encoder \<Rightarrow> 'w float_encoder" where
  "fe_bits W v n s = (case bw_WriteBits W v n (fe_bw s) (fe_buf s) of (w, buf) \<Rightarrow> s\<lparr>fe_bw := w, fe_buf := buf\<rparr>)"

text \<open>\<^verbatim>\<open>leading &= 0x1F; if leading >= 32 { leading = 31 }\<close>\<close>

definition clamp_leading :: "u64 \<Rightarrow> u64" where
  "clamp_leading l = (let l' = l AND 0x1F in if l' \<ge> 32 then 31 else l')"

text \<open>The branch \<^verbatim>\<open>vDelta != 0\<close>\<close>

definition fe_write_delta :: "'w bit_stream \<Rightarrow> u64 \<Rightarrow> 'w float_encoder \<Rightarrow> 'w float_encoder" where
  "fe_write_delta W vDelta s0 =
     (let s = fe_bit W True s0;
          leading = clamp_leading (of_nat (LeadingZeros64 vDelta));
          trailing = of_nat (TrailingZeros64 vDelta)
      in if fe_leading s \<noteq> NOT 0 \<and> leading \<ge> fe_leading s \<and> trailing \<ge> fe_trailing s
         then fe_bits W (drop_bit (unat (fe_trailing s)) vDelta)
                (nat (64 - sint (fe_leading s) - sint (fe_trailing s))) (fe_bit W False s)
         else let s1 = s\<lparr>fe_leading := leading, fe_trailing := trailing\<rparr>;
                  sigbits = 64 - leading - trailing
              in fe_bits W (drop_bit (unat trailing) vDelta) (nat (sint sigbits))
                   (fe_bits W sigbits 6 (fe_bits W leading 5 (fe_bit W True s1))))"

definition FloatEncoder_Write :: "'w bit_stream \<Rightarrow> 'w float_encoder \<Rightarrow> u64 \<Rightarrow> 'w float_encoder" where
  "FloatEncoder_Write W s v =
     (if IsNaN v \<and> \<not> fe_finished s then s\<lparr>fe_err := Some (GoError ''unsupported value: NaN'')\<rparr>
      else if fe_first s then fe_bits W v 64 (s\<lparr>fe_val := v, fe_first := False\<rparr>)
      else let vDelta = v XOR fe_val s;
               s1 = (if vDelta = 0 then fe_bit W False s else fe_write_delta W vDelta s)
           in s1\<lparr>fe_val := v\<rparr>)"

definition FloatEncoder_Flush :: "'w bit_stream \<Rightarrow> 'w float_encoder \<Rightarrow> 'w float_encoder" where
  "FloatEncoder_Flush W s =
     (if \<not> fe_finished s then
        let s1 = FloatEncoder_Write W (s\<lparr>fe_finished := True\<rparr>) uvnan
        in case bw_Flush W False (fe_bw s1) (fe_buf s1) of (w, buf) \<Rightarrow> s1\<lparr>fe_bw := w, fe_buf := buf\<rparr>
      else s)"

section \<open>Decoder\<close>

record float_decoder =
  fd_val :: u64
  fd_leading :: u64
  fd_trailing :: u64
  fd_br :: bit_reader
  fd_b :: bytes
  fd_first :: bool
  fd_finished :: bool
  fd_err :: "go_error option"

definition FloatDecoder_SetBytes :: "bytes \<Rightarrow> float_decoder \<Rightarrow> go_error option \<times> float_decoder" where
  "FloatDecoder_SetBytes b it =
     (case (if b = [] then (Inr uvnan, fd_br it) else ReadBits 64 (BitReader_Reset (drop 1 b) (fd_br it))) of
        (Inl err, br) \<Rightarrow> (Some err, it\<lparr>fd_br := br\<rparr>)
      | (Inr v, br) \<Rightarrow> (None, \<lparr>fd_val = v, fd_leading = 0, fd_trailing = 0, fd_br = br, fd_b = b,
           fd_first = True, fd_finished = False, fd_err = None\<rparr>))"

text \<open>The bit read inlined twice in \<^verbatim>\<open>Next\<close>: the fast path when the buffer allows it\<close>

definition read_bit :: "bit_reader \<Rightarrow> bool res \<times> bit_reader" where
  "read_bit br = (if CanReadBitFast br then (case ReadBitFast br of (b, br') \<Rightarrow> (Inr b, br')) else ReadBit br)"

text \<open>The new window of the branch that follows a second set bit\<close>

definition fd_window :: "float_decoder \<Rightarrow> unit res \<times> float_decoder" where
  "fd_window it =
     (case ReadBits 5 (fd_br it) of
        (Inl err, br) \<Rightarrow> (Inl err, it\<lparr>fd_br := br\<rparr>)
      | (Inr leading, br) \<Rightarrow>
          (case ReadBits 6 br of
             (Inl err, br') \<Rightarrow> (Inl err, it\<lparr>fd_leading := leading, fd_br := br'\<rparr>)
           | (Inr bits, br') \<Rightarrow>
               let mbits = (if bits = 0 then 64 else bits)
               in (Inr (), it\<lparr>fd_leading := leading, fd_trailing := 64 - leading - mbits, fd_br := br'\<rparr>)))"

text \<open>The significant bits and the value they give\<close>

definition fd_value :: "float_decoder \<Rightarrow> bool \<times> float_decoder" where
  "fd_value it =
     (let mbits = 64 - fd_leading it - fd_trailing it in
      case ReadBits (unat mbits) (fd_br it) of
        (Inl err, br) \<Rightarrow> (False, it\<lparr>fd_br := br, fd_err := Some err\<rparr>)
      | (Inr bits, br) \<Rightarrow>
          let vbits = fd_val it XOR push_bit (unat (fd_trailing it)) bits in
          if vbits = uvnan then (False, it\<lparr>fd_br := br, fd_finished := True\<rparr>)
          else (True, it\<lparr>fd_br := br, fd_val := vbits\<rparr>))"

definition FloatDecoder_Next :: "float_decoder \<Rightarrow> bool \<times> float_decoder" where
  "FloatDecoder_Next it =
     (if fd_err it \<noteq> None \<or> fd_finished it then (False, it)
      else if fd_first it then
        if fd_val it = uvnan then (False, it\<lparr>fd_first := False, fd_finished := True\<rparr>)
        else (True, it\<lparr>fd_first := False\<rparr>)
      else
        case read_bit (fd_br it) of
          (Inl err, br) \<Rightarrow> (False, it\<lparr>fd_br := br, fd_err := Some err\<rparr>)
        | (Inr False, br) \<Rightarrow> (True, it\<lparr>fd_br := br\<rparr>)
        | (Inr True, br) \<Rightarrow>
            (case read_bit br of
               (Inl err, br') \<Rightarrow> (False, it\<lparr>fd_br := br', fd_err := Some err\<rparr>)
             | (Inr False, br') \<Rightarrow> fd_value (it\<lparr>fd_br := br'\<rparr>)
             | (Inr True, br') \<Rightarrow>
                 (case fd_window (it\<lparr>fd_br := br'\<rparr>) of
                    (Inl err, it') \<Rightarrow> (False, it'\<lparr>fd_err := Some err\<rparr>)
                  | (Inr _, it') \<Rightarrow> fd_value it')))"

definition FloatDecoder_Values :: "float_decoder \<Rightarrow> u64 \<times> float_decoder" where
  "FloatDecoder_Values it = (fd_val it, it)"

section \<open>Counting zeros\<close>

lemma LeadingZeros64_le: "LeadingZeros64 v \<le> 64"
  using length_takeWhile_le [of Not "lo_bits 64 v"] by (simp add: LeadingZeros64_def)

lemma LeadingZeros64_above:
  assumes "j < 64" and "64 - LeadingZeros64 v \<le> j"
  shows "\<not> bit v j"
proof -
  have "63 - j < LeadingZeros64 v" using assms LeadingZeros64_le [of v] by linarith
  from takeWhile_nth [OF this [unfolded LeadingZeros64_def]]
    set_takeWhileD [OF nth_mem [OF this [unfolded LeadingZeros64_def]]]
  show ?thesis using assms(1) by (simp add: nth_lo_bits)
qed

lemma TrailingZeros64_below: "j < TrailingZeros64 v \<Longrightarrow> \<not> bit v j"
proof -
  assume j: "j < TrailingZeros64 v"
  then have "j < 64" using length_takeWhile_le [of Not "rev (lo_bits 64 v)"] by (simp add: TrailingZeros64_def)
  from takeWhile_nth [OF j [unfolded TrailingZeros64_def]] set_takeWhileD [OF nth_mem [OF j [unfolded TrailingZeros64_def]]]
  show ?thesis using \<open>j < 64\<close> by (simp add: rev_nth nth_lo_bits)
qed

lemma zeros_bound:
  assumes "v \<noteq> 0"
  shows "LeadingZeros64 v + TrailingZeros64 v < 64"
proof -
  from assms obtain j where j: "bit v j" by (metis bit_word_eqI bit_0_eq bot_apply bot_bool_def)
  then have "j < 64" by (auto dest: bit_imp_le_length)
  moreover have "TrailingZeros64 v \<le> j" using TrailingZeros64_below j by (meson not_le)
  moreover have "j < 64 - LeadingZeros64 v" using LeadingZeros64_above [OF \<open>j < 64\<close>] j by (meson not_le)
  ultimately show ?thesis by linarith
qed

lemma unat_clamp: "n \<le> 64 \<Longrightarrow> unat (clamp_leading (of_nat n)) = n mod 32"
proof -
  assume "n \<le> 64"
  then have n: "unat (of_nat n :: u64) = n" by (intro unat_of_nat_small) simp
  have m: "(0x1F :: u64) = mask 5" by (simp add: mask_eq_exp_minus_1)
  have "unat (of_nat n AND 0x1F :: u64) = n mod 32"
    unfolding m take_bit_eq_mask [symmetric] unsigned_take_bit_eq n by (simp add: take_bit_eq_mod)
  then show ?thesis by (simp add: clamp_leading_def word_le_nat_alt Let_def)
qed

section \<open>The block format\<close>

text \<open>A difference lies in the window of \<open>l\<close> leading and \<open>t\<close> trailing zeros.\<close>

definition in_window :: "nat \<Rightarrow> nat \<Rightarrow> u64 \<Rightarrow> bool" where
  "in_window l t d \<longleftrightarrow> l < 32 \<and> l + t < 64 \<and> (\<forall>j. bit d j \<longrightarrow> t \<le> j \<and> j < 64 - l)"

text \<open>One value after \<open>p\<close>, the window before and after.\<close>

inductive gor_item :: "(nat \<times> nat) option \<Rightarrow> u64 \<Rightarrow> u64 \<Rightarrow> bool list \<Rightarrow> (nat \<times> nat) option \<Rightarrow> bool" where
  same: "gor_item w p p [False] w"
| reuse: "in_window l t (v XOR p) \<Longrightarrow>
    gor_item (Some (l, t)) p v ([True, False] @ lo_bits (64 - l - t) (drop_bit t (v XOR p))) (Some (l, t))"
| fresh: "in_window l t (v XOR p) \<Longrightarrow>
    gor_item w p v ([True, True] @ lo_bits 5 (of_nat l) @ lo_bits 6 (of_nat (64 - l - t)) @
      lo_bits (64 - l - t) (drop_bit t (v XOR p))) (Some (l, t))"

text \<open>The values after \<open>p\<close>, the sentinel, and padding.\<close>

inductive gor_fmt :: "(nat \<times> nat) option \<Rightarrow> u64 \<Rightarrow> u64 list \<Rightarrow> bool list \<Rightarrow> bool" where
  stop: "gor_item w p uvnan bs w' \<Longrightarrow> p \<noteq> uvnan \<Longrightarrow> gor_fmt w p [] (bs @ pad)"
| more: "gor_item w p v bs w' \<Longrightarrow> v \<noteq> uvnan \<Longrightarrow> gor_fmt w' v vs cs \<Longrightarrow> gor_fmt w p (v # vs) (bs @ cs)"

inductive gor_stream :: "u64 list \<Rightarrow> bool list \<Rightarrow> bool" where
  none: "gor_stream [] (lo_bits 64 uvnan @ pad)"
| some: "v \<noteq> uvnan \<Longrightarrow> gor_fmt None v vs bs \<Longrightarrow> gor_stream (v # vs) (lo_bits 64 v @ bs)"

inductive_cases gor_fmt_NilE: "gor_fmt w p [] bs"
inductive_cases gor_fmt_ConsE: "gor_fmt w p (v # vs) bs"

inductive float_fmt :: "bytes \<Rightarrow> u64 list \<Rightarrow> bool" where
  "gor_stream vs (bits_of data) \<Longrightarrow> float_fmt (h # data) vs"

lemma window_restore: "in_window l t d \<Longrightarrow> push_bit t (take_bit (64 - l - t) (drop_bit t d)) = d"
  by (rule bit_word_eqI) (auto simp: in_window_def bit_simps less_diff_conv2)

section \<open>The decoder reads the format\<close>

lemma read_bit_Cons: "br_rep r (b # bs) \<Longrightarrow> \<exists>r'. read_bit r = (Inr b, r') \<and> br_rep r' bs"
  using ReadBit_Cons ReadBitFast_Cons by (fastforce simp: read_bit_def split: prod.split)

lemma ReadBits_lo:
  assumes "br_rep r (lo_bits m v @ bs)" and "1 \<le> m" "m \<le> 64"
  shows "\<exists>r'. ReadBits m r = (Inr (take_bit m v), r') \<and> br_rep r' bs"
  using ReadBits_append [OF assms(1) _ assms(2,3)] assms(3) by (simp add: bits_val_lo_bits)

lemma unat_window:
  assumes "l + t < 64"
  shows "unat (64 - of_nat l - of_nat t :: u64) = 64 - l - t"
proof -
  have "(64 - of_nat l - of_nat t :: u64) = of_nat (64 - l - t)" using assms by (simp add: of_nat_diff)
  then show ?thesis using unat_of_nat_small [of "64 - l - t"] by simp
qed

lemma fd_value_window:
  assumes "br_rep (fd_br it) (lo_bits (64 - l - t) (drop_bit t d) @ bs)" and w: "in_window l t d"
    and "fd_leading it = of_nat l" "fd_trailing it = of_nat t"
  shows "\<exists>br. br_rep br bs \<and> fd_value it =
    (if fd_val it XOR d = uvnan then (False, it\<lparr>fd_br := br, fd_finished := True\<rparr>)
     else (True, it\<lparr>fd_br := br, fd_val := fd_val it XOR d\<rparr>))"
proof -
  have l: "l + t < 64" using w by (simp add: in_window_def)
  then have "unat (of_nat t :: u64) = t" by (intro unat_of_nat_small) simp
  moreover have m: "1 \<le> 64 - l - t" "64 - l - t \<le> 64" using l by arith+
  moreover from ReadBits_lo [OF assms(1) m] obtain br
    where "ReadBits (64 - l - t) (fd_br it) = (Inr (take_bit (64 - l - t) (drop_bit t d)), br)" "br_rep br bs" by auto
  ultimately show ?thesis
    using assms(3,4) unat_window [OF l] window_restore [OF w] by (auto simp: fd_value_def Let_def)
qed

lemma fd_window_fresh:
  assumes "br_rep (fd_br it) (lo_bits 5 (of_nat l) @ lo_bits 6 (of_nat (64 - l - t)) @ bs)" and "in_window l t d"
  shows "\<exists>br. br_rep br bs \<and> fd_window it = (Inr (), it\<lparr>fd_br := br, fd_leading := of_nat l, fd_trailing := of_nat t\<rparr>)"
proof -
  have l: "l < 32" "l + t < 64" using assms(2) by (simp_all add: in_window_def)
  from ReadBits_lo [OF assms(1)] obtain b1 where b1: "ReadBits 5 (fd_br it) = (Inr (take_bit 5 (of_nat l)), b1)"
    "br_rep b1 (lo_bits 6 (of_nat (64 - l - t)) @ bs)" by auto
  from ReadBits_lo [OF b1(2)] obtain b2 where b2: "ReadBits 6 b1 = (Inr (take_bit 6 (of_nat (64 - l - t))), b2)"
    "br_rep b2 bs" by auto
  have "take_bit 5 (of_nat l :: u64) = of_nat l"
    using l(1) unat_of_nat_small [of l] by (intro take_bit_eq_selfI) simp
  moreover have "(let m = take_bit 6 (of_nat (64 - l - t) :: u64) in if m = 0 then 64 else m) = of_nat (64 - l - t)"
  proof (cases "l + t = 0")
    case True
    then show ?thesis by simp
  next
    case False
    then have "64 - l - t < 64" by simp
    then have u: "unat (of_nat (64 - l - t) :: u64) = 64 - l - t" by (intro unat_of_nat_small) simp
    then have "take_bit 6 (of_nat (64 - l - t) :: u64) = of_nat (64 - l - t)"
      using \<open>64 - l - t < 64\<close> by (intro take_bit_eq_selfI) simp
    moreover have "(of_nat (64 - l - t) :: u64) \<noteq> 0" using u l by (metis unat_0 zero_less_diff diff_diff_left less_numeral_extra(3))
    ultimately show ?thesis by simp
  qed
  moreover have "64 - of_nat l - of_nat (64 - l - t) = (of_nat t :: u64)" using l by (simp add: of_nat_diff)
  ultimately show ?thesis using b1 b2 by (auto simp: fd_window_def Let_def)
qed

text \<open>The decoder's fields hold the window, once there is one.\<close>

definition fd_holds :: "(nat \<times> nat) option \<Rightarrow> float_decoder \<Rightarrow> bool" where
  "fd_holds w it \<longleftrightarrow> (case w of None \<Rightarrow> True | Some (l, t) \<Rightarrow> fd_leading it = of_nat l \<and> fd_trailing it = of_nat t)"

definition fd_rep :: "float_decoder \<Rightarrow> u64 list \<Rightarrow> bool" where
  "fd_rep it vs \<longleftrightarrow> fd_err it = None \<and>
     (if fd_finished it then vs = []
      else if fd_first it then
        (case vs of [] \<Rightarrow> fd_val it = uvnan
         | v # vs' \<Rightarrow> fd_val it = v \<and> v \<noteq> uvnan \<and> (\<exists>bs. br_rep (fd_br it) bs \<and> gor_fmt None v vs' bs))
      else fd_val it \<noteq> uvnan \<and> (\<exists>w bs. br_rep (fd_br it) bs \<and> gor_fmt w (fd_val it) vs bs \<and> fd_holds w it))"

definition fd_live :: "float_decoder \<Rightarrow> bool" where
  "fd_live it \<longleftrightarrow> fd_err it = None \<and> \<not> fd_finished it \<and> \<not> fd_first it"

lemma Next_same: "fd_live it \<Longrightarrow> read_bit (fd_br it) = (Inr False, r) \<Longrightarrow> FloatDecoder_Next it = (True, it\<lparr>fd_br := r\<rparr>)"
  by (simp add: FloatDecoder_Next_def fd_live_def)

lemma Next_reuse:
  "fd_live it \<Longrightarrow> read_bit (fd_br it) = (Inr True, r1) \<Longrightarrow> read_bit r1 = (Inr False, r2) \<Longrightarrow>
    FloatDecoder_Next it = fd_value (it\<lparr>fd_br := r2\<rparr>)"
  by (simp add: FloatDecoder_Next_def fd_live_def)

lemma Next_fresh:
  "fd_live it \<Longrightarrow> read_bit (fd_br it) = (Inr True, r1) \<Longrightarrow> read_bit r1 = (Inr True, r2) \<Longrightarrow>
    fd_window (it\<lparr>fd_br := r2\<rparr>) = (Inr (), it') \<Longrightarrow> FloatDecoder_Next it = fd_value it'"
  by (simp add: FloatDecoder_Next_def fd_live_def)

lemma xor_restore: "p XOR (v XOR p) = (v :: u64)"
  by (metis xor.assoc xor.commute xor_self_eq xor.right_neutral)

text \<open>One step of the decoder on one item.\<close>

lemma FloatDecoder_item:
  assumes "gor_item w (fd_val it) v bs w'" and b: "br_rep (fd_br it) (bs @ cs)" and h: "fd_holds w it"
    and live: "fd_live it" and p: "fd_val it \<noteq> uvnan"
  shows "\<exists>it'. FloatDecoder_Next it = (v \<noteq> uvnan, it') \<and> fd_err it' = None \<and> fd_finished it' = (v = uvnan) \<and>
    \<not> fd_first it' \<and> (v \<noteq> uvnan \<longrightarrow> fd_val it' = v \<and> br_rep (fd_br it') cs \<and> fd_holds w' it')"
  using assms(1)
proof (cases rule: gor_item.cases)
  case same
  with b read_bit_Cons obtain r where "read_bit (fd_br it) = (Inr False, r)" "br_rep r cs" by fastforce
  with Next_same [OF live this(1)] same h p live show ?thesis
    by (auto simp: fd_holds_def fd_live_def split: option.splits)
next
  case (reuse l t)
  let ?ds = "lo_bits (64 - l - t) (drop_bit t (v XOR fd_val it)) @ cs"
  from reuse b obtain r1 where r1: "read_bit (fd_br it) = (Inr True, r1)" "br_rep r1 (False # ?ds)"
    using read_bit_Cons [of "fd_br it" True] by auto
  from read_bit_Cons [OF this(2)] obtain r2 where r2: "read_bit r1 = (Inr False, r2)" "br_rep r2 ?ds" by blast
  from fd_value_window [of "it\<lparr>fd_br := r2\<rparr>" l t "v XOR fd_val it" cs] r2 reuse h Next_reuse [OF live r1(1) r2(1)] live
  show ?thesis by (auto simp: fd_holds_def fd_live_def xor_restore)
next
  case (fresh l t)
  let ?ds = "lo_bits (64 - l - t) (drop_bit t (v XOR fd_val it)) @ cs"
  let ?hs = "lo_bits 5 (of_nat l) @ lo_bits 6 (of_nat (64 - l - t)) @ ?ds"
  from fresh b obtain r1 where r1: "read_bit (fd_br it) = (Inr True, r1)" "br_rep r1 (True # ?hs)"
    using read_bit_Cons [of "fd_br it" True] by auto
  from read_bit_Cons [OF this(2)] obtain r2 where r2: "read_bit r1 = (Inr True, r2)" "br_rep r2 ?hs" by blast
  from fd_window_fresh [of "it\<lparr>fd_br := r2\<rparr>" l t ?ds "v XOR fd_val it"] r2 fresh obtain r3 where r3: "br_rep r3 ?ds"
    "fd_window (it\<lparr>fd_br := r2\<rparr>) = (Inr (), it\<lparr>fd_br := r3, fd_leading := of_nat l, fd_trailing := of_nat t\<rparr>)" by auto
  from fd_value_window [of "it\<lparr>fd_br := r3, fd_leading := of_nat l, fd_trailing := of_nat t\<rparr>" l t "v XOR fd_val it" cs]
    r3 fresh Next_fresh [OF live r1(1) r2(1) r3(2)] live
  show ?thesis by (auto simp: fd_holds_def fd_live_def xor_restore)
qed

interpretation floatd: value_decoder FloatDecoder_Next FloatDecoder_Values fd_err fd_rep
proof
  fix it :: float_decoder
  assume r: "fd_rep it []"
  show "\<exists>s'. FloatDecoder_Next it = (False, s') \<and> fd_rep s' []"
  proof (cases "fd_finished it \<or> fd_first it")
    case True
    with r show ?thesis by (auto simp: fd_rep_def FloatDecoder_Next_def split: if_splits)
  next
    case False
    with r obtain w bs where "br_rep (fd_br it) bs" "gor_fmt w (fd_val it) [] bs" "fd_holds w it" "fd_val it \<noteq> uvnan"
      "fd_err it = None" by (auto simp: fd_rep_def)
    then obtain as w' pad where "gor_item w (fd_val it) uvnan as w'" "bs = as @ pad" by (auto elim: gor_fmt_NilE)
    with FloatDecoder_item [of w it uvnan as w' pad] \<open>br_rep (fd_br it) bs\<close> \<open>fd_holds w it\<close> \<open>fd_val it \<noteq> uvnan\<close>
      \<open>fd_err it = None\<close> False show ?thesis by (auto simp: fd_rep_def fd_live_def)
  qed
next
  fix it :: float_decoder and v vs
  assume r: "fd_rep it (v # vs)"
  show "\<exists>s' s''. FloatDecoder_Next it = (True, s') \<and> FloatDecoder_Values s' = (v, s'') \<and> fd_rep s'' vs"
  proof (cases "fd_first it")
    case True
    with r show ?thesis
      by (auto simp: fd_rep_def FloatDecoder_Next_def FloatDecoder_Values_def fd_holds_def split: if_splits option.splits)
  next
    case False
    with r obtain w bs where b: "br_rep (fd_br it) bs" "gor_fmt w (fd_val it) (v # vs) bs" "fd_holds w it" "fd_val it \<noteq> uvnan"
      "fd_err it = None" "\<not> fd_finished it" by (auto simp: fd_rep_def split: if_splits)
    then obtain as w' cs where "gor_item w (fd_val it) v as w'" "bs = as @ cs" "v \<noteq> uvnan" "gor_fmt w' v vs cs"
      by (auto elim: gor_fmt_ConsE)
    with FloatDecoder_item [of w it v as w' cs] b False show ?thesis
      by (auto simp: fd_rep_def FloatDecoder_Values_def fd_live_def)
  qed
qed (simp add: fd_rep_def)

lemma float_fmt_SetBytes:
  assumes "float_fmt b vs"
  shows "\<exists>it'. FloatDecoder_SetBytes b it = (None, it') \<and> fd_rep it' vs"
  using assms
proof (cases rule: float_fmt.cases)
  case (1 data h)
  have r: "br_rep (BitReader_Reset data (fd_br it)) (bits_of data)" by (rule br_rep_Reset)
  from 1(2) show ?thesis
  proof (cases rule: gor_stream.cases)
    case (none pad)
    with r ReadBits_lo [of _ 64 uvnan pad] obtain r' where
      "ReadBits 64 (BitReader_Reset data (fd_br it)) = (Inr (take_bit 64 uvnan), r')" by force
    with none 1(1) show ?thesis by (simp add: FloatDecoder_SetBytes_def fd_rep_def take_bit_word_eq_self)
  next
    case (some v vs' bs)
    with r ReadBits_lo [of _ 64 v bs] obtain r' where
      "ReadBits 64 (BitReader_Reset data (fd_br it)) = (Inr (take_bit 64 v), r')" "br_rep r' bs" by force
    with some 1(1) show ?thesis by (auto simp: FloatDecoder_SetBytes_def fd_rep_def take_bit_word_eq_self)
  qed
qed

section \<open>The encoder produces the format\<close>

definition fe_out :: "('w \<Rightarrow> bool list) \<Rightarrow> 'w float_encoder \<Rightarrow> bool list" where
  "fe_out pend s = bits_of (fe_buf s) @ pend (fe_bw s)"

definition fe_win :: "'w float_encoder \<Rightarrow> (nat \<times> nat) option" where
  "fe_win s = (if fe_leading s = NOT 0 then None else Some (unat (fe_leading s), unat (fe_trailing s)))"

definition fe_inv :: "'w float_encoder \<Rightarrow> bool" where
  "fe_inv s \<longleftrightarrow> (case fe_win s of None \<Rightarrow> True | Some (l, t) \<Rightarrow> l < 32 \<and> l + t < 64)"

lemma fe_bit_fields [simp]:
  "fe_val (fe_bit W b s) = fe_val s" "fe_err (fe_bit W b s) = fe_err s" "fe_leading (fe_bit W b s) = fe_leading s"
  "fe_trailing (fe_bit W b s) = fe_trailing s" "fe_first (fe_bit W b s) = fe_first s"
  "fe_finished (fe_bit W b s) = fe_finished s"
  by (simp_all add: fe_bit_def split: prod.split)

lemma fe_bits_fields [simp]:
  "fe_val (fe_bits W v n s) = fe_val s" "fe_err (fe_bits W v n s) = fe_err s"
  "fe_leading (fe_bits W v n s) = fe_leading s" "fe_trailing (fe_bits W v n s) = fe_trailing s"
  "fe_first (fe_bits W v n s) = fe_first s" "fe_finished (fe_bits W v n s) = fe_finished s"
  by (simp_all add: fe_bits_def split: prod.split)

lemma bit_stream_okD:
  assumes "bit_stream_ok W pend"
  shows "pend (bw_New W) = []" and "pend (bw_Resume W 0 8 w) = []"
    and "bits_of (snd (bw_WriteBit W b w buf)) @ pend (fst (bw_WriteBit W b w buf)) = bits_of buf @ pend w @ [b]"
    and "n \<le> 64 \<Longrightarrow>
      bits_of (snd (bw_WriteBits W v n w buf)) @ pend (fst (bw_WriteBits W v n w buf)) = bits_of buf @ pend w @ lo_bits n v"
    and "pend (fst (bw_Flush W b w buf)) = []"
    and "\<exists>k<8. bits_of (snd (bw_Flush W b w buf)) = bits_of buf @ pend w @ replicate k b"
  using assms unfolding bit_stream_ok_def case_prod_beta by blast+

lemma fe_out_bit:
  assumes "bit_stream_ok W pend"
  shows "fe_out pend (fe_bit W b s) = fe_out pend s @ [b]"
  using bit_stream_okD(3) [OF assms, of b "fe_bw s" "fe_buf s"] by (simp add: fe_out_def fe_bit_def case_prod_beta)

lemma fe_out_bits:
  assumes "bit_stream_ok W pend" and "n \<le> 64"
  shows "fe_out pend (fe_bits W v n s) = fe_out pend s @ lo_bits n v"
  using bit_stream_okD(4) [OF assms, of v "fe_bw s" "fe_buf s"] by (simp add: fe_out_def fe_bits_def case_prod_beta)

lemma fe_win_fields [simp]:
  "fe_win (fe_bit W b s) = fe_win s" "fe_win (fe_bits W v n s) = fe_win s" "fe_win (s\<lparr>fe_val := v\<rparr>) = fe_win s"
  "fe_win (s\<lparr>fe_finished := f\<rparr>) = fe_win s" "fe_win (s\<lparr>fe_first := f\<rparr>) = fe_win s"
  by (simp_all add: fe_win_def)

lemma fe_out_upd [simp]:
  "fe_out pend (s\<lparr>fe_val := v\<rparr>) = fe_out pend s"
  "fe_out pend (s\<lparr>fe_first := fi\<rparr>) = fe_out pend s"
  "fe_out pend (s\<lparr>fe_finished := fi\<rparr>) = fe_out pend s"
  "fe_out pend (s\<lparr>fe_leading := l\<rparr>) = fe_out pend s"
  "fe_out pend (s\<lparr>fe_trailing := l\<rparr>) = fe_out pend s"
  by (simp_all add: fe_out_def)

lemma sint_eq_unat: "unat (w :: u64) < 2 ^ 63 \<Longrightarrow> sint w = int (unat w)"
  using sint_of_nat_small [of "unat w"] by simp

lemma in_window_zeros:
  assumes "d \<noteq> 0" and "l \<le> LeadingZeros64 d mod 32" and "t \<le> TrailingZeros64 d"
  shows "in_window l t d"
proof -
  have m: "LeadingZeros64 d mod 32 < 32" "LeadingZeros64 d mod 32 \<le> LeadingZeros64 d" by simp_all
  have b: "t \<le> j \<and> j < 64 - l" if "bit d j" for j
  proof -
    have "j < 64" using that by (auto dest: bit_imp_le_length)
    with that TrailingZeros64_below [of j d] LeadingZeros64_above [of j d] assms m show ?thesis by fastforce
  qed
  from m assms(2) have "l < 32" by linarith
  moreover have "l + t < 64" using zeros_bound [OF assms(1)] m assms(2,3) by linarith
  ultimately show ?thesis using b by (simp add: in_window_def)
qed

lemma fe_write_delta_item:
  assumes W: "bit_stream_ok W pend" and inv: "fe_inv s" and d: "v XOR fe_val s \<noteq> 0"
  shows "\<exists>bs. gor_item (fe_win s) (fe_val s) v bs (fe_win (fe_write_delta W (v XOR fe_val s) s)) \<and>
    fe_out pend (fe_write_delta W (v XOR fe_val s) s) = fe_out pend s @ bs \<and>
    fe_inv (fe_write_delta W (v XOR fe_val s) s)"
proof -
  define d where "d = v XOR fe_val s"
  define lead :: u64 where "lead = clamp_leading (of_nat (LeadingZeros64 d))"
  define trail :: u64 where "trail = of_nat (TrailingZeros64 d)"
  have d0: "d \<noteq> 0" using d by (simp add: d_def)
  note zb = zeros_bound [OF d0]
  have ul: "unat lead = LeadingZeros64 d mod 32" unfolding lead_def using LeadingZeros64_le by (rule unat_clamp)
  have ut: "unat trail = TrailingZeros64 d" unfolding trail_def using zb by (intro unat_of_nat_small) simp
  show ?thesis
  proof (cases "fe_leading s \<noteq> NOT 0 \<and> lead \<ge> fe_leading s \<and> trail \<ge> fe_trailing s")
    case True
    define l where "l = unat (fe_leading s)"
    define t where "t = unat (fe_trailing s)"
    have w: "fe_win s = Some (l, t)" using True by (simp add: fe_win_def l_def t_def)
    with inv have lt: "l < 32" "l + t < 64" by (simp_all add: fe_inv_def)
    have iw: "in_window l t d" using d0 by (rule in_window_zeros) (use True ul ut in \<open>auto simp: l_def t_def word_le_nat_alt\<close>)
    have n: "nat (64 - sint (fe_leading s) - sint (fe_trailing s)) = 64 - l - t"
      using lt by (simp add: sint_eq_unat flip: l_def t_def)
    have e: "fe_write_delta W d s = fe_bits W (drop_bit t d) (64 - l - t) (fe_bit W False (fe_bit W True s))"
      using True n by (simp add: fe_write_delta_def Let_def lead_def trail_def t_def)
    have "gor_item (Some (l, t)) (fe_val s) v ([True, False] @ lo_bits (64 - l - t) (drop_bit t d)) (Some (l, t))"
      unfolding d_def by (rule gor_item.reuse) (use iw d_def in simp)
    moreover have "fe_win (fe_write_delta W d s) = Some (l, t)" using w by (simp add: e)
    moreover have "fe_inv (fe_write_delta W d s)" using lt calculation(2) by (simp add: fe_inv_def)
    ultimately show ?thesis using w by (auto simp: e fe_out_bit [OF W] fe_out_bits [OF W] simp flip: d_def)
  next
    case False
    define l where "l = unat lead"
    define t where "t = unat trail"
    have iw: "in_window l t d" using d0 by (rule in_window_zeros) (use ul ut in \<open>simp_all add: l_def t_def\<close>)
    then have lt: "l < 32" "l + t < 64" by (simp_all add: in_window_def)
    have sg: "64 - lead - trail = of_nat (64 - l - t)" using lt by (simp add: l_def t_def of_nat_diff)
    have n: "nat (sint (64 - lead - trail)) = 64 - l - t" using lt sint_of_nat_small [of "64 - l - t"] by (simp add: sg)
    have e: "fe_write_delta W d s = fe_bits W (drop_bit t d) (64 - l - t) (fe_bits W (of_nat (64 - l - t)) 6
        (fe_bits W (of_nat l) 5 (fe_bit W True ((fe_bit W True s)\<lparr>fe_leading := lead, fe_trailing := trail\<rparr>))))"
      using False n unfolding fe_write_delta_def Let_def lead_def [symmetric] trail_def [symmetric] sg
      by (auto simp: t_def l_def)
    have ne: "lead \<noteq> NOT 0"
    proof
      assume "lead = NOT 0"
      then have "bit lead 40" by (simp add: bit_simps)
      with lt(1) high_bit_zero [of lead 5 40] show False by (simp add: l_def)
    qed
    have "gor_item (fe_win s) (fe_val s) v ([True, True] @ lo_bits 5 (of_nat l) @ lo_bits 6 (of_nat (64 - l - t)) @
        lo_bits (64 - l - t) (drop_bit t d)) (Some (l, t))"
      unfolding d_def by (rule gor_item.fresh) (use iw d_def in simp)
    moreover have "fe_win (fe_write_delta W d s) = Some (l, t)" using ne by (simp add: e) (simp add: fe_win_def l_def t_def)
    moreover have "fe_inv (fe_write_delta W d s)" using lt calculation(2) by (simp add: fe_inv_def)
    ultimately show ?thesis by (auto simp: e fe_out_bit [OF W] fe_out_bits [OF W] simp flip: d_def)
  qed
qed

lemma FloatEncoder_Write_item:
  assumes W: "bit_stream_ok W pend" and inv: "fe_inv s" and "\<not> fe_first s" and "IsNaN v \<longrightarrow> fe_finished s"
  shows "\<exists>bs. gor_item (fe_win s) (fe_val s) v bs (fe_win (FloatEncoder_Write W s v)) \<and>
    fe_out pend (FloatEncoder_Write W s v) = fe_out pend s @ bs \<and> fe_inv (FloatEncoder_Write W s v)"
proof (cases "v XOR fe_val s = 0")
  case True
  then have v: "v = fe_val s" by (metis xor_restore xor.right_neutral)
  have "FloatEncoder_Write W s v = (fe_bit W False s)\<lparr>fe_val := v\<rparr>"
    using assms(3,4) True by (auto simp: FloatEncoder_Write_def)
  with inv gor_item.same [of "fe_win s" v] v show ?thesis by (auto simp: fe_out_bit [OF W] fe_inv_def)
next
  case False
  have "FloatEncoder_Write W s v = (fe_write_delta W (v XOR fe_val s) s)\<lparr>fe_val := v\<rparr>"
    using assms(3,4) False by (auto simp: FloatEncoder_Write_def)
  with fe_write_delta_item [OF W inv False] show ?thesis by (auto simp: fe_inv_def)
qed

lemma fe_write_delta_fields [simp]:
  "fe_err (fe_write_delta W d s) = fe_err s" "fe_first (fe_write_delta W d s) = fe_first s"
  "fe_finished (fe_write_delta W d s) = fe_finished s"
  by (simp_all add: fe_write_delta_def Let_def)

lemma FloatEncoder_Write_fields:
  assumes "IsNaN v \<longrightarrow> fe_finished s"
  shows "fe_err (FloatEncoder_Write W s v) = fe_err s" "fe_finished (FloatEncoder_Write W s v) = fe_finished s"
    "fe_val (FloatEncoder_Write W s v) = v" "\<not> fe_first (FloatEncoder_Write W s v)"
  using assms by (auto simp: FloatEncoder_Write_def Let_def)

text \<open>
  An encoder after \<open>vs\<close>: whatever continues the stream from its state, values \<open>us\<close> in bits \<open>tl\<close>,
  makes the stream of \<open>vs @ us\<close>.
\<close>

definition fe_rep :: "('w \<Rightarrow> bool list) \<Rightarrow> 'w float_encoder \<Rightarrow> u64 list \<Rightarrow> bool" where
  "fe_rep pend s vs \<longleftrightarrow> fe_err s = None \<and> \<not> fe_finished s \<and> fe_inv s \<and>
     (if fe_first s then vs = [] \<and> fe_out pend s = byte_bits 16 \<and> fe_win s = None
      else fe_val s \<noteq> uvnan \<and> (\<forall>us tl. gor_fmt (fe_win s) (fe_val s) us tl \<longrightarrow>
        (\<exists>st. gor_stream (vs @ us) st \<and> fe_out pend s @ tl = byte_bits 16 @ st)))"

lemma IsNaN_uvnan [simp]: "IsNaN uvnan"
  by code_simp

lemma fe_rep_init:
  assumes "bit_stream_ok W pend" and "e = NewFloatEncoder W \<or> (\<exists>e0. e = FloatEncoder_Reset W e0)"
  shows "fe_rep pend e []"
proof -
  have "push_bit 4 floatCompressedGorilla = 16" by (simp add: floatCompressedGorilla_def)
  with assms bit_stream_okD(1,2) [OF assms(1)] show ?thesis
    by (auto simp: fe_rep_def NewFloatEncoder_def FloatEncoder_Reset_def fe_inv_def fe_win_def fe_out_def)
qed

lemma fe_rep_Write:
  assumes W: "bit_stream_ok W pend" and r: "fe_rep pend s vs" and v: "\<not> IsNaN v"
  shows "fe_rep pend (FloatEncoder_Write W s v) (vs @ [v])"
proof -
  have vn: "v \<noteq> uvnan" using v by auto
  show ?thesis
  proof (cases "fe_first s")
    case True
    then have s: "FloatEncoder_Write W s v = fe_bits W v 64 (s\<lparr>fe_val := v, fe_first := False\<rparr>)"
      using v by (simp add: FloatEncoder_Write_def)
    show ?thesis
      using r True vn gor_stream.some [OF vn] unfolding s fe_rep_def fe_inv_def by (fastforce simp: fe_out_bits [OF W])
  next
    case False
    then have inv: "fe_inv s" using r by (simp add: fe_rep_def)
    from FloatEncoder_Write_item [OF W this False, of v] v obtain bs
      where bs: "gor_item (fe_win s) (fe_val s) v bs (fe_win (FloatEncoder_Write W s v))"
        "fe_out pend (FloatEncoder_Write W s v) = fe_out pend s @ bs" "fe_inv (FloatEncoder_Write W s v)" by auto
    have "\<exists>st. gor_stream ((vs @ [v]) @ us) st \<and> fe_out pend (FloatEncoder_Write W s v) @ tl = byte_bits 16 @ st"
      if "gor_fmt (fe_win (FloatEncoder_Write W s v)) v us tl" for us tl
      using r False gor_fmt.more [OF bs(1) vn that] bs(2) by (auto simp: fe_rep_def)
    with r bs(3) vn FloatEncoder_Write_fields [of v s W] v show ?thesis by (simp add: fe_rep_def)
  qed
qed

lemma fe_rep_fold:
  assumes "bit_stream_ok W pend" and "fe_rep pend s us" and "list_all (\<lambda>v. \<not> IsNaN v) vs"
  shows "fe_rep pend (foldl (FloatEncoder_Write W) s vs) (us @ vs)"
  using assms(2,3)
proof (induction vs arbitrary: s us)
  case (Cons v vs)
  then show ?case using fe_rep_Write [OF assms(1), of s us v] by fastforce
qed simp

lemma byte_fmtI:
  assumes "bits_of buf = byte_bits 16 @ st" and "gor_stream vs st"
  shows "float_fmt buf vs"
proof (cases buf)
  case Nil
  with assms(1) show ?thesis by (metis append_is_Nil_conv bits_of_simps(1) length_byte_bits list.size(3) zero_neq_numeral)
next
  case (Cons h data)
  with assms(1) have "bits_of data = st" by (metis append_eq_append_conv bits_of_simps(2) length_byte_bits)
  with assms(2) Cons show ?thesis by (auto intro: float_fmt.intros)
qed

lemma FloatEncoder_Flush_fmt:
  assumes W: "bit_stream_ok W pend" and r: "fe_rep pend s vs"
  shows "float_fmt (fe_buf (FloatEncoder_Flush W s)) vs \<and> fe_err (FloatEncoder_Flush W s) = None"
proof -
  define s0 where "s0 = s\<lparr>fe_finished := True\<rparr>"
  define s1 where "s1 = FloatEncoder_Write W s0 uvnan"
  have "\<exists>st. fe_out pend s1 = byte_bits 16 @ st \<and> (\<forall>pad. gor_stream vs (st @ pad))"
  proof (cases "fe_first s")
    case True
    then have "s1 = fe_bits W uvnan 64 (s0\<lparr>fe_val := uvnan, fe_first := False\<rparr>)"
      by (simp add: s1_def s0_def FloatEncoder_Write_def)
    with True r gor_stream.none show ?thesis by (auto simp: fe_rep_def fe_out_bits [OF W] s0_def)
  next
    case False
    then have i: "fe_inv s0" "\<not> fe_first s0" "IsNaN uvnan \<longrightarrow> fe_finished s0"
      using r by (simp_all add: fe_rep_def s0_def fe_inv_def)
    from FloatEncoder_Write_item [OF W i] obtain bs w'
      where bs: "gor_item (fe_win s) (fe_val s) uvnan bs w'" "fe_out pend s1 = fe_out pend s @ bs"
      by (auto simp: s1_def s0_def)
    have "fe_val s \<noteq> uvnan" using r False by (simp add: fe_rep_def)
    from gor_fmt.stop [OF bs(1) this] r False have
      st: "\<exists>st. gor_stream vs st \<and> fe_out pend s @ bs @ pad = byte_bits 16 @ st" for pad
      unfolding fe_rep_def by (metis append.right_neutral)
    from st [of "[]"] obtain st0 where "fe_out pend s @ bs = byte_bits 16 @ st0" by auto
    with st bs(2) show ?thesis by (metis append.assoc same_append_eq)
  qed
  then obtain st where st: "fe_out pend s1 = byte_bits 16 @ st" "\<And>pad. gor_stream vs (st @ pad)" by blast
  from bit_stream_okD(6) [OF W, of False "fe_bw s1" "fe_buf s1"] obtain k
    where "bits_of (snd (bw_Flush W False (fe_bw s1) (fe_buf s1))) = fe_out pend s1 @ replicate k False"
    by (auto simp: fe_out_def)
  with st have "float_fmt (snd (bw_Flush W False (fe_bw s1) (fe_buf s1))) vs" by (intro byte_fmtI) simp_all
  moreover have "FloatEncoder_Flush W s = s1\<lparr>fe_bw := fst (bw_Flush W False (fe_bw s1) (fe_buf s1)),
      fe_buf := snd (bw_Flush W False (fe_bw s1) (fe_buf s1))\<rparr>"
    using r by (simp add: FloatEncoder_Flush_def s1_def s0_def fe_rep_def case_prod_beta Let_def)
  moreover have "fe_err s1 = None"
    using r FloatEncoder_Write_fields(1) [of uvnan s0 W] by (simp add: s1_def s0_def fe_rep_def)
  ultimately show ?thesis by simp
qed

section \<open>The decoder on corrupt data\<close>

text \<open>Whatever the bits, the window asks for one to 64 bits.\<close>

definition fd_any :: "float_decoder \<Rightarrow> bool" where
  "fd_any it \<longleftrightarrow> (\<exists>bs. br_rep (fd_br it) bs) \<and>
     1 \<le> unat (64 - fd_leading it - fd_trailing it) \<and> unat (64 - fd_leading it - fd_trailing it) \<le> 64"

definition br_left :: "bit_reader \<Rightarrow> nat" where
  "br_left r = br_n r + 8 * length (br_data r)"

lemma br_left_rep: "br_rep r bs \<Longrightarrow> br_left r = length bs"
  by (auto simp: br_left_def br_rep_def buf_rep_def) (metis add.commute le_add_diff_inverse2 length_bits_of length_drop)

lemma ReadBits_left:
  assumes "br_rep r bs" "1 \<le> m" "m \<le> 64" "ReadBits m r = (x, r')"
  shows "(\<exists>cs. br_rep r' cs) \<and> (case x of Inl _ \<Rightarrow> True | Inr v \<Rightarrow> br_left r' < br_left r \<and> unat v < 2 ^ m)"
proof (cases "bs = []")
  case True
  with assms ReadBits_EOF [of r m] show ?thesis by auto
next
  case False
  from ReadBits_ok [OF assms(1-3) False] assms(4) have x: "x = Inr (bits_val (next_bits m bs))" "br_rep r' (drop m bs)" by auto
  have "take_bit m (bits_val (next_bits m bs)) = bits_val (next_bits m bs)"
    by (rule bit_word_eqI) (auto simp: bit_take_bit_iff bit_bits_val)
  then have "unat (bits_val (next_bits m bs)) < 2 ^ m"
    by (metis take_bit_nat_less_exp unsigned_take_bit_eq)
  with x br_left_rep [OF assms(1)] br_left_rep [OF x(2)] False assms(2) show ?thesis by auto
qed

lemma read_bit_left:
  assumes "br_rep r bs" "read_bit r = (x, r')"
  shows "(\<exists>cs. br_rep r' cs) \<and> (case x of Inl _ \<Rightarrow> True | Inr v \<Rightarrow> br_left r' < br_left r)"
proof (cases bs)
  case Nil
  then have "\<not> CanReadBitFast r" using assms(1) br_rep_empty_iff [of r bs] by (simp add: CanReadBitFast_def)
  with assms Nil ReadBit_EOF [of r] show ?thesis by (auto simp: read_bit_def)
next
  case (Cons b cs)
  with read_bit_Cons [of r b cs] assms br_left_rep show ?thesis by fastforce
qed
lemma fd_value_left:
  assumes "fd_any it" "fd_value it = (b, it')"
  shows "fd_any it' \<and> (b \<longrightarrow> br_left (fd_br it') < br_left (fd_br it) \<and> fd_first it' = fd_first it)"
proof -
  define m where "m = unat (64 - fd_leading it - fd_trailing it)"
  obtain x r where x: "ReadBits m (fd_br it) = (x, r)" by fastforce
  from assms(1) obtain bs where "br_rep (fd_br it) bs" "1 \<le> m" "m \<le> 64" by (auto simp: fd_any_def m_def)
  from ReadBits_left [OF this x] assms x show ?thesis
    by (auto simp: fd_value_def fd_any_def Let_def m_def split: sum.splits if_splits)
qed

lemma fd_window_left:
  assumes "br_rep (fd_br it) bs" "fd_window it = (Inr u, it')"
  shows "fd_any it' \<and> br_left (fd_br it') < br_left (fd_br it) \<and> fd_first it' = fd_first it"
proof -
  obtain x r where x: "ReadBits 5 (fd_br it) = (x, r)" by fastforce
  from ReadBits_left [OF assms(1) _ _ x] obtain cs where r: "br_rep r cs" by auto
  obtain y r' where y: "ReadBits 6 r = (y, r')" by fastforce
  from assms(2) x y obtain l m where lm: "x = Inr l" "y = Inr m" by (auto simp: fd_window_def split: sum.splits)
  from ReadBits_left [OF assms(1) _ _ x] ReadBits_left [OF r _ _ y] lm
  have b: "\<exists>cs. br_rep r' cs" "br_left r' < br_left (fd_br it)" "unat m < 64" by auto
  have "1 \<le> unat (if m = 0 then 64 else m)" "unat (if m = 0 then 64 else m) \<le> 64"
    using b(3) by (auto simp: Suc_le_eq unat_gt_0)
  with assms(2) x y lm b show ?thesis by (auto simp: fd_window_def fd_any_def Let_def)
qed

lemma FloatDecoder_Next_left:
  assumes "fd_any it" "FloatDecoder_Next it = (True, it')"
  shows "fd_any it' \<and> (\<not> fd_first it' \<and> (fd_first it \<and> br_left (fd_br it') = br_left (fd_br it) \<or>
    \<not> fd_first it \<and> br_left (fd_br it') < br_left (fd_br it)))"
proof (cases "fd_first it")
  case True
  with assms show ?thesis by (auto simp: FloatDecoder_Next_def fd_any_def split: if_splits)
next
  case False
  then have live: "fd_live it" using assms(2) by (auto simp: FloatDecoder_Next_def fd_live_def split: if_splits)
  from assms(1) obtain bs where bs: "br_rep (fd_br it) bs" by (auto simp: fd_any_def)
  obtain x r1 where x: "read_bit (fd_br it) = (x, r1)" by fastforce
  with assms(2) False obtain c where c: "x = Inr c" by (auto simp: FloatDecoder_Next_def split: if_splits sum.splits)
  from read_bit_left [OF bs x] c obtain cs where cs: "br_rep r1 cs" "br_left r1 < br_left (fd_br it)" by auto
  show ?thesis
  proof (cases c)
    case False
    with Next_same [OF live, of r1] x c cs assms \<open>\<not> fd_first it\<close> show ?thesis by (auto simp: fd_any_def)
  next
    case True
    obtain y r2 where y: "read_bit r1 = (y, r2)" by fastforce
    with assms(2) x c True \<open>\<not> fd_first it\<close> obtain c2 where c2: "y = Inr c2"
      by (auto simp: FloatDecoder_Next_def split: if_splits sum.splits)
    from read_bit_left [OF cs(1) y] c2 obtain ds where ds: "br_rep r2 ds" "br_left r2 < br_left r1" by auto
    show ?thesis
    proof (cases c2)
      case False
      have "fd_any (it\<lparr>fd_br := r2\<rparr>)" using assms(1) ds by (auto simp: fd_any_def)
      with Next_reuse [OF live, of r1 r2] fd_value_left [of "it\<lparr>fd_br := r2\<rparr>"] x c y c2 True False assms(2) ds cs \<open>\<not> fd_first it\<close>
      show ?thesis by fastforce
    next
      case c2T: True
      obtain z it1 where z: "fd_window (it\<lparr>fd_br := r2\<rparr>) = (z, it1)" by fastforce
      with assms(2) x c y c2 True c2T \<open>\<not> fd_first it\<close> obtain u where u: "z = Inr u"
        by (auto simp: FloatDecoder_Next_def split: if_splits sum.splits)
      from fd_window_left [of "it\<lparr>fd_br := r2\<rparr>"] ds z u have
        w: "fd_any it1" "br_left (fd_br it1) < br_left r2" "fd_first it1 = fd_first it" by auto
      with Next_fresh [OF live, of r1 r2 it1] fd_value_left [OF w(1)] x c y c2 True c2T z u assms(2) ds cs \<open>\<not> fd_first it\<close>
      show ?thesis by fastforce
    qed
  qed
qed

lemma float_drain_ends:
  assumes "FloatDecoder_SetBytes b d = (None, d')"
  shows "\<exists>r. drain FloatDecoder_Next FloatDecoder_Values d' [] = Some r"
proof (rule drain_terminates)
  let ?m = "\<lambda>it. br_left (fd_br it) + (if fd_first it then 1 else 0)"
  let ?I = "\<lambda>it. fd_any it \<or> fd_first it \<and> fd_val it = uvnan"
  show "wf (measure ?m)" by simp
  show "?I d'"
  proof (cases "b = []")
    case True
    with assms show ?thesis by (auto simp: FloatDecoder_SetBytes_def)
  next
    case False
    obtain x r where x: "ReadBits 64 (BitReader_Reset (drop 1 b) (fd_br d)) = (x, r)" by fastforce
    from ReadBits_left [OF br_rep_Reset _ _ x] assms x False show ?thesis
      by (auto simp: FloatDecoder_SetBytes_def fd_any_def split: sum.splits)
  qed
  fix s s' v s''
  assume I: "?I s" and n: "FloatDecoder_Next s = (True, s')" and v: "FloatDecoder_Values s' = (v, s'')"
  from n have "\<not> (fd_first s \<and> fd_val s = uvnan)" by (auto simp: FloatDecoder_Next_def split: if_splits)
  with I FloatDecoder_Next_left [of s s'] n v show "?I s'' \<and> (s'', s) \<in> measure ?m"
    by (auto simp: FloatDecoder_Values_def)
qed

section \<open>The writer instance\<close>

lemma byte_bits_bits_val: "length xs = 8 \<Longrightarrow> byte_bits (ucast (bits_val xs)) = xs"
  by (rule nth_equalityI) (auto simp: nth_byte_bits bit_simps bit_bits_val)

lemma emit_bit_ok: "bits_of (snd (emit_bit b w buf)) @ take 7 (fst (emit_bit b w buf)) = bits_of buf @ take 7 w @ [b]"
  by (auto simp: emit_bit_def byte_bits_bits_val)

lemma emit_bits_ok: "bits_of (snd (emit_bits bs w buf)) @ take 7 (fst (emit_bits bs w buf)) = bits_of buf @ take 7 w @ bs"
proof (induction bs arbitrary: w buf)
  case (Cons b bs)
  then show ?case using emit_bit_ok [of b w buf] by (simp add: case_prod_beta)
qed simp

lemma emit_bits_full: "length w + length bs = 8 \<Longrightarrow> bs \<noteq> [] \<Longrightarrow> fst (emit_bits bs w buf) = []"
proof (induction bs arbitrary: w buf)
  case (Cons b bs)
  show ?case
  proof (cases bs)
    case Nil
    with Cons.prems show ?thesis by (simp add: emit_bit_def)
  next
    case (Cons c cs)
    with Cons.prems Cons.IH [of "w @ [b]"] show ?thesis by (simp add: emit_bit_def)
  qed
qed simp

lemma list_stream_ok: "bit_stream_ok list_stream (take 7)"
proof -
  have f: "take 7 (fst (bw_Flush list_stream b w buf)) = [] \<and>
      (\<exists>k<8. bits_of (snd (bw_Flush list_stream b w buf)) = bits_of buf @ take 7 w @ replicate k b)" for b w buf
  proof (cases "w = []")
    case True
    then show ?thesis by (auto simp: list_stream_def intro: exI [of _ 0])
  next
    case False
    let ?k = "8 - length (take 7 w)"
    have "fst (emit_bits (replicate ?k b) (take 7 w) buf) = []" by (rule emit_bits_full) auto
    with emit_bits_ok [of "replicate ?k b" "take 7 w" buf] False show ?thesis
      by (auto simp: list_stream_def intro!: exI [of _ ?k])
  qed
  show ?thesis
    unfolding bit_stream_ok_def case_prod_beta using emit_bit_ok emit_bits_ok f by (simp add: list_stream_def)
qed

section \<open>Properties\<close>

lemma FloatEncoder_fmt:
  assumes "bit_stream_ok W pend" and "e = NewFloatEncoder W \<or> (\<exists>e0. e = FloatEncoder_Reset W e0)"
    and "list_all (\<lambda>v. \<not> IsNaN v) vs"
  shows "\<exists>b. FloatEncoder_Bytes (FloatEncoder_Flush W (foldl (FloatEncoder_Write W) e vs)) = (b, None) \<and> float_fmt b vs"
  using FloatEncoder_Flush_fmt [OF assms(1) fe_rep_fold [OF assms(1) fe_rep_init [OF assms(1,2)] assms(3)]]
  by (simp add: FloatEncoder_Bytes_def)

text \<open>
  C38: the streaming float codec, over any bit writer that keeps its contract. Floats other than NaN
  written to a new or reset \<^verbatim>\<open>FloatEncoder\<close>, which is then flushed, are delivered bit for bit by a
  \<^verbatim>\<open>FloatDecoder\<close> set to the bytes, whatever the decoder read before; infinities and negative zero included.
\<close>

theorem float_stream_roundtrip:
  assumes "bit_stream_ok W pend" and "e = NewFloatEncoder W \<or> (\<exists>e0. e = FloatEncoder_Reset W e0)"
    and "list_all (\<lambda>v. \<not> IsNaN v) vs"
  shows "\<exists>b d' d''. FloatEncoder_Bytes (FloatEncoder_Flush W (foldl (FloatEncoder_Write W) e vs)) = (b, None) \<and>
    FloatDecoder_SetBytes b d = (None, d') \<and>
    drain FloatDecoder_Next FloatDecoder_Values d' [] = Some (vs, d'') \<and> fd_err d'' = None"
proof -
  from FloatEncoder_fmt [OF assms] obtain b
    where b: "FloatEncoder_Bytes (FloatEncoder_Flush W (foldl (FloatEncoder_Write W) e vs)) = (b, None)" "float_fmt b vs"
    by blast
  from float_fmt_SetBytes [OF b(2), of d] obtain d' where d: "FloatDecoder_SetBytes b d = (None, d')" "fd_rep d' vs" by blast
  from floatd.drain_rep [OF d(2), of "[]"] floatd.rep_err b(1) d(1) show ?thesis by fastforce
qed

theorem float_stream_roundtrip_witness:
  "\<exists>b d' d''. FloatEncoder_Bytes (FloatEncoder_Flush list_stream (foldl (FloatEncoder_Write list_stream)
      (NewFloatEncoder list_stream) [0x4028000000000000, 0x7FF0000000000000, 0x8000000000000000])) = (b, None) \<and>
    FloatDecoder_SetBytes b \<lparr>fd_val = 0, fd_leading = 0, fd_trailing = 0, fd_br = NewBitReader [], fd_b = [],
      fd_first = False, fd_finished = True, fd_err = None\<rparr> = (None, d') \<and>
    drain FloatDecoder_Next FloatDecoder_Values d' [] =
      Some ([0x4028000000000000, 0x7FF0000000000000, 0x8000000000000000], d'') \<and> fd_err d'' = None"
proof (rule float_stream_roundtrip)
  show "bit_stream_ok list_stream (take 7)" by (rule list_stream_ok)
  show "list_all (\<lambda>v. \<not> IsNaN v) [0x4028000000000000, 0x7FF0000000000000, 0x8000000000000000]" by code_simp
qed simp


text \<open>
  C40: on any bytes at all the loop over a \<^verbatim>\<open>FloatDecoder\<close> ends: every round takes at least one bit of what
  is left, and a truncated stream ends in an error or in the sentinel.
\<close>

theorem float_decode_ends:
  assumes "FloatDecoder_SetBytes b d = (None, d')"
  shows "\<exists>vs d''. drain FloatDecoder_Next FloatDecoder_Values d' [] = Some (vs, d'')"
  using float_drain_ends [OF assms] by auto

theorem float_decode_ends_witness:
  "\<exists>vs d''. drain FloatDecoder_Next FloatDecoder_Values
    (snd (FloatDecoder_SetBytes [16, 1, 2, 3, 4, 5, 6, 7, 8, 255, 255] \<lparr>fd_val = 0, fd_leading = 0, fd_trailing = 0,
      fd_br = NewBitReader [], fd_b = [], fd_first = False, fd_finished = True, fd_err = None\<rparr>)) [] = Some (vs, d'')"
proof (rule float_decode_ends)
  let ?d = "\<lparr>fd_val = 0, fd_leading = 0, fd_trailing = 0, fd_br = NewBitReader [], fd_b = [], fd_first = False,
    fd_finished = True, fd_err = None\<rparr>"
  have "fst (FloatDecoder_SetBytes [16, 1, 2, 3, 4, 5, 6, 7, 8, 255, 255] ?d) = None" by code_simp
  then show "FloatDecoder_SetBytes [16, 1, 2, 3, 4, 5, 6, 7, 8, 255, 255] ?d =
      (None, snd (FloatDecoder_SetBytes [16, 1, 2, 3, 4, 5, 6, 7, 8, 255, 255] ?d))"
    by (simp add: prod_eq_iff)
qed

end
