(* ===== verification/Float_Batch_Decode.thy ===== *)
theory Float_Batch_Decode
  imports Float_Codec
begin

unbundle bit_operations_syntax

text \<open>
  \<^verbatim>\<open>FloatArrayDecodeAll\<close> of \<^verbatim>\<open>tsdb/tsm1/batch_float.go\<close>, which keeps the next bits of the block at the high end
  of a 64-bit cache that it rotates left as it reads. It is shown to decode every block of the format of
  \<open>Float_Codec\<close>, and to end on any bytes.
\<close>

section \<open>The bit cache\<close>

text \<open>\<^verbatim>\<open>bits.RotateLeft64\<close>\<close>

definition RotateLeft64 :: "u64 \<Rightarrow> int \<Rightarrow> u64" where
  "RotateLeft64 x k = (let s = nat (k mod 64) in push_bit s x OR drop_bit (64 - s) x)"

text \<open>The table \<^verbatim>\<open>bitMask\<close> as \<^verbatim>\<open>init\<close> fills it: \<^verbatim>\<open>bitMask[i&0x3f] = v; v = v<<1 | 1\<close> for \<open>i\<close> from 1 to 64\<close>

definition bitMask_table :: "u64 list" where
  "bitMask_table = fst (foldl (\<lambda>(t, v). \<lambda>i. (t[i mod 64 := v], push_bit 1 v OR 1)) (replicate 64 0, 1) [1..<65])"

definition bitMask :: "u8 \<Rightarrow> u64" where
  "bitMask i = bitMask_table ! unat (i AND 0x3f)"

text \<open>\<^verbatim>\<open>brCachedVal\<close>, \<^verbatim>\<open>brValidBits\<close> and the bytes \<^verbatim>\<open>b\<close> not yet cached\<close>

type_synonym bit_cache = "u64 \<times> u8 \<times> bytes"

text \<open>The refill that is inlined wherever the cache may be empty; \<open>None\<close> is \<^verbatim>\<open>goto ERROR\<close>\<close>

definition bc_refill :: "bytes \<Rightarrow> bit_cache option" where
  "bc_refill b =
     (if length b \<ge> 8 then Some (get_u64 b, 64, drop 8 b)
      else if length b > 0 then
        let n = of_nat (length b * 8) :: u8 in Some (RotateLeft64 (be_word b) (- uint n), n, [])
      else None)"

definition bc_ensure :: "bit_cache \<Rightarrow> bit_cache option" where
  "bc_ensure bc = (case bc of (c, n, b) \<Rightarrow> if n > 0 then Some bc else bc_refill b)"

text \<open>A control bit\<close>

definition bc_control :: "bit_cache \<Rightarrow> bool \<times> bit_cache" where
  "bc_control bc = (case bc of (c, n, b) \<Rightarrow> let c' = RotateLeft64 c 1 in (c' AND 1 > 0, c', n - 1, b))"

text \<open>
  The read of \<open>k\<close> bits, in the low end of the result: inlined for the 11 bits of the two counts and for the
  significant bits. A read across the end of the cache joins two pieces.
\<close>

definition bc_read :: "u8 \<Rightarrow> bit_cache \<Rightarrow> (u64 \<times> bit_cache) option" where
  "bc_read k bc = (case bc of (c, n, b) \<Rightarrow>
     if n \<ge> k then let c' = RotateLeft64 c (uint k) in Some (c', c', n - k, b)
     else
       let (m, v) = (if n > 0 then (k - n, RotateLeft64 c (uint k)) else (k, 0)) in
       case bc_refill b of
         None \<Rightarrow> None
       | Some (c1, n1, b1) \<Rightarrow>
           let c2 = RotateLeft64 c1 (uint m) in
           Some (v AND NOT (bitMask m) OR (c2 AND bitMask m), c2, n1 - m, b1))"

section \<open>The decoder\<close>

record float_batch =
  fb_val :: u64
  fb_trailingN :: u8
  fb_meaningfulN :: u8
  fb_bc :: bit_cache

text \<open>The two counts that follow a second set control bit\<close>

definition fb_counts :: "float_batch \<Rightarrow> float_batch option" where
  "fb_counts s = (case bc_read 11 (fb_bc s) of
     None \<Rightarrow> None
   | Some (lm0, bc) \<Rightarrow>
       let lmBits = lm0 AND 0x7ff;
           leadingN = ucast (drop_bit 6 lmBits AND 0x1f) :: u8;
           meaningfulN = ucast (lmBits AND 0x3f) :: u8
       in Some (if meaningfulN > 0
          then s\<lparr>fb_trailingN := 64 - leadingN - meaningfulN, fb_meaningfulN := meaningfulN, fb_bc := bc\<rparr>
          else s\<lparr>fb_trailingN := 0, fb_meaningfulN := 64, fb_bc := bc\<rparr>))"

text \<open>The significant bits: the flag says whether the value is not the sentinel\<close>

definition fb_significant :: "float_batch \<Rightarrow> (bool \<times> float_batch) option" where
  "fb_significant s = (case bc_read (fb_meaningfulN s) (fb_bc s) of
     None \<Rightarrow> None
   | Some (s0, bc) \<Rightarrow>
       let sBits = s0 AND bitMask (fb_meaningfulN s);
           val = fb_val s XOR push_bit (unat (fb_trailingN s AND 0x3f)) sBits
       in Some (val \<noteq> uvnan, s\<lparr>fb_val := val, fb_bc := bc\<rparr>))"

text \<open>One iteration of the decoding loop\<close>

definition fb_step :: "float_batch \<Rightarrow> (bool \<times> float_batch) option" where
  "fb_step s = (case bc_ensure (fb_bc s) of
     None \<Rightarrow> None
   | Some bc0 \<Rightarrow>
       (case bc_control bc0 of (b0, bc1) \<Rightarrow>
          if \<not> b0 then Some (True, s\<lparr>fb_bc := bc1\<rparr>)
          else case bc_ensure bc1 of
            None \<Rightarrow> None
          | Some bc2 \<Rightarrow>
              (case bc_control bc2 of (b1, bc3) \<Rightarrow>
                 case (if b1 then fb_counts (s\<lparr>fb_bc := bc3\<rparr>) else Some (s\<lparr>fb_bc := bc3\<rparr>)) of
                   None \<Rightarrow> None
                 | Some s1 \<Rightarrow> fb_significant s1)))"

section \<open>Termination\<close>

definition bc_size :: "bit_cache \<Rightarrow> nat" where
  "bc_size bc = (case bc of (c, n, b) \<Rightarrow> 256 * length b + unat n)"

lemma u8_less: "unat (n :: u8) < 256"
  using unsigned_less [of n] by simp

lemma unat_of_nat_u8: "n < 256 \<Longrightarrow> unat (of_nat n :: u8) = n"
  by (simp add: unsigned_of_nat take_bit_nat_eq_self)

lemma bc_refill_size: "bc_refill b = Some (c, n, b') \<Longrightarrow> length b' < length b"
  by (auto simp: bc_refill_def Let_def split: if_splits)

lemma bc_refill_pos: "bc_refill b = Some (c, n, b') \<Longrightarrow> 0 < n"
proof (cases "length b \<ge> 8")
  case False
  assume r: "bc_refill b = Some (c, n, b')"
  with False have n: "n = of_nat (length b * 8)" "0 < length b" by (auto simp: bc_refill_def Let_def split: if_splits)
  have "unat (of_nat (length b * 8) :: u8) = length b * 8"
    by (rule unat_of_nat_u8) (use False in simp)
  with n show ?thesis by (simp add: word_less_nat_alt)
qed (auto simp: bc_refill_def)

lemma bc_ensure_size:
  assumes "bc_ensure bc = Some bc'"
  shows "bc_size bc' \<le> bc_size bc \<and> 0 < fst (snd bc')"
proof -
  obtain c n b where bc: "bc = (c, n, b)" by (cases bc)
  show ?thesis
  proof (cases "n > 0")
    case True
    with assms bc show ?thesis by (auto simp: bc_ensure_def)
  next
    case False
    with assms bc obtain c' n' b' where r: "bc_refill b = Some (c', n', b')" "bc' = (c', n', b')"
      by (cases bc') (auto simp: bc_ensure_def)
    from bc_refill_size [OF r(1)] u8_less [of n'] have "256 * length b' + unat n' \<le> 256 * length b" by linarith
    with r bc bc_refill_pos [OF r(1)] show ?thesis by (simp add: bc_size_def)
  qed
qed

lemma unat_pred: "0 < n \<Longrightarrow> unat (n - 1 :: u8) < unat n"
  by (cases "n = 0") (simp_all add: unat_minus_one word_less_nat_alt unat_gt_0)

lemma bc_control_size: "0 < fst (snd bc) \<Longrightarrow> bc_control bc = (x, bc') \<Longrightarrow> bc_size bc' < bc_size bc"
  by (cases bc) (auto simp: bc_control_def bc_size_def Let_def unat_pred)

lemma bc_read_size:
  assumes "bc_read k bc = Some (v, bc')"
  shows "bc_size bc' \<le> bc_size bc"
proof -
  obtain c n b where bc: "bc = (c, n, b)" by (cases bc)
  show ?thesis
  proof (cases "n \<ge> k")
    case True
    then have "unat (n - k) \<le> unat n" by (simp add: unat_sub)
    with True assms bc show ?thesis by (auto simp: bc_read_def bc_size_def Let_def)
  next
    case False
    with assms bc obtain c1 n1 b1 m where r: "bc_refill b = Some (c1, n1, b1)" "bc' = (RotateLeft64 c1 (uint m), n1 - m, b1)"
      by (auto simp: bc_read_def Let_def split: if_splits option.splits)
    from bc_refill_size [OF r(1)] u8_less [of "n1 - m"] have "256 * length b1 + unat (n1 - m) \<le> 256 * length b" by linarith
    with r bc show ?thesis by (simp add: bc_size_def)
  qed
qed

lemma fb_counts_size: "fb_counts s = Some s' \<Longrightarrow> bc_size (fb_bc s') \<le> bc_size (fb_bc s)"
  by (auto simp: fb_counts_def Let_def dest: bc_read_size split: option.splits if_splits)

lemma fb_significant_size: "fb_significant s = Some (x, s') \<Longrightarrow> bc_size (fb_bc s') \<le> bc_size (fb_bc s)"
  by (auto simp: fb_significant_def Let_def dest: bc_read_size split: option.splits if_splits)

lemma fb_step_size:
  assumes "fb_step s = Some (x, s')"
  shows "bc_size (fb_bc s') < bc_size (fb_bc s)"
proof -
  from assms obtain bc0 where e0: "bc_ensure (fb_bc s) = Some bc0" by (auto simp: fb_step_def split: option.splits)
  obtain b0 bc1 where c0: "bc_control bc0 = (b0, bc1)" by (meson surj_pair)
  have s1: "bc_size bc1 < bc_size (fb_bc s)"
    using bc_ensure_size [OF e0] bc_control_size [OF _ c0] by auto
  show ?thesis
  proof (cases b0)
    case False
    with assms e0 c0 s1 show ?thesis by (auto simp: fb_step_def)
  next
    case True
    with assms e0 c0 obtain bc2 where e1: "bc_ensure bc1 = Some bc2" by (auto simp: fb_step_def split: option.splits)
    obtain b1 bc3 where c1: "bc_control bc2 = (b1, bc3)" by (meson surj_pair)
    have s3: "bc_size bc3 < bc_size bc1"
      using bc_ensure_size [OF e1] bc_control_size [OF _ c1] by auto
    from assms e0 c0 e1 c1 True obtain t where
      t: "(if b1 then fb_counts (s\<lparr>fb_bc := bc3\<rparr>) else Some (s\<lparr>fb_bc := bc3\<rparr>)) = Some t" "fb_significant t = Some (x, s')"
      by (auto simp: fb_step_def split: option.splits)
    have "bc_size (fb_bc t) \<le> bc_size bc3" using t(1) fb_counts_size by (fastforce split: if_splits)
    with fb_significant_size [OF t(2)] s1 s3 show ?thesis by linarith
  qed
qed

section \<open>The loop and the function\<close>

function fb_loop :: "float_batch \<Rightarrow> u64 list \<Rightarrow> u64 list res" where
  "fb_loop s dst =
     (case fb_step s of
        None \<Rightarrow> Inl io_EOF
      | Some (goes, s') \<Rightarrow> if goes then fb_loop s' (dst @ [fb_val s']) else Inr dst)"
  by pat_completeness auto
termination
  by (relation "measure (\<lambda>(s, dst). bc_size (fb_bc s))") (auto dest: fb_step_size)

declare fb_loop.simps [simp del]

definition FloatArrayDecodeAll :: "bytes \<Rightarrow> u64 list res" where
  "FloatArrayDecodeAll b0 =
     (if length b0 < 9 then Inr []
      else
        let b = drop 1 b0; val = get_u64 b in
        if val = uvnan then Inr []
        else case bc_refill (drop 8 b) of
          None \<Rightarrow> Inl io_EOF
        | Some bc \<Rightarrow> fb_loop \<lparr>fb_val = val, fb_trailingN = 0, fb_meaningfulN = 64, fb_bc = bc\<rparr> [val])"

section \<open>The cache reads the bit string\<close>

definition bc_rep :: "bit_cache \<Rightarrow> bool list \<Rightarrow> bool" where
  "bc_rep bc bs \<longleftrightarrow> (case bc of (c, n, b) \<Rightarrow>
     unat n \<le> 64 \<and> unat n \<le> length bs \<and> drop (unat n) bs = bits_of b \<and> (\<forall>j<unat n. bit c (63 - j) \<longleftrightarrow> bs ! j))"

lemma bit_RotateLeft64:
  assumes "k \<le> 64" and "i < 64"
  shows "bit (RotateLeft64 x (int k)) i \<longleftrightarrow> (if i < k then bit x (64 - k + i) else bit x (i - k))"
proof (cases "k = 64")
  case True
  then show ?thesis using assms by (simp add: RotateLeft64_def)
next
  case False
  then have "nat (int k mod 64) = k" using assms(1) by simp
  then show ?thesis using assms False
    by (auto simp: RotateLeft64_def Let_def bit_simps dest: bit_imp_le_length)
qed

lemma bit_RotateLeft64_u8:
  "unat (k :: u8) \<le> 64 \<Longrightarrow> i < 64 \<Longrightarrow>
    bit (RotateLeft64 x (uint k)) i \<longleftrightarrow> (if i < unat k then bit x (64 - unat k + i) else bit x (i - unat k))"
  using bit_RotateLeft64 [of "unat k" i x] by simp

lemma bit_RotateRight64:
  assumes "0 < k" "k < 64" and "i < 64" "64 - k \<le> i"
  shows "bit (RotateLeft64 x (- int k)) i \<longleftrightarrow> bit x (i - (64 - k))"
proof -
  have "- int k mod 64 = 64 - int k" using assms(1,2) by (simp add: zmod_zminus1_eq_if)
  then have "nat (- int k mod 64) = 64 - k" by simp
  then show ?thesis using assms by (auto simp: RotateLeft64_def Let_def bit_simps dest: bit_imp_le_length)
qed

lemma bc_refill_rep:
  assumes "b \<noteq> []"
  shows "\<exists>c n b'. bc_refill b = Some (c, n, b') \<and> bc_rep (c, n, b') (bits_of b) \<and> unat n = min 64 (8 * length b)"
proof (cases "length b \<ge> 8")
  case True
  have "lo_bits 64 (get_u64 b) = bits_of (take 8 b)"
    using lo_bits_be_word [of "take 8 b"] True by (simp add: get_u64_def)
  then have "bit (get_u64 b) (63 - j) \<longleftrightarrow> bits_of b ! j" if "j < 64" for j
    using that nth_lo_bits [of j 64 "get_u64 b"] True by (simp add: bits_of_take)
  with True show ?thesis by (simp add: bc_refill_def bc_rep_def bits_of_drop)
next
  case False
  define k where "k = 8 * length b"
  have k: "0 < k" "k < 64" using False assms by (simp_all add: k_def)
  have u: "unat (of_nat (length b * 8) :: u8) = k" unfolding k_def mult.commute [of 8]
    by (rule unat_of_nat_u8) (use k k_def in simp)
  have lo: "lo_bits k (be_word b) = bits_of b" unfolding k_def by (rule lo_bits_be_word) (use False in simp)
  have "bit (RotateLeft64 (be_word b) (- int k)) (63 - j) \<longleftrightarrow> bits_of b ! j" if "j < k" for j
  proof -
    have "bit (RotateLeft64 (be_word b) (- int k)) (63 - j) \<longleftrightarrow> bit (be_word b) (k - 1 - j)"
      using bit_RotateRight64 [OF k, of "63 - j" "be_word b"] k that by (simp add: ac_simps)
    with nth_lo_bits [OF that, of "be_word b"] lo show ?thesis by simp
  qed
  moreover have "bc_refill b = Some (RotateLeft64 (be_word b) (- int k), of_nat (length b * 8), [])"
    using False assms u [symmetric] unfolding bc_refill_def Let_def by (simp only: uint_nat) simp
  ultimately show ?thesis
    using u k by (auto simp: bc_rep_def k_def simp del: of_nat_mult semiring_1_class.of_nat_mult)
qed

lemma bc_ensure_rep:
  assumes "bc_rep bc bs" "bs \<noteq> []"
  shows "\<exists>bc'. bc_ensure bc = Some bc' \<and> bc_rep bc' bs \<and> 0 < fst (snd bc')"
proof -
  obtain c n b where bc: "bc = (c, n, b)" by (cases bc)
  show ?thesis
  proof (cases "n > 0")
    case True
    with bc assms show ?thesis by (simp add: bc_ensure_def)
  next
    case False
    then have n: "unat n = 0" by (simp add: word_less_nat_alt)
    with bc assms have bs: "bs = bits_of b" by (simp add: bc_rep_def)
    with assms(2) have "b \<noteq> []" by auto
    from bc_refill_rep [OF this] bc_refill_pos [of b] bs False bc show ?thesis by (fastforce simp: bc_ensure_def)
  qed
qed

lemma bc_rep_rotate:
  assumes r: "bc_rep (c, n, b) bs" and k: "unat k \<le> unat n"
  shows "bc_rep (RotateLeft64 c (uint k), n - k, b) (drop (unat k) bs)"
proof -
  have n: "unat (n - k) = unat n - unat k" "unat n \<le> 64" using r k by (simp_all add: unat_sub word_le_nat_alt bc_rep_def)
  have "bit (RotateLeft64 c (uint k)) (63 - j) \<longleftrightarrow> drop (unat k) bs ! j" if "j < unat n - unat k" for j
  proof -
    have "63 - j - unat k = 63 - (unat k + j)" by simp
    moreover have "\<not> 63 - j < unat k" "63 - j < 64" using that n by linarith+
    ultimately show ?thesis using r that k n(2) by (simp add: bit_RotateLeft64_u8 bc_rep_def)
  qed
  with r k n show ?thesis by (auto simp: bc_rep_def)
qed

lemma rotate_low:
  assumes r: "bc_rep (c, n, b) bs" and k: "k \<le> 64" and i: "i < k" "k - 1 - i < unat n"
  shows "bit (RotateLeft64 c (int k)) i \<longleftrightarrow> bs ! (k - 1 - i)"
proof -
  have "63 - (k - 1 - i) = 64 - k + i" using k i by simp
  with r i(2) have "bit c (64 - k + i) \<longleftrightarrow> bs ! (k - 1 - i)" unfolding bc_rep_def prod.case by metis
  with bit_RotateLeft64 [OF k, of i c] i k show ?thesis by simp
qed

lemma rotate_low_u8:
  assumes "bc_rep (c, n, b) bs" "unat k \<le> 64" "i < unat k" "unat k - 1 - i < unat n"
  shows "bit (RotateLeft64 c (uint (k :: u8))) i \<longleftrightarrow> bs ! (unat k - 1 - i)"
  using rotate_low [OF assms] by simp

lemma bc_control_rep:
  assumes "bc_rep bc (x # bs)" "0 < fst (snd bc)"
  shows "\<exists>bc'. bc_control bc = (x, bc') \<and> bc_rep bc' bs"
proof -
  obtain c n b where bc: "bc = (c, n, b)" by (cases bc)
  with assms have r: "bc_rep (c, n, b) (x # bs)" and n: "0 < unat n" by (simp_all add: word_less_nat_alt)
  have "bit (RotateLeft64 c 1) 0 \<longleftrightarrow> x" using rotate_low [OF r, of 1 0] n by simp
  then have "RotateLeft64 c 1 AND 1 > 0 \<longleftrightarrow> x"
    using and_exp_eq_0_iff_not_bit [of "RotateLeft64 c 1" 0] word_neq_0_conv [of "RotateLeft64 c 1 AND 1"] by simp
  with bc_rep_rotate [OF r, of 1] n bc show ?thesis by (simp add: bc_control_def Let_def)
qed

lemma bitMask_table_eq: "bitMask_table = mask 64 # map mask [1..<64]"
  by code_simp

lemma unat_and_63: "unat (m AND 0x3f :: u8) = unat m mod 64"
proof -
  have m6: "(0x3f :: u8) = mask 6" by (simp add: mask_eq_exp_minus_1)
  show ?thesis unfolding m6 take_bit_eq_mask [symmetric] unsigned_take_bit_eq by (simp add: take_bit_eq_mod)
qed

lemma bit_bitMask:
  assumes "1 \<le> unat m" "unat m \<le> 64" "i < 64"
  shows "bit (bitMask m) i \<longleftrightarrow> i < unat m"
proof -
  note u = unat_and_63 [of m]
  show ?thesis
  proof (cases "unat m = 64")
    case True
    then show ?thesis using assms u by (simp add: bitMask_def bitMask_table_eq bit_mask_iff)
  next
    case False
    then obtain k where "unat m = Suc k" "k < 63" using assms(1,2) by (cases "unat m") auto
    then show ?thesis using assms u by (simp add: bitMask_def bitMask_table_eq bit_mask_iff)
  qed
qed

lemma take_bit_valI:
  assumes "k \<le> 64" "k \<le> length bs" and "\<And>i. i < k \<Longrightarrow> bit v i \<longleftrightarrow> bs ! (k - 1 - i)"
  shows "take_bit k v = bits_val (take k bs)"
  by (rule bit_word_eqI) (use assms in \<open>auto simp: bit_take_bit_iff bit_bits_val\<close>)

lemma bc_read_rep:
  assumes r: "bc_rep bc bs" and k: "1 \<le> unat k" "unat k \<le> 64" "unat k \<le> length bs"
  shows "\<exists>v bc'. bc_read k bc = Some (v, bc') \<and> bc_rep bc' (drop (unat k) bs) \<and> take_bit (unat k) v = bits_val (take (unat k) bs)"
proof -
  obtain c n b where bc: "bc = (c, n, b)" by (cases bc)
  have rc: "bc_rep (c, n, b) bs" using r bc by simp
  show ?thesis
  proof (cases "n \<ge> k")
    case True
    then have kn: "unat k \<le> unat n" by (simp add: word_le_nat_alt)
    have "take_bit (unat k) (RotateLeft64 c (uint k)) = bits_val (take (unat k) bs)"
      using k(2,3) by (rule take_bit_valI) (use rotate_low_u8 [OF rc k(2)] kn in auto)
    with True bc_rep_rotate [OF rc kn] bc show ?thesis by (simp add: bc_read_def Let_def)
  next
    case False
    define m where "m = (if n > 0 then k - n else k)"
    define v where "v = (if n > 0 then RotateLeft64 c (uint k) else 0)"
    have nk: "unat n < unat k" using False by (simp add: word_le_nat_alt)
    then have m: "unat m = unat k - unat n" by (auto simp: m_def unat_sub word_le_nat_alt word_less_nat_alt)
    have bs: "drop (unat n) bs = bits_of b" using rc by (simp add: bc_rep_def)
    then have lb: "8 * length b = length bs - unat n" by (metis length_bits_of length_drop)
    then have "b \<noteq> []" using nk k(3) by auto
    from bc_refill_rep [OF this] obtain c1 n1 b1
      where f: "bc_refill b = Some (c1, n1, b1)" "bc_rep (c1, n1, b1) (bits_of b)" "unat n1 = min 64 (8 * length b)" by blast
    have m1: "unat m \<le> unat n1" using f(3) lb m k nk by auto
    let ?c2 = "RotateLeft64 c1 (uint m)"
    let ?w = "v AND NOT (bitMask m) OR (?c2 AND bitMask m)"
    have "bit ?w i \<longleftrightarrow> bs ! (unat k - 1 - i)" if i: "i < unat k" for i
    proof (cases "i < unat m")
      case True
      have "bit ?w i \<longleftrightarrow> bit ?c2 i" using True m k by (simp add: bit_simps bit_bitMask)
      also have "\<dots> \<longleftrightarrow> bits_of b ! (unat m - 1 - i)"
        using f(2) by (rule rotate_low_u8) (use True m k m1 in linarith)+
      also have "\<dots> \<longleftrightarrow> bs ! (unat k - 1 - i)" using bs [symmetric] True m nk k(3) by (simp add: nth_drop)
      finally show ?thesis .
    next
      case False
      then have n0: "0 < unat n" "unat k - 1 - i < unat n" using i m by auto
      have "bit ?w i \<longleftrightarrow> bit v i" using False m k i nk by (simp add: bit_simps bit_bitMask)
      also have "\<dots> \<longleftrightarrow> bs ! (unat k - 1 - i)"
        using rotate_low_u8 [OF rc k(2) i n0(2)] n0 by (simp add: v_def word_less_nat_alt)
      finally show ?thesis .
    qed
    with k(2,3) have "take_bit (unat k) ?w = bits_val (take (unat k) bs)" by (intro take_bit_valI) auto
    moreover have "bc_rep (?c2, n1 - m, b1) (drop (unat k) bs)"
      using bc_rep_rotate [OF f(2) m1] bs [symmetric] m nk by simp
    moreover have "bc_read k bc = Some (?w, ?c2, n1 - m, b1)"
      using False f(1) bc by (simp add: bc_read_def Let_def m_def v_def)
    ultimately show ?thesis by blast
  qed
qed

section \<open>The decoder reads the format\<close>

definition fb_holds :: "(nat \<times> nat) option \<Rightarrow> float_batch \<Rightarrow> bool" where
  "fb_holds w s \<longleftrightarrow> (case w of None \<Rightarrow> True
     | Some (l, t) \<Rightarrow> fb_trailingN s = of_nat t \<and> fb_meaningfulN s = of_nat (64 - l - t))"

lemma bits_val_two:
  assumes "length xs + length ys \<le> 64"
  shows "take_bit (length xs) (drop_bit (length ys) (bits_val (xs @ ys))) = bits_val xs"
    and "take_bit (length ys) (bits_val (xs @ ys)) = bits_val ys"
  by (rule bit_word_eqI; use assms in \<open>auto simp: bit_simps bit_bits_val nth_append\<close>)+

lemma and_masks:
  "v AND 0x7ff = take_bit 11 (v :: u64)" "v AND 0x1f = take_bit 5 v" "v AND 0x3f = take_bit 6 v"
proof -
  have m: "(0x7ff :: u64) = mask 11" "(0x1f :: u64) = mask 5" "(0x3f :: u64) = mask 6"
    by (simp_all add: mask_eq_exp_minus_1)
  show "v AND 0x7ff = take_bit 11 v" "v AND 0x1f = take_bit 5 v" "v AND 0x3f = take_bit 6 v"
    unfolding m take_bit_eq_mask by (rule refl)+
qed

lemma ucast_of_nat_u8: "n < 64 \<Longrightarrow> ucast (of_nat n :: u64) = (of_nat n :: u8)"
  using unat_of_nat_small [of n] unat_of_nat_u8 [of n] by (simp add: word_unat_eq_iff) (simp add: unsigned_ucast_eq take_bit_nat_eq_self)

lemma fb_counts_fresh:
  assumes r: "bc_rep (fb_bc s) (lo_bits 5 (of_nat l) @ lo_bits 6 (of_nat (64 - l - t)) @ bs)" and w: "in_window l t d"
  shows "\<exists>bc. bc_rep bc bs \<and> fb_counts s = Some (s\<lparr>fb_trailingN := of_nat t, fb_meaningfulN := of_nat (64 - l - t), fb_bc := bc\<rparr>)"
proof -
  have lt: "l < 32" "l + t < 64" using w by (simp_all add: in_window_def)
  let ?m = "64 - l - t"
  let ?xs = "lo_bits 5 (of_nat l)" and ?ys = "lo_bits 6 (of_nat ?m)"
  have e: "unat (11 :: u8) = 11" by simp
  from bc_read_rep [OF r, of 11, unfolded e] obtain v bc where
    v: "bc_read 11 (fb_bc s) = Some (v, bc)" "bc_rep bc bs" "take_bit 11 v = bits_val (?xs @ ?ys)" by auto
  have L: "drop_bit 6 (take_bit 11 v) AND 0x1f = take_bit 5 (of_nat l)"
    unfolding and_masks v(3) using bits_val_two(1) [of ?xs ?ys] by (simp add: bits_val_lo_bits)
  have M: "take_bit 11 v AND 0x3f = take_bit 6 (of_nat ?m)"
    unfolding and_masks v(3) using bits_val_two(2) [of ?xs ?ys] by (simp add: bits_val_lo_bits)
  have "take_bit 5 (of_nat l :: u64) = of_nat l" using lt unat_of_nat_small [of l] by (intro take_bit_eq_selfI) simp
  then have L': "(ucast (drop_bit 6 (take_bit 11 v) AND 0x1f) :: u8) = of_nat l" using L ucast_of_nat_u8 [of l] lt by simp
  show ?thesis
  proof (cases "l + t = 0")
    case True
    then have "take_bit 11 v AND 0x3f = 0" using M by simp
    with True v show ?thesis by (auto simp: fb_counts_def and_masks(1) simp del: split_paired_Ex)
  next
    case False
    have u: "unat (of_nat ?m :: u64) = ?m" by (rule unat_of_nat_small) simp
    have "take_bit 6 (of_nat ?m :: u64) = of_nat ?m" using False u by (intro take_bit_eq_selfI) simp
    then have M': "(ucast (take_bit 11 v AND 0x3f) :: u8) = of_nat ?m" using M ucast_of_nat_u8 [of ?m] False by simp
    have "unat (of_nat ?m :: u8) = ?m" by (rule unat_of_nat_u8) simp
    then have "(0 :: u8) < of_nat ?m" using lt by (simp add: word_less_nat_alt)
    moreover have "64 - of_nat l - of_nat ?m = (of_nat t :: u8)" using lt by (simp add: of_nat_diff)
    ultimately show ?thesis using v(1,2) L' M' by (auto simp: fb_counts_def and_masks(1) Let_def simp del: split_paired_Ex)
  qed
qed

lemma fb_significant_window:
  assumes r: "bc_rep (fb_bc s) (lo_bits (64 - l - t) (drop_bit t d) @ bs)" and w: "in_window l t d"
    and h: "fb_holds (Some (l, t)) s"
  shows "\<exists>bc. bc_rep bc bs \<and> fb_significant s = Some (fb_val s XOR d \<noteq> uvnan, s\<lparr>fb_val := fb_val s XOR d, fb_bc := bc\<rparr>)"
proof -
  define m where "m = 64 - l - t"
  have lt: "l + t < 64" using w by (simp add: in_window_def)
  then have m: "1 \<le> m" "m \<le> 64" by (simp_all add: m_def)
  have u: "unat (fb_meaningfulN s) = m"
    using h unat_of_nat_u8 [of m] m by (simp add: fb_holds_def m_def)
  have rm: "bc_rep (fb_bc s) (lo_bits m (drop_bit t d) @ bs)" using r by (simp only: m_def)
  from bc_read_rep [OF rm, of "fb_meaningfulN s", unfolded u] obtain v bc where
    v: "bc_read (fb_meaningfulN s) (fb_bc s) = Some (v, bc)" "bc_rep bc bs" "take_bit m v = bits_val (lo_bits m (drop_bit t d))"
    using m by (auto simp del: split_paired_Ex)
  have "v AND bitMask (fb_meaningfulN s) = take_bit m v"
    by (rule bit_word_eqI) (use m u in \<open>auto simp: bit_simps bit_bitMask\<close>)
  then have sb: "v AND bitMask (fb_meaningfulN s) = take_bit m (drop_bit t d)" using v(3) m by (simp add: bits_val_lo_bits)
  have "unat (of_nat t :: u8) = t" by (rule unat_of_nat_u8) (use lt in simp)
  then have "unat (fb_trailingN s AND 0x3f) = t" using h lt unfolding unat_and_63 by (simp add: fb_holds_def)
  then have "push_bit (unat (fb_trailingN s AND 0x3f)) (v AND bitMask (fb_meaningfulN s)) = d"
    using sb window_restore [OF w] by (simp only: m_def)
  with v(1) have "fb_significant s = Some (fb_val s XOR d \<noteq> uvnan, s\<lparr>fb_val := fb_val s XOR d, fb_bc := bc\<rparr>)"
    unfolding fb_significant_def Let_def by (simp only: option.case prod.case)
  with v(2) show ?thesis by blast
qed

lemma fb_step_item:
  assumes "gor_item w (fb_val s) v bs w'" and r: "bc_rep (fb_bc s) (bs @ cs)" and h: "fb_holds w s" and p: "fb_val s \<noteq> uvnan"
  shows "\<exists>s'. fb_step s = Some (v \<noteq> uvnan, s') \<and> fb_val s' = v \<and> bc_rep (fb_bc s') cs \<and> fb_holds w' s'"
proof -
  have "bs \<noteq> []" using assms(1) by cases auto
  then obtain x xs where bs: "bs = x # xs" by (cases bs) auto
  with r bc_ensure_rep [OF r] obtain bc0 where e0: "bc_ensure (fb_bc s) = Some bc0" "bc_rep bc0 (x # xs @ cs)" "0 < fst (snd bc0)"
    by auto
  from bc_control_rep [OF this(2,3)] obtain bc1 where c0: "bc_control bc0 = (x, bc1)" "bc_rep bc1 (xs @ cs)" by blast
  have tail: "\<exists>bc3. fb_step s = (case (if y then fb_counts (s\<lparr>fb_bc := bc3\<rparr>) else Some (s\<lparr>fb_bc := bc3\<rparr>)) of
      None \<Rightarrow> None | Some s1 \<Rightarrow> fb_significant s1) \<and> bc_rep bc3 (ys @ cs)" if "x" "xs = y # ys" for y ys
  proof -
    from c0(2) that(2) bc_ensure_rep [of bc1 "y # ys @ cs"] obtain bc2
      where e1: "bc_ensure bc1 = Some bc2" "bc_rep bc2 (y # ys @ cs)" "0 < fst (snd bc2)" by auto
    from bc_control_rep [OF this(2,3)] obtain bc3 where c1: "bc_control bc2 = (y, bc3)" "bc_rep bc3 (ys @ cs)" by blast
    with that e0 c0 e1 show ?thesis by (auto simp: fb_step_def simp del: split_paired_Ex)
  qed
  show ?thesis
    using assms(1)
  proof (cases rule: gor_item.cases)
    case same
    with bs e0 c0 p h show ?thesis by (auto simp: fb_step_def fb_holds_def split: option.splits)
  next
    case (reuse l t)
    with bs tail [of False] obtain bc3 where "fb_step s = fb_significant (s\<lparr>fb_bc := bc3\<rparr>)"
      "bc_rep bc3 (lo_bits (64 - l - t) (drop_bit t (v XOR fb_val s)) @ cs)" by auto
    with fb_significant_window [of "s\<lparr>fb_bc := bc3\<rparr>" l t "v XOR fb_val s" cs] reuse h show ?thesis
      by (auto simp: fb_holds_def xor_restore)
  next
    case (fresh l t)
    let ?ds = "lo_bits (64 - l - t) (drop_bit t (v XOR fb_val s)) @ cs"
    from fresh bs tail [of True] obtain bc3 where
      3: "fb_step s = (case fb_counts (s\<lparr>fb_bc := bc3\<rparr>) of None \<Rightarrow> None | Some s1 \<Rightarrow> fb_significant s1)"
      "bc_rep bc3 (lo_bits 5 (of_nat l) @ lo_bits 6 (of_nat (64 - l - t)) @ ?ds)" by auto
    from fb_counts_fresh [of "s\<lparr>fb_bc := bc3\<rparr>" l t ?ds "v XOR fb_val s"] 3(2) fresh obtain bc4
      where 4: "fb_counts (s\<lparr>fb_bc := bc3\<rparr>) = Some (s\<lparr>fb_trailingN := of_nat t, fb_meaningfulN := of_nat (64 - l - t), fb_bc := bc4\<rparr>)"
        "bc_rep bc4 ?ds" by auto
    with fb_significant_window [of "s\<lparr>fb_trailingN := of_nat t, fb_meaningfulN := of_nat (64 - l - t), fb_bc := bc4\<rparr>"
        l t "v XOR fb_val s" cs] 3(1) fresh show ?thesis
      by (auto simp: fb_holds_def xor_restore)
  qed
qed

lemma fb_loop_fmt:
  assumes "gor_fmt w (fb_val s) vs bs" "bc_rep (fb_bc s) bs" "fb_holds w s" "fb_val s \<noteq> uvnan"
  shows "fb_loop s dst = Inr (dst @ vs)"
  using assms
proof (induction w "fb_val s" vs bs arbitrary: s dst rule: gor_fmt.induct)
  case (stop w bs w' pad)
  from fb_step_item [OF stop(1) stop(3-5)] show ?case by (auto simp: fb_loop.simps [of s])
next
  case (more w v bs w' vs cs)
  from fb_step_item [OF more(1) more(5-7)] more(2) obtain s'
    where s: "fb_step s = Some (True, s')" "fb_val s' = v" "bc_rep (fb_bc s') cs" "fb_holds w' s'" by auto
  with more(4) [of s' "dst @ [v]"] more(2) show ?case by (simp add: fb_loop.simps [of s])
qed

lemma gor_fmt_nonempty: "gor_fmt w p vs bs \<Longrightarrow> bs \<noteq> []"
  by (induction rule: gor_fmt.induct) (auto elim!: gor_item.cases)

lemma FloatArrayDecodeAll_fmt:
  assumes "float_fmt b vs"
  shows "FloatArrayDecodeAll b = Inr vs"
  using assms
proof (cases rule: float_fmt.cases)
  case (1 data h)
  from 1(2) obtain v rest where v: "bits_of data = lo_bits 64 v @ rest"
    "vs = [] \<and> v = uvnan \<or> (\<exists>vs'. vs = v # vs' \<and> v \<noteq> uvnan \<and> gor_fmt None v vs' rest)"
    by (cases rule: gor_stream.cases) auto
  then have "length (bits_of data) \<ge> 64" by simp
  then have len: "8 \<le> length data" by simp
  have "lo_bits 64 (get_u64 data) = bits_of (take 8 data)"
    using lo_bits_be_word [of "take 8 data"] len by (simp add: get_u64_def)
  then have "lo_bits 64 (get_u64 data) = lo_bits 64 v" using v(1) by (simp add: bits_of_take)
  from arg_cong [OF this, of bits_val] have g: "get_u64 data = v" by (simp add: bits_val_lo_bits take_bit_word_eq_self)
  have rest: "bits_of (drop 8 data) = rest" using v(1) by (simp add: bits_of_drop)
  show ?thesis
  proof (cases "v = uvnan")
    case True
    with v(2) g len 1(1) show ?thesis by (auto simp: FloatArrayDecodeAll_def)
  next
    case False
    with v(2) obtain vs' where vs': "vs = v # vs'" "gor_fmt None v vs' rest" by auto
    with gor_fmt_nonempty rest have "drop 8 data \<noteq> []" by fastforce
    from bc_refill_rep [OF this] obtain bc where bc: "bc_refill (drop 8 data) = Some bc" "bc_rep bc rest"
      unfolding rest by blast
    with fb_loop_fmt [of None "\<lparr>fb_val = v, fb_trailingN = 0, fb_meaningfulN = 64, fb_bc = bc\<rparr>" vs' rest "[v]"] vs' False g len 1(1)
    show ?thesis by (simp add: FloatArrayDecodeAll_def fb_holds_def Let_def)
  qed
qed

end
