(* ===== verification/Float_Add.thy ===== *)
theory Float_Add
  imports Float_Codec
begin

unbundle bit_operations_syntax

text \<open>
  Addition of \<^verbatim>\<open>float64\<close> values on their bit patterns (IEEE 754 binary64, round to nearest, ties to even),
  which the batch float encoder uses to look for a NaN. Every finite float is an integer multiple of
  \<open>2 ^ - 1074\<close>, so the sum is exact in those units and then rounded.
\<close>

definition f_exp :: "u64 \<Rightarrow> nat" where "f_exp v = unat (take_bit 11 (drop_bit 52 v))"
definition f_man :: "u64 \<Rightarrow> nat" where "f_man v = unat (take_bit 52 v)"

definition IsInf :: "u64 \<Rightarrow> bool" where
  "IsInf v \<longleftrightarrow> f_exp v = 2047 \<and> f_man v = 0"

definition f_units :: "u64 \<Rightarrow> int" where
  "f_units v = (if bit v 63 then - 1 else 1) *
     (if f_exp v = 0 then int (f_man v) else int ((f_man v + 2 ^ 52) * 2 ^ (f_exp v - 1)))"

definition f_pack :: "bool \<Rightarrow> nat \<Rightarrow> nat \<Rightarrow> u64" where
  "f_pack s e m = push_bit 63 (of_bool s) OR push_bit 52 (of_nat e) OR of_nat m"

fun bitlen :: "nat \<Rightarrow> nat" where
  "bitlen n = (if n = 0 then 0 else Suc (bitlen (n div 2)))"

declare bitlen.simps [simp del]

definition f_round :: "bool \<Rightarrow> nat \<Rightarrow> u64" where
  "f_round s m =
     (let k = bitlen m in
      if k \<le> 53 then (if m < 2 ^ 52 then f_pack s 0 m else f_pack s 1 (m - 2 ^ 52))
      else
        let sh = k - 53; q = m div 2 ^ sh; r = m mod 2 ^ sh; h = 2 ^ (sh - 1);
            q' = (if r > h \<or> r = h \<and> odd q then q + 1 else q);
            (e, q'') = (if q' = 2 ^ 53 then (sh + 2, 2 ^ 52) else (sh + 1, q'))
        in if e \<ge> 2047 then f_pack s 2047 0 else f_pack s e (q'' - 2 ^ 52))"

definition f_add :: "u64 \<Rightarrow> u64 \<Rightarrow> u64" where
  "f_add a b =
     (if IsNaN a \<or> IsNaN b then uvnan
      else if IsInf a then (if IsInf b \<and> bit a 63 \<noteq> bit b 63 then uvnan else a)
      else if IsInf b then b
      else
        let s = f_units a + f_units b in
        if s = 0 then f_pack (bit a 63 \<and> bit b 63) 0 0
        else f_round (s < 0) (nat \<bar>s\<bar>))"

lemma bitlen_bound: "m < 2 ^ bitlen m \<and> (0 < m \<longrightarrow> 2 ^ (bitlen m - 1) \<le> m)"
proof (induction m rule: bitlen.induct)
  case (1 n)
  show ?case
  proof (cases "n = 0")
    case False
    with 1 have IH: "n div 2 < 2 ^ bitlen (n div 2)" "0 < n div 2 \<longrightarrow> 2 ^ (bitlen (n div 2) - 1) \<le> n div 2" by auto
    have e: "bitlen n = Suc (bitlen (n div 2))" using False by (simp add: bitlen.simps)
    have "n < 2 * 2 ^ bitlen (n div 2)" using IH(1) by linarith
    moreover have "2 ^ bitlen (n div 2) \<le> n"
    proof (cases "n div 2 = 0")
      case True
      then show ?thesis using False by (simp add: bitlen.simps)
    next
      case nz: False
      then have "bitlen (n div 2) = Suc (bitlen (n div 2) - 1)" by (simp add: bitlen.simps [of "n div 2"])
      then have "(2 :: nat) ^ bitlen (n div 2) = 2 * 2 ^ (bitlen (n div 2) - 1)" by (metis power_Suc)
      moreover have "2 ^ (bitlen (n div 2) - 1) \<le> n div 2" using nz IH(2) by simp
      ultimately show ?thesis by linarith
    qed
    ultimately show ?thesis by (simp add: e)
  qed (simp add: bitlen.simps)
qed

lemma IsNaN_iff: "IsNaN v \<longleftrightarrow> f_exp v = 2047 \<and> f_man v \<noteq> 0"
proof -
  have m: "(0x000FFFFFFFFFFFFF :: u64) = mask 52" and e: "(0x7FF0000000000000 :: u64) = push_bit 52 (mask 11)"
    by (simp_all add: mask_eq_exp_minus_1 push_bit_eq_mult)
  have "v AND push_bit 52 (mask 11) = push_bit 52 (take_bit 11 (drop_bit 52 v))"
    by (rule bit_word_eqI) (auto simp: bit_simps)
  moreover have "push_bit 52 (take_bit 11 (drop_bit 52 v)) = push_bit 52 (mask 11) \<longleftrightarrow> take_bit 11 (drop_bit 52 v) = mask 11"
  proof
    assume *: "push_bit 52 (take_bit 11 (drop_bit 52 v)) = push_bit 52 (mask 11)"
    show "take_bit 11 (drop_bit 52 v) = mask 11"
    proof (rule bit_word_eqI)
      fix n
      assume "n < LENGTH(64)"
      show "bit (take_bit 11 (drop_bit 52 v)) n \<longleftrightarrow> bit (mask 11 :: u64) n"
        using arg_cong [OF *, of "\<lambda>w. bit w (52 + n)"] by (cases "n < 11") (auto simp: bit_simps)
    qed
  qed simp
  moreover have "take_bit 11 (drop_bit 52 v) = mask 11 \<longleftrightarrow> f_exp v = 2047"
  proof -
    have "unat (mask 11 :: u64) = 2047" by (simp add: mask_eq_exp_minus_1)
    then show ?thesis by (metis f_exp_def word_unat_eq_iff)
  qed
  ultimately show ?thesis
    unfolding IsNaN_def m e by (auto simp: f_man_def unat_eq_0 simp flip: take_bit_eq_mask)
qed

lemma f_pack_fields:
  assumes "e < 2048" "m < 2 ^ 52"
  shows "f_exp (f_pack s e m) = e" "f_man (f_pack s e m) = m" "bit (f_pack s e m) 63 \<longleftrightarrow> s"
proof -
  define E M :: u64 where "E = of_nat e" and "M = of_nat m"
  have ue: "unat E = e" and um: "unat M = m" using assms by (auto simp: E_def M_def intro!: unat_of_nat_small)
  have be: "\<not> bit E k" if "11 \<le> k" for k using high_bit_zero [of E 11 k] that assms ue by simp
  have bm: "\<not> bit M k" if "52 \<le> k" for k using high_bit_zero [of M 52 k] that assms um by simp
  have p: "f_pack s e m = push_bit 63 (of_bool s) OR push_bit 52 E OR M" by (simp add: f_pack_def E_def M_def)
  have "take_bit 11 (drop_bit 52 (f_pack s e m)) = E"
  proof (rule bit_word_eqI)
    fix k
    show "bit (take_bit 11 (drop_bit 52 (f_pack s e m))) k \<longleftrightarrow> bit E k"
      using be [of k] bm [of "52 + k"] by (cases "k < 11") (auto simp: p bit_simps)
  qed
  then show "f_exp (f_pack s e m) = e" using ue by (simp add: f_exp_def)
  have "take_bit 52 (f_pack s e m) = M"
  proof (rule bit_word_eqI)
    fix k
    show "bit (take_bit 52 (f_pack s e m)) k \<longleftrightarrow> bit M k"
      using bm [of k] by (cases "k < 52") (auto simp: p bit_simps)
  qed
  then show "f_man (f_pack s e m) = m" using um by (simp add: f_man_def)
  show "bit (f_pack s e m) 63 \<longleftrightarrow> s" using be [of 11] bm [of 63] by (auto simp: p bit_simps)
qed

lemma f_round_not_NaN: "\<not> IsNaN (f_round s m)"
proof -
  define k where "k = bitlen m"
  show ?thesis
  proof (cases "k \<le> 53")
    case True
    have "m < 2 ^ 53" using bitlen_bound [of m] True power_increasing [of k 53 "2 :: nat"] by (auto simp: k_def)
    with True show ?thesis by (simp add: f_round_def Let_def IsNaN_iff f_pack_fields flip: k_def)
  next
    case False
    define sh where "sh = k - 53"
    define q where "q = m div 2 ^ sh"
    have "m < 2 ^ (53 + sh)" using bitlen_bound [of m] False by (simp add: k_def sh_def)
    then have q: "q < 2 ^ 53" by (simp add: q_def power_add mult.commute less_mult_imp_div_less)
    define q' where "q' = (if m mod 2 ^ sh > 2 ^ (sh - 1) \<or> m mod 2 ^ sh = 2 ^ (sh - 1) \<and> odd q then q + 1 else q)"
    have "q' \<le> 2 ^ 53" using q by (auto simp: q'_def)
    then have b: "q' \<noteq> 2 ^ 53 \<Longrightarrow> q' - 2 ^ 52 < 2 ^ 52" by auto
    have "f_round s m = (if q' = 2 ^ 53 then if sh + 2 \<ge> 2047 then f_pack s 2047 0 else f_pack s (sh + 2) 0
        else if sh + 1 \<ge> 2047 then f_pack s 2047 0 else f_pack s (sh + 1) (q' - 2 ^ 52))"
      using False unfolding f_round_def Let_def k_def [symmetric] sh_def [symmetric] q_def [symmetric] q'_def [symmetric]
      by simp
    then show ?thesis using b by (auto simp: IsNaN_iff f_pack_fields)
  qed
qed

text \<open>A sum is NaN exactly when a NaN is added or infinities of opposite signs meet.\<close>

lemma IsInf_not_NaN: "IsInf v \<Longrightarrow> \<not> IsNaN v"
  by (simp add: IsInf_def IsNaN_iff)

lemma f_pack_not_NaN: "\<not> IsNaN (f_pack s 0 0)"
  by (simp add: IsNaN_iff f_pack_fields)

lemma f_add_NaN: "IsNaN (f_add a b) \<longleftrightarrow> IsNaN a \<or> IsNaN b \<or> IsInf a \<and> IsInf b \<and> bit a 63 \<noteq> bit b 63"
proof (cases "IsNaN a \<or> IsNaN b \<or> IsInf a \<or> IsInf b")
  case True
  then show ?thesis by (auto simp: f_add_def IsInf_not_NaN)
next
  case False
  then have "f_add a b = f_pack (bit a 63 \<and> bit b 63) 0 0 \<or> (\<exists>s m. f_add a b = f_round s m)"
    unfolding f_add_def Let_def by auto
  with False show ?thesis using f_pack_not_NaN f_round_not_NaN by auto
qed

end
