(* ===== verification/Float_Batch_Encode.thy ===== *)
theory Float_Batch_Encode
  imports Float_Batch_Decode Float_Add
begin

unbundle bit_operations_syntax

text \<open>
  \<^verbatim>\<open>FloatArrayEncodeAll\<close> of \<^verbatim>\<open>tsdb/tsm1/batch_float.go\<close>, which writes the bits of a block into a byte slice
  in place, growing it as it goes. Every index and every \<^verbatim>\<open>PutUint64\<close> is checked: a panic is a value of the
  model, and the encoder is shown never to reach one and to produce the format of \<open>Float_Codec\<close>.
\<close>

section \<open>Writing bits in place\<close>

text \<open>\<^verbatim>\<open>for k >= len(b) { b = append(b, 0) }\<close>\<close>

function grow_past :: "nat \<Rightarrow> bytes \<Rightarrow> bytes" where
  "grow_past k b = (if k \<ge> length b then grow_past k (b @ [0]) else b)"
  by auto
termination by (relation "measure (\<lambda>(k, b). Suc k - length b)") auto

declare grow_past.simps [simp del]

text \<open>\<^verbatim>\<open>if k >= len(b) { b = append(b, 0) }\<close>\<close>

definition grow_once :: "nat \<Rightarrow> bytes \<Rightarrow> bytes" where
  "grow_once k b = (if k \<ge> length b then b @ [0] else b)"

text \<open>\<^verbatim>\<open>b[i] |= x\<close> and \<^verbatim>\<open>binary.BigEndian.PutUint64(b[i:], v)\<close>\<close>

definition or_byte :: "nat \<Rightarrow> u8 \<Rightarrow> bytes \<Rightarrow> bytes res" where
  "or_byte i x b = (if i < length b then Inr (b[i := b ! i OR x]) else Inl (GoPanic ''index out of range''))"

definition put_u64_at :: "nat \<Rightarrow> u64 \<Rightarrow> bytes \<Rightarrow> bytes res" where
  "put_u64_at i v b = (if i + 8 \<le> length b then Inr (write_at i (put_u64 v) b) else Inl (GoPanic ''index out of range''))"

text \<open>\<^verbatim>\<open>b[n>>3] |= 128 >> (n & 7)\<close>\<close>

definition set_bit_at :: "nat \<Rightarrow> bytes \<Rightarrow> bytes res" where
  "set_bit_at n b = or_byte (n div 8) (drop_bit (n mod 8) 128) b"

text \<open>\<^verbatim>\<open>b[n>>3] |= byte((v >> 56) >> m)\<close>: the top bits of \<open>v\<close>, from bit \<open>m\<close> of the current byte on\<close>

definition or_top :: "nat \<Rightarrow> nat \<Rightarrow> u64 \<Rightarrow> bytes \<Rightarrow> bytes res" where
  "or_top n m v b = or_byte (n div 8) (ucast (drop_bit m (drop_bit 56 v))) b"

text \<open>
  The 5 bits of the leading count and the 6 bits of the significant count: \<open>l\<close> bits at the top of \<open>v\<close>, in
  one byte or two.
\<close>

definition put_short :: "nat \<Rightarrow> u64 \<Rightarrow> bytes \<times> nat \<Rightarrow> (bytes \<times> nat) res" where
  "put_short l v bn = (case bn of (b, n) \<Rightarrow>
     let m = n mod 8 in
     if m \<le> 8 - l then bind_res (or_top n m v b) (\<lambda>b1. Inr (b1, n + l))
     else
       let written = 8 - m in
       bind_res (or_top n m v b) (\<lambda>b1.
         let n1 = n + written in
         bind_res (or_top n1 (n1 mod 8) (push_bit written v) b1) (\<lambda>b2. Inr (b2, n1 + (l - written)))))"

text \<open>The significant bits: \<open>l\<close> bits at the top of \<open>v\<close>, the rest of the current byte first\<close>

definition put_tail :: "nat \<Rightarrow> nat \<Rightarrow> u64 \<Rightarrow> bytes \<times> nat \<Rightarrow> (bytes \<times> nat) res" where
  "put_tail l written v bn = (case bn of (b, n) \<Rightarrow>
     let vv = push_bit written v;
         b1 = (if n div 8 + 8 \<ge> length b then b @ replicate 8 0 else b)
     in bind_res (put_u64_at (n div 8) vv b1) (\<lambda>b2. Inr (b2, n + (l - written))))"

definition put_long :: "nat \<Rightarrow> u64 \<Rightarrow> bytes \<times> nat \<Rightarrow> (bytes \<times> nat) res" where
  "put_long l v bn = (case bn of (b0, n) \<Rightarrow>
     let b = grow_past ((n + l) div 8) b0; m = n mod 8 in
     if m > 0 then
       let written = (if l < 8 - m then l else 8 - m) in
       bind_res (or_top n m v b) (\<lambda>b1.
         if l - written = 0 then Inr (b1, n + written) else put_tail l written v (b1, n + written))
     else put_tail l 0 v (b, n))"

section \<open>The encoder\<close>

record float_array_enc =
  fae_b :: bytes
  fae_n :: nat
  fae_prev :: u64
  fae_prevLeading :: u64
  fae_prevTrailing :: u64

text \<open>The branch that keeps the window and the branch that opens a new one\<close>

definition fae_reuse :: "u64 \<Rightarrow> bytes \<times> nat \<Rightarrow> float_array_enc \<Rightarrow> (bytes \<times> nat) res" where
  "fae_reuse vDelta bn s = (case bn of (b, n) \<Rightarrow>
     let l = 64 - fae_prevLeading s - fae_prevTrailing s in
     put_long (unat l) (push_bit (unat (64 - l)) (drop_bit (unat (fae_prevTrailing s)) vDelta)) (b, n + 1))"

definition fae_fresh :: "u64 \<Rightarrow> u64 \<Rightarrow> u64 \<Rightarrow> bytes \<times> nat \<Rightarrow> (bytes \<times> nat) res" where
  "fae_fresh vDelta leading trailing bn = (case bn of (b, n) \<Rightarrow>
     bind_res (set_bit_at n b) (\<lambda>b1.
     bind_res (put_short 5 (push_bit 59 leading) (grow_once ((n + 1 + 5) div 8) b1, n + 1)) (\<lambda>(b2, n2).
     let sigbits = 64 - leading - trailing in
     bind_res (put_short 6 (push_bit 58 sigbits) (grow_once ((n2 + 6) div 8) b2, n2)) (\<lambda>bn3.
       put_long (unat sigbits) (push_bit (unat (64 - sigbits)) (drop_bit (unat trailing) vDelta)) bn3))))"

text \<open>One value\<close>

definition fae_value :: "u64 \<Rightarrow> float_array_enc \<Rightarrow> float_array_enc res" where
  "fae_value cur s =
     (let vDelta = cur XOR fae_prev s; n = fae_n s in
      if vDelta = 0 then Inr (s\<lparr>fae_n := n + 1, fae_prev := cur\<rparr>)
      else
        bind_res (set_bit_at n (grow_past (n div 8) (fae_b s))) (\<lambda>b1.
        let n1 = n + 1;
            leading = clamp_leading (of_nat (LeadingZeros64 vDelta));
            trailing = of_nat (TrailingZeros64 vDelta);
            b2 = grow_once ((n1 + 2) div 8) b1
        in if fae_prevLeading s \<noteq> NOT 0 \<and> leading \<ge> fae_prevLeading s \<and> trailing \<ge> fae_prevTrailing s
           then bind_res (fae_reuse vDelta (b2, n1) s) (\<lambda>(b, n'). Inr (s\<lparr>fae_b := b, fae_n := n', fae_prev := cur\<rparr>))
           else bind_res (fae_fresh vDelta leading trailing (b2, n1)) (\<lambda>(b, n').
             Inr (s\<lparr>fae_b := b, fae_n := n', fae_prevLeading := leading, fae_prevTrailing := trailing, fae_prev := cur\<rparr>))))"

text \<open>The loop over the values after the first, with the running sum; the sentinel comes last\<close>

fun fae_loop :: "u64 list \<Rightarrow> u64 \<Rightarrow> float_array_enc \<Rightarrow> (float_array_enc \<times> u64) res" where
  "fae_loop [] tot s = bind_res (fae_value uvnan s) (\<lambda>s'. Inr (s', tot))"
| "fae_loop (x # xs) tot s = bind_res (fae_value x s) (fae_loop xs (f_add tot x))"

text \<open>The buffer passed in serves only its capacity: its first nine bytes are overwritten.\<close>

definition FloatArrayEncodeAll :: "u64 list \<Rightarrow> u8 slice \<Rightarrow> bytes res" where
  "FloatArrayEncodeAll src bs = (case bs of (xs, spare) \<Rightarrow>
     let b0 = (if length xs + length spare < 9 then replicate 9 0 else take 9 (xs @ spare));
         b1 = b0[0 := push_bit 4 floatCompressedGorilla]
     in if src \<noteq> [] \<and> IsNaN (src ! 0) then Inl (GoError ''unsupported value: NaN'')
        else
          let first = (if src = [] then uvnan else src ! 0) in
          bind_res (put_u64_at 1 first b1) (\<lambda>b2.
          let s0 = \<lparr>fae_b = b2, fae_n = 8 + 64, fae_prev = first, fae_prevLeading = NOT 0, fae_prevTrailing = 0\<rparr> in
          bind_res (if src = [] then Inr (s0, 0) else fae_loop (drop 1 src) 0 s0) (\<lambda>(s, tot).
          if IsNaN tot then Inl (GoError ''unsupported value: NaN'')
          else
            let len = (if fae_n s mod 8 > 0 then fae_n s div 8 + 1 else fae_n s div 8) in
            if len > length (fae_b s) then Inl (GoPanic ''slice bounds out of range'') else Inr (take len (fae_b s)))))"

section \<open>The bits of the slice\<close>

text \<open>Bit \<open>j\<close> of the slice, zero beyond its end.\<close>

definition pbit :: "bytes \<Rightarrow> nat \<Rightarrow> bool" where
  "pbit b j \<longleftrightarrow> j < 8 * length b \<and> bits_of b ! j"

text \<open>The slice holds the \<open>n\<close> bits \<open>W\<close> and zeros after them.\<close>

definition slice_rep :: "bytes \<Rightarrow> nat \<Rightarrow> bool list \<Rightarrow> bool" where
  "slice_rep b n W \<longleftrightarrow> length W = n \<and> (\<forall>j. pbit b j \<longleftrightarrow> j < n \<and> W ! j)"

lemma pbit_zeros: "pbit (b @ replicate k 0) j \<longleftrightarrow> pbit b j"
proof -
  have "bits_of (replicate k 0) = replicate (8 * k) False"
    by (induction k) (simp_all add: byte_bits_def replicate_add [symmetric] numeral_eq_Suc)
  then show ?thesis by (auto simp: pbit_def nth_append)
qed

lemma grow_past_eq: "grow_past k b = b @ replicate (Suc k - length b) 0"
proof (induction k b rule: grow_past.induct)
  case (1 k b)
  show ?case
  proof (cases "k \<ge> length b")
    case True
    then have "Suc k - length b = Suc (Suc k - length (b @ [0]))" by simp
    with True 1 show ?thesis by (simp add: grow_past.simps [of k b])
  qed (simp add: grow_past.simps [of k b])
qed

lemma slice_rep_grow:
  "slice_rep b n W \<Longrightarrow> slice_rep (grow_past k b) n W"
  "slice_rep b n W \<Longrightarrow> slice_rep (grow_once k b) n W"
  using pbit_zeros [of b 1] by (auto simp: slice_rep_def grow_past_eq grow_once_def pbit_zeros)

lemma length_grow_past: "k < length (grow_past k b)" "length b \<le> length (grow_past k b)"
  by (simp_all add: grow_past_eq)

lemma length_grow_once: "k \<le> Suc a \<Longrightarrow> a < length b \<Longrightarrow> k < length (grow_once k b)"
  by (simp add: grow_once_def)

lemma pbit_or:
  assumes "i < length b"
  shows "pbit (b[i := b ! i OR x]) j \<longleftrightarrow> pbit b j \<or> j div 8 = i \<and> bit x (7 - j mod 8)"
proof -
  have i: "j div 8 = i \<Longrightarrow> j < 8 * length b" using assms by auto
  show ?thesis
  proof (cases "j < 8 * length b")
    case True
    then have "j div 8 < length b" by (simp add: less_mult_imp_div_less mult.commute)
    with True show ?thesis by (cases "j div 8 = i") (simp_all add: pbit_def nth_bits_of bit_or_iff)
  next
    case False
    with i show ?thesis by (auto simp: pbit_def)
  qed
qed

lemma or_top_pbit:
  assumes "n div 8 < length b" "m = n mod 8"
  shows "\<exists>b'. or_top n m v b = Inr b' \<and> length b' = length b \<and>
    (\<forall>j. pbit b' j \<longleftrightarrow> pbit b j \<or> n \<le> j \<and> j < 8 * (n div 8) + 8 \<and> bit v (63 - (j - n)))"
proof -
  let ?x = "ucast (drop_bit m (drop_bit 56 v)) :: u8"
  have "j div 8 = n div 8 \<and> bit ?x (7 - j mod 8) \<longleftrightarrow> n \<le> j \<and> j < 8 * (n div 8) + 8 \<and> bit v (63 - (j - n))" for j
  proof (cases "j div 8 = n div 8")
    case True
    have lt: "7 - j mod 8 < 8" by (rule le_less_trans [of _ 7]) simp_all
    have x: "bit ?x (7 - j mod 8) \<longleftrightarrow> bit v (56 + (m + (7 - j mod 8)))"
      using bit_ucast_iff [where 'a = 8, of "drop_bit m (drop_bit 56 v)" "7 - j mod 8"] lt by (simp add: bit_drop_bit_eq)
    have jd: "j = 8 * (j div 8) + j mod 8" "n = 8 * (n div 8) + n mod 8" by simp_all
    have jm: "j mod 8 < 8" by simp
    show ?thesis
    proof (cases "n \<le> j")
      case le: True
      then have "56 + (m + (7 - j mod 8)) = 63 - (j - n)" using True jd jm assms(2) by linarith
      moreover have "j < 8 * (n div 8) + 8" using True jd(1) jm by linarith
      ultimately show ?thesis using True le x by simp
    next
      case gt: False
      then have "64 \<le> 56 + (m + (7 - j mod 8))" using True jd jm assms(2) by linarith
      then have "\<not> bit v (56 + (m + (7 - j mod 8)))" by (auto dest: bit_imp_le_length)
      then show ?thesis using True gt x by simp
    qed
  next
    case False
    have "\<not> (n \<le> j \<and> j < 8 * (n div 8) + 8)"
    proof
      assume *: "n \<le> j \<and> j < 8 * (n div 8) + 8"
      then have "n div 8 \<le> j div 8" "j div 8 < n div 8 + 1" by (auto intro: div_le_mono less_mult_imp_div_less)
      with False show False by simp
    qed
    then show ?thesis using False by auto
  qed
  with assms(1) show ?thesis by (auto simp: or_top_def or_byte_def pbit_or)
qed

lemma put_u64_pbit:
  assumes "i + 8 \<le> length b"
  shows "\<exists>b'. put_u64_at i v b = Inr b' \<and> length b' = length b \<and>
    (\<forall>j. pbit b' j \<longleftrightarrow> (if 8 * i \<le> j \<and> j < 8 * i + 64 then bit v (63 - (j - 8 * i)) else pbit b j))"
proof -
  let ?b = "write_at i (put_u64 v) b"
  have "bits_of (put_u64 v) = lo_bits 64 v"
    using lo_bits_be_word [of "put_u64 v"] by (simp add: put_u64_def be_word_be_bytes take_bit_word_eq_self)
  then have e: "bits_of ?b = take (8 * i) (bits_of b) @ lo_bits 64 v @ drop (8 * i + 64) (bits_of b)"
    using assms by (simp add: write_at_def bits_of_take bits_of_drop)
  have "pbit ?b j \<longleftrightarrow> (if 8 * i \<le> j \<and> j < 8 * i + 64 then bit v (63 - (j - 8 * i)) else pbit b j)" for j
    using assms unfolding pbit_def e by (auto simp: nth_append nth_lo_bits min_def)
  with assms show ?thesis by (simp add: put_u64_at_def)
qed

text \<open>A word with the bits \<open>L\<close> at its top and zeros below.\<close>

definition left :: "u64 \<Rightarrow> bool list \<Rightarrow> bool" where
  "left v L \<longleftrightarrow> length L \<le> 64 \<and> (\<forall>i<64. bit v (63 - i) \<longleftrightarrow> i < length L \<and> L ! i)"

lemma left_lo_bits:
  assumes "1 \<le> l" "l \<le> 64"
  shows "left (push_bit (64 - l) x) (lo_bits l x)"
proof -
  have "bit (push_bit (64 - l) x) (63 - i) \<longleftrightarrow> i < l \<and> lo_bits l x ! i" if "i < 64" for i
  proof (cases "i < l")
    case True
    then have "63 - i - (64 - l) = l - 1 - i" "64 - l \<le> 63 - i" "63 - i < 64" using assms that by auto
    with True show ?thesis by (simp add: bit_push_bit_iff nth_lo_bits)
  next
    case False
    then have "\<not> 64 - l \<le> 63 - i" using assms that by auto
    with False show ?thesis by (simp add: bit_push_bit_iff)
  qed
  then show ?thesis using assms by (simp add: left_def)
qed

lemma left_drop:
  assumes "left v L" "k \<le> length L"
  shows "left (push_bit k v) (drop k L)"
proof -
  have "bit (push_bit k v) (63 - i) \<longleftrightarrow> i < length L - k \<and> drop k L ! i" if i: "i < 64" for i
  proof (cases "k \<le> 63 - i")
    case True
    then have "63 - i - k = 63 - (k + i)" "k + i < 64" using i by auto
    with True assms show ?thesis by (auto simp: left_def bit_push_bit_iff)
  next
    case False
    with assms i show ?thesis by (auto simp: left_def bit_push_bit_iff)
  qed
  then show ?thesis using assms by (auto simp: left_def)
qed

lemma or_top_rep:
  assumes b: "n div 8 < length b" and r: "slice_rep b n W" and l: "left v L" and k: "k = min (length L) (8 - n mod 8)"
  shows "\<exists>b'. or_top n (n mod 8) v b = Inr b' \<and> length b' = length b \<and> slice_rep b' (n + k) (W @ take k L)"
proof -
  define w where "w = 8 - n mod 8"
  have "n = 8 * (n div 8) + n mod 8" "n mod 8 < 8" by simp_all
  then have e: "8 * (n div 8) + 8 = n + w" unfolding w_def by linarith
  have w: "w \<le> 8" "k = min (length L) w" using k by (simp_all add: w_def)
  from or_top_pbit [OF b refl, unfolded e] obtain b' where b': "or_top n (n mod 8) v b = Inr b'" "length b' = length b"
    "\<And>j. pbit b' j \<longleftrightarrow> pbit b j \<or> n \<le> j \<and> j < n + w \<and> bit v (63 - (j - n))" by blast
  have W: "length W = n" "\<And>j. pbit b j \<longleftrightarrow> j < n \<and> W ! j" using r by (simp_all add: slice_rep_def)
  have "pbit b' j \<longleftrightarrow> j < n + k \<and> (W @ take k L) ! j" for j
  proof (cases "j < n")
    case True
    then show ?thesis using b'(3) [of j] W by (simp add: nth_append)
  next
    case False
    then obtain i where j: "j = n + i" by (metis le_add_diff_inverse not_less)
    have "i < w \<and> bit v (63 - i) \<longleftrightarrow> i < k \<and> L ! i"
    proof (cases "i < w")
      case True
      then have "i < 64" using w(1) by simp
      with True l w(2) show ?thesis by (auto simp: left_def)
    next
      case False
      then show ?thesis using w(2) by simp
    qed
    then show ?thesis using b'(3) [of "n + i"] W(2) [of "n + i"] W(1) w(2) unfolding j by (auto simp: nth_append)
  qed
  moreover have "k \<le> length L" using w by simp
  ultimately show ?thesis using b'(1,2) W(1) by (simp add: slice_rep_def)
qed

lemma put_short_rep:
  assumes b: "(n + length L) div 8 < length b" and r: "slice_rep b n W" and l: "left v L" and L: "0 < length L" "length L \<le> 8"
  shows "\<exists>b'. put_short (length L) v (b, n) = Inr (b', n + length L) \<and> length b' = length b \<and> slice_rep b' (n + length L) (W @ L)"
proof -
  have nb: "n div 8 < length b" using b by (meson div_le_mono le_add1 le_less_trans)
  show ?thesis
  proof (cases "n mod 8 \<le> 8 - length L")
    case True
    then have "length L = min (length L) (8 - n mod 8)" using L by auto
    from or_top_rep [OF nb r l this] True show ?thesis by (auto simp: put_short_def Let_def)
  next
    case False
    define k where "k = 8 - n mod 8"
    have k: "k = min (length L) (8 - n mod 8)" "k \<le> length L" using False L by (auto simp: k_def)
    from or_top_rep [OF nb r l k(1)] obtain b1 where b1: "or_top n (n mod 8) v b = Inr b1" "length b1 = length b"
      "slice_rep b1 (n + k) (W @ take k L)" by blast
    have m0: "(n + k) mod 8 = 0" unfolding k_def by presburger
    have "(n + k) div 8 < length b1" using b b1(2) k(2) by (metis add_left_mono div_le_mono le_less_trans)
    from or_top_rep [OF this b1(3) left_drop [OF l k(2)], of "length L - k"] m0 L obtain b2
      where "or_top (n + k) 0 (push_bit k v) b1 = Inr b2" "length b2 = length b1"
        "slice_rep b2 (n + k + (length L - k)) ((W @ take k L) @ take (length L - k) (drop k L))" by auto
    with False b1 m0 k(2) show ?thesis by (simp add: put_short_def Let_def flip: k_def)
  qed
qed

lemma put_tail_rep:
  assumes b: "n div 8 < length b" "n mod 8 = 0" and r: "slice_rep b n W" and l: "left (push_bit k v) L" "length L = l - k"
  shows "\<exists>b'. put_tail l k v (b, n) = Inr (b', n + (l - k)) \<and> length b \<le> length b' \<and> slice_rep b' (n + (l - k)) (W @ L)"
proof -
  define b1 where "b1 = (if n div 8 + 8 \<ge> length b then b @ replicate 8 0 else b)"
  have "n div 8 + 8 \<le> length b1" using b(1) by (simp add: b1_def)
  have n8: "8 * (n div 8) = n" using b(2) by auto
  from put_u64_pbit [OF \<open>n div 8 + 8 \<le> length b1\<close>, unfolded n8] obtain b2 where b2: "put_u64_at (n div 8) (push_bit k v) b1 = Inr b2" "length b2 = length b1"
    "\<And>j. pbit b2 j \<longleftrightarrow> (if n \<le> j \<and> j < n + 64 then bit (push_bit k v) (63 - (j - n)) else pbit b1 j)"
    by blast
  have W: "length W = n" "\<And>j. pbit b1 j \<longleftrightarrow> j < n \<and> W ! j"
    using r by (simp_all add: slice_rep_def b1_def pbit_zeros)
  have "pbit b2 j \<longleftrightarrow> j < n + (l - k) \<and> (W @ L) ! j" for j
  proof (cases "n \<le> j \<and> j < n + 64")
    case True
    then have "j - n < 64" by auto
    with l b2(3) [of j] True W show ?thesis by (auto simp: left_def nth_append)
  next
    case False
    with l b2(3) [of j] W show ?thesis by (auto simp: left_def nth_append)
  qed
  moreover have "length b \<le> length b2" unfolding b2(2) by (simp add: b1_def)
  moreover have "put_tail l k v (b, n) = Inr (b2, n + (l - k))"
    unfolding put_tail_def Let_def prod.case b1_def [symmetric] b2(1) by simp
  ultimately show ?thesis using W(1) l(2) by (simp add: slice_rep_def)
qed

lemma put_long_rep:
  assumes r: "slice_rep b n W" and l: "left v L" and L: "0 < length L"
  shows "\<exists>b'. put_long (length L) v (b, n) = Inr (b', n + length L) \<and> slice_rep b' (n + length L) (W @ L) \<and>
    (n + length L) div 8 < length b'"
proof -
  define b0 where "b0 = grow_past ((n + length L) div 8) b"
  have b0: "(n + length L) div 8 < length b0" "slice_rep b0 n W"
    using r slice_rep_grow length_grow_past by (simp_all add: b0_def)
  then have nb: "n div 8 < length b0" by (meson div_le_mono le_add1 le_less_trans)
  show ?thesis
  proof (cases "n mod 8 > 0")
    case False
    moreover from False have "put_long (length L) v (b, n) = put_tail (length L) 0 v (b0, n)"
      by (simp add: put_long_def Let_def b0_def)
    ultimately show ?thesis using put_tail_rep [OF nb _ b0(2), of 0 v L "length L"] l b0(1) by fastforce
  next
    case True
    define k where "k = (if length L < 8 - n mod 8 then length L else 8 - n mod 8)"
    have k: "k = min (length L) (8 - n mod 8)" "k \<le> length L" by (auto simp: k_def)
    from or_top_rep [OF nb b0(2) l k(1)] obtain b1 where b1: "or_top n (n mod 8) v b0 = Inr b1" "length b1 = length b0"
      "slice_rep b1 (n + k) (W @ take k L)" by blast
    have e: "put_long (length L) v (b, n) = bind_res (or_top n (n mod 8) v b0) (\<lambda>b1.
        if length L - k = 0 then Inr (b1, n + k) else put_tail (length L) k v (b1, n + k))"
      using True unfolding put_long_def Let_def prod.case b0_def [symmetric] k_def [symmetric] by simp
    show ?thesis
    proof (cases "length L - k = 0")
      case fits: True
      with k(2) b1 have "length L = k" by simp
      with b1 b0(1) show ?thesis unfolding e by simp
    next
      case False
      then have k8: "k = 8 - n mod 8" by (auto simp: k_def split: if_splits)
      have m0: "(n + k) mod 8 = 0" unfolding k8 by presburger
      have "(n + k) div 8 < length b1" using b0(1) b1(2) k(2) by (metis add_left_mono div_le_mono le_less_trans)
      from put_tail_rep [OF this m0 b1(3) left_drop [OF l k(2)], of "length L"] obtain b2
        where "put_tail (length L) k v (b1, n + k) = Inr (b2, n + k + (length L - k))" "length b1 \<le> length b2"
          "slice_rep b2 (n + k + (length L - k)) ((W @ take k L) @ drop k L)" by auto
      with False b1(1,2) b0(1) k(2) show ?thesis unfolding e by simp
    qed
  qed
qed

lemma set_bit_rep:
  assumes "n div 8 < length b" "slice_rep b n W"
  shows "\<exists>b'. set_bit_at n b = Inr b' \<and> length b' = length b \<and> slice_rep b' (n + 1) (W @ [True])"
proof -
  have "pbit (b[n div 8 := b ! (n div 8) OR drop_bit (n mod 8) 128]) j \<longleftrightarrow> j < n + 1 \<and> (W @ [True]) ! j" for j
  proof -
    have "n mod 8 < 8" "j mod 8 < 8" by simp_all
    then have "bit (drop_bit (n mod 8) (128 :: u8)) (7 - j mod 8) \<longleftrightarrow> j mod 8 = n mod 8"
      unfolding bit_128_shifted [OF \<open>n mod 8 < 8\<close>] by linarith
    then have "j div 8 = n div 8 \<and> bit (drop_bit (n mod 8) (128 :: u8)) (7 - j mod 8) \<longleftrightarrow> j = n"
      by (metis mult_div_mod_eq)
    moreover have "length W = n" "pbit b j \<longleftrightarrow> j < n \<and> W ! j" using assms(2) by (simp_all add: slice_rep_def)
    ultimately show ?thesis unfolding pbit_or [OF assms(1)] by (cases "j < n") (auto simp: nth_append)
  qed
  then show ?thesis using assms by (simp add: set_bit_at_def or_byte_def slice_rep_def)
qed

lemma slice_rep_zero: "slice_rep b n W \<Longrightarrow> slice_rep b (n + 1) (W @ [False])"
  by (auto simp: slice_rep_def nth_append less_Suc_eq)

section \<open>The encoder produces the format\<close>

definition fae_win :: "float_array_enc \<Rightarrow> (nat \<times> nat) option" where
  "fae_win s = (if fae_prevLeading s = NOT 0 then None else Some (unat (fae_prevLeading s), unat (fae_prevTrailing s)))"

definition fae_inv :: "float_array_enc \<Rightarrow> bool" where
  "fae_inv s \<longleftrightarrow> (case fae_win s of None \<Rightarrow> True | Some (l, t) \<Rightarrow> l < 32 \<and> l + t < 64)"

lemma unat_window':
  fixes lead trail :: u64
  assumes "unat lead + unat trail < 64"
  shows "unat (64 - lead - trail) = 64 - unat lead - unat trail"
    and "unat (64 - (64 - lead - trail)) = 64 - (64 - unat lead - unat trail)"
proof -
  show "unat (64 - lead - trail) = 64 - unat lead - unat trail"
    using unat_window [OF assms] by simp
  have "64 - (64 - lead - trail) = of_nat (unat lead + unat trail)" by simp
  then show "unat (64 - (64 - lead - trail)) = 64 - (64 - unat lead - unat trail)"
    using unat_of_nat_small [of "unat lead + unat trail"] assms by simp
qed

lemma put_long_lo:
  assumes "slice_rep b n W" "1 \<le> m" "m \<le> 64"
  shows "\<exists>b'. put_long m (push_bit (64 - m) x) (b, n) = Inr (b', n + m) \<and> slice_rep b' (n + m) (W @ lo_bits m x) \<and>
    (n + m) div 8 < length b'"
  using put_long_rep [OF assms(1) left_lo_bits [OF assms(2,3), of x]] assms(2) by simp

lemma put_short_lo:
  assumes "slice_rep b n W" "1 \<le> m" "m \<le> 8" "(n + m) div 8 < length b"
  shows "\<exists>b'. put_short m (push_bit (64 - m) x) (b, n) = Inr (b', n + m) \<and> length b' = length b \<and>
    slice_rep b' (n + m) (W @ lo_bits m x)"
  using put_short_rep [of n "lo_bits m x" b W "push_bit (64 - m) x"] left_lo_bits [of m x] assms by simp

lemma fae_reuse_rep:
  assumes "unat (fae_prevLeading s) = l" "unat (fae_prevTrailing s) = t" "l + t < 64" "slice_rep b n W"
  shows "\<exists>b' n'. fae_reuse d (b, n) s = Inr (b', n') \<and> slice_rep b' n' (W @ [False] @ lo_bits (64 - l - t) (drop_bit t d)) \<and>
    n' div 8 < length b'"
proof -
  define m where "m = 64 - l - t"
  have m: "1 \<le> m" "m \<le> 64" using assms(3) by (simp_all add: m_def)
  have "fae_reuse d (b, n) s = put_long m (push_bit (64 - m) (drop_bit t d)) (b, n + 1)"
    using unat_window' [of "fae_prevLeading s" "fae_prevTrailing s"] assms(1-3) by (simp add: fae_reuse_def Let_def m_def)
  with put_long_lo [OF slice_rep_zero [OF assms(4)] m, of "drop_bit t d"] show ?thesis unfolding m_def [symmetric] by auto
qed

lemma fae_fresh_rep:
  assumes ll: "unat leading = l" "unat trailing = t" "l < 32" "l + t < 64" and r: "slice_rep b n W" and len: "(n + 2) div 8 < length b"
  shows "\<exists>b' n'. fae_fresh d leading trailing (b, n) = Inr (b', n') \<and> slice_rep b' n'
    (W @ [True] @ lo_bits 5 leading @ lo_bits 6 (64 - leading - trailing) @ lo_bits (64 - l - t) (drop_bit t d)) \<and>
    n' div 8 < length b'"
proof -
  define m where "m = 64 - l - t"
  have m: "1 \<le> m" "m \<le> 64" using ll(4) by (simp_all add: m_def)
  define sg where "sg = 64 - leading - trailing"
  have uw: "unat sg = m" "unat (64 - sg) = 64 - m"
    using unat_window' [of leading trailing] ll by (simp_all add: sg_def m_def)
  have "n div 8 < length b" using len by (meson div_le_mono le_add1 le_less_trans)
  from set_bit_rep [OF this r] obtain b1 where b1: "set_bit_at n b = Inr b1" "length b1 = length b"
    "slice_rep b1 (n + 1) (W @ [True])" by blast
  let ?b1 = "grow_once ((n + 1 + 5) div 8) b1"
  have g1: "(n + 1 + 5) div 8 < length ?b1" by (rule length_grow_once [of _ "(n + 2) div 8"]) (use len b1(2) in auto)
  from put_short_lo [OF slice_rep_grow(2) [OF b1(3)] _ _ g1, of leading]
  obtain b2 where b2: "put_short 5 (push_bit 59 leading) (?b1, n + 1) = Inr (b2, n + 1 + 5)" "length b2 = length ?b1"
    "slice_rep b2 (n + 1 + 5) ((W @ [True]) @ lo_bits 5 leading)" by auto
  let ?b2 = "grow_once ((n + 1 + 5 + 6) div 8) b2"
  have g2: "(n + 1 + 5 + 6) div 8 < length ?b2" by (rule length_grow_once [of _ "(n + 1 + 5) div 8"]) (use g1 b2(2) in auto)
  from put_short_lo [OF slice_rep_grow(2) [OF b2(3)] _ _ g2, of sg]
  obtain b3 where b3: "put_short 6 (push_bit 58 sg) (?b2, n + 1 + 5) = Inr (b3, n + 1 + 5 + 6)"
    "slice_rep b3 (n + 1 + 5 + 6) (((W @ [True]) @ lo_bits 5 leading) @ lo_bits 6 sg)" by auto
  from put_long_lo [OF b3(2) m, of "drop_bit t d"] obtain b4 n4
    where b4: "put_long m (push_bit (64 - m) (drop_bit t d)) (b3, n + 1 + 5 + 6) = Inr (b4, n4)"
      "slice_rep b4 n4 ((((W @ [True]) @ lo_bits 5 leading) @ lo_bits 6 sg) @ lo_bits m (drop_bit t d))"
      "n4 div 8 < length b4" by auto
  have "fae_fresh d leading trailing (b, n) = Inr (b4, n4)"
    unfolding fae_fresh_def prod.case b1(1) bind_res_simps b2(1) Let_def sg_def [symmetric] b3(1) uw ll(2)
    by (rule b4(1))
  with b4(2,3) show ?thesis by (simp add: sg_def m_def)
qed

lemma fae_value_item:
  assumes inv: "fae_inv s" and r: "slice_rep (fae_b s) (fae_n s) W"
  shows "\<exists>bs s'. fae_value v s = Inr s' \<and> gor_item (fae_win s) (fae_prev s) v bs (fae_win s') \<and>
    slice_rep (fae_b s') (fae_n s') (W @ bs) \<and> fae_inv s' \<and> fae_prev s' = v \<and>
    (v \<noteq> fae_prev s \<longrightarrow> fae_n s' div 8 < length (fae_b s'))"
proof (cases "v XOR fae_prev s = 0")
  case True
  then have v: "v = fae_prev s" by (metis xor_restore xor.right_neutral)
  with True gor_item.same [of "fae_win s" v] slice_rep_zero [OF r] inv show ?thesis
    by (fastforce simp: fae_value_def fae_win_def fae_inv_def)
next
  case False
  define d where "d = v XOR fae_prev s"
  define lead :: u64 where "lead = clamp_leading (of_nat (LeadingZeros64 d))"
  define trail :: u64 where "trail = of_nat (TrailingZeros64 d)"
  define n where "n = fae_n s"
  have d0: "d \<noteq> 0" using False by (simp add: d_def)
  have ul: "unat lead = LeadingZeros64 d mod 32" unfolding lead_def using LeadingZeros64_le by (rule unat_clamp)
  have ut: "unat trail = TrailingZeros64 d" unfolding trail_def using zeros_bound [OF d0] by (intro unat_of_nat_small) simp
  define b0 where "b0 = grow_past (n div 8) (fae_b s)"
  have "n div 8 < length b0" "slice_rep b0 n W"
    using r length_grow_past by (auto simp: b0_def n_def slice_rep_grow)
  from set_bit_rep [OF this] this(1) obtain b1 where b1: "set_bit_at n b0 = Inr b1" "n div 8 < length b1"
    "slice_rep b1 (n + 1) (W @ [True])" by auto
  define b2 where "b2 = grow_once ((n + 1 + 2) div 8) b1"
  have "(n + 1 + 2) div 8 \<le> Suc (n div 8)" by linarith
  then have b2: "(n + 1 + 2) div 8 < length b2" "slice_rep b2 (n + 1) (W @ [True])"
    using b1 length_grow_once by (auto simp: b2_def slice_rep_grow)
  have e: "fae_value v s = (if fae_prevLeading s \<noteq> NOT 0 \<and> lead \<ge> fae_prevLeading s \<and> trail \<ge> fae_prevTrailing s
      then bind_res (fae_reuse d (b2, n + 1) s) (\<lambda>(b, n'). Inr (s\<lparr>fae_b := b, fae_n := n', fae_prev := v\<rparr>))
      else bind_res (fae_fresh d lead trail (b2, n + 1)) (\<lambda>(b, n').
             Inr (s\<lparr>fae_b := b, fae_n := n', fae_prevLeading := lead, fae_prevTrailing := trail, fae_prev := v\<rparr>)))"
    using d0 unfolding fae_value_def Let_def d_def [symmetric] n_def [symmetric] b0_def [symmetric] b1(1) bind_res_simps
      lead_def [symmetric] trail_def [symmetric] b2_def [symmetric] by simp
  show ?thesis
  proof (cases "fae_prevLeading s \<noteq> NOT 0 \<and> lead \<ge> fae_prevLeading s \<and> trail \<ge> fae_prevTrailing s")
    case True
    define l where "l = unat (fae_prevLeading s)"
    define t where "t = unat (fae_prevTrailing s)"
    have w: "fae_win s = Some (l, t)" using True by (simp add: fae_win_def l_def t_def)
    with inv have lt: "l < 32" "l + t < 64" by (simp_all add: fae_inv_def)
    have iw: "in_window l t d" using d0 by (rule in_window_zeros) (use True ul ut in \<open>auto simp: l_def t_def word_le_nat_alt\<close>)
    from fae_reuse_rep [OF l_def [symmetric] t_def [symmetric] lt(2) b2(2), of d] obtain b' n'
      where R: "fae_reuse d (b2, n + 1) s = Inr (b', n')" "n' div 8 < length b'"
        "slice_rep b' n' ((W @ [True]) @ [False] @ lo_bits (64 - l - t) (drop_bit t d))" by blast
    have "gor_item (Some (l, t)) (fae_prev s) v ([True, False] @ lo_bits (64 - l - t) (drop_bit t d)) (Some (l, t))"
      unfolding d_def by (rule gor_item.reuse) (use iw d_def in simp)
    with R w inv True show ?thesis unfolding e by (fastforce simp: fae_win_def fae_inv_def)
  next
    case new: False
    define l where "l = unat lead"
    define t where "t = unat trail"
    have iw: "in_window l t d" using d0 by (rule in_window_zeros) (use ul ut in \<open>simp_all add: l_def t_def\<close>)
    then have lt: "l < 32" "l + t < 64" by (simp_all add: in_window_def)
    from fae_fresh_rep [OF l_def [symmetric] t_def [symmetric] lt b2(2,1), of d] obtain b' n'
      where R: "fae_fresh d lead trail (b2, n + 1) = Inr (b', n')" "n' div 8 < length b'" "slice_rep b' n' ((W @ [True]) @ [True] @
        lo_bits 5 lead @ lo_bits 6 (64 - lead - trail) @ lo_bits (64 - l - t) (drop_bit t d))" by blast
    define s' where "s' = s\<lparr>fae_b := b', fae_n := n', fae_prevLeading := lead, fae_prevTrailing := trail, fae_prev := v\<rparr>"
    have lw: "lead = of_nat l" "64 - lead - trail = of_nat (64 - l - t)" using lt by (simp_all add: l_def t_def of_nat_diff)
    have "gor_item (fae_win s) (fae_prev s) v ([True, True] @ lo_bits 5 (of_nat l) @ lo_bits 6 (of_nat (64 - l - t)) @
        lo_bits (64 - l - t) (drop_bit t d)) (Some (l, t))"
      unfolding d_def by (rule gor_item.fresh) (use iw d_def in simp)
    moreover have "lead \<noteq> NOT 0" using lt(1) high_bit_zero [of lead 5 40] by (auto simp: l_def bit_simps)
    then have "fae_win s' = Some (l, t)" by (simp add: s'_def fae_win_def l_def t_def)
    moreover have "fae_value v s = Inr s'" using new R(1) unfolding e s'_def by auto
    moreover have "slice_rep (fae_b s') (fae_n s') (W @ [True, True] @ lo_bits 5 (of_nat l) @ lo_bits 6 (of_nat (64 - l - t)) @
        lo_bits (64 - l - t) (drop_bit t d))" using R(3) unfolding lw(2) by (simp add: s'_def lw(1))
    ultimately show ?thesis using lt R(2) by (intro exI conjI) (auto simp: fae_inv_def s'_def)
  qed
qed

definition fae_rep :: "float_array_enc \<Rightarrow> u64 list \<Rightarrow> bool" where
  "fae_rep s vs \<longleftrightarrow> fae_inv s \<and> fae_prev s \<noteq> uvnan \<and> (\<exists>W. slice_rep (fae_b s) (fae_n s) W \<and>
     (\<forall>us tl. gor_fmt (fae_win s) (fae_prev s) us tl \<longrightarrow> (\<exists>st. gor_stream (vs @ us) st \<and> W @ tl = byte_bits 16 @ st)))"

lemma fae_rep_value:
  assumes "fae_rep s vs" "v \<noteq> uvnan"
  shows "\<exists>s'. fae_value v s = Inr s' \<and> fae_rep s' (vs @ [v])"
proof -
  from assms(1) obtain W where W: "fae_inv s" "slice_rep (fae_b s) (fae_n s) W"
    "\<And>us tl. gor_fmt (fae_win s) (fae_prev s) us tl \<Longrightarrow> \<exists>st. gor_stream (vs @ us) st \<and> W @ tl = byte_bits 16 @ st"
    by (auto simp: fae_rep_def)
  from fae_value_item [OF W(1,2), of v] obtain bs s' where s': "fae_value v s = Inr s'"
    "gor_item (fae_win s) (fae_prev s) v bs (fae_win s')" "slice_rep (fae_b s') (fae_n s') (W @ bs)" "fae_inv s'" "fae_prev s' = v"
    by blast
  have "\<exists>st. gor_stream ((vs @ [v]) @ us) st \<and> (W @ bs) @ tl = byte_bits 16 @ st" if "gor_fmt (fae_win s') v us tl" for us tl
    using W(3) [OF gor_fmt.more [OF s'(2) assms(2) that]] by simp
  with s' assms(2) show ?thesis by (auto simp: fae_rep_def)
qed

text \<open>What is left of the slice when the sentinel has been written: a block of the format.\<close>

definition fae_done :: "float_array_enc \<Rightarrow> u64 list \<Rightarrow> bool" where
  "fae_done s vs \<longleftrightarrow> fae_n s \<le> 8 * length (fae_b s) \<and>
     (\<exists>W st. slice_rep (fae_b s) (fae_n s) W \<and> W = byte_bits 16 @ st \<and> (\<forall>pad. gor_stream vs (st @ pad)))"

lemma fae_rep_sentinel:
  assumes "fae_rep s vs"
  shows "\<exists>s'. fae_value uvnan s = Inr s' \<and> fae_done s' vs"
proof -
  from assms obtain W where W: "fae_inv s" "slice_rep (fae_b s) (fae_n s) W" "fae_prev s \<noteq> uvnan"
    "\<And>us tl. gor_fmt (fae_win s) (fae_prev s) us tl \<Longrightarrow> \<exists>st. gor_stream (vs @ us) st \<and> W @ tl = byte_bits 16 @ st"
    by (auto simp: fae_rep_def)
  from fae_value_item [OF W(1,2), of uvnan] W(3) obtain bs s' where s': "fae_value uvnan s = Inr s'"
    "gor_item (fae_win s) (fae_prev s) uvnan bs (fae_win s')" "slice_rep (fae_b s') (fae_n s') (W @ bs)"
    "fae_n s' div 8 < length (fae_b s')" by metis
  have st: "\<exists>st. gor_stream vs st \<and> W @ bs @ pad = byte_bits 16 @ st" for pad
    using W(4) [OF gor_fmt.stop [OF s'(2) W(3)]] by simp
  from st [of "[]"] obtain st0 where st0: "W @ bs = byte_bits 16 @ st0" by auto
  have "gor_stream vs (st0 @ pad)" for pad using st [of pad] st0 by (metis append.assoc same_append_eq)
  moreover have "fae_n s' \<le> 8 * length (fae_b s')" using s'(4) by linarith
  ultimately show ?thesis using s'(1,3) st0 by (auto simp: fae_done_def)
qed

lemma fae_loop_ok:
  assumes "fae_rep s us" "uvnan \<notin> set vs"
  shows "\<exists>s'. fae_loop vs tot s = Inr (s', foldl f_add tot vs) \<and> fae_done s' (us @ vs)"
  using assms
proof (induction vs arbitrary: s us tot)
  case Nil
  with fae_rep_sentinel [of s us] show ?case by auto
next
  case (Cons v vs)
  with fae_rep_value [of s us v] obtain s1 where s1: "fae_value v s = Inr s1" "fae_rep s1 (us @ [v])" by auto
  with Cons.IH [OF s1(2), of "f_add tot v"] Cons.prems show ?case by auto
qed

lemma ceil8:
  assumes "(n :: nat) \<le> 8 * k"
  shows "(if n mod 8 > 0 then n div 8 + 1 else n div 8) \<le> k \<and> n \<le> 8 * (if n mod 8 > 0 then n div 8 + 1 else n div 8)"
proof -
  define q r where "q = n div 8" and "r = n mod 8"
  have "n = 8 * q + r" "r < 8" by (simp_all add: q_def r_def)
  with assms have "(if r > 0 then q + 1 else q) \<le> k \<and> n \<le> 8 * (if r > 0 then q + 1 else q)" by auto
  then show ?thesis by (simp only: q_def r_def)
qed

lemma fae_done_fmt:
  assumes "fae_done s vs"
  defines "len \<equiv> (if fae_n s mod 8 > 0 then fae_n s div 8 + 1 else fae_n s div 8)"
  shows "len \<le> length (fae_b s) \<and> float_fmt (take len (fae_b s)) vs"
proof -
  from assms(1) obtain W st where W: "slice_rep (fae_b s) (fae_n s) W" "W = byte_bits 16 @ st"
    "\<And>pad. gor_stream vs (st @ pad)" "fae_n s \<le> 8 * length (fae_b s)" by (auto simp: fae_done_def)
  have len: "len \<le> length (fae_b s)" "fae_n s \<le> 8 * len" using ceil8 [OF W(4)] unfolding len_def by auto
  have n: "length W = fae_n s" "\<And>j. j < fae_n s \<Longrightarrow> j < 8 * length (fae_b s) \<Longrightarrow> bits_of (fae_b s) ! j \<longleftrightarrow> W ! j"
    using W(1) by (auto simp: slice_rep_def pbit_def)
  have "take (fae_n s) (bits_of (fae_b s)) = W"
    by (rule nth_equalityI) (use n W(4) in auto)
  then have "take (8 * len) (bits_of (fae_b s)) = W @ take (8 * len - fae_n s) (drop (fae_n s) (bits_of (fae_b s)))"
    using len(2) by (metis add_diff_inverse_nat not_le take_add)
  then have "bits_of (take len (fae_b s)) = byte_bits 16 @ (st @ take (8 * len - fae_n s) (drop (fae_n s) (bits_of (fae_b s))))"
    using W(2) by (simp add: bits_of_take)
  from byte_fmtI [OF this W(3)] len show ?thesis by simp
qed

lemma fae_loop_safe:
  assumes "fae_inv s" "slice_rep (fae_b s) (fae_n s) W"
  shows "\<exists>s'. fae_loop vs tot s = Inr (s', foldl f_add tot vs)"
  using assms
proof (induction vs arbitrary: s tot W)
  case Nil
  with fae_value_item [of s W uvnan] show ?case by auto
next
  case (Cons v vs)
  with fae_value_item [of s W v] show ?case by fastforce
qed

lemma slice_rep_start:
  assumes "length b = 9"
  shows "\<exists>b'. put_u64_at 1 v (b[0 := 16]) = Inr b' \<and> slice_rep b' 72 (byte_bits 16 @ lo_bits 64 v) \<and> length b' = 9"
proof -
  have "bits_of (put_u64 v) = lo_bits 64 v"
    using lo_bits_be_word [of "put_u64 v"] by (simp add: put_u64_def be_word_be_bytes take_bit_word_eq_self)
  moreover have "write_at 1 (put_u64 v) (b[0 := 16]) = 16 # put_u64 v"
    using assms by (cases b) (simp_all add: write_at_def)
  ultimately have "bits_of (write_at 1 (put_u64 v) (b[0 := 16])) = byte_bits 16 @ lo_bits 64 v"
    "length (write_at 1 (put_u64 v) (b[0 := 16])) = 9" by simp_all
  then show ?thesis using assms by (auto simp: put_u64_at_def slice_rep_def pbit_def)
qed

lemma FloatArrayEncodeAll_fmt:
  assumes "list_all (\<lambda>v. \<not> IsNaN v) src" "\<not> IsNaN (foldl f_add 0 (drop 1 src))"
  shows "\<exists>r. FloatArrayEncodeAll src b = Inr r \<and> float_fmt r src"
proof -
  obtain xs spare where b: "b = (xs, spare)" by (cases b)
  define b0 where "b0 = (if length xs + length spare < 9 then replicate 9 0 else take 9 (xs @ spare))"
  define first where "first = (if src = [] then uvnan else src ! 0)"
  have "length b0 = 9" by (auto simp: b0_def min_def)
  from slice_rep_start [OF this, of first] obtain b2
    where b2: "put_u64_at 1 first (b0[0 := 16]) = Inr b2" "slice_rep b2 72 (byte_bits 16 @ lo_bits 64 first)" "length b2 = 9" by blast
  define s0 where "s0 = \<lparr>fae_b = b2, fae_n = 8 + 64, fae_prev = first, fae_prevLeading = NOT 0, fae_prevTrailing = 0\<rparr>"
  have c: "push_bit 4 floatCompressedGorilla = 16" by (simp add: floatCompressedGorilla_def)
  have n0: "\<not> (src \<noteq> [] \<and> IsNaN (src ! 0))" using assms(1) by (auto simp: list_all_length)
  have "\<exists>s tot. (if src = [] then Inr (s0, 0) else fae_loop (drop 1 src) 0 s0) = Inr (s, tot) \<and> \<not> IsNaN tot \<and> fae_done s src"
  proof (cases src)
    case Nil
    have "fae_done s0 []"
      unfolding fae_done_def using b2 Nil gor_stream.none by (auto simp: s0_def first_def intro!: exI)
    moreover have "\<not> IsNaN 0" by code_simp
    ultimately show ?thesis using Nil by simp
  next
    case (Cons v vs)
    have v: "\<not> IsNaN v" "v \<noteq> uvnan" "uvnan \<notin> set vs" using assms(1) Cons by (auto simp: list_all_iff)
    have "fae_rep s0 [v]"
      unfolding fae_rep_def using b2 Cons v gor_stream.some [OF v(2)]
      by (fastforce simp: s0_def first_def fae_inv_def fae_win_def)
    from fae_loop_ok [OF this v(3), of 0] assms(2) Cons show ?thesis by auto
  qed
  then obtain s tot where s: "(if src = [] then Inr (s0, 0) else fae_loop (drop 1 src) 0 s0) = Inr (s, tot)"
    "\<not> IsNaN tot" "fae_done s src" by blast
  have "FloatArrayEncodeAll src b =
      Inr (take (if fae_n s mod 8 > 0 then fae_n s div 8 + 1 else fae_n s div 8) (fae_b s))"
    unfolding FloatArrayEncodeAll_def b prod.case Let_def c b0_def [symmetric] first_def [symmetric] b2(1) bind_res_simps
      s0_def [symmetric] s(1) if_not_P [OF n0] if_not_P [OF s(2)]
    using fae_done_fmt [OF s(3)] by (auto split: if_splits)
  with fae_done_fmt [OF s(3)] show ?thesis by blast
qed

lemma FloatArrayEncodeAll_NaN_sum:
  assumes "src \<noteq> []" "\<not> IsNaN (src ! 0)" "IsNaN (foldl f_add 0 (drop 1 src))"
  shows "FloatArrayEncodeAll src b = Inl (GoError ''unsupported value: NaN'')"
proof -
  obtain xs spare where b: "b = (xs, spare)" by (cases b)
  define b0 where "b0 = (if length xs + length spare < 9 then replicate 9 0 else take 9 (xs @ spare))"
  have "length b0 = 9" by (auto simp: b0_def min_def)
  from slice_rep_start [OF this, of "src ! 0"] obtain b2
    where b2: "put_u64_at 1 (src ! 0) (b0[0 := 16]) = Inr b2" "slice_rep b2 72 (byte_bits 16 @ lo_bits 64 (src ! 0))" by blast
  define s0 where "s0 = \<lparr>fae_b = b2, fae_n = 8 + 64, fae_prev = src ! 0, fae_prevLeading = NOT 0, fae_prevTrailing = 0\<rparr>"
  have c: "push_bit 4 floatCompressedGorilla = 16" by (simp add: floatCompressedGorilla_def)
  have "fae_inv s0" "slice_rep (fae_b s0) (fae_n s0) (byte_bits 16 @ lo_bits 64 (src ! 0))"
    using b2(2) by (simp_all add: s0_def fae_inv_def fae_win_def)
  from fae_loop_safe [OF this, of "drop 1 src" 0] obtain s
    where s: "fae_loop (drop 1 src) 0 s0 = Inr (s, foldl f_add 0 (drop 1 src))" by blast
  have ne: "(src = []) = False" "(IsNaN (src ! 0)) = False" "IsNaN (foldl f_add 0 (drop 1 src)) = True" using assms by simp_all
  show ?thesis
    unfolding FloatArrayEncodeAll_def b prod.case Let_def c b0_def [symmetric] ne simp_thms if_False b2(1) bind_res_simps
      s0_def [symmetric] s if_True by (rule TrueI)
qed

text \<open>The sum of finite floats is never NaN, even when it overflows.\<close>

lemma f_sum_finite:
  assumes "\<not> IsNaN tot" "list_all (\<lambda>v. \<not> IsNaN v \<and> \<not> IsInf v) vs"
  shows "\<not> IsNaN (foldl f_add tot vs)"
  using assms by (induction vs arbitrary: tot) (auto simp: f_add_NaN)

lemma f_sum_NaN: "IsNaN tot \<Longrightarrow> IsNaN (foldl f_add tot vs)"
  by (induction vs arbitrary: tot) (auto simp: f_add_NaN)

lemma f_sum_no_NaN: "\<not> IsNaN (foldl f_add tot vs) \<Longrightarrow> list_all (\<lambda>v. \<not> IsNaN v) vs"
proof (induction vs arbitrary: tot)
  case (Cons v vs)
  then show ?case using f_sum_NaN [of "f_add tot v" vs] by (auto simp: f_add_NaN)
qed simp

section \<open>Properties\<close>

text \<open>
  C39: the batch float encoder on every input. It reports an error exactly when the first value is NaN or
  the sum of the others is, and never panics; every other array is restored bit for bit by
  \<^verbatim>\<open>FloatArrayDecodeAll\<close> and by a \<^verbatim>\<open>FloatDecoder\<close>, whatever slice was passed in.
\<close>

theorem float_batch_total:
  "if src \<noteq> [] \<and> IsNaN (src ! 0) \<or> IsNaN (foldl f_add 0 (drop 1 src))
   then FloatArrayEncodeAll src b = Inl (GoError ''unsupported value: NaN'')
   else \<exists>r d' d''. FloatArrayEncodeAll src b = Inr r \<and> FloatArrayDecodeAll r = Inr src \<and>
     FloatDecoder_SetBytes r d = (None, d') \<and> drain FloatDecoder_Next FloatDecoder_Values d' [] = Some (src, d'') \<and>
     fd_err d'' = None"
proof (cases "src \<noteq> [] \<and> IsNaN (src ! 0) \<or> IsNaN (foldl f_add 0 (drop 1 src))")
  case True
  have "\<not> IsNaN 0" by code_simp
  then have "FloatArrayEncodeAll src b = Inl (GoError ''unsupported value: NaN'')"
    using True FloatArrayEncodeAll_NaN_sum [of src b]
    by (cases "src = []"; cases "IsNaN (src ! 0)") (auto simp: FloatArrayEncodeAll_def Let_def split: prod.split)
  with True show ?thesis by simp
next
  case False
  then have "list_all (\<lambda>v. \<not> IsNaN v) src" using f_sum_no_NaN [of 0 "drop 1 src"] by (cases src) auto
  with False obtain r where r: "FloatArrayEncodeAll src b = Inr r" "float_fmt r src"
    using FloatArrayEncodeAll_fmt by blast
  from float_fmt_SetBytes [OF r(2), of d] obtain d' where d: "FloatDecoder_SetBytes r d = (None, d')" "fd_rep d' src" by blast
  from floatd.drain_rep [OF d(2), of "[]"] obtain d'' where "drain FloatDecoder_Next FloatDecoder_Values d' [] = Some (src, d'')"
    "fd_err d'' = None" using floatd.rep_err by auto
  with r(1) d(1) FloatArrayDecodeAll_fmt [OF r(2)] show ?thesis unfolding if_not_P [OF False] by blast
qed

text \<open>
  The batch decoder reads what the streaming encoder writes, for any bit writer that keeps its
  contract.
\<close>

theorem float_stream_to_batch:
  assumes "bit_stream_ok W pend" and "e = NewFloatEncoder W \<or> (\<exists>e0. e = FloatEncoder_Reset W e0)"
    and "list_all (\<lambda>v. \<not> IsNaN v) vs"
  shows "\<exists>b. FloatEncoder_Bytes (FloatEncoder_Flush W (foldl (FloatEncoder_Write W) e vs)) = (b, None) \<and>
    FloatArrayDecodeAll b = Inr vs"
  using FloatEncoder_fmt [OF assms] FloatArrayDecodeAll_fmt by blast

theorem float_stream_to_batch_witness:
  "\<exists>b. FloatEncoder_Bytes (FloatEncoder_Flush list_stream (foldl (FloatEncoder_Write list_stream)
      (FloatEncoder_Reset list_stream (NewFloatEncoder list_stream)) [0x4028000000000000, 0x4028000000000000, 0xFFF0000000000000])) =
      (b, None) \<and>
    FloatArrayDecodeAll b = Inr [0x4028000000000000, 0x4028000000000000, 0xFFF0000000000000]"
proof (rule float_stream_to_batch)
  show "bit_stream_ok list_stream (take 7)" by (rule list_stream_ok)
  show "list_all (\<lambda>v. \<not> IsNaN v) [0x4028000000000000, 0x4028000000000000, 0xFFF0000000000000]" by code_simp
qed blast

text \<open>
  The NaN check on the sum also rejects arrays without any NaN. Plus and minus infinity after the first
  value add up to NaN, so \<^verbatim>\<open>FloatArrayEncodeAll\<close> refuses an array that the streaming encoder stores.
\<close>

theorem float_batch_rejects_infinities:
  "list_all (\<lambda>v. \<not> IsNaN v) [0, 0x7FF0000000000000, 0xFFF0000000000000] \<and>
   FloatArrayEncodeAll [0, 0x7FF0000000000000, 0xFFF0000000000000] b = Inl (GoError ''unsupported value: NaN'')"
proof
  show "list_all (\<lambda>v. \<not> IsNaN v) [0, 0x7FF0000000000000, 0xFFF0000000000000]" by code_simp
  have "\<not> IsNaN 0" "IsNaN (foldl f_add 0 [0x7FF0000000000000, 0xFFF0000000000000])" by code_simp+
  then show "FloatArrayEncodeAll [0, 0x7FF0000000000000, 0xFFF0000000000000] b = Inl (GoError ''unsupported value: NaN'')"
    by (intro FloatArrayEncodeAll_NaN_sum) simp_all
qed

end
