(* ===== verification/Blocks.thy ===== *)
theory Blocks
  imports Tsm_Values Int_Batch Time_Batch Bool_Codec String_Codec Float_Batch_Encode
begin

text \<open>
  The block layer of \<^verbatim>\<open>tsdb/tsm1/encoding.go\<close>, \<^verbatim>\<open>encoding.gen.go\<close> and \<^verbatim>\<open>array_encoding.go\<close>: one byte for the type, the
  length of the timestamps, the timestamps, the values. It composes the timestamp codec with the codec of
  each value type. The encoders and decoders come from pools, in whatever state their last user left
  them, so their states are arguments. The packages outside the repository are arguments too: \<open>P\<close> is
  simple8b, \<open>S\<close> is snappy and \<open>W\<close> the bit writer.
\<close>

section \<open>Block format\<close>

definition BlockFloat64 :: u8 where "BlockFloat64 = 0"
definition BlockInteger :: u8 where "BlockInteger = 1"
definition BlockBoolean :: u8 where "BlockBoolean = 2"
definition BlockString :: u8 where "BlockString = 3"
definition BlockUnsigned :: u8 where "BlockUnsigned = 4"

lemmas block_tags = BlockFloat64_def BlockInteger_def BlockBoolean_def BlockString_def BlockUnsigned_def

text \<open>\<open>buf\<close> is the caller's slice up to its capacity.\<close>

definition packBlock :: "bytes \<Rightarrow> u8 \<Rightarrow> bytes \<Rightarrow> bytes \<Rightarrow> bytes" where
  "packBlock buf typ ts values =
     (let sz = 1 + 10 + length ts + length values;
          b0 = (if length buf < sz then replicate sz 0 else take sz buf);
          u = put_uvarint (of_nat (length ts));
          b1 = write_at 1 u (b0[0 := typ]);
          i = length u + 1;
          b2 = write_at i ts b1;
          b3 = write_at (i + length ts) values b2
      in take (i + length ts + length values) b3)"

definition unpackBlock :: "bytes \<Rightarrow> (bytes \<times> bytes) res" where
  "unpackBlock buf =
     (case get_uvarint buf of (tsLen, i) \<Rightarrow>
        if i \<le> 0 then Inl (GoError ''unpackBlock: unable to read timestamp block length'')
        else
          let tsIdx = wrap64 (i + sint tsLen) in
          if tsIdx > int (length buf) then Inl (GoError ''unpackBlock: not enough data for timestamp'')
          else if tsIdx < i then Inl (GoPanic ''slice bounds out of range'')
          else Inr (drop (nat i) (take (nat tsIdx) buf), drop (nat tsIdx) buf))"

definition BlockType :: "bytes \<Rightarrow> u8 res" where
  "BlockType block =
     bind_res (sl_get block 0) (\<lambda>blockType.
       if blockType \<in> {BlockFloat64, BlockInteger, BlockUnsigned, BlockBoolean, BlockString} then Inr blockType
       else Inl (GoError ''unknown block type''))"

text \<open>\<^verbatim>\<open>%d\<close> of a number that is not negative.\<close>

fun decimal :: "nat \<Rightarrow> string" where
  "decimal n = (if n < 10 then [char_of (48 + n)] else decimal (n div 10) @ [char_of (48 + n mod 10)])"

declare decimal.simps [simp del]

definition BlockTypeName :: "u8 \<Rightarrow> string" where
  "BlockTypeName typ =
     (if typ = BlockFloat64 then ''float64''
      else if typ = BlockInteger then ''integer''
      else if typ = BlockBoolean then ''boolean''
      else if typ = BlockString then ''string''
      else if typ = BlockUnsigned then ''unsigned''
      else ''unknown('' @ decimal (unat typ) @ '')'')"

text \<open>An error of \<^verbatim>\<open>unpackBlock\<close> is turned into a panic.\<close>

definition BlockCount :: "('e, 'd) s8b_pkg \<Rightarrow> bytes \<Rightarrow> int res" where
  "BlockCount P block =
     (if length block \<le> 1 then Inl (GoPanic ''count of short block'')
      else case unpackBlock (drop 1 block) of
        Inl _ \<Rightarrow> Inl (GoPanic ''BlockCount: error unpacking block'')
      | Inr (tb, _) \<Rightarrow> CountTimestamps P tb)"

section \<open>Encoding slices of values\<close>

text \<open>The type assertions \<^verbatim>\<open>v.(FloatValue)\<close> and so on.\<close>

definition as_Float :: "Value \<Rightarrow> u64 option" where
  "as_Float v = (case v of FloatValue _ x \<Rightarrow> Some x | _ \<Rightarrow> None)"
definition as_Integer :: "Value \<Rightarrow> i64 option" where
  "as_Integer v = (case v of IntegerValue _ x \<Rightarrow> Some x | _ \<Rightarrow> None)"
definition as_Unsigned :: "Value \<Rightarrow> u64 option" where
  "as_Unsigned v = (case v of UnsignedValue _ x \<Rightarrow> Some x | _ \<Rightarrow> None)"
definition as_Boolean :: "Value \<Rightarrow> bool option" where
  "as_Boolean v = (case v of BooleanValue _ x \<Rightarrow> Some x | _ \<Rightarrow> None)"
definition as_String :: "Value \<Rightarrow> bytes option" where
  "as_String v = (case v of StringValue _ x \<Rightarrow> Some x | _ \<Rightarrow> None)"

lemmas as_defs = as_Float_def as_Integer_def as_Unsigned_def as_Boolean_def as_String_def

text \<open>\<^verbatim>\<open>for _, v := range values { vv := v.(T); tenc.Write(vv.UnixNano()); venc.Write(vv.RawValue()) }\<close>\<close>

fun write_values ::
  "(Value \<Rightarrow> 'a option) \<Rightarrow> ('t \<Rightarrow> i64 \<Rightarrow> 't) \<Rightarrow> ('s \<Rightarrow> 'a \<Rightarrow> 's) \<Rightarrow> Value list \<Rightarrow> 't \<Rightarrow> 's \<Rightarrow> ('t \<times> 's) res" where
  "write_values get tw vw [] t s = Inr (t, s)"
| "write_values get tw vw (v # vs) t s =
     (case get v of
        None \<Rightarrow> Inl (GoPanic ''interface conversion'')
      | Some x \<Rightarrow> write_values get tw vw vs (tw t (unixnano v)) (vw s x))"

text \<open>What follows the loop, the same for every type: the bytes of both encoders are packed.\<close>

definition pack_encoded :: "('e, 'd) s8b_pkg \<Rightarrow> ('s \<Rightarrow> bytes res) \<Rightarrow> u8 \<Rightarrow> bytes \<Rightarrow> 'e time_encoder \<times> 's \<Rightarrow> bytes res" where
  "pack_encoded P bts typ buf encs =
     (case encs of (tenc, venc) \<Rightarrow>
        bind_res (TimeEncoder_Bytes P tenc) (\<lambda>(tb, _).
        bind_res (bts venc) (\<lambda>vb. Inr (packBlock buf typ tb vb))))"

definition float_bytes :: "'w float_encoder \<Rightarrow> bytes res" where
  "float_bytes e = (case FloatEncoder_Bytes e of (b, None) \<Rightarrow> Inr b | (_, Some err) \<Rightarrow> Inl err)"

definition encodeFloatBlockUsing ::
  "('e, 'd) s8b_pkg \<Rightarrow> 'w bit_stream \<Rightarrow> bytes \<Rightarrow> Value list \<Rightarrow> 'e time_encoder \<Rightarrow> 'w float_encoder \<Rightarrow> bytes res" where
  "encodeFloatBlockUsing P W buf values tsenc venc =
     bind_res (TimeEncoder_Reset P tsenc) (\<lambda>t0.
     bind_res (write_values as_Float TimeEncoder_Write (FloatEncoder_Write W) values t0 (FloatEncoder_Reset W venc)) (\<lambda>(t, v).
       pack_encoded P float_bytes BlockFloat64 buf (t, FloatEncoder_Flush W v)))"

definition encodeBooleanBlockUsing ::
  "('e, 'd) s8b_pkg \<Rightarrow> bytes \<Rightarrow> Value list \<Rightarrow> 'e time_encoder \<Rightarrow> bool_encoder \<Rightarrow> bytes res" where
  "encodeBooleanBlockUsing P buf values tenc venc =
     bind_res (TimeEncoder_Reset P tenc) (\<lambda>t0.
     bind_res (write_values as_Boolean TimeEncoder_Write BooleanEncoder_Write values t0 (BooleanEncoder_Reset venc))
       (pack_encoded P (\<lambda>v. fst (BooleanEncoder_Bytes v)) BlockBoolean buf))"

definition encodeIntegerBlockUsing ::
  "('e, 'd) s8b_pkg \<Rightarrow> bytes \<Rightarrow> Value list \<Rightarrow> 'e time_encoder \<Rightarrow> int_encoder \<Rightarrow> bytes res" where
  "encodeIntegerBlockUsing P buf values tenc venc =
     bind_res (TimeEncoder_Reset P tenc) (\<lambda>t0.
     bind_res (write_values as_Integer TimeEncoder_Write IntegerEncoder_Write values t0 (IntegerEncoder_Reset venc))
       (pack_encoded P (\<lambda>v. fst (IntegerEncoder_Bytes P v)) BlockInteger buf))"

definition encodeUnsignedBlockUsing ::
  "('e, 'd) s8b_pkg \<Rightarrow> bytes \<Rightarrow> Value list \<Rightarrow> 'e time_encoder \<Rightarrow> int_encoder \<Rightarrow> bytes res" where
  "encodeUnsignedBlockUsing P buf values tenc venc =
     bind_res (TimeEncoder_Reset P tenc) (\<lambda>t0.
     bind_res (write_values as_Unsigned TimeEncoder_Write IntegerEncoder_Write values t0 (IntegerEncoder_Reset venc))
       (pack_encoded P (\<lambda>v. fst (IntegerEncoder_Bytes P v)) BlockUnsigned buf))"

definition encodeStringBlockUsing ::
  "('e, 'd) s8b_pkg \<Rightarrow> snappy \<Rightarrow> bytes \<Rightarrow> Value list \<Rightarrow> 'e time_encoder \<Rightarrow> string_encoder \<Rightarrow> bytes res" where
  "encodeStringBlockUsing P S buf values tenc venc =
     bind_res (TimeEncoder_Reset P tenc) (\<lambda>t0.
     bind_res (write_values as_String TimeEncoder_Write StringEncoder_Write values t0 (StringEncoder_Reset venc))
       (pack_encoded P (StringEncoder_Bytes S) BlockString buf))"

text \<open>The pooled encoders, reset when they are taken (\<^verbatim>\<open>getTimeEncoder\<close> and so on).\<close>

record ('e, 'w) encoder_pool =
  timeEncoderPool :: "'e time_encoder"
  integerEncoderPool :: int_encoder
  floatEncoderPool :: "'w float_encoder"
  stringEncoderPool :: string_encoder
  booleanEncoderPool :: bool_encoder

definition new_encoders :: "('e, 'd) s8b_pkg \<Rightarrow> 'w bit_stream \<Rightarrow> ('e, 'w) encoder_pool" where
  "new_encoders P W = \<lparr>timeEncoderPool = NewTimeEncoder P, integerEncoderPool = NewIntegerEncoder,
     floatEncoderPool = NewFloatEncoder W, stringEncoderPool = NewStringEncoder, booleanEncoderPool = NewBooleanEncoder\<rparr>"

definition getTimeEncoder :: "('e, 'd) s8b_pkg \<Rightarrow> ('e, 'w) encoder_pool \<Rightarrow> 'e time_encoder res" where
  "getTimeEncoder P pl = TimeEncoder_Reset P (timeEncoderPool pl)"
definition getIntegerEncoder :: "('e, 'w) encoder_pool \<Rightarrow> int_encoder" where
  "getIntegerEncoder pl = IntegerEncoder_Reset (integerEncoderPool pl)"
definition getUnsignedEncoder :: "('e, 'w) encoder_pool \<Rightarrow> int_encoder" where
  "getUnsignedEncoder pl = IntegerEncoder_Reset (integerEncoderPool pl)"
definition getFloatEncoder :: "'w bit_stream \<Rightarrow> ('e, 'w) encoder_pool \<Rightarrow> 'w float_encoder" where
  "getFloatEncoder W pl = FloatEncoder_Reset W (floatEncoderPool pl)"
definition getStringEncoder :: "('e, 'w) encoder_pool \<Rightarrow> string_encoder" where
  "getStringEncoder pl = StringEncoder_Reset (stringEncoderPool pl)"
definition getBooleanEncoder :: "('e, 'w) encoder_pool \<Rightarrow> bool_encoder" where
  "getBooleanEncoder pl = BooleanEncoder_Reset (booleanEncoderPool pl)"

definition encodeFloatBlock ::
  "('e, 'd) s8b_pkg \<Rightarrow> 'w bit_stream \<Rightarrow> ('e, 'w) encoder_pool \<Rightarrow> bytes \<Rightarrow> Value list \<Rightarrow> bytes res" where
  "encodeFloatBlock P W pl buf values =
     (if values = [] then Inr []
      else bind_res (getTimeEncoder P pl) (\<lambda>tsenc. encodeFloatBlockUsing P W buf values tsenc (getFloatEncoder W pl)))"

definition encodeBooleanBlock :: "('e, 'd) s8b_pkg \<Rightarrow> ('e, 'w) encoder_pool \<Rightarrow> bytes \<Rightarrow> Value list \<Rightarrow> bytes res" where
  "encodeBooleanBlock P pl buf values =
     (if values = [] then Inr []
      else bind_res (getTimeEncoder P pl) (\<lambda>tsenc. encodeBooleanBlockUsing P buf values tsenc (getBooleanEncoder pl)))"

definition encodeIntegerBlock :: "('e, 'd) s8b_pkg \<Rightarrow> ('e, 'w) encoder_pool \<Rightarrow> bytes \<Rightarrow> Value list \<Rightarrow> bytes res" where
  "encodeIntegerBlock P pl buf values =
     bind_res (getTimeEncoder P pl) (\<lambda>tenc. encodeIntegerBlockUsing P buf values tenc (getIntegerEncoder pl))"

definition encodeUnsignedBlock :: "('e, 'd) s8b_pkg \<Rightarrow> ('e, 'w) encoder_pool \<Rightarrow> bytes \<Rightarrow> Value list \<Rightarrow> bytes res" where
  "encodeUnsignedBlock P pl buf values =
     bind_res (getTimeEncoder P pl) (\<lambda>tenc. encodeUnsignedBlockUsing P buf values tenc (getUnsignedEncoder pl))"

definition encodeStringBlock :: "('e, 'd) s8b_pkg \<Rightarrow> snappy \<Rightarrow> ('e, 'w) encoder_pool \<Rightarrow> bytes \<Rightarrow> Value list \<Rightarrow> bytes res" where
  "encodeStringBlock P S pl buf values =
     bind_res (getTimeEncoder P pl) (\<lambda>tenc.
     bind_res (sl_get values 0) (\<lambda>v0.
       if as_String v0 = None then Inl (GoPanic ''interface conversion'')
       else encodeStringBlockUsing P S buf values tenc (getStringEncoder pl)))"

definition Values_Encode ::
  "('e, 'd) s8b_pkg \<Rightarrow> snappy \<Rightarrow> 'w bit_stream \<Rightarrow> ('e, 'w) encoder_pool \<Rightarrow> Value list \<Rightarrow> bytes \<Rightarrow> bytes res" where
  "Values_Encode P S W pl a buf =
     (if a = [] then Inl (GoPanic ''unable to encode block type'')
      else case a ! 0 of
        FloatValue _ _ \<Rightarrow> encodeFloatBlock P W pl buf a
      | IntegerValue _ _ \<Rightarrow> encodeIntegerBlock P pl buf a
      | UnsignedValue _ _ \<Rightarrow> encodeUnsignedBlock P pl buf a
      | BooleanValue _ _ \<Rightarrow> encodeBooleanBlock P pl buf a
      | StringValue _ _ \<Rightarrow> encodeStringBlock P S pl buf a
      | EmptyValue \<Rightarrow> Inl (GoError ''unsupported value type''))"

text \<open>
  The generated \<^verbatim>\<open>encodeFloatValuesBlock\<close> and so on, for slices of one type. \<open>write_raw\<close> is the loop
  \<^verbatim>\<open>for _, v := range values { tsenc.Write(v.UnixNano()); venc.Write(v.RawValue()) }\<close>; \<^verbatim>\<open>venc.Flush()\<close> does nothing
  except for floats.
\<close>

definition write_raw :: "('t \<Rightarrow> i64 \<Rightarrow> 't) \<Rightarrow> ('s \<Rightarrow> 'a \<Rightarrow> 's) \<Rightarrow> 'a raw_value list \<Rightarrow> 't \<Rightarrow> 's \<Rightarrow> 't \<times> 's" where
  "write_raw tw vw values t s = foldl (\<lambda>(t, s) (x, a). (tw t x, vw s a)) (t, s) values"

definition encodeFloatValuesBlock ::
  "('e, 'd) s8b_pkg \<Rightarrow> 'w bit_stream \<Rightarrow> ('e, 'w) encoder_pool \<Rightarrow> bytes \<Rightarrow> u64 raw_value list \<Rightarrow> bytes res" where
  "encodeFloatValuesBlock P W pl buf values =
     (if values = [] then Inr []
      else bind_res (getTimeEncoder P pl) (\<lambda>t0.
        case write_raw TimeEncoder_Write (FloatEncoder_Write W) values t0 (getFloatEncoder W pl) of
          (t, v) \<Rightarrow> pack_encoded P float_bytes BlockFloat64 buf (t, FloatEncoder_Flush W v)))"

definition encodeIntegerValuesBlock ::
  "('e, 'd) s8b_pkg \<Rightarrow> ('e, 'w) encoder_pool \<Rightarrow> bytes \<Rightarrow> i64 raw_value list \<Rightarrow> bytes res" where
  "encodeIntegerValuesBlock P pl buf values =
     (if values = [] then Inr []
      else bind_res (getTimeEncoder P pl) (\<lambda>t0.
        pack_encoded P (\<lambda>v. fst (IntegerEncoder_Bytes P v)) BlockInteger buf
          (write_raw TimeEncoder_Write IntegerEncoder_Write values t0 (getIntegerEncoder pl))))"

definition encodeUnsignedValuesBlock ::
  "('e, 'd) s8b_pkg \<Rightarrow> ('e, 'w) encoder_pool \<Rightarrow> bytes \<Rightarrow> u64 raw_value list \<Rightarrow> bytes res" where
  "encodeUnsignedValuesBlock P pl buf values =
     (if values = [] then Inr []
      else bind_res (getTimeEncoder P pl) (\<lambda>t0.
        pack_encoded P (\<lambda>v. fst (IntegerEncoder_Bytes P v)) BlockUnsigned buf
          (write_raw TimeEncoder_Write IntegerEncoder_Write values t0 (getUnsignedEncoder pl))))"

definition encodeStringValuesBlock ::
  "('e, 'd) s8b_pkg \<Rightarrow> snappy \<Rightarrow> ('e, 'w) encoder_pool \<Rightarrow> bytes \<Rightarrow> bytes raw_value list \<Rightarrow> bytes res" where
  "encodeStringValuesBlock P S pl buf values =
     (if values = [] then Inr []
      else bind_res (getTimeEncoder P pl) (\<lambda>t0.
        pack_encoded P (StringEncoder_Bytes S) BlockString buf
          (write_raw TimeEncoder_Write StringEncoder_Write values t0 (getStringEncoder pl))))"

definition encodeBooleanValuesBlock ::
  "('e, 'd) s8b_pkg \<Rightarrow> ('e, 'w) encoder_pool \<Rightarrow> bytes \<Rightarrow> bool raw_value list \<Rightarrow> bytes res" where
  "encodeBooleanValuesBlock P pl buf values =
     (if values = [] then Inr []
      else bind_res (getTimeEncoder P pl) (\<lambda>t0.
        pack_encoded P (\<lambda>v. fst (BooleanEncoder_Bytes v)) BlockBoolean buf
          (write_raw TimeEncoder_Write BooleanEncoder_Write values t0 (getBooleanEncoder pl))))"

section \<open>Decoding into slices of values\<close>

text \<open>
  The five decoders differ in the type byte, the value decoder and the size of an element.
  \<open>setb\<close> is \<^verbatim>\<open>vdec.SetBytes\<close>, \<open>lim\<close> the number of elements \<^verbatim>\<open>make\<close> can allocate, \<open>cp\<close> the capacity of the
  caller's slice. A decoder may return values together with an error; the outer \<open>None\<close> is a \<^verbatim>\<open>TimeDecoder.Init\<close>
  that does not return.
\<close>

type_synonym 'a decoded = "('a raw_value list \<times> go_error option) res option"

definition decode_block ::
  "('e, 'd) s8b_pkg \<Rightarrow> u8 \<Rightarrow> nat \<Rightarrow> (bytes \<Rightarrow> 's \<Rightarrow> go_error option \<times> 's) \<Rightarrow> ('s \<Rightarrow> bool \<times> 's) \<Rightarrow> ('s \<Rightarrow> 'v \<times> 's) \<Rightarrow>
   ('s \<Rightarrow> go_error option) \<Rightarrow> bytes \<Rightarrow> nat \<Rightarrow> 'd time_decoder \<Rightarrow> 's \<Rightarrow> 'v decoded" where
  "decode_block P typ lim setb nxt rd verr block cp tdec vdec =
     (if block = [] then Some (Inl (GoPanic ''index out of range''))
      else if block ! 0 \<noteq> typ then Some (Inr ([], Some (GoError ''invalid block type'')))
      else case unpackBlock (drop 1 block) of
        Inl (GoError m) \<Rightarrow> Some (Inr ([], Some (GoError m)))
      | Inl (GoPanic m) \<Rightarrow> Some (Inl (GoPanic m))
      | Inr (tb, vb) \<Rightarrow>
          (case CountTimestamps P tb of
             Inl e \<Rightarrow> Some (Inl e)
           | Inr sz \<Rightarrow>
               if int cp < sz \<and> sz > int lim then Some (Inl (GoPanic ''makeslice: len out of range''))
               else if sz < 0 then Some (Inl (GoPanic ''slice bounds out of range''))
               else case TimeDecoder_Init P tb tdec of
                 None \<Rightarrow> None
               | Some td \<Rightarrow>
                   (case setb vb vdec of
                      (Some err, _) \<Rightarrow> Some (Inr ([], Some err))
                    | (None, vd) \<Rightarrow>
                        (case decode_pairs TimeDecoder_Next TimeDecoder_Read nxt rd (nat sz) td vd of
                           (vals, td', vd') \<Rightarrow>
                             Some (Inr (vals, case td_err td' of Some err \<Rightarrow> Some err | None \<Rightarrow> verr vd'))))))"

text \<open>\<^verbatim>\<open>make\<close> of 16-byte and of 24-byte elements.\<close>

definition lim16 :: nat where "lim16 = 2 ^ 44"
definition lim24 :: nat where "lim24 = 2 ^ 48 div 24"

definition DecodeFloatBlock :: "('e, 'd) s8b_pkg \<Rightarrow> bytes \<Rightarrow> nat \<Rightarrow> 'd time_decoder \<Rightarrow> float_decoder \<Rightarrow> u64 decoded" where
  "DecodeFloatBlock P = decode_block P BlockFloat64 lim16 FloatDecoder_SetBytes FloatDecoder_Next FloatDecoder_Values fd_err"

definition DecodeBooleanBlock :: "('e, 'd) s8b_pkg \<Rightarrow> bytes \<Rightarrow> nat \<Rightarrow> 'd time_decoder \<Rightarrow> bool_decoder \<Rightarrow> bool decoded" where
  "DecodeBooleanBlock P = decode_block P BlockBoolean lim16 (\<lambda>vb d. (None, BooleanDecoder_SetBytes vb d))
     BooleanDecoder_Next BooleanDecoder_Read bd_err"

definition DecodeIntegerBlock :: "('e, 'd) s8b_pkg \<Rightarrow> bytes \<Rightarrow> nat \<Rightarrow> 'd time_decoder \<Rightarrow> int_decoder \<Rightarrow> i64 decoded" where
  "DecodeIntegerBlock P = decode_block P BlockInteger lim16 (\<lambda>vb d. (None, IntegerDecoder_SetBytes vb d))
     (IntegerDecoder_Next P) IntegerDecoder_Read id_err"

definition DecodeUnsignedBlock :: "('e, 'd) s8b_pkg \<Rightarrow> bytes \<Rightarrow> nat \<Rightarrow> 'd time_decoder \<Rightarrow> int_decoder \<Rightarrow> u64 decoded" where
  "DecodeUnsignedBlock P = decode_block P BlockUnsigned lim16 (\<lambda>vb d. (None, IntegerDecoder_SetBytes vb d))
     (IntegerDecoder_Next P) IntegerDecoder_Read id_err"

definition DecodeStringBlock ::
  "('e, 'd) s8b_pkg \<Rightarrow> snappy \<Rightarrow> bytes \<Rightarrow> nat \<Rightarrow> 'd time_decoder \<Rightarrow> string_decoder \<Rightarrow> bytes decoded" where
  "DecodeStringBlock P S = decode_block P BlockString lim24 (StringDecoder_SetBytes S) StringDecoder_Next StringDecoder_Read sd_err"

record 'd decoder_pool =
  timeDecoderPool :: "'d time_decoder"
  integerDecoderPool :: int_decoder
  floatDecoderPool :: float_decoder
  stringDecoderPool :: string_decoder
  booleanDecoderPool :: bool_decoder

definition new_decoders :: "('e, 'd) s8b_pkg \<Rightarrow> 'd decoder_pool" where
  "new_decoders P = \<lparr>
     timeDecoderPool = \<lparr>td_v = 0, td_i = 0, td_n = 0, td_ts = [], td_dec = sp_ZeroDecoder P, td_err = None, td_rleDelta = 0, td_encoding = 0\<rparr>,
     integerDecoderPool = ZeroIntegerDecoder,
     floatDecoderPool = \<lparr>fd_val = 0, fd_leading = 0, fd_trailing = 0, fd_br = NewBitReader [], fd_b = [], fd_first = False,
       fd_finished = False, fd_err = None\<rparr>,
     stringDecoderPool = \<lparr>sd_b = [], sd_l = 0, sd_i = 0, sd_err = None\<rparr>,
     booleanDecoderPool = \<lparr>bd_b = [], bd_i = 0, bd_n = 0, bd_err = None\<rparr>\<rparr>"

text \<open>\<open>as_values\<close> copies the decoded structs into a slice of the interface type.\<close>

definition as_values :: "(i64 \<Rightarrow> 'a \<Rightarrow> Value) \<Rightarrow> 'a decoded \<Rightarrow> (Value list \<times> go_error option) res option" where
  "as_values mk r = map_option (map_sum id (map_prod (map (\<lambda>(t, x). mk t x)) id)) r"

definition DecodeBlock ::
  "('e, 'd) s8b_pkg \<Rightarrow> snappy \<Rightarrow> 'd decoder_pool \<Rightarrow> bytes \<Rightarrow> (Value list \<times> go_error option) res option" where
  "DecodeBlock P S pl block =
     (if length block \<le> 1 then Some (Inl (GoPanic ''decode of short block''))
      else case BlockType block of
        Inl err \<Rightarrow> Some (Inr ([], Some err))
      | Inr blockType \<Rightarrow>
          if blockType = BlockFloat64 then
            as_values FloatValue (DecodeFloatBlock P block 0 (timeDecoderPool pl) (floatDecoderPool pl))
          else if blockType = BlockInteger then
            as_values IntegerValue (DecodeIntegerBlock P block 0 (timeDecoderPool pl) (integerDecoderPool pl))
          else if blockType = BlockUnsigned then
            as_values UnsignedValue (DecodeUnsignedBlock P block 0 (timeDecoderPool pl) (integerDecoderPool pl))
          else if blockType = BlockBoolean then
            as_values BooleanValue (DecodeBooleanBlock P block 0 (timeDecoderPool pl) (booleanDecoderPool pl))
          else if blockType = BlockString then
            as_values StringValue (DecodeStringBlock P S block 0 (timeDecoderPool pl) (stringDecoderPool pl))
          else Some (Inl (GoPanic ''unknown block type'')))"

section \<open>Arrays\<close>

text \<open>
  Encoding an array uses its slices as scratch space: \<^verbatim>\<open>TimeArrayEncodeAll\<close> and \<^verbatim>\<open>IntegerArrayEncodeAll\<close> replace
  them by deltas, so the array comes back changed. The values are encoded before the timestamps.
\<close>

definition encode_array_block ::
  "u8 \<Rightarrow> ('v list \<Rightarrow> bytes res \<times> 'v list) \<Rightarrow> 'v array_vals \<Rightarrow> bytes \<Rightarrow> bytes res \<times> 'v array_vals" where
  "encode_array_block typ enc a b =
     (if arr_Len a = 0 then (Inr [], a)
      else case enc (Values a) of
        (Inl err, vs) \<Rightarrow> (Inl err, a\<lparr>Values := vs\<rparr>)
      | (Inr vb, vs) \<Rightarrow>
          (case TimeArrayEncodeAll (Timestamps a) ([], []) of
             (Inl err, ts) \<Rightarrow> (Inl err, \<lparr>Timestamps = ts, Values = vs\<rparr>)
           | (Inr tb, ts) \<Rightarrow> (Inr (packBlock b typ tb vb), \<lparr>Timestamps = ts, Values = vs\<rparr>)))"

definition EncodeFloatArrayBlock :: "u64 array_vals \<Rightarrow> bytes \<Rightarrow> bytes res \<times> u64 array_vals" where
  "EncodeFloatArrayBlock = encode_array_block BlockFloat64 (\<lambda>vs. (FloatArrayEncodeAll vs ([], []), vs))"
definition EncodeIntegerArrayBlock :: "i64 array_vals \<Rightarrow> bytes \<Rightarrow> bytes res \<times> i64 array_vals" where
  "EncodeIntegerArrayBlock = encode_array_block BlockInteger (\<lambda>vs. IntegerArrayEncodeAll vs ([], []))"
definition EncodeUnsignedArrayBlock :: "u64 array_vals \<Rightarrow> bytes \<Rightarrow> bytes res \<times> u64 array_vals" where
  "EncodeUnsignedArrayBlock = encode_array_block BlockUnsigned (\<lambda>vs. UnsignedArrayEncodeAll vs ([], []))"
definition EncodeStringArrayBlock :: "snappy \<Rightarrow> bytes array_vals \<Rightarrow> bytes \<Rightarrow> bytes res \<times> bytes array_vals" where
  "EncodeStringArrayBlock S = encode_array_block BlockString (\<lambda>vs. (StringArrayEncodeAll S vs [], vs))"
definition EncodeBooleanArrayBlock :: "bool array_vals \<Rightarrow> bytes \<Rightarrow> bytes res \<times> bool array_vals" where
  "EncodeBooleanArrayBlock = encode_array_block BlockBoolean (\<lambda>vs. (BooleanArrayEncodeAll vs ([], []), vs))"

text \<open>
  Decoding into an array: the error and the array afterwards, a slice whose decoding failed being empty;
  \<open>Inl\<close> is a panic.
\<close>

definition decode_col :: "'a list res \<Rightarrow> (go_error option \<times> 'a list) res" where
  "decode_col r = (case r of Inl (GoError m) \<Rightarrow> Inr (Some (GoError m), []) | Inl (GoPanic m) \<Rightarrow> Inl (GoPanic m) | Inr xs \<Rightarrow> Inr (None, xs))"

definition decode_array_block ::
  "u8 \<Rightarrow> (bytes \<Rightarrow> 'v list \<Rightarrow> 'v list res) \<Rightarrow> bytes \<Rightarrow> 'v array_vals \<Rightarrow> (go_error option \<times> 'v array_vals) res" where
  "decode_array_block typ dec block a =
     bind_res (sl_get block 0) (\<lambda>blockType.
       if blockType \<noteq> typ then Inr (Some (GoError ''invalid block type''), a)
       else case unpackBlock (drop 1 block) of
         Inl (GoError m) \<Rightarrow> Inr (Some (GoError m), a)
       | Inl (GoPanic m) \<Rightarrow> Inl (GoPanic m)
       | Inr (tb, vb) \<Rightarrow>
           bind_res (decode_col (TimeArrayDecodeAll tb (Timestamps a))) (\<lambda>(terr, ts).
             if terr \<noteq> None then Inr (terr, a\<lparr>Timestamps := ts\<rparr>)
             else bind_res (decode_col (dec vb (Values a))) (\<lambda>(verr, vs).
               Inr (verr, \<lparr>Timestamps = ts, Values = vs\<rparr>))))"

definition DecodeBooleanArrayBlock :: "bytes \<Rightarrow> bool array_vals \<Rightarrow> (go_error option \<times> bool array_vals) res" where
  "DecodeBooleanArrayBlock = decode_array_block BlockBoolean BooleanArrayDecodeAll"
definition DecodeFloatArrayBlock :: "bytes \<Rightarrow> u64 array_vals \<Rightarrow> (go_error option \<times> u64 array_vals) res" where
  "DecodeFloatArrayBlock = decode_array_block BlockFloat64 (\<lambda>vb _. FloatArrayDecodeAll vb)"
definition DecodeIntegerArrayBlock :: "bytes \<Rightarrow> i64 array_vals \<Rightarrow> (go_error option \<times> i64 array_vals) res" where
  "DecodeIntegerArrayBlock = decode_array_block BlockInteger IntegerArrayDecodeAll"
definition DecodeUnsignedArrayBlock :: "bytes \<Rightarrow> u64 array_vals \<Rightarrow> (go_error option \<times> u64 array_vals) res" where
  "DecodeUnsignedArrayBlock = decode_array_block BlockUnsigned UnsignedArrayDecodeAll"
definition DecodeStringArrayBlock :: "snappy \<Rightarrow> bytes \<Rightarrow> bytes array_vals \<Rightarrow> (go_error option \<times> bytes array_vals) res" where
  "DecodeStringArrayBlock S = decode_array_block BlockString (StringArrayDecodeAll S)"

definition DecodeTimestampArrayBlock :: "bytes \<Rightarrow> i64 list \<Rightarrow> (go_error option \<times> i64 list) res" where
  "DecodeTimestampArrayBlock block a =
     bind_res (sl_from 1 block) (\<lambda>rest.
       case unpackBlock rest of
         Inl (GoError m) \<Rightarrow> Inr (Some (GoError m), a)
       | Inl (GoPanic m) \<Rightarrow> Inl (GoPanic m)
       | Inr (tb, _) \<Rightarrow> decode_col (TimeArrayDecodeAll tb a))"

end
