(* ===== verification/Block_Codec.thy ===== *)
theory Block_Codec
  imports Blocks
begin

text \<open>
  The block layer is correct: what the encoders of \<^verbatim>\<open>Blocks\<close> write is a well-formed block of the timestamps and
  the values, and every decoder restores a well-formed block. The predicate \<open>block_fmt\<close> is the meeting
  point: three encoders per type produce it and two decoders per type read it.
\<close>

section \<open>Packing\<close>

lemma packBlock_eq: "packBlock buf typ ts vs = typ # put_uvarint (of_nat (length ts)) @ ts @ vs"
proof -
  define u where "u = put_uvarint (of_nat (length ts))"
  define sz where "sz = 1 + 10 + length ts + length vs"
  define b0 where "b0 = (if length buf < sz then replicate sz 0 else take sz buf)"
  define c where "c = b0[0 := typ]"
  have u: "length u \<le> 10" by (simp add: u_def length_put_uvarint_le10)
  have lc: "length c = sz" by (simp add: c_def b0_def)
  have fit: "1 + length u \<le> length c" "1 + length (u @ ts) \<le> length c" "1 + length ((u @ ts) @ vs) \<le> length c"
    using u by (simp_all add: lc sz_def)
  have "packBlock buf typ ts vs = take (length u + 1 + length ts + length vs)
      (write_at (length u + 1 + length ts) vs (write_at (length u + 1) ts (write_at 1 u c)))"
    by (simp add: packBlock_def Let_def u_def sz_def b0_def c_def)
  also have "write_at (length u + 1) ts (write_at 1 u c) = write_at 1 (u @ ts) c"
    using write_at_append [OF fit(1), of ts] by (simp add: add.commute)
  also have "write_at (length u + 1 + length ts) vs (write_at 1 (u @ ts) c) = write_at 1 ((u @ ts) @ vs) c"
    using write_at_append [OF fit(2), of vs] by (simp add: ac_simps)
  also have "take (length u + 1 + length ts + length vs) (write_at 1 ((u @ ts) @ vs) c) = take 1 c @ (u @ ts) @ vs"
    using take_write_at [OF fit(3)] by (simp add: ac_simps)
  also have "take 1 c = [typ]" using lc by (cases b0) (auto simp: c_def sz_def)
  finally show ?thesis by (simp add: u_def)
qed

lemma unpack_pack:
  assumes "length ts < 2 ^ 62"
  shows "unpackBlock (put_uvarint (of_nat (length ts)) @ ts @ vs) = Inr (ts, vs)"
proof -
  let ?n = "length (put_uvarint (of_nat (length ts)))"
  have n: "?n \<le> 10" by (rule length_put_uvarint_le10)
  have s: "sint (of_nat (length ts) :: u64) = int (length ts)" using assms by (intro sint_of_nat_small) simp
  have w: "wrap64 (int ?n + int (length ts)) = int (?n + length ts)"
    using wrap64_small [of "int ?n + int (length ts)"] assms n by simp
  show ?thesis by (simp add: unpackBlock_def s w Let_def del: of_nat_add)
qed

section \<open>Well-formed blocks\<close>

definition block_fmt :: "(u64 \<Rightarrow> u64 list) \<Rightarrow> u8 \<Rightarrow> (bytes \<Rightarrow> 'v list \<Rightarrow> bool) \<Rightarrow> (i64 \<times> 'v) list \<Rightarrow> bytes \<Rightarrow> bool" where
  "block_fmt wv typ fmt vs block \<longleftrightarrow>
     (\<exists>tb vb. block = typ # put_uvarint (of_nat (length tb)) @ tb @ vb \<and> length tb < 2 ^ 62 \<and>
        time_fmt wv tb (map fst vs) \<and> fmt vb (map snd vs))"

lemma length_words_le: "(\<And>w. 0 < length (wv w)) \<Longrightarrow> length ws \<le> length (concat (map wv ws))"
proof (induction ws)
  case (Cons w ws)
  have "0 < length (wv w)" by (rule Cons.prems)
  with Cons.IH [OF Cons.prems] show ?case by (simp del: length_greater_0_conv)
qed simp

lemma time_fmt_length:
  assumes "time_fmt wv b xs" "\<And>w. 0 < length (wv w)"
  shows "length b \<le> 8 * length xs + 31"
  using assms
proof (induction rule: time_fmt.induct)
  case (packed xs f j b)
  have "length (words_of b) \<le> length (concat (map wv (words_of b)))" using packed(4) by (rule length_words_le)
  moreover have "length xs = length (concat (map wv (words_of b))) + 1"
    using arg_cong [OF packed(1), of length] by simp
  moreover have "length b = 8 * length (words_of b)" using packed(3) by (simp add: length_words_of)
  ultimately show ?case by simp
next
  case (rle xs f n d j)
  then show ?case using length_time_rle [of _ f d "of_nat (n + 1)"] by (simp del: of_nat_add)
qed simp

lemma block_fmtI:
  assumes "time_fmt wv tb (map fst vs)" "fmt vb (map snd vs)" "\<And>w. 0 < length (wv w)" "length vs < 2 ^ 58"
  shows "block_fmt wv typ fmt vs (packBlock buf typ tb vb)"
  unfolding block_fmt_def packBlock_eq using assms time_fmt_length [OF assms(1,3)] by fastforce

lemma block_fmt_parts:
  assumes "block_fmt wv typ fmt vs block"
  obtains tb vb where "block = typ # drop 1 block" "unpackBlock (drop 1 block) = Inr (tb, vb)"
    "time_fmt wv tb (map fst vs)" "fmt vb (map snd vs)" "1 < length block"
  using assms by (auto simp: block_fmt_def unpack_pack)

text \<open>\<^verbatim>\<open>block[0]\<close>, \<^verbatim>\<open>BlockType\<close> and \<^verbatim>\<open>BlockCount\<close> read a block without its values.\<close>

lemma block_fmt_type:
  "block_fmt wv typ fmt vs block \<Longrightarrow> typ \<in> {BlockFloat64, BlockInteger, BlockUnsigned, BlockBoolean, BlockString} \<Longrightarrow>
   BlockType block = Inr typ"
  by (auto simp: block_fmt_def BlockType_def)

section \<open>Decoding a well-formed block\<close>

text \<open>What the block layer relies on in the streaming decoder of a value type.\<close>

locale block_decoder = s8b_package P wvals erep dvalid drep + value_decoder nxt rd verr rep
  for P :: "('e, 'd) s8b_pkg" and wvals erep dvalid drep
    and nxt :: "'s \<Rightarrow> bool \<times> 's" and rd :: "'s \<Rightarrow> 'v \<times> 's" and verr rep +
  fixes setb :: "bytes \<Rightarrow> 's \<Rightarrow> go_error option \<times> 's"
    and vvalid :: "'s \<Rightarrow> bool"
    and fmt :: "bytes \<Rightarrow> 'v list \<Rightarrow> bool"
  assumes set_fmt: "fmt vb vs \<Longrightarrow> vvalid s \<Longrightarrow> \<exists>s'. setb vb s = (None, s') \<and> rep s' vs"

text \<open>Such a decoder is read in step with the decoder of the timestamps.\<close>

sublocale block_decoder < pair: decoder_pair "TimeDecoder_Next :: 'd time_decoder \<Rightarrow> _" TimeDecoder_Read td_err time_dec_rep nxt rd verr rep
  by (rule decoder_pair.intro [OF timed.value_decoder_axioms value_decoder_axioms])

context block_decoder
begin

lemma decode_block_ok:
  assumes "block_fmt wvals typ fmt vs block" "length vs \<le> lim" "dvalid (td_dec tdec)" "vvalid vdec"
  shows "decode_block P typ lim setb nxt rd verr block cp tdec vdec = Some (Inr (vs, None))"
proof -
  from assms(1) obtain tb vb where b: "block = typ # drop 1 block" "unpackBlock (drop 1 block) = Inr (tb, vb)"
    "time_fmt wvals tb (map fst vs)" "fmt vb (map snd vs)" by (rule block_fmt_parts)
  from time_Init_fmt [OF b(3) assms(3)] obtain td where td: "TimeDecoder_Init P tb tdec = Some td" "time_dec_rep td (map fst vs)" by blast
  from set_fmt [OF b(4) assms(4)] obtain vd where vd: "setb vb vdec = (None, vd)" "rep vd (map snd vs)" by blast
  from pair.decode_pairs_rep [OF td(2) vd(2), of "length vs"] obtain td' vd'
    where pr: "decode_pairs TimeDecoder_Next TimeDecoder_Read nxt rd (length vs) td vd = (vs, td', vd')"
      "time_dec_rep td' []" "rep vd' []" by (auto simp: zip_map_fst_snd)
  have e: "block \<noteq> []" "block ! 0 = typ" using b(1) by (metis list.distinct(1), metis nth_Cons_0)
  have err: "td_err td' = None" "verr vd' = None" using timed.rep_err [OF pr(2)] rep_err [OF pr(3)] by simp_all
  show ?thesis
    using assms(2) e b(2) td(1) vd(1) pr(1) err CountTimestamps_fmt [OF b(3)] by (simp add: decode_block_def)
qed

end


definition str_fmt :: "snappy \<Rightarrow> bytes \<Rightarrow> bytes list \<Rightarrow> bool" where
  "str_fmt S b ss \<longleftrightarrow> (\<exists>r. b = push_bit 4 stringCompressedSnappy # r \<and> sn_Decode S r = Inr (str_data ss) \<and> length (str_data ss) < 2 ^ 63)"

context s8b_package
begin

lemma int_block_decoder:
  "block_decoder P wvals erep dvalid drep (IntegerDecoder_Next P) IntegerDecoder_Read id_err (int_dec_rep wvals)
     (\<lambda>vb d. (None, IntegerDecoder_SetBytes vb d)) (\<lambda>d. length (id_values d) = 240) (int_fmt wvals)"
  by (intro block_decoder.intro s8b_package_axioms int_value_decoder block_decoder_axioms.intro) (simp add: int_fmt_dec)

lemma float_block_decoder:
  "block_decoder P wvals erep dvalid drep FloatDecoder_Next FloatDecoder_Values fd_err fd_rep
     FloatDecoder_SetBytes (\<lambda>_. True) float_fmt"
  by (intro block_decoder.intro s8b_package_axioms floatd.value_decoder_axioms block_decoder_axioms.intro) (rule float_fmt_SetBytes)

lemma bool_block_decoder:
  "block_decoder P wvals erep dvalid drep BooleanDecoder_Next BooleanDecoder_Read bd_err bool_dec_rep
     (\<lambda>vb d. (None, BooleanDecoder_SetBytes vb d)) (\<lambda>d. bd_err d = None) bool_fmt"
  by (intro block_decoder.intro s8b_package_axioms boold.value_decoder_axioms block_decoder_axioms.intro) (simp add: bool_fmt_dec)

lemma str_block_decoder:
  "block_decoder P wvals erep dvalid drep StringDecoder_Next StringDecoder_Read sd_err str_dec_rep
     (StringDecoder_SetBytes S) (\<lambda>_. True) (str_fmt S)"
  by (intro block_decoder.intro s8b_package_axioms strd.value_decoder_axioms block_decoder_axioms.intro)
    (auto simp: str_fmt_def StringDecoder_SetBytes_def str_dec_rep_def)

lemmas block_decoders =
  block_decoder.decode_block_ok [OF int_block_decoder] block_decoder.decode_block_ok [OF float_block_decoder]
  block_decoder.decode_block_ok [OF bool_block_decoder] block_decoder.decode_block_ok [OF str_block_decoder]

lemma BlockCount_fmt:
  assumes "block_fmt wvals typ fmt vs block"
  shows "BlockCount P block = Inr (int (length vs))"
proof -
  from assms obtain tb vb where "unpackBlock (drop 1 block) = Inr (tb, vb)" "time_fmt wvals tb (map fst vs)" "1 < length block"
    by (rule block_fmt_parts)
  then show ?thesis using CountTimestamps_fmt [of tb "map fst vs"] by (simp add: BlockCount_def)
qed

end

interpretation int_block: block_decoder s8b_repo word_vals repo_erep repo_dvalid dec_rep "IntegerDecoder_Next s8b_repo" IntegerDecoder_Read
    id_err "int_dec_rep word_vals" "\<lambda>vb d. (None, IntegerDecoder_SetBytes vb d)" "\<lambda>d. length (id_values d) = 240" "int_fmt word_vals"
  by (rule repo.int_block_decoder)
interpretation float_block: block_decoder s8b_repo word_vals repo_erep repo_dvalid dec_rep FloatDecoder_Next FloatDecoder_Values
    fd_err fd_rep FloatDecoder_SetBytes "\<lambda>_. True" float_fmt
  by (rule repo.float_block_decoder)
interpretation bool_block: block_decoder s8b_repo word_vals repo_erep repo_dvalid dec_rep BooleanDecoder_Next BooleanDecoder_Read
    bd_err bool_dec_rep "\<lambda>vb d. (None, BooleanDecoder_SetBytes vb d)" "\<lambda>d. bd_err d = None" bool_fmt
  by (rule repo.bool_block_decoder)
interpretation str_block: block_decoder s8b_repo word_vals repo_erep repo_dvalid dec_rep StringDecoder_Next StringDecoder_Read
    sd_err str_dec_rep "StringDecoder_SetBytes S" "\<lambda>_. True" "str_fmt S" for S
  by (rule repo.str_block_decoder)

section \<open>Encoding a slice of values\<close>

lemma write_values_ok:
  "map get vs = map Some xs \<Longrightarrow>
   write_values get tw vw vs t s = Inr (foldl tw t (map unixnano vs), foldl vw s xs)"
  by (induction vs arbitrary: xs t s) (auto simp: map_eq_Cons_conv)

lemma write_values_mixed:
  "\<exists>v\<in>set vs. get v = None \<Longrightarrow> write_values get tw vw vs t s = Inl (GoPanic ''interface conversion'')"
  by (induction vs arbitrary: t s) (auto split: option.split)

lemma write_raw_eq: "write_raw tw vw vs t s = (foldl tw t (map fst vs), foldl vw s (map snd vs))"
  unfolding write_raw_def by (induction vs arbitrary: t s) auto

lemma foldl_TimeEncoder_Write:
  "te_ts (foldl TimeEncoder_Write e xs) = te_ts e @ xs" "te_enc (foldl TimeEncoder_Write e xs) = te_enc e"
  by (induction xs arbitrary: e) (simp_all add: TimeEncoder_Write_def)

context s8b_package
begin

lemma TimeEncoder_Reset_ok:
  "erep (te_enc e) ws \<Longrightarrow> \<exists>e'. TimeEncoder_Reset P e = Inr e' \<and> te_ts e' = [] \<and> erep (te_enc e') []"
  using Reset_law [of "te_enc e" ws] by (auto simp: TimeEncoder_Reset_def)

lemma pack_encoded_fmt:
  assumes "te_ts t = []" "erep (te_enc t) []" "vs \<noteq> []" "length vs < 2 ^ 58"
    and "bts (foldl vw s (map snd vs)) = Inr vb" "fmt vb (map snd vs)"
  shows "\<exists>b. pack_encoded P bts typ buf (foldl TimeEncoder_Write t (map fst vs), foldl vw s (map snd vs)) = Inr b \<and>
    block_fmt wvals typ fmt vs b"
proof -
  let ?t = "foldl TimeEncoder_Write t (map fst vs)"
  have "te_ts ?t = map fst vs" "erep (te_enc ?t) []" using assms(1,2) by (simp_all add: foldl_TimeEncoder_Write)
  then obtain tb e' where tb: "TimeEncoder_Bytes P ?t = Inr (tb, e')" "time_fmt wvals tb (map fst vs)"
    using time_Bytes_fmt [of ?t "map fst vs"] assms(3,4) by auto
  then show ?thesis using assms(4-6) block_fmtI [of wvals tb vs fmt vb _ buf] wvals_len by (simp add: pack_encoded_def)
qed

text \<open>The common shape of the five \<^verbatim>\<open>encode...BlockUsing\<close>, alone and after \<^verbatim>\<open>getTimeEncoder\<close>.\<close>

lemma encode_with_fmt:
  assumes er: "erep (te_enc t1) ws" and get: "map get vs = map Some xs"
    and ne: "vs \<noteq> []" "length vs < 2 ^ 58" and b: "\<exists>vb. bts (foldl vw s xs) = Inr vb \<and> fmt vb xs"
  shows "\<exists>b. bind_res (TimeEncoder_Reset P t1) (\<lambda>t0.
      bind_res (write_values get TimeEncoder_Write vw vs t0 s) (pack_encoded P bts typ buf)) = Inr b \<and>
    block_fmt wvals typ fmt (zip (map unixnano vs) xs) b"
proof -
  have l: "length xs = length vs" using arg_cong [OF get, of length] by simp
  from TimeEncoder_Reset_ok [OF er] obtain t0 where t0: "TimeEncoder_Reset P t1 = Inr t0" "te_ts t0 = []" "erep (te_enc t0) []" by blast
  from b obtain vb where "bts (foldl vw s xs) = Inr vb" "fmt vb xs" by blast
  with pack_encoded_fmt [OF t0(2,3), of "zip (map unixnano vs) xs" bts vw s vb fmt _ buf] l ne
  show ?thesis by (cases xs) (auto simp: t0 write_values_ok [OF get])
qed

lemma encode_using_fmt:
  assumes er: "erep (te_enc (timeEncoderPool pl)) ws" and get: "map get vs = map Some xs"
    and ne: "vs \<noteq> []" "length vs < 2 ^ 58" and b: "\<exists>vb. bts (foldl vw s xs) = Inr vb \<and> fmt vb xs"
  shows "\<exists>b. bind_res (getTimeEncoder P pl) (\<lambda>t1. bind_res (TimeEncoder_Reset P t1) (\<lambda>t0.
      bind_res (write_values get TimeEncoder_Write vw vs t0 s) (pack_encoded P bts typ buf))) = Inr b \<and>
    block_fmt wvals typ fmt (zip (map unixnano vs) xs) b"
proof -
  from TimeEncoder_Reset_ok [OF er] obtain t1 where t1: "getTimeEncoder P pl = Inr t1" "erep (te_enc t1) []"
    by (auto simp: getTimeEncoder_def)
  show ?thesis unfolding t1(1) bind_res_simps by (rule encode_with_fmt [OF t1(2) get ne], rule b)
qed

lemma encode_raw_fmt:
  assumes er: "erep (te_enc (timeEncoderPool pl)) ws" and ne: "vs \<noteq> []" "length vs < 2 ^ 58"
    and b: "\<exists>vb. bts (foldl vw s (map snd vs)) = Inr vb \<and> fmt vb (map snd vs)"
  shows "\<exists>b. bind_res (getTimeEncoder P pl) (\<lambda>t0. pack_encoded P bts typ buf (write_raw TimeEncoder_Write vw vs t0 s)) = Inr b \<and>
    block_fmt wvals typ fmt vs b"
proof -
  from TimeEncoder_Reset_ok [OF er] obtain t1 where t1: "getTimeEncoder P pl = Inr t1" "te_ts t1 = []" "erep (te_enc t1) []"
    by (auto simp: getTimeEncoder_def)
  from b obtain vb where "bts (foldl vw s (map snd vs)) = Inr vb" "fmt vb (map snd vs)" by blast
  with pack_encoded_fmt [OF t1(2,3) ne] show ?thesis by (auto simp: t1 write_raw_eq)
qed

text \<open>Each value encoder, reset, writes its format.\<close>

lemma int_enc_fmt:
  assumes "length xs < 2 ^ 63"
  shows "\<exists>vb. fst (IntegerEncoder_Bytes P (foldl IntegerEncoder_Write (IntegerEncoder_Reset e) xs)) = Inr vb \<and> int_fmt wvals vb xs"
  using int_Bytes_fmt [OF int_enc_rep_fold [OF int_enc_rep_init(2)], of xs e] assms by auto

end

lemma bool_enc_fmt:
  assumes "length xs < 2 ^ 63"
  shows "\<exists>vb. fst (BooleanEncoder_Bytes (foldl BooleanEncoder_Write (BooleanEncoder_Reset e) xs)) = Inr vb \<and> bool_fmt vb xs"
proof -
  have "bool_enc_rep (BooleanEncoder_Reset e) []" by (simp add: bool_enc_rep_def BooleanEncoder_Reset_def low_bits_def)
  from bool_Bytes_fmt [OF bool_enc_rep_fold [OF this, of xs]] assms show ?thesis by auto
qed

lemma str_enc_fmt:
  assumes "snappy_ok S" "0 \<le> sn_MaxEncodedLen S (length (str_data xs))"
  shows "\<exists>vb. StringEncoder_Bytes S (foldl StringEncoder_Write (StringEncoder_Reset e) xs) = Inr vb \<and> str_fmt S vb xs"
proof -
  have "length (str_data xs) < 2 ^ 32" using snappy_okD(4) [OF assms] .
  moreover have "se_bytes (foldl StringEncoder_Write (StringEncoder_Reset e) xs) = str_data xs"
    by (simp add: foldl_StringEncoder_Write StringEncoder_Reset_def)
  ultimately show ?thesis
    using snappy_okD(1) [OF assms, of "[]"] assms(2) by (auto simp: StringEncoder_Bytes_def str_fmt_def)
qed

lemma float_enc_fmt:
  assumes "bit_stream_ok W pend" "list_all (\<lambda>v. \<not> IsNaN v) xs"
  shows "\<exists>vb. float_bytes (FloatEncoder_Flush W (foldl (FloatEncoder_Write W) (FloatEncoder_Reset W e) xs)) = Inr vb \<and> float_fmt vb xs"
  using FloatEncoder_fmt [OF assms(1) disjI2 assms(2), of "FloatEncoder_Reset W e"] by (fastforce simp: float_bytes_def)

lemma as_Some:
  "as_Float v = Some x \<longleftrightarrow> v = FloatValue (unixnano v) x"
  "as_Integer v = Some y \<longleftrightarrow> v = IntegerValue (unixnano v) y"
  "as_Unsigned v = Some z \<longleftrightarrow> v = UnsignedValue (unixnano v) z"
  "as_Boolean v = Some b \<longleftrightarrow> v = BooleanValue (unixnano v) b"
  "as_String v = Some s \<longleftrightarrow> v = StringValue (unixnano v) s"
  by (cases v; simp add: as_defs)+

lemma as_all_gen:
  assumes "\<And>v x. get v = Some x \<Longrightarrow> v = mk (unixnano v) x" "map get vs = map Some xs"
  shows "map (\<lambda>(t, x). mk t x) (zip (map unixnano vs) xs) = vs"
  using assms(2)
proof (induction vs arbitrary: xs)
  case (Cons v vs)
  then show ?case using assms(1) [of v] by (auto simp: map_eq_Cons_conv)
qed simp

lemma as_all:
  "map as_Float vs = map Some fs \<Longrightarrow> map (\<lambda>(t, x). FloatValue t x) (zip (map unixnano vs) fs) = vs"
  "map as_Integer vs = map Some js \<Longrightarrow> map (\<lambda>(t, x). IntegerValue t x) (zip (map unixnano vs) js) = vs"
  "map as_Unsigned vs = map Some us \<Longrightarrow> map (\<lambda>(t, x). UnsignedValue t x) (zip (map unixnano vs) us) = vs"
  "map as_Boolean vs = map Some bs \<Longrightarrow> map (\<lambda>(t, x). BooleanValue t x) (zip (map unixnano vs) bs) = vs"
  "map as_String vs = map Some ss \<Longrightarrow> map (\<lambda>(t, x). StringValue t x) (zip (map unixnano vs) ss) = vs"
  by - (rule as_all_gen, erule as_Some [THEN iffD1], assumption)+

lemma as_first:
  "map get vs = map Some xs \<Longrightarrow> vs \<noteq> [] \<Longrightarrow> \<exists>x. get (vs ! 0) = Some x"
  by (cases vs) (auto simp: map_eq_Cons_conv)

context s8b_package
begin

lemma Values_Encode_fmt:
  assumes er: "erep (te_enc (timeEncoderPool pl)) ws" and ne: "vs \<noteq> []" "length vs < 2 ^ 58"
  shows "map as_Integer vs = map Some js \<Longrightarrow> \<exists>b. Values_Encode P S W pl vs buf = Inr b \<and>
      block_fmt wvals BlockInteger (int_fmt wvals) (zip (map unixnano vs) js) b"
    and "map as_Unsigned vs = map Some us \<Longrightarrow> \<exists>b. Values_Encode P S W pl vs buf = Inr b \<and>
      block_fmt wvals BlockUnsigned (int_fmt wvals) (zip (map unixnano vs) us) b"
    and "map as_Boolean vs = map Some bs \<Longrightarrow> \<exists>b. Values_Encode P S W pl vs buf = Inr b \<and>
      block_fmt wvals BlockBoolean bool_fmt (zip (map unixnano vs) bs) b"
    and "map as_String vs = map Some ss \<Longrightarrow> snappy_ok S \<Longrightarrow> 0 \<le> sn_MaxEncodedLen S (length (str_data ss)) \<Longrightarrow>
      \<exists>b. Values_Encode P S W pl vs buf = Inr b \<and> block_fmt wvals BlockString (str_fmt S) (zip (map unixnano vs) ss) b"
    and "map as_Float vs = map Some fs \<Longrightarrow> bit_stream_ok W pend \<Longrightarrow> list_all (\<lambda>v. \<not> IsNaN v) fs \<Longrightarrow>
      \<exists>b. Values_Encode P S W pl vs buf = Inr b \<and> block_fmt wvals BlockFloat64 float_fmt (zip (map unixnano vs) fs) b"
proof -
  have l: "length xs = length vs" if "map get vs = map Some xs" for get :: "Value \<Rightarrow> 'z option" and xs
    using arg_cong [OF that, of length] by simp
  note E = encode_using_fmt [OF er _ ne]
  show "\<exists>b. Values_Encode P S W pl vs buf = Inr b \<and> block_fmt wvals BlockInteger (int_fmt wvals) (zip (map unixnano vs) js) b"
    if a: "map as_Integer vs = map Some js"
  proof -
    obtain x where "vs ! 0 = IntegerValue (unixnano (vs ! 0)) x" using as_first [OF a ne(1)] by (auto simp: as_Some)
    then have e: "Values_Encode P S W pl vs buf = encodeIntegerBlock P pl buf vs" using ne(1) by (cases "vs ! 0") (auto simp: Values_Encode_def)
    show ?thesis unfolding e encodeIntegerBlock_def encodeIntegerBlockUsing_def
      by (rule E [OF a], rule int_enc_fmt) (use l [OF a] ne(2) in simp)
  qed
  show "\<exists>b. Values_Encode P S W pl vs buf = Inr b \<and> block_fmt wvals BlockUnsigned (int_fmt wvals) (zip (map unixnano vs) us) b"
    if a: "map as_Unsigned vs = map Some us"
  proof -
    obtain x where "vs ! 0 = UnsignedValue (unixnano (vs ! 0)) x" using as_first [OF a ne(1)] by (auto simp: as_Some)
    then have e: "Values_Encode P S W pl vs buf = encodeUnsignedBlock P pl buf vs" using ne(1) by (cases "vs ! 0") (auto simp: Values_Encode_def)
    show ?thesis unfolding e encodeUnsignedBlock_def encodeUnsignedBlockUsing_def
      by (rule E [OF a], rule int_enc_fmt) (use l [OF a] ne(2) in simp)
  qed
  show "\<exists>b. Values_Encode P S W pl vs buf = Inr b \<and> block_fmt wvals BlockBoolean bool_fmt (zip (map unixnano vs) bs) b"
    if a: "map as_Boolean vs = map Some bs"
  proof -
    obtain x where "vs ! 0 = BooleanValue (unixnano (vs ! 0)) x" using as_first [OF a ne(1)] by (auto simp: as_Some)
    then have e: "Values_Encode P S W pl vs buf = encodeBooleanBlock P pl buf vs" using ne(1) by (cases "vs ! 0") (auto simp: Values_Encode_def)
    show ?thesis unfolding e encodeBooleanBlock_def encodeBooleanBlockUsing_def if_not_P [OF ne(1)]
      by (rule E [OF a], rule bool_enc_fmt) (use l [OF a] ne(2) in simp)
  qed
  show "\<exists>b. Values_Encode P S W pl vs buf = Inr b \<and> block_fmt wvals BlockString (str_fmt S) (zip (map unixnano vs) ss) b"
    if a: "map as_String vs = map Some ss" and S: "snappy_ok S" "0 \<le> sn_MaxEncodedLen S (length (str_data ss))"
  proof -
    obtain x where x: "vs ! 0 = StringValue (unixnano (vs ! 0)) x" using as_first [OF a ne(1)] by (auto simp: as_Some)
    then have e: "Values_Encode P S W pl vs buf = encodeStringBlock P S pl buf vs" using ne(1) by (cases "vs ! 0") (auto simp: Values_Encode_def)
    have "sl_get vs 0 = Inr (vs ! 0)" "as_String (vs ! 0) \<noteq> None" using ne(1) x as_Some(5) [of "vs ! 0" x] by auto
    then have "encodeStringBlock P S pl buf vs = bind_res (getTimeEncoder P pl) (\<lambda>tenc. encodeStringBlockUsing P S buf vs tenc (getStringEncoder pl))"
      by (auto simp: encodeStringBlock_def)
    then have e': "Values_Encode P S W pl vs buf = \<dots>" using e by simp
    show ?thesis unfolding e' encodeStringBlockUsing_def by (rule E [OF a], rule str_enc_fmt [OF S])
  qed
  show "\<exists>b. Values_Encode P S W pl vs buf = Inr b \<and> block_fmt wvals BlockFloat64 float_fmt (zip (map unixnano vs) fs) b"
    if a: "map as_Float vs = map Some fs" and F: "bit_stream_ok W pend" "list_all (\<lambda>v. \<not> IsNaN v) fs"
  proof -
    obtain x where "vs ! 0 = FloatValue (unixnano (vs ! 0)) x" using as_first [OF a ne(1)] by (auto simp: as_Some)
    then have e: "Values_Encode P S W pl vs buf = encodeFloatBlock P W pl buf vs" using ne(1) by (cases "vs ! 0") (auto simp: Values_Encode_def)
    have p: "(\<lambda>(t, v). pack_encoded P float_bytes BlockFloat64 buf (t, FloatEncoder_Flush W v)) =
        pack_encoded P (\<lambda>v. float_bytes (FloatEncoder_Flush W v)) BlockFloat64 buf"
      by (simp add: pack_encoded_def fun_eq_iff)
    show ?thesis unfolding e encodeFloatBlock_def encodeFloatBlockUsing_def if_not_P [OF ne(1)] p
      by (rule E [OF a], rule float_enc_fmt [OF F])
  qed
qed

end

section \<open>Arrays\<close>

lemma encode_array_fmt:
  assumes "Timestamps a \<noteq> []" "length (Values a) = length (Timestamps a)" "length (Timestamps a) < 2 ^ 58"
    and "fst (enc (Values a)) = Inr vb" "fmt vb (Values a)"
  shows "\<exists>b. fst (encode_array_block typ enc a buf) = Inr b \<and> block_fmt word_vals typ fmt (zip (Timestamps a) (Values a)) b"
proof -
  obtain vs where v: "enc (Values a) = (Inr vb, vs)" using assms(4) by (cases "enc (Values a)") auto
  obtain tb where "fst (TimeArrayEncodeAll (Timestamps a) ([], [])) = Inr tb" "time_fmt word_vals tb (Timestamps a)"
    using TimeArrayEncodeAll_fmt [OF assms(1), of "([], [])"] assms(3) by auto
  then obtain ts where t: "TimeArrayEncodeAll (Timestamps a) ([], []) = (Inr tb, ts)" "time_fmt word_vals tb (Timestamps a)"
    by (cases "TimeArrayEncodeAll (Timestamps a) ([], [])") auto
  have "block_fmt word_vals typ fmt (zip (Timestamps a) (Values a)) (packBlock buf typ tb vb)"
    by (rule block_fmtI) (use t(2) assms repo.wvals_len in auto)
  then show ?thesis using v t assms(1) by (simp add: encode_array_block_def arr_Len_def)
qed

lemma decode_array_fmt:
  assumes "block_fmt word_vals typ fmt vs block" "length vs \<le> max_words"
    and "\<And>vb. fmt vb (map snd vs) \<Longrightarrow> dec vb (Values a) = Inr (map snd vs)"
  shows "decode_array_block typ dec block a = Inr (None, NewArrayFromValues vs)"
proof -
  from assms(1) obtain tb vb where b: "block = typ # drop 1 block" "unpackBlock (drop 1 block) = Inr (tb, vb)"
    "time_fmt word_vals tb (map fst vs)" "fmt vb (map snd vs)" by (rule block_fmt_parts)
  have "sl_get block 0 = Inr typ" by (subst b(1)) simp
  then show ?thesis
    using b(2) assms(3) [OF b(4)] TimeArrayDecodeAll_fmt [OF b(3), of "Timestamps a"] assms(2)
    by (simp add: decode_array_block_def decode_col_def NewArrayFromValues_def)
qed

lemma UnsignedArrayDecodeAll_eq: "UnsignedArrayDecodeAll = IntegerArrayDecodeAll"
  by (intro ext) (simp add: UnsignedArrayDecodeAll_def IntegerArrayDecodeAll_def)

lemma StringArrayDecodeAll_fmt: "str_fmt S b ss \<Longrightarrow> StringArrayDecodeAll S b dst = Inr ss"
  using str_decode_loop_ok [of 0 "str_data ss" ss] by (auto simp: str_fmt_def StringArrayDecodeAll_def)

lemma array_block_cycle:
  assumes "Timestamps a \<noteq> []" "length (Values a) = length (Timestamps a)" "length (Timestamps a) \<le> 2 ^ 40"
    and "\<exists>vb. fst (enc (Values a)) = Inr vb \<and> fmt vb (Values a)"
    and "\<And>vb. fmt vb (Values a) \<Longrightarrow> dec vb (Values d) = Inr (Values a)"
  shows "\<exists>b. fst (encode_array_block typ enc a buf) = Inr b \<and> decode_array_block typ dec b d = Inr (None, a)"
proof -
  have m: "length (zip (Timestamps a) (Values a)) \<le> max_words" "length (Timestamps a) < 2 ^ 58"
    using assms(2,3) by (simp_all add: max_words_def)
  from assms(4) obtain vb where vb: "fst (enc (Values a)) = Inr vb" "fmt vb (Values a)" by blast
  obtain b where b: "fst (encode_array_block typ enc a buf) = Inr b" "block_fmt word_vals typ fmt (zip (Timestamps a) (Values a)) b"
    using encode_array_fmt [where enc = enc and fmt = fmt, OF assms(1,2) m(2) vb] by blast
  have "decode_array_block typ dec b d = Inr (None, NewArrayFromValues (zip (Timestamps a) (Values a)))"
    by (rule decode_array_fmt [OF b(2) m(1)]) (use assms(2,5) in simp)
  then show ?thesis using b(1) assms(2) by (simp add: NewArrayFromValues_def)
qed

section \<open>Properties\<close>

text \<open>
  A list of values a block can hold: all of one type, floats other than NaN, strings within the size snappy accepts.
\<close>

definition encodable :: "snappy \<Rightarrow> Value list \<Rightarrow> bool" where
  "encodable S vs \<longleftrightarrow>
     (\<exists>xs. map as_Float vs = map Some xs \<and> list_all (\<lambda>v. \<not> IsNaN v) xs) \<or> (\<exists>xs. map as_Integer vs = map Some xs) \<or>
     (\<exists>xs. map as_Unsigned vs = map Some xs) \<or> (\<exists>xs. map as_Boolean vs = map Some xs) \<or>
     (\<exists>xs. map as_String vs = map Some xs \<and> 0 \<le> sn_MaxEncodedLen S (length (str_data xs)))"

lemma DecodeBlock_fmt:
  assumes P: "s8b_package P wv er dv dr" and d: "dv (td_dec (timeDecoderPool dp))" "length (id_values (integerDecoderPool dp)) = 240"
    "bd_err (booleanDecoderPool dp) = None"
  shows "block_fmt wv BlockInteger (int_fmt wv) vs b \<Longrightarrow> length vs \<le> 2 ^ 40 \<Longrightarrow> DecodeBlock P S dp b = Some (Inr (map (\<lambda>(t, x). IntegerValue t x) vs, None))"
    and "block_fmt wv BlockUnsigned (int_fmt wv) us b \<Longrightarrow> length us \<le> 2 ^ 40 \<Longrightarrow> DecodeBlock P S dp b = Some (Inr (map (\<lambda>(t, x). UnsignedValue t x) us, None))"
    and "block_fmt wv BlockBoolean bool_fmt bs b \<Longrightarrow> length bs \<le> 2 ^ 40 \<Longrightarrow> DecodeBlock P S dp b = Some (Inr (map (\<lambda>(t, x). BooleanValue t x) bs, None))"
    and "block_fmt wv BlockString (str_fmt S) ss b \<Longrightarrow> length ss \<le> 2 ^ 40 \<Longrightarrow> DecodeBlock P S dp b = Some (Inr (map (\<lambda>(t, x). StringValue t x) ss, None))"
    and "block_fmt wv BlockFloat64 float_fmt fs b \<Longrightarrow> length fs \<le> 2 ^ 40 \<Longrightarrow> DecodeBlock P S dp b = Some (Inr (map (\<lambda>(t, x). FloatValue t x) fs, None))"
proof -
  note D = s8b_package.block_decoders [OF P] and T = block_fmt_type
  have len: "\<not> length b \<le> 1" if "block_fmt wv ty fmt xs b" for ty and fmt :: "bytes \<Rightarrow> 'z list \<Rightarrow> bool" and xs
    using block_fmt_parts [OF that] by (metis not_le)
  have lims: "n \<le> lim16" "n \<le> lim24" if "n \<le> 2 ^ 40" for n using that by (simp_all add: lim16_def lim24_def)
  show "DecodeBlock P S dp b = Some (Inr (map (\<lambda>(t, x). IntegerValue t x) vs, None))" if "block_fmt wv BlockInteger (int_fmt wv) vs b" "length vs \<le> 2 ^ 40"
    using D(1) [OF that(1) lims(1) [OF that(2)] d(1,2)] len [OF that(1)] T [OF that(1)]
    by (simp add: DecodeBlock_def DecodeIntegerBlock_def as_values_def block_tags)
  show "DecodeBlock P S dp b = Some (Inr (map (\<lambda>(t, x). UnsignedValue t x) us, None))"
    if "block_fmt wv BlockUnsigned (int_fmt wv) us b" "length us \<le> 2 ^ 40"
    using D(1) [OF that(1) lims(1) [OF that(2)] d(1,2)] len [OF that(1)] T [OF that(1)]
    by (simp add: DecodeBlock_def DecodeUnsignedBlock_def as_values_def block_tags)
  show "DecodeBlock P S dp b = Some (Inr (map (\<lambda>(t, x). BooleanValue t x) bs, None))"
    if "block_fmt wv BlockBoolean bool_fmt bs b" "length bs \<le> 2 ^ 40"
    using D(3) [OF that(1) lims(1) [OF that(2)] d(1,3)] len [OF that(1)] T [OF that(1)]
    by (simp add: DecodeBlock_def DecodeBooleanBlock_def as_values_def block_tags)
  show "DecodeBlock P S dp b = Some (Inr (map (\<lambda>(t, x). StringValue t x) ss, None))"
    if "block_fmt wv BlockString (str_fmt S) ss b" "length ss \<le> 2 ^ 40"
    using D(4) [OF that(1) lims(2) [OF that(2)] d(1) TrueI] len [OF that(1)] T [OF that(1)]
    by (simp add: DecodeBlock_def DecodeStringBlock_def as_values_def block_tags)
  show "DecodeBlock P S dp b = Some (Inr (map (\<lambda>(t, x). FloatValue t x) fs, None))"
    if "block_fmt wv BlockFloat64 float_fmt fs b" "length fs \<le> 2 ^ 40"
    using D(2) [OF that(1) lims(1) [OF that(2)] d(1) TrueI] len [OF that(1)] T [OF that(1)]
    by (simp add: DecodeBlock_def DecodeFloatBlock_def as_values_def block_tags)
qed

lemma values_block_cycle:
  assumes "s8b_package P wv er dv dr" and "snappy_ok S" and "bit_stream_ok W pend"
    and "er (te_enc (timeEncoderPool pl)) ws" and "dv (td_dec (timeDecoderPool dp))"
    and "length (id_values (integerDecoderPool dp)) = 240" and "bd_err (booleanDecoderPool dp) = None"
    and "encodable S vs" and "vs \<noteq> []" and "length vs \<le> 2 ^ 40"
  shows "\<exists>b. Values_Encode P S W pl vs buf = Inr b \<and> DecodeBlock P S dp b = Some (Inr (vs, None)) \<and>
    BlockCount P b = Inr (int (length vs))"
proof -
  have len: "length vs < 2 ^ 58" using assms(10) by simp
  have z: "length (zip (map unixnano vs) xs) = length vs" "length (zip (map unixnano vs) xs) \<le> 2 ^ 40"
    if "map get vs = map Some xs" for get :: "Value \<Rightarrow> 'z option" and xs
    using arg_cong [OF that, of length] assms(10) by simp_all
  note E = s8b_package.Values_Encode_fmt [OF assms(1,4,9) len, where S = S and W = W and buf = buf]
    and D = DecodeBlock_fmt [OF assms(1,5-7), where S = S] and C = s8b_package.BlockCount_fmt [OF assms(1)]
  from assms(8) consider (f) xs where "map as_Float vs = map Some xs" "list_all (\<lambda>v. \<not> IsNaN v) xs" | (i) xs where "map as_Integer vs = map Some xs"
    | (u) xs where "map as_Unsigned vs = map Some xs" | (b) xs where "map as_Boolean vs = map Some xs"
    | (s) xs where "map as_String vs = map Some xs" "0 \<le> sn_MaxEncodedLen S (length (str_data xs))" unfolding encodable_def by blast
  then show ?thesis
  proof cases
    case f
    from E(5) [OF f(1) assms(3) f(2)] obtain b where b: "Values_Encode P S W pl vs buf = Inr b"
      "block_fmt wv BlockFloat64 float_fmt (zip (map unixnano vs) xs) b" by blast
    then show ?thesis using D(5) [OF b(2) z(2) [OF f(1)]] C [OF b(2)] as_all(1) [OF f(1)] z(1) [OF f(1)] by simp
  next
    case i
    from E(1) [OF i] obtain b where b: "Values_Encode P S W pl vs buf = Inr b"
      "block_fmt wv BlockInteger (int_fmt wv) (zip (map unixnano vs) xs) b" by blast
    then show ?thesis using D(1) [OF b(2) z(2) [OF i]] C [OF b(2)] as_all(2) [OF i] z(1) [OF i] by simp
  next
    case u
    from E(2) [OF u] obtain b where b: "Values_Encode P S W pl vs buf = Inr b"
      "block_fmt wv BlockUnsigned (int_fmt wv) (zip (map unixnano vs) xs) b" by blast
    then show ?thesis using D(2) [OF b(2) z(2) [OF u]] C [OF b(2)] as_all(3) [OF u] z(1) [OF u] by simp
  next
    case b
    from E(3) [OF b] obtain bl where bl: "Values_Encode P S W pl vs buf = Inr bl"
      "block_fmt wv BlockBoolean bool_fmt (zip (map unixnano vs) xs) bl" by blast
    then show ?thesis using D(3) [OF bl(2) z(2) [OF b]] C [OF bl(2)] as_all(4) [OF b] z(1) [OF b] by simp
  next
    case s
    from E(4) [OF s(1) assms(2) s(2)] obtain b where b: "Values_Encode P S W pl vs buf = Inr b"
      "block_fmt wv BlockString (str_fmt S) (zip (map unixnano vs) xs) b" by blast
    then show ?thesis using D(4) [OF b(2) z(2) [OF s(1)]] C [OF b(2)] as_all(5) [OF s(1)] z(1) [OF s(1)] by simp
  qed
qed

lemma new_pools_ok:
  "repo_erep (te_enc (timeEncoderPool (new_encoders s8b_repo W))) []" "repo_dvalid (td_dec (timeDecoderPool (new_decoders s8b_repo)))"
  "length (id_values (integerDecoderPool (new_decoders s8b_repo))) = 240" "bd_err (booleanDecoderPool (new_decoders s8b_repo)) = None"
  using repo.NewEncoder_law repo.ZeroDecoder_law
  by (simp_all add: new_encoders_def NewTimeEncoder_def new_decoders_def ZeroIntegerDecoder_def)

text \<open>
  C5: a block survives encoding and decoding. With any simple8b, snappy and bit writer that keep their
  contracts, \<^verbatim>\<open>Values.Encode\<close> of a non-empty list of at most 2^40 values of one type, floats other than NaN and
  strings within snappy's limit, succeeds, \<^verbatim>\<open>DecodeBlock\<close> gives back exactly the list without an error, and
  \<^verbatim>\<open>BlockCount\<close> its length. The encoders and decoders come from the pools as earlier uses left them: the time encoder and
  decoder in a state that simple8b allows, the integer decoder with its buffer of 240, the boolean decoder without an old
  error; nothing is assumed of the others.
\<close>

theorem values_block_roundtrip:
  assumes "s8b_package P wv er dv dr" and "snappy_ok S" and "bit_stream_ok W pend"
    and "er (te_enc (timeEncoderPool pl)) ws" and "dv (td_dec (timeDecoderPool dp))"
    and "length (id_values (integerDecoderPool dp)) = 240" and "bd_err (booleanDecoderPool dp) = None"
    and "encodable S vs" and "vs \<noteq> []" and "length vs \<le> 2 ^ 40"
  shows "\<exists>b. Values_Encode P S W pl vs buf = Inr b \<and> DecodeBlock P S dp b = Some (Inr (vs, None)) \<and>
    BlockCount P b = Inr (int (length vs))"
  by (rule values_block_cycle [OF assms])

theorem values_block_roundtrip_witness:
  "\<exists>b. Values_Encode s8b_repo snappy_stored list_stream (new_encoders s8b_repo list_stream) [FloatValue 10 0x4028000000000000, FloatValue 20 0] [] = Inr b \<and>
    DecodeBlock s8b_repo snappy_stored (new_decoders s8b_repo) b = Some (Inr ([FloatValue 10 0x4028000000000000, FloatValue 20 0], None)) \<and>
    BlockCount s8b_repo b = Inr (int (length [FloatValue 10 0x4028000000000000, FloatValue 20 0]))"
proof (rule values_block_roundtrip [OF repo.s8b_package_axioms snappy_stored_ok list_stream_ok new_pools_ok])
  have "list_all (\<lambda>v. \<not> IsNaN v) [0x4028000000000000, 0]" by code_simp
  then show "encodable snappy_stored [FloatValue 10 0x4028000000000000, FloatValue 20 0]"
    unfolding encodable_def by (intro disjI1 exI [of _ "[0x4028000000000000, 0]"]) (simp add: as_defs)
qed simp_all

primrec value_kind :: "Value \<Rightarrow> u8 option" where
  "value_kind (IntegerValue t v) = Some BlockInteger"
| "value_kind (UnsignedValue t v) = Some BlockUnsigned"
| "value_kind (FloatValue t v) = Some BlockFloat64"
| "value_kind (BooleanValue t v) = Some BlockBoolean"
| "value_kind (StringValue t v) = Some BlockString"
| "value_kind EmptyValue = None"

lemma as_kind:
  "as_Float v \<noteq> None \<longleftrightarrow> value_kind v = Some BlockFloat64" "as_Integer v \<noteq> None \<longleftrightarrow> value_kind v = Some BlockInteger"
  "as_Unsigned v \<noteq> None \<longleftrightarrow> value_kind v = Some BlockUnsigned" "as_Boolean v \<noteq> None \<longleftrightarrow> value_kind v = Some BlockBoolean"
  "as_String v \<noteq> None \<longleftrightarrow> value_kind v = Some BlockString"
  by (cases v; simp add: as_defs block_tags)+

lemma write_values_all: "write_values get tw vw vs t s = Inr r \<Longrightarrow> v \<in> set vs \<Longrightarrow> get v \<noteq> None"
  using write_values_mixed [of vs get tw vw t s] by (cases "get v") auto

lemma pack_encoded_head: "pack_encoded P bts ty buf e = Inr b \<Longrightarrow> b ! 0 = ty"
  by (auto simp: pack_encoded_def packBlock_eq bind_res_Inr_iff split: prod.splits)

lemma Values_Encode_kind:
  assumes "Values_Encode P S W pl vs buf = Inr b" "v \<in> set vs"
  shows "value_kind v = Some (b ! 0)"
proof -
  have ne: "vs \<noteq> []" using assms(2) by auto
  show ?thesis
  proof (cases "vs ! 0")
    case (FloatValue t x)
    with assms ne as_kind(1) [of v] show ?thesis
      by (auto simp: Values_Encode_def encodeFloatBlock_def encodeFloatBlockUsing_def bind_res_Inr_iff
          dest!: pack_encoded_head dest: write_values_all)
  next
    case (IntegerValue t x)
    with assms ne as_kind(2) [of v] show ?thesis
      by (auto simp: Values_Encode_def encodeIntegerBlock_def encodeIntegerBlockUsing_def bind_res_Inr_iff
          dest!: pack_encoded_head dest: write_values_all)
  next
    case (UnsignedValue t x)
    with assms ne as_kind(3) [of v] show ?thesis
      by (auto simp: Values_Encode_def encodeUnsignedBlock_def encodeUnsignedBlockUsing_def bind_res_Inr_iff
          dest!: pack_encoded_head dest: write_values_all)
  next
    case (BooleanValue t x)
    with assms ne as_kind(4) [of v] show ?thesis
      by (auto simp: Values_Encode_def encodeBooleanBlock_def encodeBooleanBlockUsing_def bind_res_Inr_iff
          dest!: pack_encoded_head dest: write_values_all)
  next
    case (StringValue t x)
    with assms ne as_kind(5) [of v] show ?thesis
      by (auto simp: Values_Encode_def encodeStringBlock_def encodeStringBlockUsing_def bind_res_Inr_iff split: if_splits
          dest!: pack_encoded_head dest: write_values_all)
  next
    case EmptyValue
    with assms ne show ?thesis by (simp add: Values_Encode_def)
  qed
qed

lemma as_values_kind:
  assumes "as_values mk r = Some (Inr (ws, err))" "w \<in> set ws" "\<And>t x. value_kind (mk t x) = Some k"
  shows "value_kind w = Some k"
proof (cases r)
  case (Some q)
  with assms show ?thesis by (cases q) (auto simp: as_values_def)
qed (use assms in \<open>simp add: as_values_def\<close>)

lemma DecodeBlock_kind:
  assumes "DecodeBlock P S dp b = Some (Inr (ws, err))" "w \<in> set ws"
  shows "value_kind w = Some (b ! 0)"
proof -
  have "\<not> length b \<le> 1" using assms(1) by (auto simp: DecodeBlock_def)
  then have g: "sl_get b 0 = Inr (b ! 0)" by (intro sl_ok) linarith
  show ?thesis
    using assms g by (auto simp: DecodeBlock_def BlockType_def split: if_splits elim!: as_values_kind)
qed

text \<open>
  C11: blocks are typed. When \<^verbatim>\<open>Values.Encode\<close> succeeds, every value has the type that the first byte of the block
  names; and whatever the bytes of a block, corrupt ones included, every value \<^verbatim>\<open>DecodeBlock\<close> returns has the
  type its first byte names.
\<close>

theorem blocks_are_typed:
  "(Values_Encode P S W pl vs buf = Inr b \<longrightarrow> (\<forall>v\<in>set vs. value_kind v = Some (b ! 0))) \<and>
   (DecodeBlock P S dp c = Some (Inr (ws, err)) \<longrightarrow> (\<forall>w\<in>set ws. value_kind w = Some (c ! 0)))"
  using Values_Encode_kind DecodeBlock_kind by blast

theorem blocks_are_typed_witness:
  "\<exists>b. Values_Encode s8b_repo snappy_stored list_stream (new_encoders s8b_repo list_stream) [BooleanValue 1 True] [] = Inr b \<and>
    (\<forall>v\<in>set [BooleanValue 1 True]. value_kind v = Some (b ! 0)) \<and>
    DecodeBlock s8b_repo snappy_stored (new_decoders s8b_repo) b = Some (Inr ([BooleanValue 1 True], None)) \<and>
    (\<forall>w\<in>set [BooleanValue 1 True]. value_kind w = Some (b ! 0))"
proof -
  obtain b where b: "Values_Encode s8b_repo snappy_stored list_stream (new_encoders s8b_repo list_stream) [BooleanValue 1 True] [] = Inr b"
    "block_fmt word_vals BlockBoolean bool_fmt (zip (map unixnano [BooleanValue 1 True]) [True]) b"
    using repo.Values_Encode_fmt(3) [OF new_pools_ok(1), where vs = "[BooleanValue 1 True]" and bs = "[True]" and S = snappy_stored and W = list_stream and buf = "[]"] by (auto simp: as_defs)
  have d: "DecodeBlock s8b_repo snappy_stored (new_decoders s8b_repo) b = Some (Inr ([BooleanValue 1 True], None))"
    using DecodeBlock_fmt(3) [OF repo.s8b_package_axioms new_pools_ok(2-4) b(2), of snappy_stored] by simp
  show ?thesis
    using b(1) d blocks_are_typed [of s8b_repo snappy_stored list_stream "new_encoders s8b_repo list_stream" "[BooleanValue 1 True]" "[]" b
        "new_decoders s8b_repo" b "[BooleanValue 1 True]" None] by blast
qed

lemma Values_Encode_mixed:
  assumes "s8b_package P wv er dv dr" and "er (te_enc (timeEncoderPool pl)) ws" and "v \<noteq> EmptyValue"
    and w: "w \<in> set vs" "value_kind w \<noteq> value_kind v"
  shows "Values_Encode P S W pl (v # vs) buf = Inl (GoPanic ''interface conversion'')"
proof -
  obtain t1 t0 where t: "getTimeEncoder P pl = Inr t1" "TimeEncoder_Reset P t1 = Inr t0"
    using s8b_package.TimeEncoder_Reset_ok [OF assms(1,2)] s8b_package.TimeEncoder_Reset_ok [OF assms(1)] unfolding getTimeEncoder_def by metis
  have m: "write_values get tw vw (u # vs) t0 s = Inl (GoPanic ''interface conversion'')" if "get w = None"
    for get :: "Value \<Rightarrow> 'z option" and tw :: "'a time_encoder \<Rightarrow> i64 \<Rightarrow> 'a time_encoder" and vw :: "'y \<Rightarrow> 'z \<Rightarrow> 'y" and s u
    by (rule write_values_mixed) (use w that in auto)
  show "Values_Encode P S W pl (v # vs) buf = Inl (GoPanic ''interface conversion'')"
    using \<open>v \<noteq> EmptyValue\<close> w(2) as_kind [of w] as_kind(5) [of v]
    by (cases v) (simp_all add: Values_Encode_def t m encodeFloatBlock_def encodeFloatBlockUsing_def encodeIntegerBlock_def
        encodeIntegerBlockUsing_def encodeUnsignedBlock_def encodeUnsignedBlockUsing_def encodeBooleanBlock_def encodeBooleanBlockUsing_def
        encodeStringBlock_def encodeStringBlockUsing_def del: write_values.simps)
qed

text \<open>
  C25: \<^verbatim>\<open>Values.Encode\<close> on lists it cannot encode: no values and a value of another type than the first are
  panics, and a first value of no known type is an error.
\<close>

theorem values_encode_refuses:
  assumes "s8b_package P wv er dv dr" and "er (te_enc (timeEncoderPool pl)) ws"
  shows "Values_Encode P S W pl [] buf = Inl (GoPanic ''unable to encode block type'') \<and>
    Values_Encode P S W pl (EmptyValue # vs) buf = Inl (GoError ''unsupported value type'') \<and>
    (v \<noteq> EmptyValue \<longrightarrow> (\<exists>w\<in>set vs. value_kind w \<noteq> value_kind v) \<longrightarrow>
      Values_Encode P S W pl (v # vs) buf = Inl (GoPanic ''interface conversion''))"
  using Values_Encode_mixed [where er = er, OF assms] by (auto simp: Values_Encode_def)

theorem values_encode_refuses_witness:
  "Values_Encode s8b_repo snappy_stored list_stream (new_encoders s8b_repo list_stream) [] [] = Inl (GoPanic ''unable to encode block type'') \<and>
   Values_Encode s8b_repo snappy_stored list_stream (new_encoders s8b_repo list_stream) (EmptyValue # [UnsignedValue 2 7]) [] =
     Inl (GoError ''unsupported value type'') \<and>
   Values_Encode s8b_repo snappy_stored list_stream (new_encoders s8b_repo list_stream) (IntegerValue 1 7 # [UnsignedValue 2 7]) [] =
     Inl (GoPanic ''interface conversion'')"
  using values_encode_refuses [OF repo.s8b_package_axioms new_pools_ok(1), where vs = "[UnsignedValue 2 7]" and v = "IntegerValue 1 7"
      and buf = "[]" and S = snappy_stored and W = list_stream] by (simp add: block_tags)

text \<open>
  C10: blocks of arrays survive encoding and decoding, for each of the five types: an array of 1 to 2^40 points whose
  two slices have one length is encoded without an error and decoding into any array gives exactly it back.
  No float is NaN and the floats after the first do not add up to NaN, and the strings are within snappy's limit.
\<close>

theorem array_block_roundtrip:
  assumes "snappy_ok S" and "ts \<noteq> []" and "length ts \<le> 2 ^ 40"
    and "length fs = length ts" and "length js = length ts" and "length us = length ts" and "length ss = length ts" and "length bs = length ts"
    and "list_all (\<lambda>v. \<not> IsNaN v) fs" and "\<not> IsNaN (foldl f_add 0 (drop 1 fs))"
    and "sn_MaxEncodedLen S (2 + length ss * 5 + sum_list (map length ss)) \<noteq> - 1"
  shows "(\<exists>b. fst (EncodeFloatArrayBlock \<lparr>Timestamps = ts, Values = fs\<rparr> buf) = Inr b \<and>
      DecodeFloatArrayBlock b df = Inr (None, \<lparr>Timestamps = ts, Values = fs\<rparr>)) \<and>
    (\<exists>b. fst (EncodeIntegerArrayBlock \<lparr>Timestamps = ts, Values = js\<rparr> buf) = Inr b \<and>
      DecodeIntegerArrayBlock b di = Inr (None, \<lparr>Timestamps = ts, Values = js\<rparr>)) \<and>
    (\<exists>b. fst (EncodeUnsignedArrayBlock \<lparr>Timestamps = ts, Values = us\<rparr> buf) = Inr b \<and>
      DecodeUnsignedArrayBlock b du = Inr (None, \<lparr>Timestamps = ts, Values = us\<rparr>)) \<and>
    (\<exists>b. fst (EncodeStringArrayBlock S \<lparr>Timestamps = ts, Values = ss\<rparr> buf) = Inr b \<and>
      DecodeStringArrayBlock S b ds = Inr (None, \<lparr>Timestamps = ts, Values = ss\<rparr>)) \<and>
    (\<exists>b. fst (EncodeBooleanArrayBlock \<lparr>Timestamps = ts, Values = bs\<rparr> buf) = Inr b \<and>
      DecodeBooleanArrayBlock b db = Inr (None, \<lparr>Timestamps = ts, Values = bs\<rparr>))"
proof (intro conjI)
  have m: "length ts \<le> max_words" "length ts < 2 ^ 63" "length ts < 2 ^ 56" using assms(3) by (simp_all add: max_words_def)
  have ienc: "\<exists>vb. fst (IntegerArrayEncodeAll xs ([], [])) = Inr vb \<and> int_fmt word_vals vb xs" if "length xs = length ts" for xs
    using IntegerArrayEncodeAll_fmt [of xs "([], [])"] m that by auto
  have idec: "IntegerArrayDecodeAll vb d = Inr xs" if "length xs = length ts" "int_fmt word_vals vb xs" for xs vb d
    using IntegerArrayDecodeAll_fmt [OF that(2), of d] m that by simp
  show "\<exists>b. fst (EncodeFloatArrayBlock \<lparr>Timestamps = ts, Values = fs\<rparr> buf) = Inr b \<and>
      DecodeFloatArrayBlock b df = Inr (None, \<lparr>Timestamps = ts, Values = fs\<rparr>)"
    unfolding EncodeFloatArrayBlock_def DecodeFloatArrayBlock_def
    by (rule array_block_cycle [where fmt = float_fmt]) (use assms FloatArrayEncodeAll_fmt FloatArrayDecodeAll_fmt in auto)
  show "\<exists>b. fst (EncodeIntegerArrayBlock \<lparr>Timestamps = ts, Values = js\<rparr> buf) = Inr b \<and>
      DecodeIntegerArrayBlock b di = Inr (None, \<lparr>Timestamps = ts, Values = js\<rparr>)"
    unfolding EncodeIntegerArrayBlock_def DecodeIntegerArrayBlock_def
    by (rule array_block_cycle [where fmt = "int_fmt word_vals"]) (use assms ienc idec in auto)
  show "\<exists>b. fst (EncodeUnsignedArrayBlock \<lparr>Timestamps = ts, Values = us\<rparr> buf) = Inr b \<and>
      DecodeUnsignedArrayBlock b du = Inr (None, \<lparr>Timestamps = ts, Values = us\<rparr>)"
    unfolding EncodeUnsignedArrayBlock_def DecodeUnsignedArrayBlock_def
    by (rule array_block_cycle [where fmt = "int_fmt word_vals"])
      (use assms ienc idec in \<open>auto simp: UnsignedArrayEncodeAll_def UnsignedArrayDecodeAll_eq\<close>)
  show "\<exists>b. fst (EncodeStringArrayBlock S \<lparr>Timestamps = ts, Values = ss\<rparr> buf) = Inr b \<and>
      DecodeStringArrayBlock S b ds = Inr (None, \<lparr>Timestamps = ts, Values = ss\<rparr>)"
    unfolding EncodeStringArrayBlock_def DecodeStringArrayBlock_def
  proof (rule array_block_cycle [where fmt = "str_fmt S"], simp_all add: assms StringArrayDecodeAll_fmt)
    have "ss \<noteq> []" using assms(2,7) by auto
    from StringArrayEncodeAll_ok [OF assms(1) this assms(11)]
    show "\<exists>vb. StringArrayEncodeAll S ss [] = Inr vb \<and> str_fmt S vb ss" by (force simp: str_fmt_def)
  qed (use assms(3) in simp)
  show "\<exists>b. fst (EncodeBooleanArrayBlock \<lparr>Timestamps = ts, Values = bs\<rparr> buf) = Inr b \<and>
      DecodeBooleanArrayBlock b db = Inr (None, \<lparr>Timestamps = ts, Values = bs\<rparr>)"
    unfolding EncodeBooleanArrayBlock_def DecodeBooleanArrayBlock_def
    by (rule array_block_cycle [where fmt = bool_fmt]) (use assms m BooleanArrayEncodeAll_fmt [of bs "([], [])"] BooleanArrayDecodeAll_fmt in auto)
qed

theorem array_block_roundtrip_witness:
  "(\<exists>b. fst (EncodeFloatArrayBlock \<lparr>Timestamps = [5, 9], Values = [0, 0x4028000000000000]\<rparr> []) = Inr b \<and>
      DecodeFloatArrayBlock b \<lparr>Timestamps = [], Values = []\<rparr> = Inr (None, \<lparr>Timestamps = [5, 9], Values = [0, 0x4028000000000000]\<rparr>)) \<and>
   (\<exists>b. fst (EncodeIntegerArrayBlock \<lparr>Timestamps = [5, 9], Values = [- 1, 3]\<rparr> []) = Inr b \<and>
      DecodeIntegerArrayBlock b \<lparr>Timestamps = [1], Values = []\<rparr> = Inr (None, \<lparr>Timestamps = [5, 9], Values = [- 1, 3]\<rparr>)) \<and>
   (\<exists>b. fst (EncodeUnsignedArrayBlock \<lparr>Timestamps = [5, 9], Values = [7, 7]\<rparr> []) = Inr b \<and>
      DecodeUnsignedArrayBlock b \<lparr>Timestamps = [], Values = [2]\<rparr> = Inr (None, \<lparr>Timestamps = [5, 9], Values = [7, 7]\<rparr>)) \<and>
   (\<exists>b. fst (EncodeStringArrayBlock snappy_stored \<lparr>Timestamps = [5, 9], Values = [[104], []]\<rparr> []) = Inr b \<and>
      DecodeStringArrayBlock snappy_stored b \<lparr>Timestamps = [], Values = []\<rparr> = Inr (None, \<lparr>Timestamps = [5, 9], Values = [[104], []]\<rparr>)) \<and>
   (\<exists>b. fst (EncodeBooleanArrayBlock \<lparr>Timestamps = [5, 9], Values = [True, False]\<rparr> []) = Inr b \<and>
      DecodeBooleanArrayBlock b \<lparr>Timestamps = [], Values = []\<rparr> = Inr (None, \<lparr>Timestamps = [5, 9], Values = [True, False]\<rparr>))"
proof (rule array_block_roundtrip [OF snappy_stored_ok])
  show "list_all (\<lambda>v. \<not> IsNaN v) [0, 0x4028000000000000]" by code_simp
  show "\<not> IsNaN (foldl f_add 0 (drop 1 [0, 0x4028000000000000]))" by (rule f_sum_finite) code_simp+
  show "sn_MaxEncodedLen snappy_stored (2 + length [[104::u8], []] * 5 + sum_list (map length [[104::u8], []])) \<noteq> - 1"
    by (simp add: snappy_stored_simps)
qed simp_all

text \<open>
  C9: what the cache writes, the cursors read. For each type, a block that \<^verbatim>\<open>Values.Encode\<close> writes from rows,
  with any package whose words have the format of the repository's simple8b, decodes to the columns of these rows.
\<close>

theorem row_blocks_read_as_arrays:
  assumes "s8b_package P word_vals er dv dr" and "er (te_enc (timeEncoderPool pl)) ws" and "snappy_ok S" and "bit_stream_ok W pend"
    and "vs \<noteq> []" and "length vs \<le> 2 ^ 40"
  shows "(map as_Float vs = map Some fs \<longrightarrow> list_all (\<lambda>v. \<not> IsNaN v) fs \<longrightarrow> (\<exists>b. Values_Encode P S W pl vs buf = Inr b \<and>
      DecodeFloatArrayBlock b df = Inr (None, \<lparr>Timestamps = map unixnano vs, Values = fs\<rparr>))) \<and>
    (map as_Integer vs = map Some js \<longrightarrow> (\<exists>b. Values_Encode P S W pl vs buf = Inr b \<and>
      DecodeIntegerArrayBlock b di = Inr (None, \<lparr>Timestamps = map unixnano vs, Values = js\<rparr>))) \<and>
    (map as_Unsigned vs = map Some us \<longrightarrow> (\<exists>b. Values_Encode P S W pl vs buf = Inr b \<and>
      DecodeUnsignedArrayBlock b du = Inr (None, \<lparr>Timestamps = map unixnano vs, Values = us\<rparr>))) \<and>
    (map as_String vs = map Some ss \<longrightarrow> 0 \<le> sn_MaxEncodedLen S (length (str_data ss)) \<longrightarrow> (\<exists>b. Values_Encode P S W pl vs buf = Inr b \<and>
      DecodeStringArrayBlock S b ds = Inr (None, \<lparr>Timestamps = map unixnano vs, Values = ss\<rparr>))) \<and>
    (map as_Boolean vs = map Some bs \<longrightarrow> (\<exists>b. Values_Encode P S W pl vs buf = Inr b \<and>
      DecodeBooleanArrayBlock b db = Inr (None, \<lparr>Timestamps = map unixnano vs, Values = bs\<rparr>)))"
proof -
  have m: "length vs < 2 ^ 58" "length vs \<le> max_words" using assms(6) by (simp_all add: max_words_def)
  note E = s8b_package.Values_Encode_fmt [OF assms(1,2,5) m(1), where S = S and W = W and buf = buf]
  have D: "decode_array_block ty dec b d = Inr (None, \<lparr>Timestamps = map unixnano vs, Values = xs\<rparr>)"
    if "map get vs = map Some xs" "block_fmt word_vals ty fmt (zip (map unixnano vs) xs) b" "\<And>vb. fmt vb xs \<Longrightarrow> dec vb (Values d) = Inr xs"
    for get :: "Value \<Rightarrow> 'z option" and xs ty fmt b dec d
  proof -
    have l: "length xs = length vs" using arg_cong [OF that(1), of length] by simp
    then have "decode_array_block ty dec b d = Inr (None, NewArrayFromValues (zip (map unixnano vs) xs))"
      using m(2) that(3) by (intro decode_array_fmt [OF that(2)]) simp_all
    with l show ?thesis by (simp add: NewArrayFromValues_def)
  qed
  have i: "IntegerArrayDecodeAll vb d = Inr xs" if "int_fmt word_vals vb xs" "map get vs = map Some xs" for vb xs d and get :: "Value \<Rightarrow> i64 option"
    using IntegerArrayDecodeAll_fmt [OF that(1), of d] arg_cong [OF that(2), of length] m(2) by simp
  show ?thesis
  proof (intro conjI impI)
    assume a: "map as_Float vs = map Some fs" "list_all (\<lambda>v. \<not> IsNaN v) fs"
    from E(5) [OF a(1) assms(4) a(2)] obtain b where b: "Values_Encode P S W pl vs buf = Inr b"
      "block_fmt word_vals BlockFloat64 float_fmt (zip (map unixnano vs) fs) b" by blast
    have "DecodeFloatArrayBlock b df = Inr (None, \<lparr>Timestamps = map unixnano vs, Values = fs\<rparr>)"
      unfolding DecodeFloatArrayBlock_def by (rule D [OF a(1) b(2)], erule FloatArrayDecodeAll_fmt)
    with b(1) show "\<exists>b. Values_Encode P S W pl vs buf = Inr b \<and>
      DecodeFloatArrayBlock b df = Inr (None, \<lparr>Timestamps = map unixnano vs, Values = fs\<rparr>)" by blast
  next
    assume a: "map as_Integer vs = map Some js"
    from E(1) [OF a] obtain b where b: "Values_Encode P S W pl vs buf = Inr b"
      "block_fmt word_vals BlockInteger (int_fmt word_vals) (zip (map unixnano vs) js) b" by blast
    have "DecodeIntegerArrayBlock b di = Inr (None, \<lparr>Timestamps = map unixnano vs, Values = js\<rparr>)"
      unfolding DecodeIntegerArrayBlock_def by (rule D [OF a b(2)], erule i [OF _ a])
    with b(1) show "\<exists>b. Values_Encode P S W pl vs buf = Inr b \<and>
      DecodeIntegerArrayBlock b di = Inr (None, \<lparr>Timestamps = map unixnano vs, Values = js\<rparr>)" by blast
  next
    assume a: "map as_Unsigned vs = map Some us"
    from E(2) [OF a] obtain b where b: "Values_Encode P S W pl vs buf = Inr b"
      "block_fmt word_vals BlockUnsigned (int_fmt word_vals) (zip (map unixnano vs) us) b" by blast
    have "DecodeUnsignedArrayBlock b du = Inr (None, \<lparr>Timestamps = map unixnano vs, Values = us\<rparr>)"
      unfolding DecodeUnsignedArrayBlock_def UnsignedArrayDecodeAll_eq by (rule D [OF a b(2)], erule i [OF _ a])
    with b(1) show "\<exists>b. Values_Encode P S W pl vs buf = Inr b \<and>
      DecodeUnsignedArrayBlock b du = Inr (None, \<lparr>Timestamps = map unixnano vs, Values = us\<rparr>)" by blast
  next
    assume a: "map as_String vs = map Some ss" "0 \<le> sn_MaxEncodedLen S (length (str_data ss))"
    from E(4) [OF a(1) assms(3) a(2)] obtain b where b: "Values_Encode P S W pl vs buf = Inr b"
      "block_fmt word_vals BlockString (str_fmt S) (zip (map unixnano vs) ss) b" by blast
    have "DecodeStringArrayBlock S b ds = Inr (None, \<lparr>Timestamps = map unixnano vs, Values = ss\<rparr>)"
      unfolding DecodeStringArrayBlock_def by (rule D [OF a(1) b(2)], erule StringArrayDecodeAll_fmt)
    with b(1) show "\<exists>b. Values_Encode P S W pl vs buf = Inr b \<and>
      DecodeStringArrayBlock S b ds = Inr (None, \<lparr>Timestamps = map unixnano vs, Values = ss\<rparr>)" by blast
  next
    assume a: "map as_Boolean vs = map Some bs"
    from E(3) [OF a] obtain b where b: "Values_Encode P S W pl vs buf = Inr b"
      "block_fmt word_vals BlockBoolean bool_fmt (zip (map unixnano vs) bs) b" by blast
    have "DecodeBooleanArrayBlock b db = Inr (None, \<lparr>Timestamps = map unixnano vs, Values = bs\<rparr>)"
      unfolding DecodeBooleanArrayBlock_def by (rule D [OF a b(2)], erule BooleanArrayDecodeAll_fmt)
    with b(1) show "\<exists>b. Values_Encode P S W pl vs buf = Inr b \<and>
      DecodeBooleanArrayBlock b db = Inr (None, \<lparr>Timestamps = map unixnano vs, Values = bs\<rparr>)" by blast
  qed
qed

theorem row_blocks_read_as_arrays_witness:
  "(\<exists>b. Values_Encode s8b_repo snappy_stored list_stream (new_encoders s8b_repo list_stream) [BooleanValue 3 True] [] = Inr b \<and>
      DecodeBooleanArrayBlock b \<lparr>Timestamps = [], Values = []\<rparr> = Inr (None, \<lparr>Timestamps = map unixnano [BooleanValue 3 True], Values = [True]\<rparr>)) \<and>
    (\<exists>b. Values_Encode s8b_repo snappy_stored list_stream (new_encoders s8b_repo list_stream) [IntegerValue 3 7] [] = Inr b \<and>
      DecodeIntegerArrayBlock b \<lparr>Timestamps = [], Values = []\<rparr> = Inr (None, \<lparr>Timestamps = map unixnano [IntegerValue 3 7], Values = [7]\<rparr>))"
  using row_blocks_read_as_arrays [OF repo.s8b_package_axioms new_pools_ok(1) snappy_stored_ok list_stream_ok,
      where vs = "[IntegerValue 3 7]" and buf = "[]" and js = "[7]" and di = "\<lparr>Timestamps = [], Values = []\<rparr>"]
    row_blocks_read_as_arrays [OF repo.s8b_package_axioms new_pools_ok(1) snappy_stored_ok list_stream_ok,
      where vs = "[BooleanValue 3 True]" and buf = "[]" and bs = "[True]" and db = "\<lparr>Timestamps = [], Values = []\<rparr>"]
  by (simp add: as_defs)

text \<open>
  A block whose timestamp length is above \<open>2 ^ 63\<close> is not reported: the sum of the index and the length is
  below the index, the guard \<^verbatim>\<open>tsIdx > len(buf)\<close> lets it pass and the slice expression panics.
\<close>

lemma unpackBlock_negative_length:
  assumes "sint n < 0"
  shows "unpackBlock (put_uvarint n @ rest) = Inl (GoPanic ''slice bounds out of range'')"
proof -
  let ?i = "int (length (put_uvarint n))"
  have i: "0 < ?i" by simp
  have "- (2 ^ 63) \<le> sint n" using sint_ge [of n] by simp
  then have w: "wrap64 (?i + sint n) = ?i + sint n"
    using assms i length_put_uvarint_le10 [of n] by (intro wrap64_small) (linarith, simp)
  show ?thesis using assms by (simp add: unpackBlock_def w Let_def)
qed

end
