(* ===== verification/Cache_Ring.thy ===== *)
theory Cache_Ring
  imports Tsm_Values "HOL-Library.AList"
begin

text \<open>
  The cache's entries (\<^verbatim>\<open>tsdb/tsm1/cache_entry.go\<close>) and the hash ring that maps series keys to them
  (\<^verbatim>\<open>tsdb/tsm1/ring.go\<close>): sixteen partitions, each a Go map, chosen by the hash of the key. The hash
  function (\<^verbatim>\<open>xxhash\<close>, outside the repository) is the argument \<open>h\<close>. A Go map is an association list without
  duplicate keys, whose order stands for one iteration order. Locks are not modelled: every operation is
  one step.
\<close>

section \<open>Entries\<close>

datatype cache_error =
    CacheMemorySizeLimitExceeded u64 u64
  | ErrFieldTypeConflict
  | ErrSnapshotInProgress

text \<open>Unsigned values have no case of their own and fall into the default.\<close>

definition valueType :: "Value \<Rightarrow> u8" where
  "valueType v =
     (case v of
        FloatValue _ _ \<Rightarrow> 1
      | IntegerValue _ _ \<Rightarrow> 2
      | StringValue _ _ \<Rightarrow> 3
      | BooleanValue _ _ \<Rightarrow> 4
      | _ \<Rightarrow> 0)"

record entry =
  en_n :: int
  en_values :: "Value list"
  en_vtype :: u8

definition newEntryValues :: "Value list \<Rightarrow> cache_error + entry" where
  "newEntryValues values =
     (if values = [] then Inr \<lparr>en_n = 0, en_values = [], en_vtype = 0\<rparr>
      else
        let et = valueType (values ! 0) in
        if list_ex (\<lambda>v. et \<noteq> valueType v) values then Inl ErrFieldTypeConflict
        else Inr \<lparr>en_n = int (length values), en_values = values, en_vtype = et\<rparr>)"

definition entry_add :: "Value list \<Rightarrow> entry \<Rightarrow> cache_error + entry" where
  "entry_add values e =
     (if values = [] then Inr e
      else if en_vtype e \<noteq> 0 \<and> list_ex (\<lambda>v. en_vtype e \<noteq> valueType v) values then Inl ErrFieldTypeConflict
      else if en_values e = [] then
        Inr (e\<lparr>en_values := values, en_n := int (length values), en_vtype := valueType (values ! 0)\<rparr>)
      else Inr (e\<lparr>en_values := en_values e @ values, en_n := int (length (en_values e @ values))\<rparr>))"

definition entry_deduplicate :: "entry \<Rightarrow> entry" where
  "entry_deduplicate e =
     (if length (en_values e) \<le> 1 then e
      else let vs = vals_Deduplicate UnixNano (en_values e) in e\<lparr>en_values := vs, en_n := int (length vs)\<rparr>)"

definition entry_count :: "entry \<Rightarrow> int" where
  "entry_count e = en_n e"

definition entry_filter :: "int \<Rightarrow> int \<Rightarrow> entry \<Rightarrow> entry" where
  "entry_filter mn mx e =
     (let vs0 = (if length (en_values e) > 1 then vals_Deduplicate UnixNano (en_values e) else en_values e);
          vs = vals_Exclude UnixNano vs0 mn mx
      in e\<lparr>en_values := vs, en_n := int (length vs)\<rparr>)"

definition entry_size :: "entry \<Rightarrow> nat" where
  "entry_size e = vals_Size Value_Size (en_values e)"

section \<open>Partitions\<close>

type_synonym series_key = bytes
type_synonym partition = "(series_key \<times> entry) list"

definition partition_entry :: "series_key \<Rightarrow> partition \<Rightarrow> entry option" where
  "partition_entry key p = map_of p key"

text \<open>The flag says whether the entry is new.\<close>

definition partition_write :: "series_key \<Rightarrow> Value list \<Rightarrow> partition \<Rightarrow> (cache_error + bool) \<times> partition" where
  "partition_write key values p =
     (case map_of p key of
        Some e \<Rightarrow>
          (case entry_add values e of
             Inl err \<Rightarrow> (Inl err, p)
           | Inr e' \<Rightarrow> (Inr False, AList.update key e' p))
      | None \<Rightarrow>
          (case newEntryValues values of
             Inl err \<Rightarrow> (Inl err, p)
           | Inr e \<Rightarrow> (Inr True, AList.update key e p)))"

definition partition_add :: "series_key \<Rightarrow> entry \<Rightarrow> partition \<Rightarrow> partition" where
  "partition_add key e p = AList.update key e p"

definition partition_remove :: "series_key \<Rightarrow> partition \<Rightarrow> partition" where
  "partition_remove key p = AList.delete key p"

definition partition_keys :: "partition \<Rightarrow> series_key list" where
  "partition_keys p = map fst (filter (\<lambda>(k, e). entry_count e \<noteq> 0) p)"

definition partition_reset :: "partition \<Rightarrow> partition" where
  "partition_reset p = []"

definition partition_count :: "partition \<Rightarrow> nat" where
  "partition_count p = length (filter (\<lambda>(k, e). entry_count e > 0) p)"

section \<open>The ring\<close>

definition numPartitions :: nat where "numPartitions = 16"

record ring =
  keysHint :: int
  partitions :: "partition list"

definition newRing :: ring where
  "newRing = \<lparr>keysHint = 0, partitions = replicate numPartitions []\<rparr>"

definition ring_reset :: "ring \<Rightarrow> ring" where
  "ring_reset r = r\<lparr>partitions := map partition_reset (partitions r), keysHint := 0\<rparr>"

definition part_idx :: "(series_key \<Rightarrow> u64) \<Rightarrow> series_key \<Rightarrow> nat" where
  "part_idx h key = unat (h key mod of_nat numPartitions)"

definition getPartition :: "(series_key \<Rightarrow> u64) \<Rightarrow> series_key \<Rightarrow> ring \<Rightarrow> partition" where
  "getPartition h key r = partitions r ! part_idx h key"

definition ring_entry :: "(series_key \<Rightarrow> u64) \<Rightarrow> series_key \<Rightarrow> ring \<Rightarrow> entry option" where
  "ring_entry h key r = partition_entry key (getPartition h key r)"

text \<open>The partition of a key is replaced; in the source it is changed through its pointer.\<close>

definition setPartition :: "(series_key \<Rightarrow> u64) \<Rightarrow> series_key \<Rightarrow> partition \<Rightarrow> ring \<Rightarrow> ring" where
  "setPartition h key p r = r\<lparr>partitions := (partitions r)[part_idx h key := p]\<rparr>"

definition ring_write :: "(series_key \<Rightarrow> u64) \<Rightarrow> series_key \<Rightarrow> Value list \<Rightarrow> ring \<Rightarrow> (cache_error + bool) \<times> ring" where
  "ring_write h key values r =
     (case partition_write key values (getPartition h key r) of (res, p) \<Rightarrow> (res, setPartition h key p r))"

definition ring_add :: "(series_key \<Rightarrow> u64) \<Rightarrow> series_key \<Rightarrow> entry \<Rightarrow> ring \<Rightarrow> ring" where
  "ring_add h key e r = (setPartition h key (partition_add key e (getPartition h key r)) r)\<lparr>keysHint := keysHint r + 1\<rparr>"

definition ring_remove :: "(series_key \<Rightarrow> u64) \<Rightarrow> series_key \<Rightarrow> ring \<Rightarrow> ring" where
  "ring_remove h key r =
     (let r' = setPartition h key (partition_remove key (getPartition h key r)) r in
      if keysHint r' > 0 then r'\<lparr>keysHint := keysHint r' - 1\<rparr> else r')"

text \<open>\<^verbatim>\<open>bytesutil.Sort\<close> orders the keys bytewise, as unsigned numbers.\<close>

fun bytes_le :: "bytes \<Rightarrow> bytes \<Rightarrow> bool" where
  "bytes_le [] ys = True"
| "bytes_le (x # xs) [] = False"
| "bytes_le (x # xs) (y # ys) = (x < y \<or> x = y \<and> bytes_le xs ys)"

fun insert_key :: "bytes \<Rightarrow> bytes list \<Rightarrow> bytes list" where
  "insert_key x [] = [x]"
| "insert_key x (y # ys) = (if bytes_le x y then x # y # ys else y # insert_key x ys)"

definition sort_keys :: "bytes list \<Rightarrow> bytes list" where
  "sort_keys ks = foldr insert_key ks []"

definition ring_keys :: "bool \<Rightarrow> ring \<Rightarrow> series_key list" where
  "ring_keys srt r =
     (let keys = concat (map partition_keys (partitions r)) in if srt then sort_keys keys else keys)"

definition ring_count :: "ring \<Rightarrow> nat" where
  "ring_count r = sum_list (map partition_count (partitions r))"

text \<open>
  \<^verbatim>\<open>apply\<close> for a function that changes the entries and cannot fail: the goroutines work on disjoint
  partitions, so their order does not matter. \<^verbatim>\<open>applySerial\<close> threads the variables \<open>'s\<close> that the closure
  captures and stops at the first error.
\<close>

definition ring_apply :: "(series_key \<Rightarrow> entry \<Rightarrow> entry) \<Rightarrow> ring \<Rightarrow> ring" where
  "ring_apply f r = r\<lparr>partitions := map (map (\<lambda>(k, e). (k, f k e))) (partitions r)\<rparr>"

type_synonym ('err, 's) entry_fn = "series_key \<Rightarrow> entry \<Rightarrow> 's \<Rightarrow> 'err option \<times> entry \<times> 's"

fun partition_applySerial :: "('err, 's) entry_fn \<Rightarrow> partition \<Rightarrow> 's \<Rightarrow> 'err option \<times> partition \<times> 's" where
  "partition_applySerial f [] s = (None, [], s)"
| "partition_applySerial f ((k, e) # p) s =
     (if entry_count e = 0 then
        (case partition_applySerial f p s of (err, p', s') \<Rightarrow> (err, (k, e) # p', s'))
      else
        (case f k e s of
           (Some err, e', s1) \<Rightarrow> (Some err, (k, e') # p, s1)
         | (None, e', s1) \<Rightarrow>
             (case partition_applySerial f p s1 of (err, p', s') \<Rightarrow> (err, (k, e') # p', s'))))"

fun partitions_applySerial :: "('err, 's) entry_fn \<Rightarrow> partition list \<Rightarrow> 's \<Rightarrow> 'err option \<times> partition list \<times> 's" where
  "partitions_applySerial f [] s = (None, [], s)"
| "partitions_applySerial f (p # ps) s =
     (case partition_applySerial f p s of
        (Some err, p', s1) \<Rightarrow> (Some err, p' # ps, s1)
      | (None, p', s1) \<Rightarrow>
          (case partitions_applySerial f ps s1 of (err, ps', s') \<Rightarrow> (err, p' # ps', s')))"

definition ring_applySerial :: "('err, 's) entry_fn \<Rightarrow> ring \<Rightarrow> 's \<Rightarrow> 'err option \<times> ring \<times> 's" where
  "ring_applySerial f r s =
     (case partitions_applySerial f (partitions r) s of (err, ps, s') \<Rightarrow> (err, r\<lparr>partitions := ps\<rparr>, s'))"

text \<open>A negative size panics in \<^verbatim>\<open>make\<close>, and with no rings the remainder \<^verbatim>\<open>i%n\<close> divides by zero.\<close>

definition ring_split :: "int \<Rightarrow> ring \<Rightarrow> ring list res" where
  "ring_split n r =
     (if n < 0 then Inl (GoPanic ''makeslice: len out of range'')
      else if n = 0 then Inl (GoPanic ''integer divide by zero'')
      else Inr (map (\<lambda>j. newRing\<lparr>partitions :=
        map (\<lambda>i. if i mod nat n = j then partitions r ! i else []) [0..<numPartitions]\<rparr>) [0..<nat n]))"

end
