(* ===== verification/Cache.thy ===== *)
theory Cache
  imports Cache_Ring
begin

text \<open>
  The write cache of the storage engine (\<^verbatim>\<open>tsdb/tsm1/cache.go\<close>): a live store that takes writes, a snapshot that
  is being written to disk, and counters of the bytes in both. The prometheus metrics that mirror the
  counters have no effect on the cache and are left out; the clock is the argument \<open>now\<close>.
\<close>

section \<open>Counters\<close>

record tracker =
  snapshotsActive :: u64
  snapshotSize :: u64
  cacheSize :: u64
  memSizeBytes :: u64
  snapshottedBytes :: u64
  writesDropped :: u64
  writesErr :: u64

definition newCacheTracker :: tracker where
  "newCacheTracker = \<lparr>snapshotsActive = 0, snapshotSize = 0, cacheSize = 0, memSizeBytes = 0, snapshottedBytes = 0,
     writesDropped = 0, writesErr = 0\<rparr>"

definition AddMemBytes :: "u64 \<Rightarrow> tracker \<Rightarrow> tracker" where
  "AddMemBytes b t = t\<lparr>memSizeBytes := memSizeBytes t + b\<rparr>"
definition SubMemBytes :: "u64 \<Rightarrow> tracker \<Rightarrow> tracker" where
  "SubMemBytes b t = t\<lparr>memSizeBytes := memSizeBytes t + NOT (b - 1)\<rparr>"
definition SetMemBytes :: "u64 \<Rightarrow> tracker \<Rightarrow> tracker" where
  "SetMemBytes b t = t\<lparr>memSizeBytes := b\<rparr>"
definition AddSnapshottedBytes :: "u64 \<Rightarrow> tracker \<Rightarrow> tracker" where
  "AddSnapshottedBytes b t = t\<lparr>snapshottedBytes := snapshottedBytes t + b\<rparr>"
definition IncSnapshotsActive :: "tracker \<Rightarrow> tracker" where
  "IncSnapshotsActive t = t\<lparr>snapshotsActive := snapshotsActive t + 1\<rparr>"
definition SetSnapshotsActive :: "u64 \<Rightarrow> tracker \<Rightarrow> tracker" where
  "SetSnapshotsActive n t = t\<lparr>snapshotsActive := n\<rparr>"
definition IncWritesErr :: "tracker \<Rightarrow> tracker" where
  "IncWritesErr t = t\<lparr>writesErr := writesErr t + 1\<rparr>"
definition IncWritesDrop :: "tracker \<Rightarrow> tracker" where
  "IncWritesDrop t = t\<lparr>writesDropped := writesDropped t + 1\<rparr>"
definition IncCacheSize :: "u64 \<Rightarrow> tracker \<Rightarrow> tracker" where
  "IncCacheSize sz t = t\<lparr>cacheSize := cacheSize t + sz\<rparr>"
definition DecCacheSize :: "u64 \<Rightarrow> tracker \<Rightarrow> tracker" where
  "DecCacheSize sz t = t\<lparr>cacheSize := cacheSize t + NOT (sz - 1)\<rparr>"
definition SetCacheSize :: "u64 \<Rightarrow> tracker \<Rightarrow> tracker" where
  "SetCacheSize sz t = t\<lparr>cacheSize := sz\<rparr>"
definition SetSnapshotSize :: "u64 \<Rightarrow> tracker \<Rightarrow> tracker" where
  "SetSnapshotSize sz t = t\<lparr>snapshotSize := sz\<rparr>"

lemmas tracker_defs = AddMemBytes_def SubMemBytes_def SetMemBytes_def AddSnapshottedBytes_def IncSnapshotsActive_def
  SetSnapshotsActive_def IncWritesErr_def IncWritesDrop_def IncCacheSize_def DecCacheSize_def SetCacheSize_def SetSnapshotSize_def

section \<open>The cache\<close>

text \<open>The snapshot is a cache too, but only its store and its counters are ever used.\<close>

record snap_cache =
  sc_store :: ring
  sc_tracker :: tracker

record cache =
  store :: ring
  maxSize :: u64
  snapshot :: "snap_cache option"
  snapshotting :: bool
  ctracker :: tracker
  lastSnapshot :: int
  lastWriteTime :: int

definition NewCache :: "u64 \<Rightarrow> int \<Rightarrow> cache" where
  "NewCache mx now = \<lparr>store = newRing, maxSize = mx, snapshot = None, snapshotting = False, ctracker = newCacheTracker,
     lastSnapshot = now, lastWriteTime = 0\<rparr>"

definition cache_Size :: "cache \<Rightarrow> u64" where
  "cache_Size c = cacheSize (ctracker c) + snapshotSize (ctracker c)"

definition snap_Size :: "snap_cache \<Rightarrow> u64" where
  "snap_Size s = cacheSize (sc_tracker s) + snapshotSize (sc_tracker s)"

definition track :: "(tracker \<Rightarrow> tracker) \<Rightarrow> cache \<Rightarrow> cache" where
  "track f c = c\<lparr>ctracker := f (ctracker c)\<rparr>"

definition cache_Write :: "(series_key \<Rightarrow> u64) \<Rightarrow> series_key \<Rightarrow> Value list \<Rightarrow> cache \<Rightarrow> cache_error option \<times> cache" where
  "cache_Write h key values c =
     (let addedSize = of_nat (vals_Size Value_Size values);
          limit = maxSize c;
          n = cache_Size c + addedSize
      in if limit > 0 \<and> n > limit then (Some (CacheMemorySizeLimitExceeded n limit), track IncWritesErr c)
         else case ring_write h key values (store c) of
           (Inl err, r) \<Rightarrow> (Some err, track IncWritesErr (c\<lparr>store := r\<rparr>))
         | (Inr newKey, r) \<Rightarrow>
             let added = (if newKey then addedSize + of_nat (length key) else addedSize)
             in (None, track (AddMemBytes added) (track (IncCacheSize added) (c\<lparr>store := r\<rparr>))))"

text \<open>
  The loop of \<^verbatim>\<open>WriteMulti\<close> over the map of keys and values, in some order, with the variables \<^verbatim>\<open>addedSize\<close> and
  \<^verbatim>\<open>werr\<close>.
\<close>

fun write_loop ::
  "(series_key \<Rightarrow> u64) \<Rightarrow> (series_key \<times> Value list) list \<Rightarrow> ring \<Rightarrow> u64 \<Rightarrow> cache_error option \<Rightarrow> ring \<times> u64 \<times> cache_error option" where
  "write_loop h [] r added werr = (r, added, werr)"
| "write_loop h ((k, v) # kvs) r added werr =
     (case ring_write h k v r of
        (Inl err, r') \<Rightarrow> write_loop h kvs r' (added - of_nat (vals_Size Value_Size v)) (Some err)
      | (Inr newKey, r') \<Rightarrow> write_loop h kvs r' (if newKey then added + of_nat (length k) else added) werr)"

definition cache_WriteMulti ::
  "(series_key \<Rightarrow> u64) \<Rightarrow> int \<Rightarrow> (series_key \<times> Value list) list \<Rightarrow> cache \<Rightarrow> cache_error option \<times> cache" where
  "cache_WriteMulti h now values c =
     (let addedSize = foldl (\<lambda>s (k, v). s + of_nat (vals_Size Value_Size v)) 0 values;
          limit = maxSize c;
          n = cache_Size c + addedSize
      in if limit > 0 \<and> n > limit then (Some (CacheMemorySizeLimitExceeded n limit), track IncWritesErr c)
         else case write_loop h values (store c) addedSize None of
           (r, added, werr) \<Rightarrow>
             let c1 = c\<lparr>store := r\<rparr>;
                 c2 = (if werr \<noteq> None then track IncWritesDrop (track IncWritesErr c1) else c1);
                 c3 = track (AddMemBytes added) (track (IncCacheSize added) c2)
             in (werr, c3\<lparr>lastWriteTime := now\<rparr>))"

definition cache_Snapshot :: "int \<Rightarrow> cache \<Rightarrow> cache_error option \<times> cache" where
  "cache_Snapshot now c =
     (if snapshotting c then (Some ErrSnapshotInProgress, c)
      else
        let c1 = track IncSnapshotsActive (c\<lparr>snapshotting := True\<rparr>);
            s = (case snapshot c1 of None \<Rightarrow> \<lparr>sc_store = newRing, sc_tracker = newCacheTracker\<rparr> | Some s \<Rightarrow> s)
        in if snap_Size s > 0 then (None, c1\<lparr>snapshot := Some s\<rparr>)
           else
             let sz = cache_Size c1;
                 s' = \<lparr>sc_store = store c1, sc_tracker = SetSnapshotSize sz (sc_tracker s)\<rparr>;
                 c2 = track (SetSnapshotSize sz) (c1\<lparr>store := ring_reset (sc_store s), snapshot := Some s'\<rparr>);
                 c3 = (track (SetCacheSize 0) c2)\<lparr>lastSnapshot := now\<rparr>
             in (None, track (SetSnapshotsActive 0) (track (AddSnapshottedBytes sz) c3)))"

definition cache_Deduplicate :: "cache \<Rightarrow> cache" where
  "cache_Deduplicate c = c\<lparr>store := ring_apply (\<lambda>_ e. entry_deduplicate e) (store c)\<rparr>"

text \<open>The compactor deduplicates the snapshot it was given.\<close>

definition snap_Deduplicate :: "cache \<Rightarrow> cache" where
  "snap_Deduplicate c =
     c\<lparr>snapshot := map_option (\<lambda>s. s\<lparr>sc_store := ring_apply (\<lambda>_ e. entry_deduplicate e) (sc_store s)\<rparr>) (snapshot c)\<rparr>"

text \<open>\<^verbatim>\<open>c.snapshot.store\<close> with no snapshot is a nil dereference.\<close>

definition cache_ClearSnapshot :: "bool \<Rightarrow> cache \<Rightarrow> cache res" where
  "cache_ClearSnapshot success c =
     (case snapshot c of
        None \<Rightarrow> Inl (GoPanic ''nil pointer dereference'')
      | Some s \<Rightarrow>
          let c1 = c\<lparr>snapshotting := False\<rparr> in
          if success then
            let sz = snapshotSize (ctracker c1);
                c2 = track (SubMemBytes sz) (track (SetSnapshotsActive 0) c1);
                c3 = c2\<lparr>snapshot := Some \<lparr>sc_store = ring_reset (sc_store s), sc_tracker = newCacheTracker\<rparr>\<rparr>
            in Inr (track (SetSnapshotsActive 0) (track (SetSnapshotSize 0) c3))
          else Inr c1)"

definition cache_Count :: "cache \<Rightarrow> nat" where
  "cache_Count c = ring_count (store c)"

definition cache_Keys :: "cache \<Rightarrow> series_key list" where
  "cache_Keys c = ring_keys True (store c)"

definition cache_Split :: "int \<Rightarrow> cache \<Rightarrow> ring list res" where
  "cache_Split n c = (if n = 1 then Inr [store c] else ring_split n (store c))"

text \<open>
  \<^verbatim>\<open>Type\<close> goes through the constants of the outside package \<^verbatim>\<open>influxql\<close>; they are the labels of a switch, so
  they are different from each other.
\<close>

datatype data_type = influxql_Unknown | influxql_Float | influxql_Integer | influxql_Unsigned | influxql_Boolean | influxql_String

definition InfluxQLType :: "Value list \<Rightarrow> data_type res" where
  "InfluxQLType a =
     (case a of
        [] \<Rightarrow> Inl (GoError ''no values to infer type'')
      | FloatValue _ _ # _ \<Rightarrow> Inr influxql_Float
      | IntegerValue _ _ # _ \<Rightarrow> Inr influxql_Integer
      | UnsignedValue _ _ # _ \<Rightarrow> Inr influxql_Unsigned
      | BooleanValue _ _ # _ \<Rightarrow> Inr influxql_Boolean
      | StringValue _ _ # _ \<Rightarrow> Inr influxql_String
      | _ \<Rightarrow> Inl (GoError ''unsupported value type''))"

datatype FieldType = Integer | Float | Boolean | String | Empty | Unsigned

definition cache_Type :: "(series_key \<Rightarrow> u64) \<Rightarrow> series_key \<Rightarrow> cache \<Rightarrow> FieldType res" where
  "cache_Type h key c =
     (let e = (case ring_entry h key (store c) of
                 Some e \<Rightarrow> Some e
               | None \<Rightarrow> (case snapshot c of None \<Rightarrow> None | Some s \<Rightarrow> ring_entry h key (sc_store s)))
      in case e of
           None \<Rightarrow> Inl (GoError ''unknown field type'')
         | Some e \<Rightarrow>
             (case InfluxQLType (en_values e) of
                Inl _ \<Rightarrow> Inl (GoError ''unknown field type'')
              | Inr t \<Rightarrow>
                  (case t of
                     influxql_Float \<Rightarrow> Inr Float
                   | influxql_Integer \<Rightarrow> Inr Integer
                   | influxql_Unsigned \<Rightarrow> Inr Unsigned
                   | influxql_Boolean \<Rightarrow> Inr Boolean
                   | influxql_String \<Rightarrow> Inr String
                   | _ \<Rightarrow> Inl (GoError ''unknown field type''))))"

text \<open>\<^verbatim>\<open>e.deduplicate()\<close> through the pointer found in a ring.\<close>

definition dedup_in :: "(series_key \<Rightarrow> u64) \<Rightarrow> series_key \<Rightarrow> ring \<Rightarrow> ring" where
  "dedup_in h key r =
     (case ring_entry h key r of
        None \<Rightarrow> r
      | Some e \<Rightarrow> setPartition h key (AList.update key (entry_deduplicate e) (getPartition h key r)) r)"

definition cache_Values :: "(series_key \<Rightarrow> u64) \<Rightarrow> series_key \<Rightarrow> cache \<Rightarrow> Value list \<times> cache" where
  "cache_Values h key c =
     (let e = ring_entry h key (store c);
          se = (case snapshot c of None \<Rightarrow> None | Some s \<Rightarrow> ring_entry h key (sc_store s))
      in if e = None \<and> se = None then ([], c)
         else
           let c1 = c\<lparr>store := dedup_in h key (store c),
                     snapshot := map_option (\<lambda>s. s\<lparr>sc_store := dedup_in h key (sc_store s)\<rparr>) (snapshot c)\<rparr>;
               entries = (case map_option entry_deduplicate se of None \<Rightarrow> [] | Some x \<Rightarrow> [x]) @
                 (case map_option entry_deduplicate e of None \<Rightarrow> [] | Some x \<Rightarrow> [x]);
               sz = sum_list (map entry_count entries);
               values = concat (map en_values entries)
           in if sz = 0 then ([], c1) else (vals_Deduplicate UnixNano (take (nat sz) values), c1))"

text \<open>
  The closure of \<^verbatim>\<open>DeleteBucketRange\<close>, with the captured \<^verbatim>\<open>toDelete\<close> and \<^verbatim>\<open>total\<close>. \<open>pred\<close> is the optional predicate on keys.
\<close>

definition minInt64 :: int where "minInt64 = - (2 ^ 63)"
definition maxInt64 :: int where "maxInt64 = 2 ^ 63 - 1"

definition delete_entry ::
  "bytes \<Rightarrow> int \<Rightarrow> int \<Rightarrow> (series_key \<Rightarrow> bool) option \<Rightarrow> (cache_error, series_key list \<times> u64) entry_fn" where
  "delete_entry name mn mx pred k e st =
     (case st of (toDelete, tot) \<Rightarrow>
        if take (length name) k \<noteq> name then (None, e, toDelete, tot)
        else if (case pred of None \<Rightarrow> False | Some f \<Rightarrow> \<not> f k) then (None, e, toDelete, tot)
        else
          let t1 = tot + of_nat (entry_size e) in
          if mn = minInt64 \<and> mx = maxInt64 then (None, e, toDelete @ [k], t1)
          else
            let e' = entry_filter mn mx e;
                t2 = t1 - of_nat (entry_size e')
            in if entry_count e' = 0 then (None, e', toDelete @ [k], t2) else (None, e', toDelete, t2))"

definition cache_DeleteBucketRange ::
  "(series_key \<Rightarrow> u64) \<Rightarrow> bytes \<Rightarrow> int \<Rightarrow> int \<Rightarrow> (series_key \<Rightarrow> bool) option \<Rightarrow> cache \<Rightarrow> cache" where
  "cache_DeleteBucketRange h name mn mx pred c =
     (case ring_applySerial (delete_entry name mn mx pred) (store c) ([], 0) of
        (_, r, toDelete, tot0) \<Rightarrow>
          let tot = foldl (\<lambda>t k. t + of_nat (length k)) tot0 toDelete;
              r' = foldl (\<lambda>r k. ring_remove h k r) r toDelete;
              c1 = track (DecCacheSize tot) (c\<lparr>store := r'\<rparr>)
          in track (SetMemBytes (cache_Size c1)) c1)"

definition cache_SetMaxSize :: "u64 \<Rightarrow> cache \<Rightarrow> cache" where
  "cache_SetMaxSize sz c = c\<lparr>maxSize := sz\<rparr>"

definition cache_values :: "(series_key \<Rightarrow> u64) \<Rightarrow> series_key \<Rightarrow> cache \<Rightarrow> Value list" where
  "cache_values h key c = (case ring_entry h key (store c) of None \<Rightarrow> [] | Some e \<Rightarrow> en_values e)"

definition ApplyEntryFn :: "('err, 's) entry_fn \<Rightarrow> cache \<Rightarrow> 's \<Rightarrow> 'err option \<times> cache \<times> 's" where
  "ApplyEntryFn f c s = (case ring_applySerial f (store c) s of (err, r, s') \<Rightarrow> (err, c\<lparr>store := r\<rparr>, s'))"

end
