(* ===== verification/Cache_Store.thy ===== *)
theory Cache_Store
  imports Cache
begin

text \<open>
  The hash ring as a map from keys to entries. A locale states what a keyed store promises (what a lookup
  returns after a write, a removal, a change of all entries); it is interpreted on one partition and on the
  ring. The bytes held by a store and the well-formedness of its entries are functions of that map.
\<close>

section \<open>Keyed stores\<close>

locale keyed_store =
  fixes ok :: "'s \<Rightarrow> bool"
    and entry_of :: "'s \<Rightarrow> 'k \<rightharpoonup> 'e"
    and put :: "'k \<Rightarrow> 'e \<Rightarrow> 's \<Rightarrow> 's"
    and del :: "'k \<Rightarrow> 's \<Rightarrow> 's"
    and change :: "('k \<Rightarrow> 'e \<Rightarrow> 'e) \<Rightarrow> 's \<Rightarrow> 's"
  assumes finite_entries: "ok s \<Longrightarrow> finite (dom (entry_of s))"
    and ok_put: "ok s \<Longrightarrow> ok (put k e s)"
    and ok_del: "ok s \<Longrightarrow> ok (del k s)"
    and ok_change: "ok s \<Longrightarrow> ok (change f s)"
    and entry_put: "ok s \<Longrightarrow> entry_of (put k e s) = (entry_of s)(k \<mapsto> e)"
    and entry_del: "ok s \<Longrightarrow> entry_of (del k s) = (entry_of s)(k := None)"
    and entry_change: "ok s \<Longrightarrow> entry_of (change f s) = (\<lambda>k. map_option (f k) (entry_of s k))"
begin

lemma dels:
  "ok s \<Longrightarrow> ok (foldl (\<lambda>s k. del k s) s ks) \<and>
    entry_of (foldl (\<lambda>s k. del k s) s ks) = (\<lambda>k. if k \<in> set ks then None else entry_of s k)"
  by (induction ks arbitrary: s) (auto simp: ok_del entry_del fun_eq_iff)

lemma change_all:
  assumes "ok s" "\<And>k e. entry_of s k = Some e \<Longrightarrow> P k (f k e)" "entry_of (change f s) k = Some e"
  shows "P k e"
  using assms by (auto simp: entry_change)

end

lemma map_of_snd: "map_of (map (\<lambda>(k, e). (k, f k e)) p) k = map_option (f k) (map_of p k)"
  by (induction p) auto

interpretation part: keyed_store "\<lambda>p. distinct (map fst p)" map_of AList.update AList.delete "\<lambda>f. map (\<lambda>(k, e). (k, f k e))"
  by unfold_locales (simp_all add: finite_dom_map_of distinct_update distinct_delete update_conv' delete_conv' map_of_snd [abs_def]
      comp_def case_prod_beta)

section \<open>The ring\<close>

text \<open>Every partition is a map, and every key is in the partition its hash names.\<close>

definition ring_ok :: "(series_key \<Rightarrow> u64) \<Rightarrow> ring \<Rightarrow> bool" where
  "ring_ok h r \<longleftrightarrow> length (partitions r) = numPartitions \<and>
     list_all (\<lambda>i. distinct (map fst (partitions r ! i)) \<and> list_all (\<lambda>(k, e). part_idx h k = i) (partitions r ! i)) [0..<numPartitions]"

abbreviation ring_map :: "(series_key \<Rightarrow> u64) \<Rightarrow> ring \<Rightarrow> series_key \<rightharpoonup> entry" where
  "ring_map h r \<equiv> \<lambda>k. ring_entry h k r"

definition ring_put :: "(series_key \<Rightarrow> u64) \<Rightarrow> series_key \<Rightarrow> entry \<Rightarrow> ring \<Rightarrow> ring" where
  "ring_put h key e r = setPartition h key (AList.update key e (getPartition h key r)) r"

lemmas ring_defs = ring_entry_def getPartition_def partition_entry_def setPartition_def

lemma part_idx_less [simp]: "part_idx h k < numPartitions"
  by (simp add: part_idx_def numPartitions_def unat_mod)

lemma ring_okD:
  assumes "ring_ok h r"
  shows "length (partitions r) = numPartitions" "\<And>i. i < numPartitions \<Longrightarrow> distinct (map fst (partitions r ! i))"
    "\<And>i k e. i < numPartitions \<Longrightarrow> (k, e) \<in> set (partitions r ! i) \<Longrightarrow> part_idx h k = i"
  using assms by (auto simp: ring_ok_def list_all_iff)

lemma ring_okI:
  assumes "length (partitions r) = numPartitions" "\<And>i. i < numPartitions \<Longrightarrow> distinct (map fst (partitions r ! i))"
    "\<And>i k e. i < numPartitions \<Longrightarrow> (k, e) \<in> set (partitions r ! i) \<Longrightarrow> part_idx h k = i"
  shows "ring_ok h r"
  using assms by (auto simp: ring_ok_def list_all_iff)

lemma ring_ok_set:
  assumes "ring_ok h r" "distinct (map fst p)" "fst ` set p \<subseteq> insert k (fst ` set (getPartition h k r))"
  shows "ring_ok h (setPartition h k p r)"
proof (rule ring_okI)
  fix i k' e
  assume i: "i < numPartitions" and m: "(k', e) \<in> set (partitions (setPartition h k p r) ! i)"
  show "part_idx h k' = i"
  proof (cases "i = part_idx h k")
    case True
    then have "k' \<in> insert k (fst ` set (partitions r ! i))"
      using m assms(3) ring_okD(1) [OF assms(1)] by (force simp: setPartition_def getPartition_def)
    then show ?thesis using True ring_okD(3) [OF assms(1) i] by auto
  next
    case False
    then show ?thesis using m ring_okD(3) [OF assms(1) i] by (simp add: setPartition_def)
  qed
qed (use assms ring_okD [OF assms(1)] in \<open>auto simp: setPartition_def nth_list_update\<close>)

lemma ring_entry_set:
  assumes "ring_ok h r" "map_of p = (map_of (getPartition h k r))(k := x)"
  shows "ring_map h (setPartition h k p r) = (ring_map h r)(k := x)"
proof
  fix k'
  show "ring_entry h k' (setPartition h k p r) = ((ring_map h r)(k := x)) k'"
    using assms(2) ring_okD(1) [OF assms(1)]
    by (cases "part_idx h k' = part_idx h k") (auto simp: ring_defs)
qed

lemma ring_ok_hint [simp]: "ring_ok h (r\<lparr>keysHint := n\<rparr>) \<longleftrightarrow> ring_ok h r" "ring_entry h k (r\<lparr>keysHint := n\<rparr>) = ring_entry h k r"
  by (simp_all add: ring_ok_def ring_defs)

lemma ring_part:
  assumes "ring_ok h r"
  shows "distinct (map fst (getPartition h k r))"
  using ring_okD(2) [OF assms] by (simp add: getPartition_def)

lemma ring_remove_eq:
  "\<exists>n. ring_remove h k r = (setPartition h k (AList.delete k (getPartition h k r)) r)\<lparr>keysHint := n\<rparr>"
proof (cases "keysHint r > 0")
  case False
  then show ?thesis by (intro exI [of _ "keysHint r"]) (simp add: ring_remove_def partition_remove_def setPartition_def)
qed (force simp: ring_remove_def partition_remove_def setPartition_def Let_def)

lemma ring_apply_part: "i < length (partitions r) \<Longrightarrow> partitions (ring_apply f r) ! i = map (\<lambda>(k, e). (k, f k e)) (partitions r ! i)"
  by (simp add: ring_apply_def)

interpretation store: keyed_store "ring_ok h" "\<lambda>r k. ring_entry h k r" "ring_put h" "ring_remove h" ring_apply
  for h :: "series_key \<Rightarrow> u64"
proof (unfold_locales, goal_cases)
  case (1 r)
  have "dom (\<lambda>k. ring_entry h k r) \<subseteq> (\<Union>p\<in>set (partitions r). fst ` set p)"
    using ring_okD(1) [OF 1] by (auto simp: ring_defs dest!: map_of_SomeD) (metis fst_conv image_eqI nth_mem part_idx_less)
  then show ?case by (rule finite_subset) simp
next
  case (2 r k e)
  then show ?case unfolding ring_put_def
    by (intro ring_ok_set part.ok_put ring_part) (auto simp: dom_update)
next
  case (3 r k)
  obtain n where n: "ring_remove h k r = (setPartition h k (AList.delete k (getPartition h k r)) r)\<lparr>keysHint := n\<rparr>"
    using ring_remove_eq by blast
  show ?case unfolding n ring_ok_hint by (intro ring_ok_set part.ok_del ring_part 3) (force simp: AList.delete_eq)
next
  case (4 r f)
  show ?case
  proof (rule ring_okI)
    fix i k e
    assume "i < numPartitions" "(k, e) \<in> set (partitions (ring_apply f r) ! i)"
    then show "part_idx h k = i" using ring_okD(1,3) [OF 4] by (auto simp: ring_apply_part)
  qed (use ring_okD(1,2) [OF 4] part.ok_change in \<open>auto simp: ring_apply_def\<close>)
next
  case (5 r k e)
  show ?case unfolding ring_put_def by (rule ring_entry_set [OF 5]) (simp add: update_conv')
next
  case (6 r k)
  obtain n where n: "ring_remove h k r = (setPartition h k (AList.delete k (getPartition h k r)) r)\<lparr>keysHint := n\<rparr>"
    using ring_remove_eq by blast
  show ?case unfolding n ring_ok_hint by (rule ring_entry_set [OF 6]) (simp add: delete_conv')
next
  case (7 r f)
  show ?case using ring_okD(1) [OF 7] by (simp add: ring_defs ring_apply_part map_of_snd)
qed

text \<open>The new ring and the ring after a reset are empty.\<close>

lemma ring_new [simp]: "ring_ok h newRing" "ring_entry h k newRing = None"
  by (auto simp: newRing_def ring_defs intro!: ring_okI)

lemma ring_reset [simp]: "ring_ok h r \<Longrightarrow> ring_ok h (ring_reset r)" "ring_ok h r \<Longrightarrow> ring_entry h k (ring_reset r) = None"
  using ring_okD(1) [of h r] by (auto simp: ring_reset_def partition_reset_def ring_defs intro!: ring_okI)

text \<open>All entries of the ring in one list.\<close>

definition ring_list :: "ring \<Rightarrow> (series_key \<times> entry) list" where
  "ring_list r = concat (partitions r)"

lemma concat_parts:
  assumes "\<And>i. i < length ps \<Longrightarrow> distinct (map fst (ps ! i))" "\<And>i k e. i < length ps \<Longrightarrow> (k, e) \<in> set (ps ! i) \<Longrightarrow> ix k = i + n"
  shows "distinct (map fst (concat ps)) \<and>
    map_of (concat ps) = (\<lambda>k. if n \<le> ix k \<and> ix k < n + length ps then map_of (ps ! (ix k - n)) k else None)"
  using assms
proof (induction ps arbitrary: n)
  case (Cons p ps)
  have i: "distinct (map fst (ps ! i)) \<and> (\<forall>(k, e)\<in>set (ps ! i). ix k = i + Suc n)" if "i < length ps" for i
    using that Cons.prems(1) [of "Suc i"] Cons.prems(2) [of "Suc i"] by auto
  then have IH: "distinct (map fst (concat ps))"
    "\<And>k. map_of (concat ps) k = (if Suc n \<le> ix k \<and> ix k < Suc n + length ps then map_of (ps ! (ix k - Suc n)) k else None)"
    using Cons.IH [of "Suc n"] by (fastforce simp: add.commute fun_eq_iff)+
  have p: "ix k = n" if "(k, e) \<in> set p" for k e using Cons.prems(2) [of 0] that by auto
  have q: "ix k \<noteq> n" if "(k, e) \<in> set (concat ps)" for k e
  proof -
    obtain j where "j < length ps" "(k, e) \<in> set (ps ! j)" using \<open>(k, e) \<in> set (concat ps)\<close> by (auto simp: in_set_conv_nth [of _ ps])
    then show ?thesis using i [of j] by auto
  qed
  have r: "map_of p k = None" if "ix k \<noteq> n" for k using p that by (metis map_of_SomeD not_None_eq)
  show ?case
  proof (intro conjI ext)
    show "distinct (map fst (concat (p # ps)))" using IH(1) Cons.prems(1) [of 0] p q by fastforce
    show "map_of (concat (p # ps)) k =
      (if n \<le> ix k \<and> ix k < n + length (p # ps) then map_of ((p # ps) ! (ix k - n)) k else None)" for k
      using IH(2) [of k] r [of k] by (auto simp: map_add_def nth_Cons' split: option.splits)
  qed
qed (auto simp: fun_eq_iff)

lemma ring_list:
  assumes "ring_ok h r"
  shows "distinct (map fst (ring_list r))" "map_of (ring_list r) k = ring_entry h k r"
  using concat_parts [of "partitions r" "part_idx h" 0] ring_okD [OF assms]
  by (auto simp: ring_list_def ring_defs)

lemma ring_list_iff: "ring_ok h r \<Longrightarrow> (k, e) \<in> set (ring_list r) \<longleftrightarrow> ring_entry h k r = Some e"
  using ring_list by (metis map_of_eq_Some_iff)

lemma ring_list_apply: "ring_list (ring_apply f r) = map (\<lambda>(k, e). (k, f k e)) (ring_list r)"
  by (simp add: ring_list_def ring_apply_def map_concat)

section \<open>Entries\<close>

text \<open>An entry has values and counts them, and the values of a typed entry have its type.\<close>

definition entry_ok :: "entry \<Rightarrow> bool" where
  "entry_ok e \<longleftrightarrow> en_values e \<noteq> [] \<and> en_n e = int (length (en_values e)) \<and>
     (en_vtype e \<noteq> 0 \<longrightarrow> list_all (\<lambda>v. valueType v = en_vtype e) (en_values e))"

lemma set_Deduplicate: "set (vals_Deduplicate tm a) \<subseteq> set a"
proof
  fix x
  assume "x \<in> set (vals_Deduplicate tm a)"
  then have "vmap tm a (tm x) = Some x" using vmap_ascending [OF vals_Deduplicate_ascending] vmap_Deduplicate by metis
  then show "x \<in> set a" by (blast dest: vmap_Some)
qed

lemma vals_Size_sum: "vals_Size sz a = sum_list (map sz a)"
proof -
  have "foldl (\<lambda>s v. s + sz v) n a = n + sum_list (map sz a)" for n by (induction a arbitrary: n) simp_all
  then show ?thesis by (simp add: vals_Size_def)
qed

lemma vals_Size_append [simp]: "vals_Size sz (a @ b) = vals_Size sz a + vals_Size sz b" "vals_Size sz [] = 0"
  by (simp_all add: vals_Size_sum)

lemma ascending_distinct: "ascending (map tm a) \<Longrightarrow> distinct a"
  by (metis distinct_map strict_sorted_iff)

lemma vals_Size_Deduplicate: "vals_Size sz (vals_Deduplicate tm a) \<le> vals_Size sz a"
proof -
  have "vals_Size sz (vals_Deduplicate tm a) = sum sz (set (vals_Deduplicate tm a))"
    unfolding vals_Size_sum by (rule sum_list_distinct_conv_sum_set [OF ascending_distinct [OF vals_Deduplicate_ascending]])
  also have "\<dots> \<le> sum sz (set a)" using set_Deduplicate [of tm a] by (intro sum_mono2) simp_all
  also have "\<dots> \<le> sum_list (map sz a)"
    by (induction a) (auto simp: insert_absorb sum.insert_if intro: trans_le_add2)
  finally show ?thesis by (simp add: vals_Size_sum)
qed

lemma vals_Size_filter: "vals_Size sz (filter P a) \<le> vals_Size sz a"
  by (induction a) (simp_all add: vals_Size_sum)

lemma en_values_deduplicate [simp]: "en_values (entry_deduplicate e) = vals_Deduplicate UnixNano (en_values e)"
  by (simp add: entry_deduplicate_def vals_Deduplicate_def Let_def)

lemma en_vtype_deduplicate [simp]: "en_vtype (entry_deduplicate e) = en_vtype e"
  by (simp add: entry_deduplicate_def Let_def)

lemma entry_deduplicate_spec:
  "entry_ok e \<Longrightarrow> entry_ok (entry_deduplicate e)"
  "entry_size (entry_deduplicate e) \<le> entry_size e"
proof -
  assume e: "entry_ok e"
  then have "en_n (entry_deduplicate e) = int (length (en_values (entry_deduplicate e)))"
    by (simp add: entry_deduplicate_def entry_ok_def vals_Deduplicate_def Let_def)
  with e set_Deduplicate [of UnixNano "en_values e"] show "entry_ok (entry_deduplicate e)"
    by (auto simp: entry_ok_def list_all_iff vals_Deduplicate_Nil_iff)
qed (simp add: entry_size_def vals_Size_Deduplicate)

lemma entry_filter_eq:
  "entry_filter mn mx e = (let vs = filter (\<lambda>v. \<not> (mn \<le> UnixNano v \<and> UnixNano v \<le> mx)) (vals_Deduplicate UnixNano (en_values e))
     in e\<lparr>en_values := vs, en_n := int (length vs)\<rparr>)"
proof -
  have "(if length (en_values e) > 1 then vals_Deduplicate UnixNano (en_values e) else en_values e) = vals_Deduplicate UnixNano (en_values e)"
    by (simp add: vals_Deduplicate_def)
  then show ?thesis
    by (simp add: entry_filter_def vals_Exclude_filter [OF vals_Deduplicate_ascending])
qed

lemma entry_filter_spec:
  "entry_ok e \<Longrightarrow> entry_count (entry_filter mn mx e) \<noteq> 0 \<Longrightarrow> entry_ok (entry_filter mn mx e)"
  "entry_count (entry_filter mn mx e) = 0 \<longleftrightarrow> en_values (entry_filter mn mx e) = []"
  "vmap UnixNano (en_values (entry_filter mn mx e)) = vmap UnixNano (en_values e) |` {t. \<not> (mn \<le> t \<and> t \<le> mx)}"
  "entry_size (entry_filter mn mx e) \<le> entry_size e"
  using set_Deduplicate [of UnixNano "en_values e"] vmap_restrict [OF vals_Deduplicate_ascending, where P = "\<lambda>t. \<not> (mn \<le> t \<and> t \<le> mx)"]
    order_trans [OF vals_Size_filter vals_Size_Deduplicate]
  by (auto simp: entry_filter_eq entry_ok_def entry_size_def entry_count_def vmap_Deduplicate Let_def list_all_iff)

lemma entry_add_spec:
  assumes "entry_ok e" "entry_add vs e = Inr e'"
  shows "entry_ok e'" "en_values e' = en_values e @ vs" "entry_size e' = entry_size e + vals_Size Value_Size vs"
proof -
  show v: "en_values e' = en_values e @ vs" using assms(2) by (auto simp: entry_add_def split: if_splits)
  then show "entry_size e' = entry_size e + vals_Size Value_Size vs" by (simp add: entry_size_def)
  show "entry_ok e'"
    using assms by (cases vs) (auto simp: entry_add_def entry_ok_def list_all_iff list_ex_iff split: if_splits)
qed

lemma newEntryValues_spec:
  assumes "newEntryValues vs = Inr e" "vs \<noteq> []"
  shows "entry_ok e" "en_values e = vs" "entry_size e = vals_Size Value_Size vs"
  using assms by (auto simp: newEntryValues_def entry_ok_def entry_size_def Let_def list_all_iff list_ex_iff split: if_splits)

section \<open>Bytes\<close>

definition store_bytes :: "(series_key \<rightharpoonup> entry) \<Rightarrow> nat" where
  "store_bytes m = (\<Sum>k\<in>dom m. length k + entry_size (the (m k)))"

abbreviation bytes_at :: "series_key \<Rightarrow> entry option \<Rightarrow> nat" where
  "bytes_at k x \<equiv> (case x of None \<Rightarrow> 0 | Some e \<Rightarrow> length k + entry_size e)"

lemma store_bytes_empty [simp]: "store_bytes Map.empty = 0"
  by (simp add: store_bytes_def)

lemma store_bytes_upd:
  assumes "finite (dom m)"
  shows "store_bytes (m(k := x)) + bytes_at k (m k) = store_bytes m + bytes_at k x"
proof -
  have sum: "store_bytes m = (\<Sum>j\<in>dom m - {k}. length j + entry_size (the (m j))) + bytes_at k (m k)"
    if "finite (dom m)" for m :: "series_key \<rightharpoonup> entry"
    using that by (cases "m k") (auto simp: store_bytes_def domIff sum.remove [of "dom m" k])
  have "(\<Sum>j\<in>dom (m(k := x)) - {k}. length j + entry_size (the ((m(k := x)) j))) = (\<Sum>j\<in>dom m - {k}. length j + entry_size (the (m j)))"
    by (rule sum.cong) auto
  then show ?thesis using sum [OF assms] sum [of "m(k := x)"] assms by simp
qed

lemma store_bytes_shrink:
  assumes "finite (dom m)" "\<And>k e. m k = Some e \<Longrightarrow> entry_size (f k e) \<le> entry_size e"
  shows "store_bytes (\<lambda>k. map_option (f k) (m k)) \<le> store_bytes m"
proof -
  have "dom (\<lambda>k. map_option (f k) (m k)) = dom m" by auto
  then show ?thesis using assms unfolding store_bytes_def by (auto intro!: sum_mono)
qed

lemma store_bytes_0:
  assumes "finite (dom m)" "store_bytes m = 0" "m k = Some e"
  shows "k = []"
proof -
  have "\<forall>k\<in>dom m. length k + entry_size (the (m k)) = 0"
    using assms(1,2) unfolding store_bytes_def by (subst (asm) sum_eq_0_iff) auto
  then show ?thesis using assms(3) by fastforce
qed

section \<open>Writes\<close>

text \<open>A write adds its values to the entry of its key, or fails and leaves the ring as it was.\<close>

lemma setPartition_same:
  assumes "ring_ok h r"
  shows "setPartition h k (getPartition h k r) r = r"
  by (simp add: setPartition_def getPartition_def)

lemma ring_write_cases:
  assumes "ring_ok h r"
  obtains (err) err where "ring_write h k vs r = (Inl err, r)"
    | (added) e e' where "ring_entry h k r = Some e" "entry_add vs e = Inr e'" "ring_write h k vs r = (Inr False, ring_put h k e' r)"
    | (new) e where "ring_entry h k r = None" "newEntryValues vs = Inr e" "ring_write h k vs r = (Inr True, ring_put h k e r)"
proof (cases "ring_entry h k r")
  case None
  then have "map_of (getPartition h k r) k = None" by (simp add: ring_entry_def partition_entry_def)
  then show ?thesis
    using None err new setPartition_same [OF assms, of k]
    by (cases "newEntryValues vs") (auto simp: ring_write_def partition_write_def ring_put_def)
next
  case (Some e)
  then have "map_of (getPartition h k r) k = Some e" by (simp add: ring_entry_def partition_entry_def)
  then show ?thesis
    using Some err added setPartition_same [OF assms, of k]
    by (cases "entry_add vs e") (auto simp: ring_write_def partition_write_def ring_put_def)
qed

text \<open>The type of the entry decides whether a write is refused.\<close>

lemma ring_write_error:
  assumes "ring_ok h r" "ring_write h k vs r = (Inl err, r')"
  shows "err = ErrFieldTypeConflict" "r' = r"
proof -
  have "entry_add vs e = Inl err \<Longrightarrow> err = ErrFieldTypeConflict" "newEntryValues vs = Inl err \<Longrightarrow> err = ErrFieldTypeConflict" for e
    by (auto simp: entry_add_def newEntryValues_def Let_def split: if_splits)
  then show "err = ErrFieldTypeConflict"
    using assms(2) by (auto simp: ring_write_def partition_write_def split: option.splits sum.splits prod.splits)
  show "r' = r" using assms(2) by (rule_tac ring_write_cases [OF assms(1), of k vs]) auto
qed

section \<open>Serial application\<close>

text \<open>A function that never fails and whose changes do not depend on the captured state.\<close>

lemma partition_applySerial_pure:
  assumes "\<And>k e s. f k e s = (None, g k e, u k e s)" "\<forall>(k, e)\<in>set p. entry_count e \<noteq> 0"
  shows "partition_applySerial f p s = (None, map (\<lambda>(k, e). (k, g k e)) p, foldl (\<lambda>s (k, e). u k e s) s p)"
  using assms(2) by (induction p arbitrary: s) (auto simp: assms(1))

lemma partitions_applySerial_pure:
  assumes "\<And>k e s. f k e s = (None, g k e, u k e s)" "\<forall>(k, e)\<in>set (concat ps). entry_count e \<noteq> 0"
  shows "partitions_applySerial f ps s =
    (None, map (map (\<lambda>(k, e). (k, g k e))) ps, foldl (\<lambda>s (k, e). u k e s) s (concat ps))"
  using assms(2)
proof (induction ps arbitrary: s)
  case (Cons p ps)
  have "\<forall>(k, e)\<in>set p. entry_count e \<noteq> 0" "\<forall>(k, e)\<in>set (concat ps). entry_count e \<noteq> 0" using Cons.prems by auto
  then show ?case using Cons.IH partition_applySerial_pure [of f g u, OF assms(1)] by simp
qed simp

lemma ring_applySerial_pure:
  assumes "\<And>k e s. f k e s = (None, g k e, u k e s)" "\<forall>(k, e)\<in>set (ring_list r). entry_count e \<noteq> 0"
  shows "ring_applySerial f r s = (None, ring_apply g r, foldl (\<lambda>s (k, e). u k e s) s (ring_list r))"
  using partitions_applySerial_pure [of f g u, OF assms(1)] assms(2)
  by (simp add: ring_applySerial_def ring_apply_def ring_list_def)

section \<open>Deletion\<close>

text \<open>The entries a deletion touches, what is left of one, and the bytes it frees.\<close>

definition hit :: "bytes \<Rightarrow> (series_key \<Rightarrow> bool) option \<Rightarrow> series_key \<Rightarrow> bool" where
  "hit name pred k \<longleftrightarrow> take (length name) k = name \<and> (case pred of None \<Rightarrow> True | Some f \<Rightarrow> f k)"

definition left_entry :: "bytes \<Rightarrow> int \<Rightarrow> int \<Rightarrow> (series_key \<Rightarrow> bool) option \<Rightarrow> series_key \<Rightarrow> entry \<Rightarrow> entry" where
  "left_entry name mn mx pred k e =
     (if hit name pred k \<and> \<not> (mn = minInt64 \<and> mx = maxInt64) then entry_filter mn mx e else e)"

definition dropped :: "bytes \<Rightarrow> int \<Rightarrow> int \<Rightarrow> (series_key \<Rightarrow> bool) option \<Rightarrow> series_key \<Rightarrow> entry \<Rightarrow> bool" where
  "dropped name mn mx pred k e \<longleftrightarrow>
     hit name pred k \<and> (mn = minInt64 \<and> mx = maxInt64 \<or> entry_count (left_entry name mn mx pred k e) = 0)"

definition freed :: "bytes \<Rightarrow> int \<Rightarrow> int \<Rightarrow> (series_key \<Rightarrow> bool) option \<Rightarrow> series_key \<Rightarrow> entry \<Rightarrow> nat" where
  "freed name mn mx pred k e =
     (if dropped name mn mx pred k e then entry_size e else entry_size e - entry_size (left_entry name mn mx pred k e))"

lemmas deletion_defs = hit_def left_entry_def dropped_def freed_def

lemma delete_entry_eq:
  "delete_entry name mn mx pred k e (D, t) =
     (None, left_entry name mn mx pred k e,
      (if dropped name mn mx pred k e then D @ [k] else D, t + of_nat (freed name mn mx pred k e)))"
proof -
  have "entry_size (entry_filter mn mx e) \<le> entry_size e" by (rule entry_filter_spec)
  moreover have "entry_count (entry_filter mn mx e) = 0 \<Longrightarrow> entry_size (entry_filter mn mx e) = 0"
    by (simp add: entry_filter_spec(2) entry_size_def)
  ultimately show ?thesis
    by (auto simp: delete_entry_def deletion_defs Let_def of_nat_diff split: option.splits)
qed

lemma delete_fold:
  "foldl (\<lambda>s (k, e). case s of (D, t) \<Rightarrow> (if d k e then D @ [k] else D, t + of_nat (w k e))) (D, t :: u64) xs =
    (D @ map fst (filter (\<lambda>(k, e). d k e) xs), t + of_nat (sum_list (map (\<lambda>(k, e). w k e) xs)))"
  by (induction xs arbitrary: D t) auto

lemma foldl_word: "foldl (\<lambda>t k. t + of_nat (w k)) (t :: u64) ks = t + of_nat (sum_list (map w ks))"
  by (induction ks arbitrary: t) (simp_all add: add.assoc)

lemma store_bytes_choose:
  assumes "distinct (map fst xs)"
  shows "store_bytes (\<lambda>k. Option.bind (map_of xs k) (F k)) = sum_list (map (\<lambda>(k, e). bytes_at k (F k e)) xs)"
  using assms
proof (induction xs)
  case (Cons x xs)
  obtain k e where x: "x = (k, e)" by force
  let ?m = "\<lambda>k. Option.bind (map_of xs k) (F k)"
  have k: "map_of xs k = None" using Cons.prems x by (simp add: map_of_eq_None_iff)
  have "finite (dom ?m)" by (rule finite_subset [OF _ finite_dom_map_of [of xs]]) (auto simp: bind_eq_Some_conv)
  moreover have "(\<lambda>j. Option.bind (map_of (x # xs) j) (F j)) = ?m(k := F k e)" by (auto simp: x)
  ultimately show ?case using store_bytes_upd [of ?m k "F k e"] Cons k by (simp add: x)
qed (simp add: store_bytes_def dom_def)

definition deleted :: "bytes \<Rightarrow> int \<Rightarrow> int \<Rightarrow> (series_key \<Rightarrow> bool) option \<Rightarrow> series_key \<Rightarrow> entry \<Rightarrow> entry option" where
  "deleted name mn mx pred k e = (if dropped name mn mx pred k e then None else Some (left_entry name mn mx pred k e))"

lemma freed_bytes:
  "bytes_at k (deleted name mn mx pred k e) + (freed name mn mx pred k e + (if dropped name mn mx pred k e then length k else 0)) =
    length k + entry_size e"
  using entry_filter_spec(3,4) [of mn mx e] by (auto simp: deleted_def freed_def left_entry_def)

text \<open>
  What \<^verbatim>\<open>DeleteBucketRange\<close> leaves in the store, and that the bytes it counts are the bytes that are gone.
\<close>

lemma ring_delete:
  assumes r: "ring_ok h r" and e: "\<And>k e. ring_entry h k r = Some e \<Longrightarrow> entry_ok e"
  obtains r1 D t r2 gone where "ring_applySerial (delete_entry name mn mx pred) r ([], 0) = (None, r1, D, t)"
    "r2 = foldl (\<lambda>r k. ring_remove h k r) r1 D" "foldl (\<lambda>t k. t + of_nat (length k)) t D = of_nat gone"
    "ring_ok h r2" "ring_map h r2 = (\<lambda>k. Option.bind (ring_entry h k r) (deleted name mn mx pred k))"
    "store_bytes (ring_map h r2) + gone = store_bytes (ring_map h r)"
proof -
  let ?xs = "ring_list r" and ?d = "dropped name mn mx pred" and ?w = "freed name mn mx pred" and ?l = "left_entry name mn mx pred"
  let ?D = "map fst (filter (\<lambda>(k, e). ?d k e) ?xs)" and ?t = "sum_list (map (\<lambda>(k, e). ?w k e) ?xs)"
  have xs: "distinct (map fst ?xs)" "\<And>k. map_of ?xs k = ring_entry h k r" using ring_list [OF r] by auto
  have n: "\<forall>(k, e)\<in>set ?xs. entry_count e \<noteq> 0"
    using e ring_list_iff [OF r] by (auto simp: entry_ok_def entry_count_def)
  let ?u = "\<lambda>k e s. case s of (D, t :: u64) \<Rightarrow> (if ?d k e then D @ [k] else D, t + of_nat (?w k e))"
  have "delete_entry name mn mx pred k e s = (None, ?l k e, ?u k e s)" for k e s
    by (cases s) (simp add: delete_entry_eq)
  from ring_applySerial_pure [where g = ?l and u = ?u, OF this n, where s = "([], 0)"]
  have s: "ring_applySerial (delete_entry name mn mx pred) r ([], 0) = (None, ring_apply ?l r, ?D, of_nat ?t)"
    unfolding delete_fold [where d = ?d and w = ?w] by simp
  let ?r2 = "foldl (\<lambda>r k. ring_remove h k r) (ring_apply ?l r) ?D" and ?g = "?t + sum_list (map length ?D)"
  have m: "ring_map h ?r2 = (\<lambda>k. Option.bind (ring_entry h k r) (deleted name mn mx pred k))"
  proof
    fix k
    have "k \<in> set ?D \<longleftrightarrow> (\<exists>e. ring_entry h k r = Some e \<and> ?d k e)" using ring_list_iff [OF r] by force
    then show "ring_entry h k ?r2 = Option.bind (ring_entry h k r) (deleted name mn mx pred k)"
      using store.dels [OF store.ok_change [OF r], of ?l ?D] store.entry_change [OF r, of ?l]
      by (cases "ring_entry h k r") (auto simp: deleted_def fun_eq_iff)
  qed
  have "sum_list (map length ?D) = sum_list (map (\<lambda>(k, e). if ?d k e then length k else 0) ?xs)"
    by (simp add: sum_list_map_filter' case_prod_beta' comp_def)
  then have "?g = sum_list (map (\<lambda>(k, e). ?w k e + (if ?d k e then length k else 0)) ?xs)"
    by (simp add: sum_list_addf case_prod_beta')
  then have "store_bytes (ring_map h ?r2) + ?g = store_bytes (ring_map h r)"
    unfolding m xs(2) [symmetric] store_bytes_choose [OF xs(1)] using store_bytes_choose [OF xs(1), of "\<lambda>_. Some"]
    by (simp add: sum_list_addf [symmetric] case_prod_beta' freed_bytes comp_def)
  moreover have "foldl (\<lambda>t k. t + of_nat (length k)) (of_nat ?t :: u64) ?D = of_nat ?g" by (simp add: foldl_word)
  ultimately show thesis using that [OF s refl _ _ m] store.dels [OF store.ok_change [OF r], of ?l ?D] by blast
qed

end
