(* ===== verification/Cache_Spec.thy ===== *)
theory Cache_Spec
  imports Cache_Store
begin

text \<open>
  What the cache promises. The abstract state of a cache is two maps from keys and timestamps to values:
  the pending ones, in the snapshot, and the live ones. Every operation of \<^verbatim>\<open>cache.go\<close> is a step of a relation on
  caches, labelled with the call and its result; an invariant holds in every reachable state and every step is a step of
  the abstract relation.
\<close>

section \<open>Contents of a store\<close>

type_synonym readings = "series_key \<Rightarrow> int \<rightharpoonup> Value"

definition contents :: "(series_key \<Rightarrow> u64) \<Rightarrow> ring \<Rightarrow> readings" where
  "contents h r k = (case ring_entry h k r of None \<Rightarrow> Map.empty | Some e \<Rightarrow> vmap UnixNano (en_values e))"

definition live :: "(series_key \<Rightarrow> u64) \<Rightarrow> cache \<Rightarrow> readings" where
  "live h c = contents h (store c)"

definition pending :: "(series_key \<Rightarrow> u64) \<Rightarrow> cache \<Rightarrow> readings" where
  "pending h c = (case snapshot c of None \<Rightarrow> (\<lambda>_. Map.empty) | Some s \<Rightarrow> contents h (sc_store s))"

text \<open>
  The type recorded for each key that has an entry; whether an entry of some recorded type, or no entry, admits
  values, and the type that is recorded then.
\<close>

definition kinds :: "(series_key \<Rightarrow> u64) \<Rightarrow> ring \<Rightarrow> series_key \<rightharpoonup> u8" where
  "kinds h r k = map_option en_vtype (ring_entry h k r)"

definition admits :: "u8 option \<Rightarrow> Value list \<Rightarrow> bool" where
  "admits t vs =
     (case t of
        None \<Rightarrow> list_all (\<lambda>v. valueType (vs ! 0) = valueType v) vs
      | Some t \<Rightarrow> t = 0 \<or> list_all (\<lambda>v. t = valueType v) vs)"

definition kind_after :: "u8 option \<Rightarrow> Value list \<Rightarrow> u8" where
  "kind_after t vs = (case t of None \<Rightarrow> valueType (vs ! 0) | Some t \<Rightarrow> t)"

text \<open>A well-formed ring of well-formed entries, none of them under the empty key.\<close>

definition ring_wf :: "(series_key \<Rightarrow> u64) \<Rightarrow> ring \<Rightarrow> bool" where
  "ring_wf h r \<longleftrightarrow> ring_ok h r \<and> (\<forall>k e. ring_entry h k r = Some e \<longrightarrow> entry_ok e \<and> k \<noteq> [])"

abbreviation ring_bytes :: "(series_key \<Rightarrow> u64) \<Rightarrow> ring \<Rightarrow> nat" where
  "ring_bytes h r \<equiv> store_bytes (ring_map h r)"

lemma ring_wf_new [simp]: "ring_wf h newRing" "contents h newRing = (\<lambda>_. Map.empty)" "ring_bytes h newRing = 0"
  "kinds h newRing = Map.empty"
  by (simp_all add: ring_wf_def contents_def [abs_def] kinds_def [abs_def])

lemma ring_wf_reset [simp]:
  "ring_wf h r \<Longrightarrow> ring_wf h (ring_reset r)" "ring_wf h r \<Longrightarrow> contents h (ring_reset r) = (\<lambda>_. Map.empty)"
  "ring_wf h r \<Longrightarrow> ring_bytes h (ring_reset r) = 0" "ring_wf h r \<Longrightarrow> kinds h (ring_reset r) = Map.empty"
  by (simp_all add: ring_wf_def contents_def [abs_def] kinds_def [abs_def])

lemma ring_wf_empty:
  assumes "ring_wf h r" "ring_bytes h r = 0"
  shows "contents h r = (\<lambda>_. Map.empty)"
proof
  fix k
  have "ring_entry h k r = None"
    using store_bytes_0 [OF store.finite_entries, of h r] assms by (cases "ring_entry h k r") (auto simp: ring_wf_def)
  then show "contents h r k = Map.empty" by (simp add: contents_def)
qed

lemma ring_wf_put:
  assumes "ring_wf h r" "entry_ok e" "k \<noteq> []"
  shows "ring_wf h (ring_put h k e r)" "contents h (ring_put h k e r) = (contents h r)(k := vmap UnixNano (en_values e))"
    "ring_bytes h (ring_put h k e r) + bytes_at k (ring_entry h k r) = ring_bytes h r + length k + entry_size e"
proof -
  have r: "ring_ok h r" using assms(1) by (simp add: ring_wf_def)
  note e = store.entry_put [OF r, of k e]
  show "ring_wf h (ring_put h k e r)"
    using assms e store.ok_put [OF r] by (auto simp: ring_wf_def fun_eq_iff split: if_splits)
  show "contents h (ring_put h k e r) = (contents h r)(k := vmap UnixNano (en_values e))"
    using e by (auto simp: contents_def fun_eq_iff)
  show "ring_bytes h (ring_put h k e r) + bytes_at k (ring_entry h k r) = ring_bytes h r + length k + entry_size e"
    unfolding e using store_bytes_upd [OF store.finite_entries [OF r], of k "Some e"] by simp
qed

lemma ring_wf_write:
  assumes r: "ring_wf h r" "k \<noteq> []" "vs \<noteq> []" and w: "ring_write h k vs r = (Inr new, r')"
  shows "ring_wf h r'" "contents h r' = (contents h r)(k := contents h r k ++ vmap UnixNano vs)"
    "ring_bytes h r' = ring_bytes h r + vals_Size Value_Size vs + (if new then length k else 0)"
proof -
  have "ring_wf h r' \<and> contents h r' = (contents h r)(k := contents h r k ++ vmap UnixNano vs) \<and>
    ring_bytes h r' = ring_bytes h r + vals_Size Value_Size vs + (if new then length k else 0)"
  proof (rule ring_write_cases [of h r k vs])
    show "ring_ok h r" using r by (simp add: ring_wf_def)
  next
    fix e e'
    assume e: "ring_entry h k r = Some e" "entry_add vs e = Inr e'" "ring_write h k vs r = (Inr False, ring_put h k e' r)"
    then have "entry_ok e" using r by (simp add: ring_wf_def)
    from entry_add_spec [OF this e(2)] ring_wf_put [OF r(1) _ r(2), of e'] e w show ?thesis
      by (auto simp: contents_def fun_eq_iff)
  next
    fix e
    assume e: "ring_entry h k r = None" "newEntryValues vs = Inr e" "ring_write h k vs r = (Inr True, ring_put h k e r)"
    from newEntryValues_spec [OF e(2) r(3)] ring_wf_put [OF r(1) _ r(2), of e] e w show ?thesis
      by (auto simp: contents_def fun_eq_iff)
  qed (use w in auto)
  then show "ring_wf h r'" "contents h r' = (contents h r)(k := contents h r k ++ vmap UnixNano vs)"
    "ring_bytes h r' = ring_bytes h r + vals_Size Value_Size vs + (if new then length k else 0)" by blast+
qed

text \<open>A write is refused exactly when the recorded type does not admit its values.\<close>

lemma ring_write_admits:
  assumes "ring_wf h r" "vs \<noteq> []"
  shows "ring_write h k vs r = (Inl err, r') \<Longrightarrow> \<not> admits (kinds h r k) vs \<and> err = ErrFieldTypeConflict"
    "ring_write h k vs r = (Inr new, r') \<Longrightarrow> admits (kinds h r k) vs \<and> (new \<longleftrightarrow> kinds h r k = None) \<and>
      kinds h r' = (kinds h r)(k \<mapsto> kind_after (kinds h r k) vs)"
proof -
  have r: "ring_ok h r" using assms(1) by (simp add: ring_wf_def)
  show "\<not> admits (kinds h r k) vs \<and> err = ErrFieldTypeConflict" if w: "ring_write h k vs r = (Inl err, r')"
    using w assms(2) ring_write_error(1) [OF r w]
    by (auto simp: ring_write_def partition_write_def ring_defs entry_add_def newEntryValues_def Let_def list_ex_iff list_all_iff
        kinds_def admits_def split: option.splits sum.splits if_splits)
  show "admits (kinds h r k) vs \<and> (new \<longleftrightarrow> kinds h r k = None) \<and> kinds h r' = (kinds h r)(k \<mapsto> kind_after (kinds h r k) vs)"
    if w: "ring_write h k vs r = (Inr new, r')"
  proof (rule ring_write_cases [OF r, of k vs])
    fix e e'
    assume e: "ring_entry h k r = Some e" "entry_add vs e = Inr e'" "ring_write h k vs r = (Inr False, ring_put h k e' r)"
    then have "entry_ok e" using assms(1) by (simp add: ring_wf_def)
    then have "en_vtype e' = en_vtype e" "en_vtype e = 0 \<or> list_all (\<lambda>v. en_vtype e = valueType v) vs"
      using e(2) by (auto simp: entry_add_def entry_ok_def list_all_iff list_ex_iff split: if_splits)
    then show ?thesis using w e fun_cong [OF store.entry_put [OF r, of k e']]
      by (auto simp: kinds_def admits_def kind_after_def fun_eq_iff)
  next
    fix e
    assume e: "ring_entry h k r = None" "newEntryValues vs = Inr e" "ring_write h k vs r = (Inr True, ring_put h k e r)"
    then have "en_vtype e = valueType (vs ! 0)" "list_all (\<lambda>v. valueType (vs ! 0) = valueType v) vs"
      using assms(2) by (auto simp: newEntryValues_def Let_def list_all_iff list_ex_iff split: if_splits)
    then show ?thesis using w e fun_cong [OF store.entry_put [OF r, of k e]]
      by (auto simp: kinds_def admits_def kind_after_def fun_eq_iff)
  qed (use w in auto)
qed

lemma ring_write_entry:
  assumes "ring_wf h r" "ring_ok h r" "vs \<noteq> []" "ring_write h k vs r = (Inr new, r')"
  shows "(case ring_entry h k r' of None \<Rightarrow> [] | Some e \<Rightarrow> en_values e) = (case ring_entry h k r of None \<Rightarrow> [] | Some e \<Rightarrow> en_values e) @ vs"
    "k' \<noteq> k \<Longrightarrow> ring_entry h k' r' = ring_entry h k' r"
  using assms(1,3,4) entry_add_spec(2) newEntryValues_spec(2) store.entry_put [OF assms(2)]
  by (rule_tac ring_write_cases [OF assms(2), of k vs], fastforce simp: fun_eq_iff ring_wf_def, fastforce simp: fun_eq_iff ring_wf_def,
      fastforce simp: fun_eq_iff ring_wf_def)+

lemma ring_wf_write_error: "ring_wf h r \<Longrightarrow> ring_write h k vs r = (Inl err, r') \<Longrightarrow> r' = r"
  using ring_write_error by (auto simp: ring_wf_def)

text \<open>Deduplicating entries changes nothing but the bytes.\<close>

lemma ring_wf_deduplicate:
  assumes "ring_wf h r"
  shows "ring_wf h (ring_apply (\<lambda>_. entry_deduplicate) r)" "contents h (ring_apply (\<lambda>_. entry_deduplicate) r) = contents h r"
    "ring_bytes h (ring_apply (\<lambda>_. entry_deduplicate) r) \<le> ring_bytes h r"
    "kinds h (ring_apply (\<lambda>_. entry_deduplicate) r) = kinds h r"
proof -
  have r: "ring_ok h r" using assms by (simp add: ring_wf_def)
  note e = store.entry_change [OF r, of "\<lambda>_. entry_deduplicate"]
  show "ring_wf h (ring_apply (\<lambda>_. entry_deduplicate) r)"
    using assms e store.ok_change [OF r] entry_deduplicate_spec(1) by (auto simp: ring_wf_def fun_eq_iff)
  show "contents h (ring_apply (\<lambda>_. entry_deduplicate) r) = contents h r"
    using e by (auto simp: contents_def fun_eq_iff vmap_Deduplicate split: option.split)
  show "ring_bytes h (ring_apply (\<lambda>_. entry_deduplicate) r) \<le> ring_bytes h r"
    unfolding e by (rule store_bytes_shrink [OF store.finite_entries [OF r] entry_deduplicate_spec(2)])
  show "kinds h (ring_apply (\<lambda>_. entry_deduplicate) r) = kinds h r"
    using e by (auto simp: kinds_def fun_eq_iff option.map_comp comp_def)
qed

lemma ring_wf_dedup_in:
  assumes "ring_wf h r"
  shows "ring_wf h (dedup_in h k r)" "contents h (dedup_in h k r) = contents h r" "ring_bytes h (dedup_in h k r) \<le> ring_bytes h r"
    "kinds h (dedup_in h k r) = kinds h r"
proof -
  have "ring_wf h (dedup_in h k r) \<and> contents h (dedup_in h k r) = contents h r \<and> ring_bytes h (dedup_in h k r) \<le> ring_bytes h r"
  proof (cases "ring_entry h k r")
    case (Some e)
    then have "entry_ok (entry_deduplicate e)" "k \<noteq> []" using assms entry_deduplicate_spec(1) by (auto simp: ring_wf_def)
    from ring_wf_put [OF assms this] Some entry_deduplicate_spec(2) [of e] show ?thesis
      by (auto simp: dedup_in_def ring_put_def contents_def fun_eq_iff vmap_Deduplicate)
  qed (simp add: dedup_in_def assms)
  then show "ring_wf h (dedup_in h k r)" "contents h (dedup_in h k r) = contents h r" "ring_bytes h (dedup_in h k r) \<le> ring_bytes h r"
    by blast+
  have "ring_ok h r" using assms by (simp add: ring_wf_def)
  then show "kinds h (dedup_in h k r) = kinds h r"
    using store.entry_put [of h r k] by (auto simp: dedup_in_def ring_put_def kinds_def fun_eq_iff split: option.split)
qed

text \<open>Deleting a range of time restricts the contents of the keys it hits.\<close>

lemma UnixNano_range: "minInt64 \<le> UnixNano v" "UnixNano v \<le> maxInt64"
  using sint_ge [of "unixnano v"] sint_lt [of "unixnano v"] by (simp_all add: UnixNano_def minInt64_def maxInt64_def)

lemma vmap_outside:
  assumes "\<And>v. v \<in> set vs \<Longrightarrow> tm v \<in> A"
  shows "vmap tm vs |` (- A) = Map.empty"
proof
  fix t
  show "(vmap tm vs |` (- A)) t = None"
    using assms vmap_Some [of tm vs t] by (cases "vmap tm vs t") (auto simp: restrict_map_def)
qed

lemma deleted_contents:
  assumes "hit name pred k"
  shows "(case deleted name mn mx pred k e of None \<Rightarrow> Map.empty | Some e \<Rightarrow> vmap UnixNano (en_values e)) = vmap UnixNano (en_values e) |` (- {mn..mx})"
proof -
  have c: "{t. mn \<le> t \<longrightarrow> \<not> t \<le> mx} = - {mn..mx}" by auto
  show ?thesis
  proof (cases "mn = minInt64 \<and> mx = maxInt64")
    case True
    then show ?thesis using assms vmap_outside [of "en_values e" UnixNano "{mn..mx}"] UnixNano_range by (simp add: deleted_def dropped_def)
  next
    case False
    then have "vmap UnixNano (en_values (left_entry name mn mx pred k e)) = vmap UnixNano (en_values e) |` (- {mn..mx})"
      using assms entry_filter_spec(3) [of mn mx e] by (simp add: left_entry_def c)
    then show ?thesis
      using assms False entry_filter_spec(2) [of mn mx e] by (auto simp: deleted_def dropped_def left_entry_def)
  qed
qed

lemma deleted_miss: "\<not> hit name pred k \<Longrightarrow> deleted name mn mx pred k e = Some e"
  by (simp add: deleted_def dropped_def left_entry_def)

lemma deleted_ok:
  assumes "entry_ok e" "deleted name mn mx pred k e = Some e'"
  shows "entry_ok e'"
  using assms entry_filter_spec(1) [of e mn mx] by (auto simp: deleted_def dropped_def left_entry_def split: if_splits)

lemma vmap_Nil_iff: "vmap tm a = Map.empty \<longleftrightarrow> a = []"
  using dom_vmap [of tm a] by auto

lemma deleted_kind: "deleted name mn mx pred k e = Some e' \<Longrightarrow> en_vtype e' = en_vtype e"
  by (auto simp: deleted_def left_entry_def entry_filter_eq Let_def split: if_splits)

definition erase :: "bytes \<Rightarrow> int \<Rightarrow> int \<Rightarrow> (series_key \<Rightarrow> bool) option \<Rightarrow> readings \<Rightarrow> readings" where
  "erase name mn mx pred m = (\<lambda>k. if hit name pred k then m k |` (- {mn..mx}) else m k)"

lemma ring_wf_delete:
  assumes "ring_wf h r"
  obtains r1 D t r2 gone where "ring_applySerial (delete_entry name mn mx pred) r ([], 0) = (None, r1, D, t)"
    "r2 = foldl (\<lambda>r k. ring_remove h k r) r1 D" "foldl (\<lambda>t k. t + of_nat (length k)) t D = of_nat gone"
    "ring_wf h r2" "contents h r2 = erase name mn mx pred (contents h r)" "ring_bytes h r2 + gone = ring_bytes h r"
    "kinds h r2 = (\<lambda>k. if contents h r2 k = Map.empty then None else kinds h r k)"
proof -
  have r: "ring_ok h r" and e: "\<And>k e. ring_entry h k r = Some e \<Longrightarrow> entry_ok e" using assms by (auto simp: ring_wf_def)
  obtain r1 D t r2 gone where d: "ring_applySerial (delete_entry name mn mx pred) r ([], 0) = (None, r1, D, t)"
    "r2 = foldl (\<lambda>r k. ring_remove h k r) r1 D" "foldl (\<lambda>t k. t + of_nat (length k)) t D = of_nat gone"
    "ring_ok h r2" "ring_map h r2 = (\<lambda>k. Option.bind (ring_entry h k r) (deleted name mn mx pred k))"
    "ring_bytes h r2 + gone = ring_bytes h r"
    by (rule ring_delete [OF r e]) blast
  have "ring_wf h r2" using d(4,5) assms deleted_ok by (fastforce simp: ring_wf_def fun_eq_iff bind_eq_Some_conv)
  moreover have "contents h r2 k = erase name mn mx pred (contents h r) k" for k
    using fun_cong [OF d(5), of k] deleted_contents [of name pred k] deleted_miss [of name pred k]
    by (cases "ring_entry h k r") (auto simp: contents_def erase_def)
  moreover have "kinds h r2 k = (if contents h r2 k = Map.empty then None else kinds h r k)" for k
    using fun_cong [OF d(5), of k] calculation(1) deleted_kind [of name mn mx pred k]
    by (cases "ring_entry h k r") (auto simp: contents_def kinds_def ring_wf_def entry_ok_def vmap_Nil_iff split: option.splits)
  ultimately show thesis using that d(1-3,6) by blast
qed

section \<open>Invariant\<close>

text \<open>
  The live store and the snapshot are well-formed; the counters are not below the bytes the stores hold, and
  do not overflow together; the counter of the snapshot is the one the cache keeps for it; and a snapshot in
  progress exists.
\<close>

definition cache_ok :: "(series_key \<Rightarrow> u64) \<Rightarrow> cache \<Rightarrow> bool" where
  "cache_ok h c \<longleftrightarrow>
     ring_wf h (store c) \<and> ring_bytes h (store c) \<le> unat (cacheSize (ctracker c)) \<and>
     (case snapshot c of
        None \<Rightarrow> \<not> snapshotting c \<and> snapshotSize (ctracker c) = 0
      | Some s \<Rightarrow> ring_wf h (sc_store s) \<and> ring_bytes h (sc_store s) \<le> unat (snapshotSize (ctracker c)) \<and>
          cacheSize (sc_tracker s) = 0 \<and> snapshotSize (sc_tracker s) = snapshotSize (ctracker c)) \<and>
     unat (cacheSize (ctracker c)) + unat (snapshotSize (ctracker c)) < 2 ^ 64"

text \<open>There is room for \<open>n\<close> more bytes in the 64-bit counters.\<close>

definition room :: "cache \<Rightarrow> nat \<Rightarrow> bool" where
  "room c n \<longleftrightarrow> unat (cacheSize (ctracker c)) + unat (snapshotSize (ctracker c)) + n < 2 ^ 64"

lemma unat_add_of_nat: "unat (x :: u64) + n < 2 ^ 64 \<Longrightarrow> unat (x + of_nat n) = unat x + n"
  by (simp add: unat_word_ariths unat_of_nat_small)

lemmas state_defs = track_def tracker_defs live_def pending_def

lemma cache_ok_new: "cache_ok h (NewCache mx now)" "live h (NewCache mx now) = (\<lambda>_. Map.empty)" "pending h (NewCache mx now) = (\<lambda>_. Map.empty)"
  by (simp_all add: cache_ok_def NewCache_def newCacheTracker_def live_def pending_def)

text \<open>A write of \<open>n\<close> bytes in all, into the live store.\<close>

lemma cache_ok_grow:
  assumes "cache_ok h c" "room c n" "ring_wf h r" "ring_bytes h r \<le> ring_bytes h (store c) + n"
    "snapshot c' = snapshot c" "snapshotting c' = snapshotting c" "store c' = r"
    "cacheSize (ctracker c') = cacheSize (ctracker c) + of_nat n" "snapshotSize (ctracker c') = snapshotSize (ctracker c)"
  shows "cache_ok h c'"
proof -
  have "unat (cacheSize (ctracker c')) = unat (cacheSize (ctracker c)) + n"
    using assms(2,8) unat_add_of_nat [of "cacheSize (ctracker c)" n] by (simp add: room_def)
  then show ?thesis using assms by (simp add: cache_ok_def room_def split: option.splits)
qed

lemma cache_ok_same:
  assumes "cache_ok h c" "snapshot c' = snapshot c" "snapshotting c' = snapshotting c" "store c' = store c"
    "cacheSize (ctracker c') = cacheSize (ctracker c)" "snapshotSize (ctracker c') = snapshotSize (ctracker c)"
  shows "cache_ok h c'"
  using assms by (simp add: cache_ok_def split: option.splits)

text \<open>What only \<^verbatim>\<open>Snapshot\<close> and \<^verbatim>\<open>ClearSnapshot\<close> change: the counter of the snapshot and whether it is in progress.\<close>

definition same_flags :: "cache \<Rightarrow> cache \<Rightarrow> bool" where
  "same_flags c c' \<longleftrightarrow> snapshotting c' = snapshotting c \<and> snapshotSize (ctracker c') = snapshotSize (ctracker c)"

lemma cache_Write_ok:
  assumes c: "cache_ok h c" and k: "key \<noteq> []" "values \<noteq> []" "room c (vals_Size Value_Size values + length key)"
    and w: "cache_Write h key values c = (err, c')"
  shows "cache_ok h c'" "pending h c' = pending h c"
    "live h c' = (if err = None then (live h c)(key := live h c key ++ vmap UnixNano values) else live h c)"
    "same_flags c c'"
    "case err of
      None \<Rightarrow> admits (kinds h (store c) key) values \<and> kinds h (store c') = (kinds h (store c))(key \<mapsto> kind_after (kinds h (store c) key) values)
    | Some e \<Rightarrow> kinds h (store c') = kinds h (store c) \<and>
        (e = ErrFieldTypeConflict \<and> \<not> admits (kinds h (store c) key) values \<or> (\<exists>n l. e = CacheMemorySizeLimitExceeded n l))"
proof -
  have r: "ring_wf h (store c)" using c by (simp add: cache_ok_def)
  let ?n = "cache_Size c + of_nat (vals_Size Value_Size values)"
  have "cache_ok h c' \<and> pending h c' = pending h c \<and>
    live h c' = (if err = None then (live h c)(key := live h c key ++ vmap UnixNano values) else live h c) \<and> same_flags c c' \<and>
    (case err of
      None \<Rightarrow> admits (kinds h (store c) key) values \<and> kinds h (store c') = (kinds h (store c))(key \<mapsto> kind_after (kinds h (store c) key) values)
    | Some e \<Rightarrow> kinds h (store c') = kinds h (store c) \<and>
        (e = ErrFieldTypeConflict \<and> \<not> admits (kinds h (store c) key) values \<or> (\<exists>n l. e = CacheMemorySizeLimitExceeded n l)))"
  proof (cases "maxSize c > 0 \<and> ?n > maxSize c")
    case True
    with w have "c' = track IncWritesErr c" "err = Some (CacheMemorySizeLimitExceeded ?n (maxSize c))" by (auto simp: cache_Write_def Let_def)
    then show ?thesis using cache_ok_same [OF c, of c'] by (auto simp: state_defs same_flags_def)
  next
    case False
    obtain res r' where wr: "ring_write h key values (store c) = (res, r')" by force
    show ?thesis
    proof (cases res)
      case (Inl e)
      with w False wr have "c' = track IncWritesErr (c\<lparr>store := r'\<rparr>)" "err = Some e" by (auto simp: cache_Write_def Let_def)
      moreover have "r' = store c" using ring_wf_write_error [OF r] wr Inl by simp
      moreover note ring_write_admits(1) [OF r k(2) wr [unfolded Inl]]
      ultimately show ?thesis using cache_ok_same [OF c, of c'] by (auto simp: state_defs same_flags_def)
    next
      case (Inr new)
      let ?a = "vals_Size Value_Size values + (if new then length key else 0)"
      have a: "of_nat ?a = (if new then of_nat (vals_Size Value_Size values) + of_nat (length key) else of_nat (vals_Size Value_Size values))"
        by simp
      from w False wr Inr have c': "c' = track (AddMemBytes (of_nat ?a)) (track (IncCacheSize (of_nat ?a)) (c\<lparr>store := r'\<rparr>))" "err = None"
        unfolding a by (auto simp: cache_Write_def Let_def)
      note rw = ring_wf_write [OF r k(1,2) wr [unfolded Inr]]
      have "room c ?a" using k(3) by (simp add: room_def)
      then have "cache_ok h c'"
        using rw by (intro cache_ok_grow [OF c, of ?a r']) (simp_all add: c' state_defs)
      then show ?thesis using rw c' ring_write_admits(2) [OF r k(2) wr [unfolded Inr]] by (simp add: state_defs same_flags_def)
    qed
  qed
  then show "cache_ok h c'" "pending h c' = pending h c"
    "live h c' = (if err = None then (live h c)(key := live h c key ++ vmap UnixNano values) else live h c)"
    "same_flags c c'"
    "case err of
      None \<Rightarrow> admits (kinds h (store c) key) values \<and> kinds h (store c') = (kinds h (store c))(key \<mapsto> kind_after (kinds h (store c) key) values)
    | Some e \<Rightarrow> kinds h (store c') = kinds h (store c) \<and>
        (e = ErrFieldTypeConflict \<and> \<not> admits (kinds h (store c) key) values \<or> (\<exists>n l. e = CacheMemorySizeLimitExceeded n l))" by blast+
qed

section \<open>Writes of several keys\<close>

abbreviation values_size :: "(series_key \<times> Value list) list \<Rightarrow> nat" where
  "values_size kvs \<equiv> sum_list (map (\<lambda>(k, vs). vals_Size Value_Size vs) kvs)"

abbreviation keys_size :: "(series_key \<times> Value list) list \<Rightarrow> nat" where
  "keys_size kvs \<equiv> sum_list (map (\<lambda>(k, vs). length k) kvs)"

definition batch_ok :: "(series_key \<times> Value list) list \<Rightarrow> bool" where
  "batch_ok kvs \<longleftrightarrow> distinct (map fst kvs) \<and> list_all (\<lambda>(k, vs). k \<noteq> [] \<and> vs \<noteq> []) kvs"

text \<open>The contents and the types after the keys whose values are admitted were written and the others were refused.\<close>

definition overlay :: "(series_key \<times> Value list) list \<Rightarrow> (series_key \<rightharpoonup> u8) \<Rightarrow> readings \<Rightarrow> readings" where
  "overlay kvs t m = (\<lambda>k. case map_of kvs k of None \<Rightarrow> m k | Some vs \<Rightarrow> if admits (t k) vs then m k ++ vmap UnixNano vs else m k)"

definition overlay_kinds :: "(series_key \<times> Value list) list \<Rightarrow> (series_key \<rightharpoonup> u8) \<Rightarrow> series_key \<rightharpoonup> u8" where
  "overlay_kinds kvs t = (\<lambda>k. case map_of kvs k of None \<Rightarrow> t k | Some vs \<Rightarrow> if admits (t k) vs then Some (kind_after (t k) vs) else t k)"

abbreviation admitted :: "(series_key \<rightharpoonup> u8) \<Rightarrow> (series_key \<times> Value list) list \<Rightarrow> bool" where
  "admitted t kvs \<equiv> list_all (\<lambda>(k, vs). admits (t k) vs) kvs"

lemma admitted_upd: "map_of kvs k = None \<Longrightarrow> admitted (t(k := x)) kvs = admitted t kvs"
  by (induction kvs) (auto split: if_splits)

lemma overlay_Cons:
  assumes "map_of kvs k = None"
  shows "\<not> admits (t k) vs \<Longrightarrow> overlay ((k, vs) # kvs) t m = overlay kvs t m \<and> overlay_kinds ((k, vs) # kvs) t = overlay_kinds kvs t"
    "admits (t k) vs \<Longrightarrow> overlay ((k, vs) # kvs) t m = overlay kvs (t(k := x)) (m(k := m k ++ vmap UnixNano vs)) \<and>
      overlay_kinds ((k, vs) # kvs) t = overlay_kinds kvs (t(k \<mapsto> kind_after (t k) vs))"
  using assms by (auto simp: overlay_def overlay_kinds_def fun_eq_iff split: option.split)

lemma write_loop_ok:
  assumes "ring_wf h r" "batch_ok kvs" "values_size kvs \<le> a" "write_loop h kvs r (of_nat a) werr = (r', added, werr')"
  shows "\<exists>a'. ring_wf h r' \<and> contents h r' = overlay kvs (kinds h r) (contents h r) \<and> kinds h r' = overlay_kinds kvs (kinds h r) \<and>
    added = of_nat a' \<and> a' \<le> a + keys_size kvs \<and> ring_bytes h r' + a = ring_bytes h r + values_size kvs + a' \<and>
    werr' = (if admitted (kinds h r) kvs then werr else Some ErrFieldTypeConflict)"
  using assms
proof (induction kvs arbitrary: r a werr)
  case Nil
  then show ?case by (auto simp: overlay_def overlay_kinds_def)
next
  case (Cons kv kvs)
  obtain k vs where kv: "kv = (k, vs)" by force
  have b: "k \<noteq> []" "vs \<noteq> []" "batch_ok kvs" "map_of kvs k = None" using Cons.prems(2) by (auto simp: kv batch_ok_def map_of_eq_None_iff)
  let ?n = "vals_Size Value_Size vs"
  obtain res r1 where w: "ring_write h k vs r = (res, r1)" by force
  show ?case
  proof (cases res)
    case (Inl err)
    have r1: "r1 = r" using ring_wf_write_error [OF Cons.prems(1)] w Inl by simp
    note ad = ring_write_admits(1) [OF Cons.prems(1) b(2) w [unfolded Inl]]
    have "write_loop h kvs r (of_nat (a - ?n)) (Some err) = (r', added, werr')"
      using Cons.prems(3,4) w Inl r1 by (simp add: kv of_nat_diff)
    moreover have "values_size kvs \<le> a - ?n" using Cons.prems(3) by (simp add: kv)
    ultimately obtain a' where i: "ring_wf h r'" "contents h r' = overlay kvs (kinds h r) (contents h r)"
      "kinds h r' = overlay_kinds kvs (kinds h r)" "added = of_nat a'" "a' \<le> a - ?n + keys_size kvs"
      "ring_bytes h r' + (a - ?n) = ring_bytes h r + values_size kvs + a'" "werr' = Some ErrFieldTypeConflict"
      using Cons.IH [OF Cons.prems(1) b(3)] ad by (metis (no_types, lifting))
    then show ?thesis using ad Cons.prems(3) overlay_Cons(1) [OF b(4), of "kinds h r" vs]
      by (intro exI [of _ a']) (simp add: kv, arith)
  next
    case (Inr new)
    let ?l = "if new then length k else 0"
    note rw = ring_wf_write [OF Cons.prems(1) b(1,2) w [unfolded Inr]]
    note ad = ring_write_admits(2) [OF Cons.prems(1) b(2) w [unfolded Inr]]
    have "write_loop h kvs r1 (of_nat (a + ?l)) werr = (r', added, werr')"
      using Cons.prems(4) w Inr by (simp add: kv split: if_splits)
    moreover have "values_size kvs \<le> a + ?l" using Cons.prems(3) by (simp add: kv)
    ultimately obtain a' where i: "ring_wf h r'" "contents h r' = overlay kvs (kinds h r1) (contents h r1)"
      "kinds h r' = overlay_kinds kvs (kinds h r1)" "added = of_nat a'" "a' \<le> a + ?l + keys_size kvs"
      "ring_bytes h r' + (a + ?l) = ring_bytes h r1 + values_size kvs + a'"
      "werr' = (if admitted (kinds h r1) kvs then werr else Some ErrFieldTypeConflict)"
      using Cons.IH [OF rw(1) b(3)] by blast
    then show ?thesis using ad rw(2,3) overlay_Cons(2) [OF b(4), of "kinds h r" vs] admitted_upd [OF b(4)]
      by (intro exI [of _ a']) (auto simp: kv split: if_splits)
  qed
qed

lemma added_size: "foldl (\<lambda>s (k, v). s + of_nat (vals_Size Value_Size v)) (x :: u64) kvs = x + of_nat (values_size kvs)"
  by (induction kvs arbitrary: x) (auto simp: add.assoc)

lemma cache_WriteMulti_ok:
  assumes c: "cache_ok h c" and b: "batch_ok kvs" "room c (values_size kvs + keys_size kvs)"
    and w: "cache_WriteMulti h now kvs c = (err, c')"
  shows "cache_ok h c' \<and> pending h c' = pending h c \<and> same_flags c c' \<and>
    (live h c' = overlay kvs (kinds h (store c)) (live h c) \<and> kinds h (store c') = overlay_kinds kvs (kinds h (store c)) \<and>
       err = (if admitted (kinds h (store c)) kvs then None else Some ErrFieldTypeConflict) \<or>
     live h c' = live h c \<and> kinds h (store c') = kinds h (store c) \<and> (\<exists>n l. err = Some (CacheMemorySizeLimitExceeded n l)))"
proof -
  have r: "ring_wf h (store c)" using c by (simp add: cache_ok_def)
  let ?n = "cache_Size c + of_nat (values_size kvs)"
  show ?thesis
  proof (cases "maxSize c > 0 \<and> ?n > maxSize c")
    case True
    with w have "c' = track IncWritesErr c" "err = Some (CacheMemorySizeLimitExceeded ?n (maxSize c))"
      by (auto simp: cache_WriteMulti_def Let_def added_size)
    then show ?thesis using cache_ok_same [OF c, of c'] by (auto simp: state_defs same_flags_def)
  next
    case False
    obtain r' added werr where l: "write_loop h kvs (store c) (of_nat (values_size kvs)) None = (r', added, werr)" by (metis prod_cases3)
    from write_loop_ok [OF r b(1) order_refl l] obtain a' where i: "ring_wf h r'"
      "contents h r' = overlay kvs (kinds h (store c)) (contents h (store c))" "added = of_nat a'" "a' \<le> values_size kvs + keys_size kvs" "ring_bytes h r' = ring_bytes h (store c) + a'"
      "werr = (if admitted (kinds h (store c)) kvs then None else Some ErrFieldTypeConflict)"
      "kinds h r' = overlay_kinds kvs (kinds h (store c))" by auto
    have f: "store c' = r'" "snapshot c' = snapshot c" "snapshotting c' = snapshotting c"
      "cacheSize (ctracker c') = cacheSize (ctracker c) + of_nat a'" "snapshotSize (ctracker c') = snapshotSize (ctracker c)" "err = werr"
      using w False l i(3) by (auto simp: cache_WriteMulti_def Let_def added_size state_defs split: if_splits)
    have "room c a'" using b(2) i(4) by (simp add: room_def)
    then have "cache_ok h c'" by (rule cache_ok_grow [OF c _ i(1)]) (simp_all add: f i(5))
    then show ?thesis using f i by (auto simp: live_def pending_def same_flags_def)
  qed
qed

section \<open>Snapshots, reads and deletions\<close>

lemma cache_Snapshot_ok:
  assumes c: "cache_ok h c" and s: "cache_Snapshot now c = (err, c')"
  shows "cache_ok h c' \<and>
    (if snapshotting c then err = Some ErrSnapshotInProgress \<and> c' = c
     else err = None \<and> snapshotting c' \<and>
       (if snapshotSize (ctracker c) > 0
        then pending h c' = pending h c \<and> store c' = store c \<and> snapshotSize (ctracker c') = snapshotSize (ctracker c)
        else pending h c = (\<lambda>_. Map.empty) \<and> pending h c' = live h c \<and> live h c' = (\<lambda>_. Map.empty) \<and>
          kinds h (store c') = Map.empty \<and> snapshotSize (ctracker c') = cacheSize (ctracker c)))"
proof (cases "snapshotting c")
  case True
  then show ?thesis using s c by (auto simp: cache_Snapshot_def)
next
  case False
  define t where "t = (case snapshot c of None \<Rightarrow> \<lparr>sc_store = newRing, sc_tracker = newCacheTracker\<rparr> | Some s \<Rightarrow> s)"
  have t: "ring_wf h (sc_store t)" "cacheSize (sc_tracker t) = 0" "snapshotSize (sc_tracker t) = snapshotSize (ctracker c)"
    "ring_bytes h (sc_store t) \<le> unat (snapshotSize (ctracker c))" "contents h (sc_store t) = pending h c"
    using c by (auto simp: t_def cache_ok_def newCacheTracker_def pending_def split: option.splits)
  show ?thesis
  proof (cases "snapshotSize (ctracker c) > 0")
    case True
    then have "err = None" "c' = track IncSnapshotsActive (c\<lparr>snapshotting := True\<rparr>)\<lparr>snapshot := Some t\<rparr>"
      using s False t by (auto simp: cache_Snapshot_def t_def [symmetric] snap_Size_def Let_def track_def)
    then show ?thesis using c t True False by (simp add: cache_ok_def state_defs)
  next
    case z: False
    then have z: "snapshotSize (ctracker c) = 0" by (simp add: word_gt_0)
    from ring_wf_empty [OF t(1)] t(4,5) z have e: "pending h c = (\<lambda>_. Map.empty)" by simp
    have f: "err = None" "snapshotting c'" "store c' = ring_reset (sc_store t)" "cacheSize (ctracker c') = 0"
      "snapshotSize (ctracker c') = cacheSize (ctracker c)"
      "\<exists>s'. snapshot c' = Some s' \<and> sc_store s' = store c \<and> cacheSize (sc_tracker s') = 0 \<and> snapshotSize (sc_tracker s') = cacheSize (ctracker c)"
      using s False t(2,3) z by (auto simp: cache_Snapshot_def t_def [symmetric] snap_Size_def cache_Size_def Let_def state_defs)
    then show ?thesis using c t e z False by (auto simp: cache_ok_def live_def pending_def)
  qed
qed

lemma cache_ClearSnapshot_ok:
  assumes "cache_ok h c" "cache_ClearSnapshot success c = Inr c'"
  shows "cache_ok h c' \<and> \<not> snapshotting c' \<and> store c' = store c \<and> pending h c' = (if success then (\<lambda>_. Map.empty) else pending h c) \<and>
    snapshotSize (ctracker c') = (if success then 0 else snapshotSize (ctracker c))"
  using assms by (auto simp: cache_ClearSnapshot_def cache_ok_def state_defs newCacheTracker_def Let_def split: option.splits if_splits)

lemma cache_Deduplicate_ok:
  assumes "cache_ok h c"
  shows "cache_ok h (cache_Deduplicate c)" "live h (cache_Deduplicate c) = live h c" "pending h (cache_Deduplicate c) = pending h c"
    "cache_ok h (snap_Deduplicate c)" "live h (snap_Deduplicate c) = live h c" "pending h (snap_Deduplicate c) = pending h c"
    "kinds h (store (cache_Deduplicate c)) = kinds h (store c)" "kinds h (store (snap_Deduplicate c)) = kinds h (store c)"
    "same_flags c (cache_Deduplicate c)" "same_flags c (snap_Deduplicate c)"
  using assms ring_wf_deduplicate [of h]
  by (auto simp: cache_ok_def cache_Deduplicate_def snap_Deduplicate_def live_def pending_def same_flags_def split: option.splits intro: order_trans)

lemma vals_Deduplicate_Nil [simp]: "vals_Deduplicate tm [] = []"
  by (simp add: vals_Deduplicate_def)

lemma entry_count_ok: "entry_ok e \<Longrightarrow> entry_count e = int (length (en_values e))"
  by (simp add: entry_ok_def entry_count_def)

lemma cache_Values_ok:
  assumes c: "cache_ok h c" and v: "cache_Values h key c = (vs, c')"
  shows "cache_ok h c' \<and> live h c' = live h c \<and> pending h c' = pending h c \<and>
    kinds h (store c') = kinds h (store c) \<and> same_flags c c' \<and>
    ascending (map UnixNano vs) \<and> vmap UnixNano vs = pending h c key ++ live h c key"
proof -
  define e where "e = ring_entry h key (store c)"
  define se where "se = (case snapshot c of None \<Rightarrow> None | Some s \<Rightarrow> ring_entry h key (sc_store s))"
  define c1 where "c1 = c\<lparr>store := dedup_in h key (store c),
    snapshot := map_option (\<lambda>s. s\<lparr>sc_store := dedup_in h key (sc_store s)\<rparr>) (snapshot c)\<rparr>"
  have c1: "cache_ok h c1" "live h c1 = live h c" "pending h c1 = pending h c" "kinds h (store c1) = kinds h (store c)" "same_flags c c1"
    using c ring_wf_dedup_in(1,2,4) [of h]
    by (auto simp: c1_def cache_ok_def live_def pending_def same_flags_def split: option.splits intro: order_trans [OF ring_wf_dedup_in(3)])
  let ?l = "case e of None \<Rightarrow> [] | Some e \<Rightarrow> vals_Deduplicate UnixNano (en_values e)"
  let ?p = "case se of None \<Rightarrow> [] | Some e \<Rightarrow> vals_Deduplicate UnixNano (en_values e)"
  have m: "vmap UnixNano (?p @ ?l) = pending h c key ++ live h c key"
    by (auto simp: e_def se_def live_def pending_def contents_def vmap_Deduplicate split: option.split)
  have ok: "e = Some x \<Longrightarrow> entry_ok x" "se = Some x \<Longrightarrow> entry_ok x" for x
    using c by (auto simp: e_def se_def cache_ok_def ring_wf_def split: option.splits)
  have "vs = vals_Deduplicate UnixNano (?p @ ?l) \<and> (c' = c \<or> c' = c1)"
    using v ok entry_deduplicate_spec(1)
    unfolding cache_Values_def Let_def e_def [symmetric] se_def [symmetric] c1_def [symmetric]
    by (cases e; cases se) (auto simp: entry_count_ok vals_Deduplicate_Nil_iff add_nonneg_eq_0_iff split: if_splits)
  moreover have "same_flags c c" by (simp add: same_flags_def)
  ultimately show ?thesis using c c1 m vals_Deduplicate_ascending by (auto simp: vmap_Deduplicate simp del: vmap_simps)
qed

lemma word_sub_idiom: "x + NOT (b - 1) = x - (b :: u64)"
  by (simp add: minus_eq_not_minus_1 [symmetric])

lemma cache_DeleteBucketRange_ok:
  assumes c: "cache_ok h c"
  shows "cache_ok h (cache_DeleteBucketRange h name mn mx pred c)"
    "live h (cache_DeleteBucketRange h name mn mx pred c) = erase name mn mx pred (live h c)"
    "pending h (cache_DeleteBucketRange h name mn mx pred c) = pending h c"
    "kinds h (store (cache_DeleteBucketRange h name mn mx pred c)) =
      (\<lambda>k. if erase name mn mx pred (live h c) k = Map.empty then None else kinds h (store c) k)"
    "same_flags c (cache_DeleteBucketRange h name mn mx pred c)"
proof -
  let ?c = "cache_DeleteBucketRange h name mn mx pred c"
  have "ring_wf h (store c)" using c by (simp add: cache_ok_def)
  then obtain r1 D t r2 gone where d: "ring_applySerial (delete_entry name mn mx pred) (store c) ([], 0) = (None, r1, D, t)"
    "r2 = foldl (\<lambda>r k. ring_remove h k r) r1 D" "foldl (\<lambda>t k. t + of_nat (length k)) t D = of_nat gone"
    "ring_wf h r2" "contents h r2 = erase name mn mx pred (contents h (store c))" "ring_bytes h r2 + gone = ring_bytes h (store c)"
    "kinds h r2 = (\<lambda>k. if contents h r2 k = Map.empty then None else kinds h (store c) k)"
    by (rule ring_wf_delete)
  have f: "store ?c = r2" "snapshot ?c = snapshot c" "snapshotting ?c = snapshotting c"
    "cacheSize (ctracker ?c) = cacheSize (ctracker c) - of_nat gone" "snapshotSize (ctracker ?c) = snapshotSize (ctracker c)"
    by (simp_all add: cache_DeleteBucketRange_def d(1-3) state_defs word_sub_idiom Let_def)
  have g: "gone \<le> unat (cacheSize (ctracker c))" "gone < 2 ^ 64"
    using c d(6) unat_u64_less [of "cacheSize (ctracker c)"] by (auto simp: cache_ok_def)
  then have "unat (cacheSize (ctracker ?c)) = unat (cacheSize (ctracker c)) - gone"
    by (simp add: f(4) unat_sub word_le_nat_alt unat_of_nat_small)
  then show "cache_ok h ?c" using c d(4,6) f by (auto simp: cache_ok_def split: option.splits)
  show "live h ?c = erase name mn mx pred (live h c)" "pending h ?c = pending h c" "same_flags c ?c"
    using d(5) f by (simp_all add: live_def pending_def same_flags_def)
  show "kinds h (store ?c) = (\<lambda>k. if erase name mn mx pred (live h c) k = Map.empty then None else kinds h (store c) k)"
    using d(5,7) f(1) by (simp add: live_def)
qed

lemma cache_SetMaxSize_ok [simp]:
  "cache_ok h (cache_SetMaxSize n c) = cache_ok h c" "live h (cache_SetMaxSize n c) = live h c" "pending h (cache_SetMaxSize n c) = pending h c"
  "store (cache_SetMaxSize n c) = store c" "same_flags c (cache_SetMaxSize n c)"
  by (simp_all add: cache_SetMaxSize_def cache_ok_def live_def pending_def same_flags_def split: option.split)

section \<open>Steps\<close>

text \<open>
  A call of the cache with its result. Callers never write the empty key or a key without values, and the bytes
  written fit the counters.
\<close>

datatype cache_event =
    Wrote series_key "Value list" "cache_error option"
  | WroteMulti "(series_key \<times> Value list) list" "cache_error option"
  | Snapshotted "cache_error option"
  | Cleared bool
  | Deduplicated
  | SnapshotDeduplicated
  | ReadValues series_key "Value list"
  | Deleted bytes int int "(series_key \<Rightarrow> bool) option"
  | MaxSizeSet u64

inductive cache_step :: "(series_key \<Rightarrow> u64) \<Rightarrow> cache \<Rightarrow> cache_event \<Rightarrow> cache \<Rightarrow> bool" for h where
  step_Write: "cache_Write h key values c = (err, c') \<Longrightarrow> key \<noteq> [] \<Longrightarrow> values \<noteq> [] \<Longrightarrow>
    room c (vals_Size Value_Size values + length key) \<Longrightarrow> cache_step h c (Wrote key values err) c'"
| step_WriteMulti: "cache_WriteMulti h now kvs c = (err, c') \<Longrightarrow> batch_ok kvs \<Longrightarrow>
    room c (values_size kvs + keys_size kvs) \<Longrightarrow> cache_step h c (WroteMulti kvs err) c'"
| step_Snapshot: "cache_Snapshot now c = (err, c') \<Longrightarrow> cache_step h c (Snapshotted err) c'"
| step_Clear: "cache_ClearSnapshot success c = Inr c' \<Longrightarrow> cache_step h c (Cleared success) c'"
| step_Deduplicate: "cache_step h c Deduplicated (cache_Deduplicate c)"
| step_SnapDeduplicate: "cache_step h c SnapshotDeduplicated (snap_Deduplicate c)"
| step_Values: "cache_Values h key c = (vs, c') \<Longrightarrow> cache_step h c (ReadValues key vs) c'"
| step_Delete: "cache_step h c (Deleted name mn mx pred) (cache_DeleteBucketRange h name mn mx pred c)"
| step_SetMaxSize: "cache_step h c (MaxSizeSet n) (cache_SetMaxSize n c)"

inductive_cases cache_stepE: "cache_step h c ev c'"

lemma cache_step_ok: "cache_step h c ev c' \<Longrightarrow> cache_ok h c \<Longrightarrow> cache_ok h c'"
  by (erule cache_stepE)
    (auto simp: cache_Write_ok cache_Deduplicate_ok cache_DeleteBucketRange_ok
      dest: cache_WriteMulti_ok cache_Snapshot_ok cache_ClearSnapshot_ok cache_Values_ok)

section \<open>The abstract cache\<close>

text \<open>
  The readings of the snapshot and of the live store, the type recorded for each live key, whether the
  next snapshot is a retry (the existing one has a size), and whether a snapshot is in progress.
\<close>

record view =
  v_pending :: readings
  v_live :: readings
  v_kind :: "series_key \<rightharpoonup> u8"
  v_retry :: bool
  v_busy :: bool

definition cache_abs :: "(series_key \<Rightarrow> u64) \<Rightarrow> cache \<Rightarrow> view" where
  "cache_abs h c = \<lparr>v_pending = pending h c, v_live = live h c, v_kind = kinds h (store c),
     v_retry = (snapshotSize (ctracker c) > 0), v_busy = snapshotting c\<rparr>"

definition write_view :: "(series_key \<times> Value list) list \<Rightarrow> view \<Rightarrow> view" where
  "write_view kvs v = v\<lparr>v_live := overlay kvs (v_kind v) (v_live v), v_kind := overlay_kinds kvs (v_kind v)\<rparr>"

definition erase_view :: "bytes \<Rightarrow> int \<Rightarrow> int \<Rightarrow> (series_key \<Rightarrow> bool) option \<Rightarrow> view \<Rightarrow> view" where
  "erase_view name mn mx pred v =
     (let l = erase name mn mx pred (v_live v) in v\<lparr>v_live := l, v_kind := (\<lambda>k. if l k = Map.empty then None else v_kind v k)\<rparr>)"

inductive spec_step :: "view \<Rightarrow> cache_event \<Rightarrow> view \<Rightarrow> bool" where
  "admitted (v_kind v) [(k, vs)] \<Longrightarrow> spec_step v (Wrote k vs None) (write_view [(k, vs)] v)"
| "\<not> admitted (v_kind v) [(k, vs)] \<Longrightarrow> spec_step v (Wrote k vs (Some ErrFieldTypeConflict)) v"
| "spec_step v (Wrote k vs (Some (CacheMemorySizeLimitExceeded n l))) v"
| "admitted (v_kind v) kvs \<Longrightarrow> spec_step v (WroteMulti kvs None) (write_view kvs v)"
| "\<not> admitted (v_kind v) kvs \<Longrightarrow> spec_step v (WroteMulti kvs (Some ErrFieldTypeConflict)) (write_view kvs v)"
| "spec_step v (WroteMulti kvs (Some (CacheMemorySizeLimitExceeded n l))) v"
| "v_busy v \<Longrightarrow> spec_step v (Snapshotted (Some ErrSnapshotInProgress)) v"
| "\<not> v_busy v \<Longrightarrow> v_retry v \<Longrightarrow> spec_step v (Snapshotted None) (v\<lparr>v_busy := True\<rparr>)"
| "\<not> v_busy v \<Longrightarrow> \<not> v_retry v \<Longrightarrow> v_pending v = (\<lambda>_. Map.empty) \<Longrightarrow> v_live v \<noteq> (\<lambda>_. Map.empty) \<longrightarrow> sized \<Longrightarrow>
    spec_step v (Snapshotted None)
      \<lparr>v_pending = v_live v, v_live = (\<lambda>_. Map.empty), v_kind = Map.empty, v_retry = sized, v_busy = True\<rparr>"
| "spec_step v (Cleared True) (v\<lparr>v_pending := (\<lambda>_. Map.empty), v_retry := False, v_busy := False\<rparr>)"
| "spec_step v (Cleared False) (v\<lparr>v_busy := False\<rparr>)"
| "spec_step v Deduplicated v"
| "spec_step v SnapshotDeduplicated v"
| "ascending (map UnixNano vs) \<Longrightarrow> vmap UnixNano vs = v_pending v k ++ v_live v k \<Longrightarrow> spec_step v (ReadValues k vs) v"
| "spec_step v (Deleted name mn mx pred) (erase_view name mn mx pred v)"
| "spec_step v (MaxSizeSet n) v"

lemma cache_abs_eq:
  "same_flags c c' \<Longrightarrow> pending h c' = pending h c \<Longrightarrow> cache_abs h c' = (cache_abs h c)\<lparr>v_live := live h c', v_kind := kinds h (store c')\<rparr>"
  by (simp add: cache_abs_def same_flags_def)

lemma cache_abs_same:
  "same_flags c c' \<Longrightarrow> pending h c' = pending h c \<Longrightarrow> live h c' = live h c \<Longrightarrow> kinds h (store c') = kinds h (store c) \<Longrightarrow>
    cache_abs h c' = cache_abs h c"
  by (simp add: cache_abs_def same_flags_def)

lemma overlay_single:
  "overlay [(k, vs)] t m = (if admits (t k) vs then m(k := m k ++ vmap UnixNano vs) else m)"
  "overlay_kinds [(k, vs)] t = (if admits (t k) vs then t(k \<mapsto> kind_after (t k) vs) else t)"
  by (auto simp: overlay_def overlay_kinds_def)

lemma Write_refines:
  assumes "cache_ok h c" "cache_Write h k vs c = (err, c')" "k \<noteq> []" "vs \<noteq> []" "room c (vals_Size Value_Size vs + length k)"
  shows "spec_step (cache_abs h c) (Wrote k vs err) (cache_abs h c')"
proof (cases err)
  case None
  with cache_Write_ok [OF assms(1,3-5,2)] have "admits (v_kind (cache_abs h c) k) vs" "cache_abs h c' = write_view [(k, vs)] (cache_abs h c)"
    using cache_abs_eq [of c c' h] by (simp_all add: write_view_def overlay_single cache_abs_def)
  with None spec_step.intros(1) [of "cache_abs h c" k vs] show ?thesis by simp
next
  case (Some e)
  with cache_Write_ok [OF assms(1,3-5,2)] have s: "cache_abs h c' = cache_abs h c"
    "e = ErrFieldTypeConflict \<and> \<not> admits (v_kind (cache_abs h c) k) vs \<or> (\<exists>n l. e = CacheMemorySizeLimitExceeded n l)"
    using cache_abs_same [of c c' h] by (simp_all add: cache_abs_def)
  then show ?thesis using Some spec_step.intros(2) [of "cache_abs h c" k vs] spec_step.intros(3) by auto
qed

lemma WriteMulti_refines:
  assumes "cache_ok h c" "cache_WriteMulti h now kvs c = (err, c')" "batch_ok kvs" "room c (values_size kvs + keys_size kvs)"
  shows "spec_step (cache_abs h c) (WroteMulti kvs err) (cache_abs h c')"
proof -
  note m = cache_WriteMulti_ok [OF assms(1,3,4,2)]
  have "cache_abs h c' = write_view kvs (cache_abs h c) \<and> err = (if admitted (v_kind (cache_abs h c)) kvs then None else Some ErrFieldTypeConflict) \<or>
    cache_abs h c' = cache_abs h c \<and> (\<exists>n l. err = Some (CacheMemorySizeLimitExceeded n l))"
    using m cache_abs_eq [of c c' h] cache_abs_same [of c c' h] by (auto simp: write_view_def cache_abs_def)
  then show ?thesis using spec_step.intros(4,5) [of "cache_abs h c" kvs] spec_step.intros(6) [of "cache_abs h c" kvs] by (auto split: if_splits)
qed

lemma Snapshot_refines:
  assumes "cache_ok h c" "cache_Snapshot now c = (err, c')"
  shows "spec_step (cache_abs h c) (Snapshotted err) (cache_abs h c')"
proof -
  note m = cache_Snapshot_ok [OF assms]
  consider "snapshotting c" | "\<not> snapshotting c" "snapshotSize (ctracker c) > 0" | "\<not> snapshotting c" "\<not> snapshotSize (ctracker c) > 0" by blast
  then show ?thesis
  proof cases
    case 1
    then show ?thesis using m spec_step.intros(7) [of "cache_abs h c"] by (simp add: cache_abs_def)
  next
    case 2
    then show ?thesis using m spec_step.intros(8) [of "cache_abs h c"] by (simp add: cache_abs_def live_def)
  next
    case 3
    have "live h c \<noteq> (\<lambda>_. Map.empty) \<longrightarrow> 0 < cacheSize (ctracker c)"
      using assms(1) ring_wf_empty [of h "store c"] by (auto simp: cache_ok_def live_def word_gt_0)
    with 3 show ?thesis using m spec_step.intros(9) [of "cache_abs h c" "0 < cacheSize (ctracker c)"] by (simp add: cache_abs_def)
  qed
qed

lemma cache_step_refines:
  assumes "cache_ok h c" "cache_step h c ev c'"
  shows "spec_step (cache_abs h c) ev (cache_abs h c')"
  using assms(2)
proof (cases rule: cache_step.cases)
  case (step_Clear success)
  then show ?thesis
    using cache_ClearSnapshot_ok [OF assms(1)] spec_step.intros(10,11) [of "cache_abs h c"] by (cases success) (auto simp: cache_abs_def live_def)
next
  case (step_Values key vs)
  then show ?thesis
    using cache_Values_ok [OF assms(1)] cache_abs_same [of c c' h] spec_step.intros(14) [of vs "cache_abs h c" key] by (auto simp: cache_abs_def)
next
  case (step_Delete name mn mx pred)
  note d = cache_DeleteBucketRange_ok [OF assms(1), of name mn mx pred]
  have "cache_abs h c' = erase_view name mn mx pred (cache_abs h c)"
    using cache_abs_eq [OF d(5,3)] d(2,4) by (simp add: step_Delete(2) erase_view_def cache_abs_def Let_def cong: if_cong)
  then show ?thesis using spec_step.intros(15) step_Delete(1) by metis
next
  case step_Deduplicate
  note d = cache_Deduplicate_ok [OF assms(1)]
  have "cache_abs h c' = cache_abs h c" unfolding step_Deduplicate(2) by (rule cache_abs_same) (rule d)+
  then show ?thesis using step_Deduplicate(1) spec_step.intros(12) by simp
next
  case step_SnapDeduplicate
  note d = cache_Deduplicate_ok [OF assms(1)]
  have "cache_abs h c' = cache_abs h c" unfolding step_SnapDeduplicate(2) by (rule cache_abs_same) (rule d)+
  then show ?thesis using step_SnapDeduplicate(1) spec_step.intros(13) by simp
next
  case (step_SetMaxSize n)
  have "cache_abs h c' = cache_abs h c" unfolding step_SetMaxSize(2) by (rule cache_abs_same) simp_all
  then show ?thesis using step_SetMaxSize(1) spec_step.intros(16) by simp
qed (use Write_refines [OF assms(1)] WriteMulti_refines [OF assms(1)] Snapshot_refines [OF assms(1)] in auto)

section \<open>Runs\<close>

text \<open>
  A run of the cache, with the contents of the snapshots that were cleared after a success: what has been
  written to files.
\<close>

inductive cache_run :: "(series_key \<Rightarrow> u64) \<Rightarrow> cache_event list \<Rightarrow> readings \<Rightarrow> cache \<Rightarrow> bool" for h where
  run_new: "cache_run h [] (\<lambda>_. Map.empty) (NewCache mx now)"
| run_step: "cache_run h evs F c \<Longrightarrow> cache_step h c ev c' \<Longrightarrow>
    cache_run h (evs @ [ev]) (if ev = Cleared True then (\<lambda>k. F k ++ pending h c k) else F) c'"

lemma cache_run_ok: "cache_run h evs F c \<Longrightarrow> cache_ok h c"
  by (induction rule: cache_run.induct) (auto simp: cache_ok_new cache_step_ok)

text \<open>The values of a key a call acknowledged, and the calls after which it is known what happened to a key.\<close>

definition acks :: "series_key \<Rightarrow> cache_event \<Rightarrow> Value list" where
  "acks k ev =
     (case ev of
        Wrote key vs None \<Rightarrow> if key = k then vs else []
      | WroteMulti kvs None \<Rightarrow> (case map_of kvs k of None \<Rightarrow> [] | Some vs \<Rightarrow> vs)
      | _ \<Rightarrow> [])"

definition definite :: "series_key \<Rightarrow> cache_event \<Rightarrow> bool" where
  "definite k ev =
     (case ev of
        WroteMulti kvs (Some err) \<Rightarrow> k \<notin> fst ` set kvs
      | Deleted name mn mx pred \<Rightarrow> \<not> hit name pred k
      | _ \<Rightarrow> True)"

lemma map_of_key: "map_of kvs k = Some v \<Longrightarrow> k \<in> fst ` set kvs"
  by (force dest: map_of_SomeD)

lemma admitted_key: "admitted t kvs \<Longrightarrow> map_of kvs k = Some vs \<Longrightarrow> admits (t k) vs"
  by (auto simp: list_all_iff dest: map_of_SomeD)

lemma spec_step_acks:
  assumes "spec_step v ev v'" "definite k ev"
  shows "(if ev = Cleared True then v_pending v k else Map.empty) ++ (v_pending v' k ++ v_live v' k) =
    v_pending v k ++ v_live v k ++ vmap UnixNano (acks k ev)"
  using assms
  by cases (auto simp: acks_def definite_def write_view_def overlay_def erase_view_def erase_def Let_def
      dest: map_of_key admitted_key split: option.splits)

lemma cache_run_acks:
  assumes "cache_run h evs F c" "list_all (definite k) evs"
  shows "F k ++ (pending h c k ++ live h c k) = vmap UnixNano (concat (map (acks k) evs))"
  using assms
proof (induction rule: cache_run.induct)
  case (run_new mx now)
  then show ?case by (simp add: cache_ok_new)
next
  case (run_step evs F c ev c')
  have "spec_step (cache_abs h c) ev (cache_abs h c')" by (rule cache_step_refines [OF cache_run_ok]) (rule run_step)+
  from spec_step_acks [OF this, of k] run_step.prems
  have e: "(if ev = Cleared True then pending h c k else Map.empty) ++ (pending h c' k ++ live h c' k) =
    pending h c k ++ live h c k ++ vmap UnixNano (acks k ev)" by (simp add: cache_abs_def cong: if_cong)
  have "(if ev = Cleared True then (\<lambda>k. F k ++ pending h c k) else F) k ++ (pending h c' k ++ live h c' k) =
    F k ++ ((if ev = Cleared True then pending h c k else Map.empty) ++ (pending h c' k ++ live h c' k))" by simp
  also have "\<dots> = (F k ++ (pending h c k ++ live h c k)) ++ vmap UnixNano (acks k ev)" unfolding e by simp
  finally show ?case using run_step by simp
qed

section \<open>Flushing\<close>




lemma Clear_total:
  assumes "cache_ok h c" "snapshot c \<noteq> None"
  obtains c' where "cache_ClearSnapshot success c = Inr c'" "snapshot c' \<noteq> None"
  using assms by (cases "snapshot c"; cases success) (auto simp: cache_ClearSnapshot_def state_defs Let_def)

text \<open>A step of the run, and what it does to the readings in files.\<close>

abbreviation readings_of :: "(series_key \<Rightarrow> u64) \<Rightarrow> readings \<Rightarrow> cache \<Rightarrow> readings" where
  "readings_of h F c \<equiv> (\<lambda>k. F k ++ (pending h c k ++ live h c k))"

lemma Clear_run:
  assumes "cache_run h evs F c" "snapshot c \<noteq> None"
  obtains c' F' where "cache_ClearSnapshot success c = Inr c'" "snapshot c' \<noteq> None" "cache_run h (evs @ [Cleared success]) F' c'"
    "readings_of h F' c' = readings_of h F c" "\<not> snapshotting c'" "store c' = store c"
    "cacheSize (ctracker c') = cacheSize (ctracker c)"
    "success \<Longrightarrow> pending h c' = (\<lambda>_. Map.empty) \<and> snapshotSize (ctracker c') = 0"
proof -
  obtain c' where c': "cache_ClearSnapshot success c = Inr c'" "snapshot c' \<noteq> None"
    by (rule Clear_total [OF cache_run_ok [OF assms(1)] assms(2)])
  note k = cache_ClearSnapshot_ok [OF cache_run_ok [OF assms(1)] c'(1)]
  have z: "cacheSize (ctracker c') = cacheSize (ctracker c)"
    using c'(1) by (auto simp: cache_ClearSnapshot_def state_defs Let_def split: option.splits if_splits)
  show thesis
    by (rule that [OF c' run_step [OF assms(1) step_Clear [OF c'(1)]]]) (use k z in \<open>cases success; simp add: live_def\<close>)+
qed

lemma Snapshot_run:
  assumes "cache_run h evs F c" "\<not> snapshotting c"
  obtains c1 s where "cache_Snapshot now c = (None, c1)" "snapshot c1 = Some s" "cache_run h (evs @ [Snapshotted None]) F c1"
    "readings_of h F c1 = readings_of h F c" "snap_Size s = snapshotSize (ctracker c1)"
    "snapshotSize (ctracker c) = 0 \<Longrightarrow> live h c1 = (\<lambda>_. Map.empty) \<and> cacheSize (ctracker c1) = 0"
proof -
  obtain err c1 where t: "cache_Snapshot now c = (err, c1)" by force
  note k = cache_Snapshot_ok [OF cache_run_ok [OF assms(1)] t]
  have e: "err = None" using k assms(2) by simp
  obtain s where s: "snapshot c1 = Some s" using k assms(2) by (cases "snapshot c1") (auto simp: cache_ok_def)
  have z: "snapshotSize (ctracker c) = 0 \<Longrightarrow> cacheSize (ctracker c1) = 0"
    using t assms(2) cache_run_ok [OF assms(1)]
    by (auto simp: cache_Snapshot_def cache_ok_def snap_Size_def newCacheTracker_def state_defs Let_def split: option.splits if_splits)
  have r: "readings_of h F c1 = readings_of h F c" using k assms(2) by (simp add: live_def split: if_splits)
  have "cache_run h (evs @ [Snapshotted None]) F c1" using run_step [OF assms(1) step_Snapshot [OF t]] e by simp
  from that [OF t [unfolded e] s this r] show thesis
    using k s z assms(2) by (auto simp: cache_ok_def snap_Size_def)
qed



text \<open>A small run: one write into a new cache.\<close>

lemma sample_run:
  assumes "fst (cache_Write (\<lambda>_. 0) [7] vs (NewCache 100 0)) = None" "vs \<noteq> []" "vals_Size Value_Size vs < 100"
  obtains c where "cache_run (\<lambda>_. 0) [Wrote [7] vs None] (\<lambda>_. Map.empty) c" "\<not> snapshotting c"
    "pending (\<lambda>_. 0) c = (\<lambda>_. Map.empty)" "live (\<lambda>_. 0) c = (\<lambda>_. Map.empty)([7] := vmap UnixNano vs)"
    "c = snd (cache_Write (\<lambda>_. 0) [7] vs (NewCache 100 0))" "snapshotSize (ctracker c) = 0"
proof -
  let ?c = "NewCache 100 0" and ?h = "\<lambda>_ :: series_key. 0 :: u64"
  obtain c where w: "cache_Write ?h [7] vs ?c = (None, c)" using assms(1) by (metis prod.collapse)
  have m: "room ?c (vals_Size Value_Size vs + length [7 :: u8])" using assms(3) by (simp add: room_def NewCache_def newCacheTracker_def)
  from run_step [OF run_new step_Write [OF w _ assms(2) m]] have r: "cache_run ?h [Wrote [7] vs None] (\<lambda>_. Map.empty) c" by simp
  note k = cache_Write_ok [OF cache_ok_new(1) _ assms(2) m w]
  have ns: "\<not> snapshotting ?c" "snapshotSize (ctracker ?c) = 0" by (simp_all add: NewCache_def newCacheTracker_def)
  show thesis
    by (rule that [OF r]) (use k w ns in \<open>auto simp: cache_ok_new same_flags_def\<close>)
qed

text \<open>
  C3: the invariant of the cache. After any sequence of calls whose keys and values are not empty, whose batches name no key twice
  and whose writes fit the 64-bit counters, the live store and the snapshot are maps whose entries have values and count
  them; the values of an entry with a recorded type all have that type (unsigned values have none, and an entry that starts
  with them is not covered). The bytes the stores hold never exceed the counters that
  admission control reads, no deletion or snapshot makes those counters wrap around, and a snapshot in progress exists.
\<close>

theorem cache_invariant:
  assumes "cache_run h evs F c"
  shows "cache_ok h c"
  by (rule cache_run_ok [OF assms])

theorem cache_invariant_witness:
  "\<exists>F c. cache_run (\<lambda>_. 0) [Wrote [7] [FloatValue 3 9] None, Snapshotted None, Cleared True] F c \<and> cache_ok (\<lambda>_. 0) c"
proof -
  have w: "fst (cache_Write (\<lambda>_. 0) [7] [FloatValue 3 9] (NewCache 100 0)) = None" by code_simp
  obtain c where c: "cache_run (\<lambda>_. 0) [Wrote [7] [FloatValue 3 9] None] (\<lambda>_. Map.empty) c" "\<not> snapshotting c"
    by (rule sample_run [OF w]) (simp_all add: vals_Size_sum)
  obtain c1 s where c1: "snapshot c1 = Some s" "cache_run (\<lambda>_. 0) ([Wrote [7] [FloatValue 3 9] None] @ [Snapshotted None]) (\<lambda>_. Map.empty) c1"
    by (rule Snapshot_run [OF c, of 5])
  obtain F2 c2 where "cache_run (\<lambda>_. 0) (([Wrote [7] [FloatValue 3 9] None] @ [Snapshotted None]) @ [Cleared True]) F2 c2"
    by (rule Clear_run [OF c1(2), of True]) (use c1(1) in auto)
  then show ?thesis using cache_invariant by fastforce
qed

text \<open>
  C1: the cache implements its specification. In every state reached by calls whose keys and values are not empty, whose batches name no key
  twice and whose bytes fit the 64-bit counters, every such call changes the pending and live readings, the recorded types and the
  state of the snapshot exactly as the abstract cache does. A write is admitted when the recorded type of its key
  admits its values, and then overlays the live readings of the key; otherwise it reports a type conflict. A batch does so for each key,
  and reports a conflict when a key is refused. A write over the limit changes nothing. \<^verbatim>\<open>Snapshot\<close> fails while one is in progress;
  when an earlier one failed it only takes it up again; otherwise nothing is pending and it makes exactly the live readings pending.
  Clearing drops the pending readings only after a success. \<^verbatim>\<open>Values\<close> returns the pending readings overlaid by
  the live ones, in ascending order; deletion restricts the live readings of the keys it hits and nothing else.
\<close>

theorem cache_refines_spec:
  assumes "cache_run h evs F c" and "cache_step h c ev c'"
  shows "spec_step (cache_abs h c) ev (cache_abs h c')"
  by (rule cache_step_refines [OF cache_run_ok [OF assms(1)] assms(2)])

theorem cache_refines_spec_witness:
  "\<exists>c c'. cache_run (\<lambda>_. 0) [Wrote [7] [FloatValue 3 9] None] (\<lambda>_. Map.empty) c \<and> cache_step (\<lambda>_. 0) c (Snapshotted None) c' \<and>
    v_live (cache_abs (\<lambda>_. 0) c) \<noteq> (\<lambda>_. Map.empty) \<and> \<not> v_busy (cache_abs (\<lambda>_. 0) c) \<and>
    spec_step (cache_abs (\<lambda>_. 0) c) (Snapshotted None) (cache_abs (\<lambda>_. 0) c')"
proof -
  have w: "fst (cache_Write (\<lambda>_. 0) [7] [FloatValue 3 9] (NewCache 100 0)) = None" by code_simp
  obtain c where c: "cache_run (\<lambda>_. 0) [Wrote [7] [FloatValue 3 9] None] (\<lambda>_. Map.empty) c" "\<not> snapshotting c"
    "live (\<lambda>_. 0) c = (\<lambda>_. Map.empty)([7] := vmap UnixNano [FloatValue 3 9])"
    by (rule sample_run [OF w]) (simp_all add: vals_Size_sum)
  obtain c1 where c1: "cache_Snapshot 5 c = (None, c1)" by (rule Snapshot_run [OF c(1,2), of 5])
  have "live (\<lambda>_. 0) c [7] \<noteq> Map.empty" unfolding c(3) by simp
  then show ?thesis using c(1,2) step_Snapshot [OF c1, of "\<lambda>_. 0"] cache_refines_spec [OF c(1) step_Snapshot [OF c1]]
    by (metis (no_types, lifting) cache_abs_def view.select_convs(2,5))
qed

text \<open>
  C2: no acknowledged point is lost or overtaken. In every run, for every key that no deletion hit and that was
  in no batch that failed, the readings written to files, overlaid by the pending and then by the live ones,
  are exactly the acknowledged values of the key with the last write winning, however snapshots failed,
  were retried and overlapped with the writes.
\<close>

theorem cache_keeps_acknowledged:
  assumes "cache_run h evs F c" and "list_all (definite k) evs"
  shows "F k ++ (pending h c k ++ live h c k) = vmap UnixNano (concat (map (acks k) evs))"
  by (rule cache_run_acks [OF assms])

theorem cache_keeps_acknowledged_witness:
  "\<exists>c. cache_run (\<lambda>_. 0) [Wrote [7] [FloatValue 3 9, FloatValue 3 8] None] (\<lambda>_. Map.empty) c \<and>
    Map.empty ++ (pending (\<lambda>_. 0) c [7] ++ live (\<lambda>_. 0) c [7]) = [3 \<mapsto> FloatValue 3 8]"
proof -
  have w: "fst (cache_Write (\<lambda>_. 0) [7] [FloatValue 3 9, FloatValue 3 8] (NewCache 100 0)) = None" by code_simp
  obtain c where c: "cache_run (\<lambda>_. 0) [Wrote [7] [FloatValue 3 9, FloatValue 3 8] None] (\<lambda>_. Map.empty) c"
    by (rule sample_run [OF w]) (simp_all add: vals_Size_sum)
  then show ?thesis using cache_keeps_acknowledged [OF c, of "[7]"] by (auto simp: definite_def acks_def UnixNano_def)
qed




lemma cache_Size_unat: "cache_ok h c \<Longrightarrow> unat (cache_Size c) = unat (cacheSize (ctracker c)) + unat (snapshotSize (ctracker c))"
  using unat_add_of_nat [of "cacheSize (ctracker c)" "unat (snapshotSize (ctracker c))"] by (simp add: cache_Size_def cache_ok_def)

lemma cache_Write_exact:
  assumes c: "cache_ok h c" and "key \<noteq> []" and "vs \<noteq> []" and "room c (vals_Size Value_Size vs + length key)"
  shows "case cache_Write h key vs c of (err, c') \<Rightarrow>
    err = (if 0 < maxSize c \<and> unat (maxSize c) < unat (cache_Size c) + vals_Size Value_Size vs
           then Some (CacheMemorySizeLimitExceeded (cache_Size c + of_nat (vals_Size Value_Size vs)) (maxSize c))
           else if \<not> admits (kinds h (store c) key) vs then Some ErrFieldTypeConflict else None) \<and>
    snapshot c' = snapshot c \<and>
    (if err = None
     then cache_values h key c' = cache_values h key c @ vs \<and> (\<forall>k. k \<noteq> key \<longrightarrow> ring_entry h k (store c') = ring_entry h k (store c)) \<and>
       unat (cache_Size c') = unat (cache_Size c) + vals_Size Value_Size vs + (if ring_entry h key (store c) = None then length key else 0)
     else store c' = store c \<and> cache_Size c' = cache_Size c)"
proof -
  have r: "ring_wf h (store c)" "ring_ok h (store c)" using c by (auto simp: cache_ok_def ring_wf_def)
  let ?s = "vals_Size Value_Size vs"
  obtain err c' where cw: "cache_Write h key vs c = (err, c')" by force
  note z = cache_Size_unat [OF c]
  have n: "unat (cache_Size c + of_nat ?s) = unat (cache_Size c) + ?s"
    using assms(4) unat_add_of_nat [of "cache_Size c" ?s] z by (simp add: room_def)
  have lim: "0 < maxSize c \<and> unat (maxSize c) < unat (cache_Size c) + ?s \<longleftrightarrow> maxSize c > 0 \<and> cache_Size c + of_nat ?s > maxSize c"
    using n by (auto simp: word_less_nat_alt)
  show ?thesis
  proof (cases "maxSize c > 0 \<and> cache_Size c + of_nat ?s > maxSize c")
    case True
    then have "err = Some (CacheMemorySizeLimitExceeded (cache_Size c + of_nat ?s) (maxSize c))" "c' = track IncWritesErr c"
      using cw by (auto simp: cache_Write_def Let_def)
    then show ?thesis using True unfolding cw prod.case lim by (simp add: state_defs cache_Size_def)
  next
    case False
    obtain res r' where w: "ring_write h key vs (store c) = (res, r')" by force
    show ?thesis
    proof (cases res)
      case (Inl e)
      note a = ring_write_error(2) [OF r(2) w [unfolded Inl]] ring_write_admits(1) [OF r(1) assms(3) w [unfolded Inl]]
      have "err = Some e" "c' = track IncWritesErr (c\<lparr>store := r'\<rparr>)" using Inl False w cw by (auto simp: cache_Write_def Let_def)
      then show ?thesis using a False unfolding cw prod.case lim by (auto simp: state_defs cache_Size_def)
    next
      case (Inr new)
      let ?a = "?s + (if new then length key else 0)"
      have f: "cache_Size c' = cache_Size c + of_nat ?a" "err = None" "store c' = r'" "snapshot c' = snapshot c"
        using Inr False w cw by (auto simp: cache_Write_def Let_def state_defs cache_Size_def)
      have "unat (cache_Size c + of_nat ?a) = unat (cache_Size c) + ?a"
        by (rule unat_add_of_nat) (use assms(4) z in \<open>auto simp: room_def\<close>)
      moreover note ring_write_admits(2) [OF r(1) assms(3) w [unfolded Inr]]
      moreover have "cache_values h key c' = cache_values h key c @ vs"
        "\<And>k. k \<noteq> key \<Longrightarrow> ring_entry h k r' = ring_entry h k (store c)"
        using ring_write_entry [OF r assms(3) w [unfolded Inr]] f(3) by (simp_all add: cache_values_def)
      ultimately show ?thesis using False f unfolding cw prod.case lim by (auto simp: kinds_def)
    qed
  qed
qed

text \<open>
  C8: the outcomes of \<^verbatim>\<open>Write\<close> of a non-empty key and values that fit the 64-bit counters, in every reachable state. It is refused with the
  limit error exactly when there is a limit and the size with the new values exceeds it; otherwise with a type conflict exactly
  when the recorded type of the entry, or for a new key the type of the first value, does not admit them; and succeeds in all other cases. A
  refused write changes neither the stores nor the size. An admitted one appends its values to the entry of its
  key, leaves every other entry alone, and the size grows by exactly the size of the values, and by the length of the key when the key is new.
\<close>

theorem cache_write_outcomes:
  assumes "cache_run h evs F c" and "key \<noteq> []" and "vs \<noteq> []" and "room c (vals_Size Value_Size vs + length key)"
  shows "case cache_Write h key vs c of (err, c') \<Rightarrow>
    err = (if 0 < maxSize c \<and> unat (maxSize c) < unat (cache_Size c) + vals_Size Value_Size vs
           then Some (CacheMemorySizeLimitExceeded (cache_Size c + of_nat (vals_Size Value_Size vs)) (maxSize c))
           else if \<not> admits (kinds h (store c) key) vs then Some ErrFieldTypeConflict else None) \<and>
    snapshot c' = snapshot c \<and>
    (if err = None
     then cache_values h key c' = cache_values h key c @ vs \<and> (\<forall>k. k \<noteq> key \<longrightarrow> ring_entry h k (store c') = ring_entry h k (store c)) \<and>
       unat (cache_Size c') = unat (cache_Size c) + vals_Size Value_Size vs + (if ring_entry h key (store c) = None then length key else 0)
     else store c' = store c \<and> cache_Size c' = cache_Size c)"
  by (rule cache_Write_exact [OF cache_run_ok [OF assms(1)] assms(2-4)])

theorem cache_write_outcomes_witness:
  "fst (cache_Write (\<lambda>_. 0) [7] [FloatValue 3 9, FloatValue 4 9] (NewCache 20 0)) = Some (CacheMemorySizeLimitExceeded 32 20) \<and>
   store (snd (cache_Write (\<lambda>_. 0) [7] [FloatValue 3 9, FloatValue 4 9] (NewCache 20 0))) = newRing"
proof -
  let ?c = "NewCache 20 0" and ?vs = "[FloatValue 3 9, FloatValue 4 9]"
  have f: "fst (cache_Write (\<lambda>_. 0) [7] ?vs ?c) = Some (CacheMemorySizeLimitExceeded 32 20)" by code_simp
  have "room ?c (vals_Size Value_Size ?vs + length [7 :: u8])" by (simp add: room_def NewCache_def newCacheTracker_def vals_Size_sum)
  from cache_write_outcomes [where h = "\<lambda>_. 0", OF run_new _ _ this]
  have "store (snd (cache_Write (\<lambda>_. 0) [7] ?vs ?c)) = store ?c" using f by (auto simp: case_prod_beta)
  with f show ?thesis by (simp add: NewCache_def)
qed

end
