(* ===== verification/Cache_Flush.thy ===== *)
theory Cache_Flush
  imports Cache_Spec Block_Codec
begin

text \<open>
  What the compactor takes out of the cache: the sorted keys, the split of a snapshot among workers, and the blocks the
  key iterator of \<^verbatim>\<open>compact.go\<close> encodes from the entries of a snapshot.
\<close>

section \<open>Keys\<close>

lemma bytes_le_refl [simp]: "bytes_le x x"
  by (induction x) simp_all

lemma bytes_le_linear: "bytes_le x y \<or> bytes_le y x"
  by (induction x y rule: bytes_le.induct) auto

lemma bytes_le_trans: "bytes_le x y \<Longrightarrow> bytes_le y z \<Longrightarrow> bytes_le x z"
proof (induction x y arbitrary: z rule: bytes_le.induct)
  case (3 x xs y ys)
  then show ?case by (cases z) auto
qed auto

lemma bytes_le_antisym: "bytes_le x y \<Longrightarrow> bytes_le y x \<Longrightarrow> x = y"
  by (induction x y rule: bytes_le.induct) (auto simp: neq_Nil_conv elim: bytes_le.elims)

lemma insert_key_set [simp]: "set (insert_key x ks) = insert x (set ks)" "length (insert_key x ks) = Suc (length ks)"
  by (induction ks) auto

lemma insert_key_sorted: "sorted_wrt bytes_le ks \<Longrightarrow> sorted_wrt bytes_le (insert_key x ks)"
  by (induction ks) (auto dest: bytes_le_trans bytes_le_linear [THEN disjE] intro: bytes_le_linear [THEN disjE])

lemma sort_keys_set [simp]: "set (sort_keys ks) = set ks" "length (sort_keys ks) = length ks"
  by (induction ks) (simp_all add: sort_keys_def)

lemma sort_keys_sorted: "sorted_wrt bytes_le (sort_keys ks)"
  by (induction ks) (simp_all add: sort_keys_def insert_key_sorted)

lemma partition_keys_all: "\<forall>(k, e)\<in>set p. entry_ok e \<Longrightarrow> partition_keys p = map fst p \<and> partition_count p = length p"
  by (induction p) (auto simp: partition_keys_def partition_count_def entry_ok_def entry_count_def)

lemma ring_keys_list:
  assumes "ring_wf h r"
  shows "concat (map partition_keys (partitions r)) = map fst (ring_list r)" "ring_count r = length (ring_list r)"
proof -
  have "\<forall>p\<in>set (partitions r). \<forall>(k, e)\<in>set p. entry_ok e"
    using assms ring_list_iff [of h r] by (auto simp: ring_wf_def ring_list_def)
  then have "partition_keys p = map fst p \<and> partition_count p = length p" if "p \<in> set (partitions r)" for p
    using that partition_keys_all by blast
  then show "concat (map partition_keys (partitions r)) = map fst (ring_list r)" "ring_count r = length (ring_list r)"
    by (auto simp: ring_list_def map_concat length_concat ring_count_def cong: map_cong)
qed

text \<open>
  C22: the keys the compactor iterates. In every reachable state \<^verbatim>\<open>Keys\<close> are exactly the keys with entries in the live store,
  in strictly ascending byte order, and \<^verbatim>\<open>Count\<close> is their number.
\<close>

theorem cache_keys_sorted:
  assumes "cache_run h evs F c"
  shows "sorted_wrt (\<lambda>x y. bytes_le x y \<and> x \<noteq> y) (cache_Keys c) \<and> set (cache_Keys c) = {k. ring_entry h k (store c) \<noteq> None} \<and>
    cache_Count c = length (cache_Keys c)"
proof -
  have r: "ring_wf h (store c)" "ring_ok h (store c)" using cache_run_ok [OF assms] by (auto simp: cache_ok_def ring_wf_def)
  have k: "cache_Keys c = sort_keys (map fst (ring_list (store c)))"
    by (simp add: cache_Keys_def ring_keys_def ring_keys_list [OF r(1)])
  have "card (set (cache_Keys c)) = length (cache_Keys c)" using distinct_card [OF ring_list(1) [OF r(2)]] by (simp add: k)
  then have "distinct (cache_Keys c)" by (rule card_distinct)
  then have "sorted_wrt (\<lambda>x y. bytes_le x y \<and> x \<noteq> y) (cache_Keys c)"
    using sort_keys_sorted [of "map fst (ring_list (store c))"] by (simp add: sorted_wrt_iff_nth_less distinct_conv_nth k)
  moreover have "set (cache_Keys c) = {k. ring_entry h k (store c) \<noteq> None}"
    using ring_list_iff [OF r(2)] by (force simp: k)
  ultimately show ?thesis by (simp add: k cache_Count_def ring_keys_list [OF r(1)])
qed

theorem cache_keys_sorted_witness: "cache_run (\<lambda>_. 0) [] (\<lambda>_. Map.empty) (NewCache 9 0) \<and> cache_Keys (NewCache 9 0) = []"
  using run_new [of "\<lambda>_. 0" 9 0] cache_keys_sorted [OF run_new [of "\<lambda>_. 0" 9 0]] by (simp add: NewCache_def)

section \<open>Split\<close>

text \<open>
  C23: \<^verbatim>\<open>Split\<close> among \<open>n > 0\<close> workers. Every key of the live store is in exactly one of the \<open>n\<close> stores, the one its partition
  number names modulo \<open>n\<close>, with its entry, and no store has another key; zero or a negative number of workers panics.
\<close>

theorem cache_split_partitions:
  assumes "cache_run h evs F c"
  shows "(0 < n \<longrightarrow> (\<exists>rs. cache_Split n c = Inr rs \<and> length rs = nat n \<and>
      (\<forall>j < nat n. ring_wf h (rs ! j) \<and> (\<forall>k. ring_entry h k (rs ! j) = (if part_idx h k mod nat n = j then ring_entry h k (store c) else None))))) \<and>
    (n \<le> 0 \<longrightarrow> (\<exists>m. cache_Split n c = Inl (GoPanic m)))"
proof (intro conjI impI)
  have r: "ring_wf h (store c)" "ring_ok h (store c)" using cache_run_ok [OF assms] by (auto simp: cache_ok_def ring_wf_def)
  assume n: "0 < n"
  let ?R = "\<lambda>j. newRing\<lparr>partitions := map (\<lambda>i. if i mod nat n = j then partitions (store c) ! i else []) [0..<numPartitions]\<rparr>"
  have e: "ring_entry h k (?R j) = (if part_idx h k mod nat n = j then ring_entry h k (store c) else None)" for j k
    by (simp add: ring_defs)
  have "ring_ok h (?R j)" for j
    using ring_okD(2,3) [OF r(2)] by (auto intro!: ring_okI split: if_splits)
  then have w: "ring_wf h (?R j)" for j using r e by (auto simp: ring_wf_def split: if_splits)
  show "\<exists>rs. cache_Split n c = Inr rs \<and> length rs = nat n \<and>
      (\<forall>j < nat n. ring_wf h (rs ! j) \<and> (\<forall>k. ring_entry h k (rs ! j) = (if part_idx h k mod nat n = j then ring_entry h k (store c) else None)))"
    using n r e w by (cases "n = 1") (auto simp: cache_Split_def ring_split_def)
qed (auto simp: cache_Split_def ring_split_def)

theorem cache_split_partitions_witness:
  "\<exists>rs. cache_Split 4 (NewCache 9 0) = Inr rs \<and> length rs = 4 \<and> ring_entry (\<lambda>_. 0) [1] (rs ! 0) = None"
  using cache_split_partitions [OF run_new [of "\<lambda>_. 0" 9 0], of 4] by (auto simp: NewCache_def)

section \<open>The key iterator\<close>

text \<open>
  The encoders of a goroutine of \<^verbatim>\<open>cacheKeyIterator.encode\<close> are a record of the type of the pools; it uses them for
  all its blocks.
\<close>

definition encode_chunk ::
  "('e, 'd) s8b_pkg \<Rightarrow> snappy \<Rightarrow> 'w bit_stream \<Rightarrow> ('e, 'w) encoder_pool \<Rightarrow> Value list \<Rightarrow> bytes res" where
  "encode_chunk P S W enc values =
     (case values ! 0 of
        FloatValue _ _ \<Rightarrow> encodeFloatBlockUsing P W [] values (timeEncoderPool enc) (floatEncoderPool enc)
      | IntegerValue _ _ \<Rightarrow> encodeIntegerBlockUsing P [] values (timeEncoderPool enc) (integerEncoderPool enc)
      | UnsignedValue _ _ \<Rightarrow> encodeUnsignedBlockUsing P [] values (timeEncoderPool enc) (integerEncoderPool enc)
      | BooleanValue _ _ \<Rightarrow> encodeBooleanBlockUsing P [] values (timeEncoderPool enc) (booleanEncoderPool enc)
      | StringValue _ _ \<Rightarrow> encodeStringBlockUsing P S [] values (timeEncoderPool enc) (stringEncoderPool enc)
      | EmptyValue \<Rightarrow> Values_Encode P S W enc values [])"

record cacheBlock =
  cb_k :: series_key
  cb_minTime :: int
  cb_maxTime :: int
  cb_b :: bytes
  cb_err :: "go_error option"

text \<open>
  The loop over the values of one key. \<open>encs i\<close> are the encoders as the earlier blocks left them before block \<open>i\<close>; an error is
  kept in the block, a panic ends the program.
\<close>

function encode_blocks ::
  "('e, 'd) s8b_pkg \<Rightarrow> snappy \<Rightarrow> 'w bit_stream \<Rightarrow> (nat \<Rightarrow> ('e, 'w) encoder_pool) \<Rightarrow> int \<Rightarrow> series_key \<Rightarrow> nat \<Rightarrow>
   Value list \<Rightarrow> cacheBlock list res" where
  "encode_blocks P S W encs sz key i values =
     (if values = [] then Inr []
      else
        let e = (if int (length values) > sz then sz else int (length values)) in
        if e \<le> 0 then Inl (GoPanic ''index out of range'')
        else
          let blk = \<lambda>b err. \<lparr>cb_k = key, cb_minTime = UnixNano (values ! 0), cb_maxTime = UnixNano (values ! (nat e - 1)), cb_b = b, cb_err = err\<rparr>;
              rest = encode_blocks P S W encs sz key (Suc i) (drop (nat e) values)
          in case encode_chunk P S W (encs i) (take (nat e) values) of
               Inr b \<Rightarrow> bind_res rest (\<lambda>bs. Inr (blk b None # bs))
             | Inl (GoError m) \<Rightarrow> bind_res rest (\<lambda>bs. Inr (blk [] (Some (GoError m)) # bs))
             | Inl (GoPanic m) \<Rightarrow> Inl (GoPanic m))"
  by auto
termination
  by (relation "measure (\<lambda>(P, S, W, encs, sz, key, i, values). length values)") auto

declare encode_blocks.simps [simp del]

text \<open>The values of the blocks: runs of at most \<open>n\<close> values.\<close>

fun chunks :: "nat \<Rightarrow> 'a list \<Rightarrow> 'a list list" where
  "chunks n xs = (if n = 0 \<or> xs = [] then [] else take n xs # chunks n (drop n xs))"

declare chunks.simps [simp del]

lemma chunks_concat: "0 < n \<Longrightarrow> concat (chunks n xs) = xs"
  by (induction n xs rule: chunks.induct) (subst chunks.simps, auto)

lemma chunks_all: "ch \<in> set (chunks n xs) \<Longrightarrow> ch \<noteq> [] \<and> length ch \<le> n \<and> set ch \<subseteq> set xs"
proof (induction n xs rule: chunks.induct)
  case (1 n xs)
  show ?case
  proof (cases "n = 0 \<or> xs = []")
    case False
    then consider "ch = take n xs" | "ch \<in> set (chunks n (drop n xs))" using 1(2) by (subst (asm) chunks.simps) auto
    then show ?thesis using False 1(1) set_take_subset [of n xs] set_drop_subset [of n xs] by cases auto
  qed (use 1(2) in \<open>auto simp: chunks.simps\<close>)
qed

section \<open>Blocks\<close>

lemma encode_chunk_cycle:
  assumes "s8b_package P wv er dv dr" and "snappy_ok S" and "bit_stream_ok W pend"
    and "er (te_enc (timeEncoderPool enc)) ws" and "dv (td_dec (timeDecoderPool dp))"
    and "length (id_values (integerDecoderPool dp)) = 240" and "bd_err (booleanDecoderPool dp) = None"
    and "encodable S vs" and "vs \<noteq> []" and "length vs \<le> 2 ^ 40"
  shows "\<exists>b. encode_chunk P S W enc vs = Inr b \<and> DecodeBlock P S dp b = Some (Inr (vs, None))"
proof -
  have len: "length vs < 2 ^ 58" using assms(10) by simp
  have z: "length (zip (map unixnano vs) xs) \<le> 2 ^ 40" "length xs < 2 ^ 63"
    if "map get vs = map Some xs" for get :: "Value \<Rightarrow> 'z option" and xs
    using arg_cong [OF that, of length] assms(10) by simp_all
  note E = s8b_package.encode_with_fmt [OF assms(1,4) _ assms(9) len, where buf = "[]"]
    and D = DecodeBlock_fmt [OF assms(1,5-7), where S = S] and F = as_first [OF _ assms(9)]
  from assms(8) consider (f) xs where "map as_Float vs = map Some xs" "list_all (\<lambda>v. \<not> IsNaN v) xs" | (i) xs where "map as_Integer vs = map Some xs"
    | (u) xs where "map as_Unsigned vs = map Some xs" | (b) xs where "map as_Boolean vs = map Some xs"
    | (s) xs where "map as_String vs = map Some xs" "0 \<le> sn_MaxEncodedLen S (length (str_data xs))" unfolding encodable_def by blast
  then show ?thesis
  proof cases
    case f
    have e: "encode_chunk P S W enc vs = encodeFloatBlockUsing P W [] vs (timeEncoderPool enc) (floatEncoderPool enc)"
      using F [OF f(1)] by (cases "vs ! 0") (auto simp: encode_chunk_def as_defs)
    have p: "(\<lambda>(t, v). pack_encoded P float_bytes BlockFloat64 [] (t, FloatEncoder_Flush W v)) =
        pack_encoded P (\<lambda>v. float_bytes (FloatEncoder_Flush W v)) BlockFloat64 []" by (simp add: pack_encoded_def fun_eq_iff)
    have "\<exists>b. encode_chunk P S W enc vs = Inr b \<and> block_fmt wv BlockFloat64 float_fmt (zip (map unixnano vs) xs) b"
      unfolding e encodeFloatBlockUsing_def p by (rule E [OF f(1)], rule float_enc_fmt [OF assms(3) f(2)])
    then show ?thesis using D(5) z(1) [OF f(1)] as_all(1) [OF f(1)] by fastforce
  next
    case i
    have e: "encode_chunk P S W enc vs = encodeIntegerBlockUsing P [] vs (timeEncoderPool enc) (integerEncoderPool enc)"
      using F [OF i] by (cases "vs ! 0") (auto simp: encode_chunk_def as_defs)
    have "\<exists>b. encode_chunk P S W enc vs = Inr b \<and> block_fmt wv BlockInteger (int_fmt wv) (zip (map unixnano vs) xs) b"
      unfolding e encodeIntegerBlockUsing_def by (rule E [OF i], rule s8b_package.int_enc_fmt [OF assms(1) z(2) [OF i]])
    then show ?thesis using D(1) z(1) [OF i] as_all(2) [OF i] by fastforce
  next
    case u
    have e: "encode_chunk P S W enc vs = encodeUnsignedBlockUsing P [] vs (timeEncoderPool enc) (integerEncoderPool enc)"
      using F [OF u] by (cases "vs ! 0") (auto simp: encode_chunk_def as_defs)
    have "\<exists>b. encode_chunk P S W enc vs = Inr b \<and> block_fmt wv BlockUnsigned (int_fmt wv) (zip (map unixnano vs) xs) b"
      unfolding e encodeUnsignedBlockUsing_def by (rule E [OF u], rule s8b_package.int_enc_fmt [OF assms(1) z(2) [OF u]])
    then show ?thesis using D(2) z(1) [OF u] as_all(3) [OF u] by fastforce
  next
    case b
    have e: "encode_chunk P S W enc vs = encodeBooleanBlockUsing P [] vs (timeEncoderPool enc) (booleanEncoderPool enc)"
      using F [OF b] by (cases "vs ! 0") (auto simp: encode_chunk_def as_defs)
    have "\<exists>b. encode_chunk P S W enc vs = Inr b \<and> block_fmt wv BlockBoolean bool_fmt (zip (map unixnano vs) xs) b"
      unfolding e encodeBooleanBlockUsing_def by (rule E [OF b], rule bool_enc_fmt [OF z(2) [OF b]])
    then show ?thesis using D(3) z(1) [OF b] as_all(4) [OF b] by fastforce
  next
    case s
    have e: "encode_chunk P S W enc vs = encodeStringBlockUsing P S [] vs (timeEncoderPool enc) (stringEncoderPool enc)"
      using F [OF s(1)] by (cases "vs ! 0") (auto simp: encode_chunk_def as_defs)
    have "\<exists>b. encode_chunk P S W enc vs = Inr b \<and> block_fmt wv BlockString (str_fmt S) (zip (map unixnano vs) xs) b"
      unfolding e encodeStringBlockUsing_def by (rule E [OF s(1)], rule str_enc_fmt [OF assms(2) s(2)])
    then show ?thesis using D(4) z(1) [OF s(1)] as_all(5) [OF s(1)] by fastforce
  qed
qed

text \<open>What a block of the iterator holds.\<close>

definition block_of :: "('e, 'd) s8b_pkg \<Rightarrow> snappy \<Rightarrow> 'd decoder_pool \<Rightarrow> series_key \<Rightarrow> cacheBlock \<Rightarrow> Value list \<Rightarrow> bool" where
  "block_of P S dp key b vs \<longleftrightarrow> cb_k b = key \<and> cb_err b = None \<and> DecodeBlock P S dp (cb_b b) = Some (Inr (vs, None)) \<and>
     cb_minTime b = UnixNano (hd vs) \<and> cb_maxTime b = UnixNano (last vs)"

lemma encode_blocks_ok:
  assumes "s8b_package P wv er dv dr" and "snappy_ok S" and "bit_stream_ok W pend"
    and "\<forall>i. er (te_enc (timeEncoderPool (encs i))) (wss i)" and "dv (td_dec (timeDecoderPool dp))"
    and "length (id_values (integerDecoderPool dp)) = 240" and "bd_err (booleanDecoderPool dp) = None"
    and "0 < sz" and "sz \<le> 2 ^ 40" and "list_all (encodable S) (chunks (nat sz) vs)"
  shows "\<exists>bs. encode_blocks P S W encs sz key i vs = Inr bs \<and> list_all2 (block_of P S dp key) bs (chunks (nat sz) vs)"
  using assms(10)
proof (induction "nat sz" vs arbitrary: i rule: chunks.induct)
  case (1 vs)
  show ?case
  proof (cases "vs = []")
    case True
    then show ?thesis by (simp add: encode_blocks.simps chunks.simps)
  next
    case False
    define e where "e = (if int (length vs) > sz then sz else int (length vs))"
    have e: "0 < e" "nat e \<le> nat sz" "nat e = min (nat sz) (length vs)" using False assms(8) by (auto simp: e_def)
    have t: "take (nat sz) vs = take (nat e) vs" "drop (nat sz) vs = drop (nat e) vs" by (auto simp: e(3) min_def)
    have c: "chunks (nat sz) vs = take (nat e) vs # chunks (nat sz) (drop (nat e) vs)"
      using False assms(8) t by (subst chunks.simps) simp
    have ch: "encodable S (take (nat e) vs)" "take (nat e) vs \<noteq> []" "length (take (nat e) vs) \<le> 2 ^ 40"
      using 1(2) c False e assms(9) by (auto simp: nat_le_iff)
    obtain b where b: "encode_chunk P S W (encs i) (take (nat e) vs) = Inr b" "DecodeBlock P S dp b = Some (Inr (take (nat e) vs, None))"
      using encode_chunk_cycle [OF assms(1-3) spec [OF assms(4)] assms(5-7) ch] by blast
    obtain bs where bs: "encode_blocks P S W encs sz key (Suc i) (drop (nat e) vs) = Inr bs"
      "list_all2 (block_of P S dp key) bs (chunks (nat sz) (drop (nat e) vs))"
      using 1(1) [of "Suc i"] False assms(8) 1(2) c t by auto
    have le: "0 < nat e" "nat e \<le> length vs" using e(1,3) False assms(8) by simp_all
    have l: "hd (take (nat e) vs) = vs ! 0" "last (take (nat e) vs) = vs ! (nat e - 1)"
      using ch(2) le by (simp_all add: hd_conv_nth last_conv_nth min_absorb2 False)
    show ?thesis
      using False e(1) b bs unfolding c by (subst encode_blocks.simps) (simp add: e_def [symmetric] Let_def block_of_def l)
  qed
qed

lemma valueType_as:
  "valueType v = 1 \<Longrightarrow> \<exists>x. as_Float v = Some x" "valueType v = 2 \<Longrightarrow> \<exists>x. as_Integer v = Some x"
  "valueType v = 3 \<Longrightarrow> \<exists>x. as_String v = Some x" "valueType v = 4 \<Longrightarrow> \<exists>x. as_Boolean v = Some x"
  "valueType v \<in> {0, 1, 2, 3, 4}"
  by (auto simp: valueType_def as_defs split: Value.splits)

lemma map_Some_ex: "\<forall>v\<in>set vs. \<exists>x. f v = Some x \<Longrightarrow> \<exists>xs. map f vs = map Some xs"
proof (induction vs)
  case (Cons v vs)
  then obtain x xs where "f v = Some x" "map f vs = map Some xs" by auto
  then have "map f (v # vs) = map Some (x # xs)" by simp
  then show ?case by blast
qed simp

text \<open>Values the block encoders take besides having one type: floats that are not NaN, strings snappy has room for.\<close>

definition storable :: "snappy \<Rightarrow> Value list \<Rightarrow> bool" where
  "storable S vs \<longleftrightarrow> list_all (\<lambda>v. case v of FloatValue _ x \<Rightarrow> \<not> IsNaN x | _ \<Rightarrow> True) vs \<and>
     (\<forall>xs. map as_String vs = map Some xs \<longrightarrow> 0 \<le> sn_MaxEncodedLen S (length (str_data xs)))"

lemma floats_not_nan:
  "map as_Float vs = map Some xs \<Longrightarrow> list_all (\<lambda>v. case v of FloatValue _ x \<Rightarrow> \<not> IsNaN x | _ \<Rightarrow> True) vs \<Longrightarrow> list_all (\<lambda>x. \<not> IsNaN x) xs"
  by (induction vs arbitrary: xs) (auto simp: as_defs Cons_eq_map_conv split: Value.splits)

lemma typed_encodable:
  assumes t: "\<And>v. v \<in> set vs \<Longrightarrow> valueType v = t" and "t \<noteq> 0" "vs \<noteq> []" "storable S vs"
  shows "encodable S vs"
proof -
  obtain v where "v \<in> set vs" using assms(3) by (cases vs) auto
  then consider "t = 1" | "t = 2" | "t = 3" | "t = 4" using t valueType_as(5) [of v] assms(2) by auto
  then show ?thesis
  proof cases
    case 1
    then obtain xs where xs: "map as_Float vs = map Some xs" using map_Some_ex [of vs as_Float] t valueType_as(1) by auto
    then have "list_all (\<lambda>v. \<not> IsNaN v) xs" using assms(4) floats_not_nan [of vs xs] unfolding storable_def by blast
    with xs show ?thesis by (auto simp: encodable_def)
  next
    case 3
    then show ?thesis using map_Some_ex [of vs as_String] t valueType_as(3) assms(4) by (auto simp: encodable_def storable_def)
  qed (use map_Some_ex [of vs as_Integer] map_Some_ex [of vs as_Boolean] t valueType_as(2,4) in \<open>auto simp: encodable_def\<close>)
qed

text \<open>
  C7: from the cache to blocks and back. When the compactor has deduplicated the snapshot of a reachable cache, the key iterator, with blocks of
  at most \<open>sz\<close> values (from 1 to 2^40), encodes the values of an entry with a recorded type, when no float is NaN and the strings of a block are within
  snappy's limit, into blocks without an error, one for each run of at most \<open>sz\<close> values, with the first and last timestamps as its bounds. Each block decodes to its
  run, and the runs together are exactly the pending readings of the key in ascending order. This holds for any simple8b, snappy
  and bit writer that keep their contracts, for encoders in any state that simple8b allows and pooled decoders whose integer
  buffer has its length and whose boolean decoder has no old error.
\<close>

theorem snapshot_reaches_blocks:
  assumes "cache_run h evs F c" and "snapshot (snap_Deduplicate c) = Some s" and "ring_entry h k (sc_store s) = Some e"
    and "en_vtype e \<noteq> 0" and "0 < sz" and "sz \<le> 2 ^ 40" and "list_all (storable S) (chunks (nat sz) (en_values e))"
    and "s8b_package P wv er dv dr" and "snappy_ok S" and "bit_stream_ok W pend"
    and "\<forall>i. er (te_enc (timeEncoderPool (encs i))) (wss i)" and "dv (td_dec (timeDecoderPool dp))"
    and "length (id_values (integerDecoderPool dp)) = 240" and "bd_err (booleanDecoderPool dp) = None"
  shows "\<exists>bs vss. encode_blocks P S W encs sz k 0 (en_values e) = Inr bs \<and> list_all2 (block_of P S dp k) bs vss \<and>
    list_all (\<lambda>vs. vs \<noteq> [] \<and> length vs \<le> nat sz) vss \<and>
    ascending (map UnixNano (concat vss)) \<and> vmap UnixNano (concat vss) = pending h c k"
proof -
  have c: "cache_ok h c" by (rule cache_run_ok [OF assms(1)])
  obtain s0 where s0: "snapshot c = Some s0" "sc_store s = ring_apply (\<lambda>_. entry_deduplicate) (sc_store s0)"
    using assms(2) by (auto simp: snap_Deduplicate_def)
  then have w: "ring_wf h (sc_store s0)" using c by (simp add: cache_ok_def)
  then have "ring_ok h (sc_store s0)" by (simp add: ring_wf_def)
  from store.entry_change [OF this, of "\<lambda>_. entry_deduplicate"] assms(3) obtain e0 where
    e0: "ring_entry h k (sc_store s0) = Some e0" "e = entry_deduplicate e0" by (auto simp: s0(2) fun_eq_iff)
  have ok: "entry_ok e" using w e0 entry_deduplicate_spec(1) by (auto simp: ring_wf_def)
  let ?chs = "chunks (nat sz) (en_values e)"
  have "encodable S ch" if ch: "ch \<in> set ?chs" for ch
  proof (rule typed_encodable [OF _ assms(4)])
    show "valueType v = en_vtype e" if "v \<in> set ch" for v using that chunks_all [OF ch] ok assms(4) by (auto simp: entry_ok_def list_all_iff)
  qed (use ch chunks_all [OF ch] assms(7) in \<open>auto simp: list_all_iff\<close>)
  then have "list_all (encodable S) ?chs" by (simp add: list_all_iff)
  from encode_blocks_ok [where encs = encs and key = k and i = 0, OF assms(8-14,5,6) this] obtain bs where
    "encode_blocks P S W encs sz k 0 (en_values e) = Inr bs" "list_all2 (block_of P S dp k) bs ?chs" by blast
  moreover have "concat ?chs = en_values e" using assms(5) by (simp add: chunks_concat)
  moreover have "ascending (map UnixNano (en_values e))" by (simp add: e0(2) vals_Deduplicate_ascending)
  moreover have "vmap UnixNano (en_values e) = pending h c k"
    by (simp add: e0 s0 pending_def contents_def vmap_Deduplicate)
  moreover have "list_all (\<lambda>vs. vs \<noteq> [] \<and> length vs \<le> nat sz) ?chs" using chunks_all by (fastforce simp: list_all_iff)
  ultimately show ?thesis by (intro exI [of _ bs] exI [of _ ?chs]) simp
qed

theorem snapshot_reaches_blocks_witness:
  "\<exists>F c s e bs vss. cache_run (\<lambda>_. 0) [Wrote [7] [BooleanValue 4 False, BooleanValue 3 True] None, Snapshotted None] F c \<and>
    snapshot (snap_Deduplicate c) = Some s \<and> ring_entry (\<lambda>_. 0) [7] (sc_store s) = Some e \<and>
    encode_blocks s8b_repo snappy_stored list_stream (\<lambda>_. new_encoders s8b_repo list_stream) 1 [7] 0 (en_values e) = Inr bs \<and>
    list_all2 (block_of s8b_repo snappy_stored (new_decoders s8b_repo) [7]) bs vss \<and>
    ascending (map UnixNano (concat vss)) \<and> vmap UnixNano (concat vss) = pending (\<lambda>_. 0) c [7]"
proof -
  let ?vs = "[BooleanValue 4 False, BooleanValue 3 True]" and ?h = "\<lambda>_ :: series_key. 0 :: u64"
  have w: "fst (cache_Write ?h [7] ?vs (NewCache 100 0)) = None" by code_simp
  obtain c where c: "cache_run ?h [Wrote [7] ?vs None] (\<lambda>_. Map.empty) c" "\<not> snapshotting c" "c = snd (cache_Write ?h [7] ?vs (NewCache 100 0))"
    by (rule sample_run [OF w]) (simp_all add: vals_Size_sum)
  obtain c1 where c1: "cache_Snapshot 5 c = (None, c1)" "cache_run ?h ([Wrote [7] ?vs None] @ [Snapshotted None]) (\<lambda>_. Map.empty) c1"
    by (rule Snapshot_run [OF c(1,2), of 5])
  have "map_option (\<lambda>s. ring_entry ?h [7] (sc_store s)) (snapshot (snap_Deduplicate (snd (cache_Snapshot 5 (snd (cache_Write ?h [7] ?vs (NewCache 100 0))))))) =
    Some (Some \<lparr>en_n = 2, en_values = [BooleanValue 3 True, BooleanValue 4 False], en_vtype = 4\<rparr>)" by code_simp
  then obtain s where s: "snapshot (snap_Deduplicate c1) = Some s"
    "ring_entry ?h [7] (sc_store s) = Some \<lparr>en_n = 2, en_values = [BooleanValue 3 True, BooleanValue 4 False], en_vtype = 4\<rparr>"
    using c1(1) c(3) by auto
  have st: "list_all (storable snappy_stored) (chunks (nat 1) [BooleanValue 3 True, BooleanValue 4 False])"
    by (auto simp: chunks.simps storable_def as_defs Cons_eq_map_conv)
  have "\<exists>bs vss. encode_blocks s8b_repo snappy_stored list_stream (\<lambda>_. new_encoders s8b_repo list_stream) 1 [7] 0
      [BooleanValue 3 True, BooleanValue 4 False] = Inr bs \<and> list_all2 (block_of s8b_repo snappy_stored (new_decoders s8b_repo) [7]) bs vss \<and>
    ascending (map UnixNano (concat vss)) \<and> vmap UnixNano (concat vss) = pending ?h c1 [7]"
    using snapshot_reaches_blocks [where S = snappy_stored and W = list_stream and sz = 1 and encs = "\<lambda>_. new_encoders s8b_repo list_stream" and wss = "\<lambda>_. []",
        OF c1(2) s(1,2) _ _ _ _ repo.s8b_package_axioms snappy_stored_ok list_stream_ok allI [OF new_pools_ok(1)] new_pools_ok(2-4)] st by auto
  then show ?thesis using c1(2) s by fastforce
qed

section \<open>Unsigned values\<close>

text \<open>
  An entry made by a write without values has no type either, and takes values of different types in one write.
\<close>

lemma empty_entry_accepts_mixed:
  "newEntryValues [] = Inr \<lparr>en_n = 0, en_values = [], en_vtype = 0\<rparr>"
  "entry_add [FloatValue 1 2, StringValue 3 s] \<lparr>en_n = 0, en_values = [], en_vtype = 0\<rparr> =
    Inr \<lparr>en_n = 2, en_values = [FloatValue 1 2, StringValue 3 s], en_vtype = 1\<rparr>"
  by (simp_all add: newEntryValues_def entry_add_def valueType_def)

lemma encode_chunk_mixed:
  assumes "s8b_package P wv er dv dr" and "er (te_enc (timeEncoderPool enc)) ws"
    and w: "u \<in> set vs" "w \<in> set vs" "value_kind u \<noteq> value_kind w" "EmptyValue \<notin> set vs"
  shows "encode_chunk P S W enc vs = Inl (GoPanic ''interface conversion'')"
proof -
  obtain t0 where t: "TimeEncoder_Reset P (timeEncoderPool enc) = Inr t0"
    using s8b_package.TimeEncoder_Reset_ok [OF assms(1,2)] by blast
  obtain x where x: "x \<in> set vs" "value_kind x \<noteq> value_kind (vs ! 0)" using w by metis
  have m: "write_values get tw vw vs t0 s = Inl (GoPanic ''interface conversion'')" if "get x = None"
    for get :: "Value \<Rightarrow> 'z option" and tw :: "'a time_encoder \<Rightarrow> i64 \<Rightarrow> 'a time_encoder" and vw :: "'y \<Rightarrow> 'z \<Rightarrow> 'y" and s
    by (rule write_values_mixed) (use x that in auto)
  have "vs ! 0 \<noteq> EmptyValue" using w(1,4) nth_mem [of 0 vs] by (metis length_pos_if_in_set)
  then show ?thesis
    using x(2) as_kind [of x]
    by (cases "vs ! 0") (simp_all add: encode_chunk_def t m encodeFloatBlockUsing_def encodeIntegerBlockUsing_def
        encodeUnsignedBlockUsing_def encodeBooleanBlockUsing_def encodeStringBlockUsing_def del: write_values.simps)
qed

lemma vmap_distinct: "distinct (map tm vs) \<Longrightarrow> x \<in> set vs \<Longrightarrow> vmap tm vs (tm x) = Some x"
proof (induction vs)
  case (Cons y vs)
  have "vmap tm vs (tm y) = None" using Cons.prems(1) dom_vmap [of tm vs] by (auto simp: domIff [symmetric])
  then show ?case using Cons by (auto simp: map_add_def split: option.split)
qed simp

lemma distinct_Deduplicate:
  assumes "distinct (map tm vs)"
  shows "set (vals_Deduplicate tm vs) = set vs" "length (vals_Deduplicate tm vs) = length vs"
proof -
  let ?d = "vals_Deduplicate tm vs"
  have d: "vmap tm ?d = vmap tm vs" by (rule vmap_Deduplicate)
  have "x \<in> set ?d" if "x \<in> set vs" for x
    using vmap_distinct [OF assms that] d vmap_Some [of tm ?d] by metis
  then show s: "set ?d = set vs" using set_Deduplicate [of tm vs] by blast
  show "length ?d = length vs"
    using s assms ascending_distinct [OF vals_Deduplicate_ascending, of tm vs] by (metis distinct_card distinct_map)
qed

text \<open>
  C24: unsigned values escape the type check of the cache. \<^verbatim>\<open>valueType\<close> has no case for them, so when the first values of a new key are unsigned,
  the entry has no type, and a following write of any values, within the limit and the counters, is admitted too. When one of
  those is not unsigned, all timestamps differ and they fit one block, the key iterator panics on the deduplicated
  entry when the snapshot is written, instead of the cache reporting a type conflict to the writer.
\<close>

theorem unsigned_entry_accepts_others:
  assumes "cache_run h evs F c" and "ring_entry h key (store c) = None" and "key \<noteq> []"
    and "us \<noteq> []" and "list_all (\<lambda>v. value_kind v = Some BlockUnsigned) us" and "vs \<noteq> []"
    and "room c (vals_Size Value_Size us + vals_Size Value_Size vs + 2 * length key)"
    and "maxSize c = 0 \<or> unat (cache_Size c) + vals_Size Value_Size us + vals_Size Value_Size vs + length key \<le> unat (maxSize c)"
    and "s8b_package P wv er dv dr" and "er (te_enc (timeEncoderPool (encs i))) ws"
  shows "case cache_Write h key us c of (err1, c1) \<Rightarrow>
    (case cache_Write h key vs c1 of (err2, c2) \<Rightarrow>
       err1 = None \<and> err2 = None \<and> cache_values h key c2 = us @ vs \<and>
       (EmptyValue \<notin> set vs \<and> (\<exists>v\<in>set vs. value_kind v \<noteq> Some BlockUnsigned) \<and> distinct (map UnixNano (us @ vs)) \<and>
          int (length (us @ vs)) \<le> sz \<longrightarrow>
        encode_blocks P S W encs sz key i (vals_Deduplicate UnixNano (cache_values h key c2)) = Inl (GoPanic ''interface conversion'')))"
proof -
  note c = cache_run_ok [OF assms(1)]
  obtain err1 c1 where w1: "cache_Write h key us c = (err1, c1)" by force
  have r1: "room c (vals_Size Value_Size us + length key)" using assms(7) by (simp add: room_def)
  have t: "valueType v = 0" if "v \<in> set us" for v
    using assms(5) that by (cases v) (auto simp: list_all_iff block_tags valueType_def)
  then have a: "admits (kinds h (store c) key) us" "kind_after (kinds h (store c) key) us = 0"
    using assms(2,4) by (auto simp: kinds_def admits_def kind_after_def list_all_iff)
  note e1 = cache_Write_exact [OF c assms(3,4) r1, unfolded w1 prod.case]
  have 1: "err1 = None" "cache_values h key c1 = us" "unat (cache_Size c1) = unat (cache_Size c) + vals_Size Value_Size us + length key"
    using e1 a(1) assms(2,8) by (auto simp: cache_values_def word_less_nat_alt split: if_splits)
  note o1 = cache_Write_ok [OF c assms(3,4) r1 w1]
  have m1: "maxSize c1 = maxSize c" using w1 by (auto simp: cache_Write_def state_defs Let_def split: if_splits prod.splits sum.splits)
  have k1: "kinds h (store c1) key = Some 0" using o1(5) 1(1) a(2) by simp
  have r2: "room c1 (vals_Size Value_Size vs + length key)"
    using cache_Size_unat [OF o1(1)] cache_Size_unat [OF c] 1(3) assms(7) by (simp add: room_def)
  obtain err2 c2 where w2: "cache_Write h key vs c1 = (err2, c2)" by force
  note e2 = cache_Write_exact [OF o1(1) assms(3,6) r2, unfolded w2 prod.case]
  have 2: "err2 = None" "cache_values h key c2 = us @ vs"
    using e2 k1 1 m1 assms(8) by (auto simp: admits_def word_less_nat_alt split: if_splits)
  have "encode_blocks P S W encs sz key i (vals_Deduplicate UnixNano (us @ vs)) = Inl (GoPanic ''interface conversion'')"
    if v: "EmptyValue \<notin> set vs" "v \<in> set vs" "value_kind v \<noteq> Some BlockUnsigned" and d: "distinct (map UnixNano (us @ vs))"
      and l: "int (length (us @ vs)) \<le> sz" for v
  proof -
    let ?d = "vals_Deduplicate UnixNano (us @ vs)"
    note dd = distinct_Deduplicate [OF d]
    obtain u where u: "u \<in> set us" using assms(4) by (cases us) auto
    have "encode_chunk P S W (encs i) ?d = Inl (GoPanic ''interface conversion'')"
      by (rule encode_chunk_mixed [OF assms(9,10), of u _ v]) (use dd(1) u v assms(5) in \<open>auto simp: list_all_iff\<close>)
    moreover have "?d \<noteq> []" using dd(2) assms(4) by (cases ?d) auto
    moreover have "\<not> int (length us) + int (length vs) \<le> 0" using assms(4) by (cases us) simp_all
    ultimately show ?thesis using l dd(2) by (subst encode_blocks.simps) (simp add: Let_def)
  qed
  then show ?thesis using 1(1) 2 by (auto simp: w1 w2)
qed

theorem unsigned_entry_accepts_others_witness:
  "case cache_Write (\<lambda>_. 0) [7] [UnsignedValue 1 5] (NewCache 0 0) of (err1, c1) \<Rightarrow>
    (case cache_Write (\<lambda>_. 0) [7] [FloatValue 2 7] c1 of (err2, c2) \<Rightarrow>
       err1 = None \<and> err2 = None \<and> cache_values (\<lambda>_. 0) [7] c2 = [UnsignedValue 1 5, FloatValue 2 7] \<and>
       encode_blocks s8b_repo snappy_stored list_stream (\<lambda>_. new_encoders s8b_repo list_stream) 1000 [7] 0
         (vals_Deduplicate UnixNano (cache_values (\<lambda>_. 0) [7] c2)) = Inl (GoPanic ''interface conversion''))"
proof -
  have r: "room (NewCache 0 0) (vals_Size Value_Size [UnsignedValue 1 5] + vals_Size Value_Size [FloatValue 2 7] + 2 * length [7 :: u8])"
    by (simp add: room_def NewCache_def newCacheTracker_def vals_Size_sum)
  have m: "ring_entry (\<lambda>_. 0) [7] (store (NewCache 0 0)) = None" "maxSize (NewCache 0 0) = 0" by (simp_all add: NewCache_def)
  show ?thesis
    using unsigned_entry_accepts_others [where S = snappy_stored and W = list_stream and sz = 1000 and us = "[UnsignedValue 1 5]"
        and vs = "[FloatValue 2 7]" and i = 0 and encs = "\<lambda>_. new_encoders s8b_repo list_stream",
        OF run_new m(1) _ _ _ _ r disjI1 [OF m(2)] repo.s8b_package_axioms new_pools_ok(1)]
    by (auto simp: block_tags UnixNano_def split: prod.splits)
qed

end
