(* ===== verification/Names.thy ===== *)
theory Names
  imports Go_Prelude "HOL-Library.Sublist"
begin

text \<open>
  Identifiers and names: the hexadecimal form of an ID (\<^verbatim>\<open>id.go\<close>), the sixteen bytes that name the bucket
  of an organization (\<^verbatim>\<open>tsdb/explode.go\<close>), and the escaping of measurement names and tags (\<^verbatim>\<open>models/points.go\<close>). A
  bucket's series keys start with its escaped name and a comma, and a deletion selects the keys by that prefix.
\<close>

section \<open>IDs\<close>

definition IDLength :: nat where "IDLength = 16"

definition ErrInvalidID :: go_error where "ErrInvalidID = GoError ''invalid ID''"
definition ErrInvalidIDLength :: go_error where "ErrInvalidIDLength = GoError ''id must have a length of 16 bytes''"

definition ID_Valid :: "u64 \<Rightarrow> bool" where "ID_Valid i \<longleftrightarrow> i \<noteq> 0"

text \<open>One digit of \<^verbatim>\<open>strconv.ParseUint(s, 16, 64)\<close>; both cases are accepted.\<close>

definition hex_value :: "u8 \<Rightarrow> u64 option" where
  "hex_value c =
     (if 48 \<le> c \<and> c \<le> 57 then Some (ucast c - 48)
      else if 97 \<le> c \<and> c \<le> 102 then Some (ucast c - 87)
      else if 65 \<le> c \<and> c \<le> 70 then Some (ucast c - 55)
      else None)"

text \<open>Sixteen digits fit 64 bits, so the range error of \<^verbatim>\<open>ParseUint\<close> cannot occur.\<close>

fun parse_hex :: "u64 \<Rightarrow> bytes \<Rightarrow> u64 option" where
  "parse_hex n [] = Some n"
| "parse_hex n (c # cs) = (case hex_value c of None \<Rightarrow> None | Some d \<Rightarrow> parse_hex (n * 16 + d) cs)"

definition ID_Decode :: "bytes \<Rightarrow> u64 res" where
  "ID_Decode b =
     (if length b \<noteq> IDLength then Inl ErrInvalidIDLength
      else case parse_hex 0 b of
        None \<Rightarrow> Inl ErrInvalidID
      | Some r \<Rightarrow> if ID_Valid r then Inr r else Inl ErrInvalidID)"

definition hex_digit :: "u8 \<Rightarrow> u8" where
  "hex_digit n = (if n < 10 then 48 + n else 87 + n)"

definition hex_encode :: "bytes \<Rightarrow> bytes" where
  "hex_encode b = concat (map (\<lambda>c. [hex_digit (drop_bit 4 c), hex_digit (c AND 15)]) b)"

definition ID_Encode :: "u64 \<Rightarrow> bytes res" where
  "ID_Encode i = (if \<not> ID_Valid i then Inl ErrInvalidID else Inr (hex_encode (put_u64 i)))"

definition ID_String :: "u64 \<Rightarrow> bytes" where
  "ID_String i = (case ID_Encode i of Inl _ \<Rightarrow> [] | Inr s \<Rightarrow> s)"

definition IDFromString :: "bytes \<Rightarrow> u64 res" where
  "IDFromString str = ID_Decode str"

section \<open>Names of buckets\<close>

definition EncodeName :: "u64 \<Rightarrow> u64 \<Rightarrow> bytes" where
  "EncodeName org bucket = put_u64 org @ put_u64 bucket"

definition EncodeOrgName :: "u64 \<Rightarrow> bytes" where
  "EncodeOrgName org = put_u64 org"

definition DecodeName :: "bytes \<Rightarrow> u64 \<times> u64" where
  "DecodeName name = (get_u64 (take 8 name), get_u64 (take 8 (drop 8 name)))"

text \<open>A slice that is too short makes the slice expressions panic.\<close>

definition DecodeNameSlice :: "bytes \<Rightarrow> (u64 \<times> u64) res" where
  "DecodeNameSlice name =
     (if length name < 16 then Inl (GoPanic ''slice bounds out of range'')
      else Inr (get_u64 (take 8 name), get_u64 (take 8 (drop 8 name))))"

section \<open>Escaping\<close>

text \<open>\<^verbatim>\<open>bytes.Replace(s, old, new, -1)\<close> for a non-empty \<open>old\<close>.\<close>

function bytes_replace :: "bytes \<Rightarrow> bytes \<Rightarrow> bytes \<Rightarrow> bytes" where
  "bytes_replace old new s =
     (if s = [] then []
      else if old \<noteq> [] \<and> prefix old s then new @ bytes_replace old new (drop (length old) s)
      else hd s # bytes_replace old new (tl s))"
  by auto
termination by (relation "measure (\<lambda>(old, new, s). length s)") auto

declare bytes_replace.simps [simp del]

type_synonym escape_set = "u8 \<times> bytes"

definition measurementEscapeCodes :: "escape_set list" where
  "measurementEscapeCodes = [(44, [92, 44]), (32, [92, 32])]"

definition tagEscapeCodes :: "escape_set list" where
  "tagEscapeCodes = [(44, [92, 44]), (32, [92, 32]), (61, [92, 61])]"

definition escape_all :: "escape_set list \<Rightarrow> bytes \<Rightarrow> bytes" where
  "escape_all codes b = foldl (\<lambda>s (k, esc). if k \<in> set s then bytes_replace [k] esc s else s) b codes"

definition unescape_all :: "escape_set list \<Rightarrow> bytes \<Rightarrow> bytes" where
  "unescape_all codes b =
     (if 92 \<notin> set b then b
      else foldl (\<lambda>s (k, esc). if k \<in> set s then bytes_replace esc [k] s else s) b codes)"

definition EscapeMeasurement :: "bytes \<Rightarrow> bytes" where
  "EscapeMeasurement = escape_all measurementEscapeCodes"

definition UnescapeMeasurement :: "bytes \<Rightarrow> bytes" where
  "UnescapeMeasurement = unescape_all measurementEscapeCodes"

definition escapeTag :: "bytes \<Rightarrow> bytes" where
  "escapeTag = escape_all tagEscapeCodes"

definition unescapeTag :: "bytes \<Rightarrow> bytes" where
  "unescapeTag = unescape_all tagEscapeCodes"

text \<open>The replacer of \<^verbatim>\<open>EscapeStringField\<close> puts a backslash before quotes and backslashes.\<close>

definition EscapeStringField :: "bytes \<Rightarrow> bytes" where
  "EscapeStringField s = concat (map (\<lambda>c. if c = 34 \<or> c = 92 then [92, c] else [c]) s)"

fun unescape_string_loop :: "bytes \<Rightarrow> bytes" where
  "unescape_string_loop (c # d # s) =
     (if c = 92 \<and> (d = 92 \<or> d = 34) then d # unescape_string_loop s else c # unescape_string_loop (d # s))"
| "unescape_string_loop s = s"

definition unescapeStringField :: "bytes \<Rightarrow> bytes" where
  "unescapeStringField s = (if 92 \<notin> set s then s else unescape_string_loop s)"

section \<open>Series keys\<close>

record tag =
  tag_Key :: bytes
  tag_Value :: bytes

definition needsEscape :: "tag list \<Rightarrow> bool" where
  "needsEscape a = list_ex (\<lambda>t. list_ex (\<lambda>(k, esc). k \<in> set (tag_Key t) \<or> k \<in> set (tag_Value t)) tagEscapeCodes) a"

definition AppendHashKey :: "bytes \<Rightarrow> tag list \<Rightarrow> bytes" where
  "AppendHashKey dst a =
     (if a = [] then dst
      else
        let esc = (if needsEscape a then map (\<lambda>t. \<lparr>tag_Key = escapeTag (tag_Key t), tag_Value = escapeTag (tag_Value t)\<rparr>) a else a)
        in dst @ concat (map (\<lambda>k. if tag_Value k = [] then [] else 44 # tag_Key k @ 61 # tag_Value k) esc))"

text \<open>The key of a point made from tags, as \<^verbatim>\<open>ExplodePoints\<close> does for the points of a bucket.\<close>

definition AppendMakeKey :: "bytes \<Rightarrow> bytes \<Rightarrow> tag list \<Rightarrow> bytes" where
  "AppendMakeKey dst name tags = AppendHashKey (dst @ EscapeMeasurement (UnescapeMeasurement name)) tags"

definition MakeKey :: "bytes \<Rightarrow> tag list \<Rightarrow> bytes" where
  "MakeKey name tags = AppendMakeKey [] name tags"

definition MaxKeyLength :: nat where "MaxKeyLength = 65535"

definition seriesKeySizeV2 :: "bytes \<Rightarrow> bytes \<Rightarrow> bytes \<Rightarrow> nat" where
  "seriesKeySizeV2 key mm field = length mm + 3 + length field + 3 + length key + 4 + length field"

text \<open>
  The key of a point of the line protocol, behind the escaped name of its bucket. \<open>alloc\<close> is the result of
  \<^verbatim>\<open>checkAlloc\<close>, the memory limit of the request.
\<close>

definition newV2Key :: "bool \<Rightarrow> bytes \<Rightarrow> bytes \<Rightarrow> bytes \<Rightarrow> bytes res" where
  "newV2Key alloc orgBucket oldKey field =
     (if seriesKeySizeV2 oldKey orgBucket field > MaxKeyLength then Inl (GoError ''max key length exceeded'')
      else if \<not> alloc then Inl (GoError ''points: limit exceeded'')
      else Inr (orgBucket @ [44, 0, 61] @ oldKey @ [44, 255, 61] @ field))"

section \<open>Escaping is a code\<close>

text \<open>The characters of \<open>S\<close> get a backslash before them.\<close>

definition escaped :: "u8 set \<Rightarrow> bytes \<Rightarrow> bytes" where
  "escaped S s = concat (map (\<lambda>c. if c \<in> S then [92, c] else [c]) s)"

lemma escaped_simps [simp]:
  "escaped S [] = []" "escaped S (c # s) = (if c \<in> S then 92 # c # escaped S s else c # escaped S s)" "escaped {} s = s"
  by (induction s) (simp_all add: escaped_def)

lemma replace_Nil [simp]: "bytes_replace old new [] = []"
  by (simp add: bytes_replace.simps)

lemma replace_escape: "k \<notin> S \<Longrightarrow> k \<noteq> 92 \<Longrightarrow> bytes_replace [k] [92, k] (escaped S s) = escaped (insert k S) s"
proof (induction s)
  case (Cons c s)
  have r: "bytes_replace [k] [92, k] (d # t) = (if d = k then [92, k] @ bytes_replace [k] [92, k] t else d # bytes_replace [k] [92, k] t)" for d t
    by (subst bytes_replace.simps) auto
  from Cons show ?case by (auto simp: r)
qed simp

lemma escaped_head: "k \<in> S \<Longrightarrow> 92 \<notin> S \<Longrightarrow> \<not> prefix [k] (escaped S s)"
  by (cases s) auto

lemma replace_unescape: "k \<in> S \<Longrightarrow> 92 \<notin> S \<Longrightarrow> bytes_replace [92, k] [k] (escaped S s) = escaped (S - {k}) s"
proof (induction s)
  case (Cons c s)
  have k: "k \<noteq> 92" using Cons.prems by auto
  have r: "bytes_replace [92, k] [k] (d # t) =
      (if d = 92 \<and> prefix [k] t then k # bytes_replace [92, k] [k] (tl t) else d # bytes_replace [92, k] [k] t)" for d t
    by (subst bytes_replace.simps) (cases t, auto)
  have h: "\<not> prefix [k] (escaped S s)" by (rule escaped_head) (rule Cons.prems)+
  show ?case
  proof (cases "c = k")
    case True
    then show ?thesis using Cons k by (simp add: r del: One_nat_def)
  next
    case False
    then show ?thesis using Cons k h by (auto simp: r)
  qed
qed simp

lemma set_escaped: "c \<noteq> 92 \<Longrightarrow> c \<in> set (escaped S s) \<longleftrightarrow> c \<in> set s" "92 \<in> set (escaped S s) \<longleftrightarrow> 92 \<in> set s \<or> set s \<inter> S \<noteq> {}"
  by (induction s) auto

lemma escaped_cong: "set s \<inter> S = set s \<inter> T \<Longrightarrow> escaped S s = escaped T s"
proof (induction s)
  case (Cons c s)
  then have "c \<in> S \<longleftrightarrow> c \<in> T" "set s \<inter> S = set s \<inter> T" by auto
  with Cons.IH show ?case by simp
qed simp

lemma escape_step:
  "k \<notin> S \<Longrightarrow> k \<noteq> 92 \<Longrightarrow> (if k \<in> set (escaped S s) then bytes_replace [k] [92, k] (escaped S s) else escaped S s) = escaped (insert k S) s"
  by (auto simp: replace_escape set_escaped intro!: escaped_cong)

lemma unescape_step:
  assumes "k \<in> S" "92 \<notin> S"
  shows "(if k \<in> set (escaped S s) then bytes_replace [92, k] [k] (escaped S s) else escaped S s) = escaped (S - {k}) s"
proof -
  have "k \<noteq> 92" using assms by auto
  then show ?thesis using assms by (auto simp: replace_unescape set_escaped intro!: escaped_cong)
qed

lemmas escape_first = escape_step [where S = "{}", unfolded escaped_simps(3)]

lemma EscapeMeasurement_escaped: "EscapeMeasurement s = escaped {32, 44} s"
proof -
  have 1: "(if 44 \<in> set s then bytes_replace [44] [92, 44] s else s) = escaped {44} s" by (rule escape_first) simp_all
  have 2: "(if 32 \<in> set (escaped {44} s) then bytes_replace [32] [92, 32] (escaped {44} s) else escaped {44} s) = escaped {32, 44} s"
    by (rule escape_step) simp_all
  show ?thesis unfolding EscapeMeasurement_def escape_all_def measurementEscapeCodes_def foldl.simps prod.case 1 2 ..
qed

lemma escapeTag_escaped: "escapeTag s = escaped {61, 32, 44} s"
proof -
  have 1: "(if 44 \<in> set s then bytes_replace [44] [92, 44] s else s) = escaped {44} s" by (rule escape_first) simp_all
  have 2: "(if 32 \<in> set (escaped {44} s) then bytes_replace [32] [92, 32] (escaped {44} s) else escaped {44} s) = escaped {32, 44} s"
    by (rule escape_step) simp_all
  have 3: "(if 61 \<in> set (escaped {32, 44} s) then bytes_replace [61] [92, 61] (escaped {32, 44} s) else escaped {32, 44} s) = escaped {61, 32, 44} s"
    by (rule escape_step) simp_all
  show ?thesis unfolding escapeTag_def escape_all_def tagEscapeCodes_def foldl.simps prod.case 1 2 3 ..
qed

lemma unescape_escaped: "92 \<notin> set (escaped S s) \<Longrightarrow> escaped S s = s"
  using escaped_cong [of s S "{}"] set_escaped(2) [of S s] by auto

lemma Unescape_EscapeMeasurement: "UnescapeMeasurement (EscapeMeasurement s) = s"
proof -
  have 1: "(if 44 \<in> set (escaped {32, 44} s) then bytes_replace [92, 44] [44] (escaped {32, 44} s) else escaped {32, 44} s) = escaped {32} s"
    using unescape_step [of 44 "{32, 44}" s] by (simp add: insert_Diff_if)
  have 2: "(if 32 \<in> set (escaped {32} s) then bytes_replace [92, 32] [32] (escaped {32} s) else escaped {32} s) = s"
    using unescape_step [of 32 "{32}" s] by simp
  have "unescape_all measurementEscapeCodes (escaped {32, 44} s) = (if 92 \<notin> set (escaped {32, 44} s) then escaped {32, 44} s else s)"
    unfolding unescape_all_def measurementEscapeCodes_def foldl.simps prod.case 1 2 ..
  then show ?thesis using unescape_escaped [of "{32, 44}" s] by (simp add: UnescapeMeasurement_def EscapeMeasurement_escaped)
qed

lemma unescape_escapeTag: "unescapeTag (escapeTag s) = s"
proof -
  have 1: "(if 44 \<in> set (escaped {61, 32, 44} s) then bytes_replace [92, 44] [44] (escaped {61, 32, 44} s) else escaped {61, 32, 44} s) = escaped {61, 32} s"
    using unescape_step [of 44 "{61, 32, 44}" s] by (simp add: insert_Diff_if)
  have 2: "(if 32 \<in> set (escaped {61, 32} s) then bytes_replace [92, 32] [32] (escaped {61, 32} s) else escaped {61, 32} s) = escaped {61} s"
    using unescape_step [of 32 "{61, 32}" s] by (simp add: insert_Diff_if)
  have 3: "(if 61 \<in> set (escaped {61} s) then bytes_replace [92, 61] [61] (escaped {61} s) else escaped {61} s) = s"
    using unescape_step [of 61 "{61}" s] by simp
  have "unescape_all tagEscapeCodes (escaped {61, 32, 44} s) = (if 92 \<notin> set (escaped {61, 32, 44} s) then escaped {61, 32, 44} s else s)"
    unfolding unescape_all_def tagEscapeCodes_def foldl.simps prod.case 1 2 3 ..
  then show ?thesis using unescape_escaped [of "{61, 32, 44}" s] by (simp add: unescapeTag_def escapeTag_escaped)
qed

lemma EscapeStringField_escaped: "EscapeStringField s = escaped {34, 92} s"
  by (simp add: EscapeStringField_def escaped_def)

lemma unescape_string_escaped: "unescape_string_loop (escaped {34, 92} s) = s"
proof (induction s)
  case (Cons c s)
  then show ?case by (cases "escaped {34, 92} s") auto
qed simp

lemma unescape_EscapeStringField: "unescapeStringField (EscapeStringField s) = s"
  using unescape_escaped [of "{34, 92}" s] by (simp add: unescapeStringField_def EscapeStringField_escaped unescape_string_escaped)

section \<open>Names as prefixes\<close>

lemma escaped_prefix:
  assumes "length as = length bs" "as \<noteq> []"
  shows "prefix (escaped {32, 44} as) (escaped {32, 44} bs @ 44 # t) \<longleftrightarrow>
    as = bs \<or> butlast as = butlast bs \<and> (last as = 92 \<and> last bs \<in> {32, 44} \<or> last as = 44 \<and> last bs = 92)"
  using assms
proof (induction as bs rule: list_induct2)
  case (Cons a as b bs)
  show ?case
  proof (cases "as = []")
    case True
    then have "bs = []" using Cons.hyps by simp
    then show ?thesis using True by auto
  next
    case False
    then have "bs \<noteq> []" using Cons.hyps by auto
    have h: "hd (escaped {32, 44} cs) \<notin> {32, 44}" "escaped {32, 44} cs \<noteq> []" if "cs \<noteq> []" for cs using that by (cases cs; auto)+
    show ?thesis
      using Cons.IH [OF False] False \<open>bs \<noteq> []\<close> h [OF False] h [OF \<open>bs \<noteq> []\<close>]
      by (cases "escaped {32, 44} as"; cases "escaped {32, 44} bs") auto
  qed
qed simp

text \<open>A backslash before \<open>k\<close>; replacing the pair removes at least the first one.\<close>

fun has_pair :: "u8 \<Rightarrow> bytes \<Rightarrow> bool" where
  "has_pair k (c # d # s) = (c = 92 \<and> d = k \<or> has_pair k (d # s))"
| "has_pair k s = False"

lemma replace_pair:
  "bytes_replace [92, k] [k] (d # t) =
     (if d = 92 \<and> prefix [k] t then k # bytes_replace [92, k] [k] (tl t) else d # bytes_replace [92, k] [k] t)"
  by (subst bytes_replace.simps) (cases t, auto)

lemma replace_pair_first:
  "(\<not> has_pair k s \<longrightarrow> bytes_replace [92, k] [k] s = s) \<and>
   (has_pair k s \<longrightarrow> (\<exists>a r r'. s = a @ 92 # k # r \<and> bytes_replace [92, k] [k] s = a @ k # r'))"
proof (induction s)
  case (Cons d t)
  show ?case
  proof (cases "d = 92 \<and> prefix [k] t")
    case True
    then obtain u where "t = k # u" by (auto simp: prefix_def)
    then have "d # t = [] @ 92 # k # u" "bytes_replace [92, k] [k] (d # t) = [] @ k # bytes_replace [92, k] [k] u" "has_pair k (d # t)"
      using True by (simp_all add: replace_pair)
    then show ?thesis by blast
  next
    case False
    then have h: "has_pair k (d # t) = has_pair k t" by (cases t) auto
    have e: "bytes_replace [92, k] [k] (d # t) = d # bytes_replace [92, k] [k] t" unfolding replace_pair if_not_P [OF False] ..
    have "\<exists>a r r'. d # t = a @ 92 # k # r \<and> d # bytes_replace [92, k] [k] t = a @ k # r'" if p: "has_pair k t"
    proof -
      obtain a r r' where "t = a @ 92 # k # r" "bytes_replace [92, k] [k] t = a @ k # r'" using Cons p by blast
      then have "d # t = (d # a) @ 92 # k # r" "d # bytes_replace [92, k] [k] t = (d # a) @ k # r'" by simp_all
      then show ?thesis by blast
    qed
    then show ?thesis unfolding h e using Cons by simp
  qed
qed simp

lemma has_pair_set: "has_pair k s \<Longrightarrow> k \<in> set s \<and> 92 \<in> set s"
  by (induction k s rule: has_pair.induct) auto

lemma has_pair_append: "has_pair k (a @ 92 # k # r)"
  by (induction a) (auto, metis append_Cons has_pair.simps(1) neq_Nil_conv append_self_conv2)

text \<open>The first pair of the name is where the unescaped name differs from it.\<close>

lemma Unescape_first:
  "\<not> has_pair 44 n \<and> \<not> has_pair 32 n \<Longrightarrow> UnescapeMeasurement n = n"
  "has_pair 44 n \<or> has_pair 32 n \<Longrightarrow> \<exists>a x r r'. x \<in> {32, 44} \<and> n = a @ 92 # x # r \<and> UnescapeMeasurement n = a @ x # r'"
proof -
  define m where "m = (if 44 \<in> set n then bytes_replace [92, 44] [44] n else n)"
  define u where "u = (if 32 \<in> set m then bytes_replace [92, 32] [32] m else m)"
  have U: "UnescapeMeasurement n = (if 92 \<notin> set n then n else u)"
    by (simp add: UnescapeMeasurement_def unescape_all_def measurementEscapeCodes_def m_def u_def)
  have m: "\<not> has_pair 44 n \<longrightarrow> m = n" "has_pair 44 n \<longrightarrow> (\<exists>a r r'. n = a @ 92 # 44 # r \<and> m = a @ 44 # r')"
    using replace_pair_first [of 44 n] has_pair_set [of 44 n] by (auto simp: m_def)
  have u: "\<not> has_pair 32 m \<longrightarrow> u = m" "has_pair 32 m \<longrightarrow> (\<exists>a r r'. m = a @ 92 # 32 # r \<and> u = a @ 32 # r')"
    using replace_pair_first [of 32 m] has_pair_set [of 32 m] by (auto simp: u_def)
  show "UnescapeMeasurement n = n" if "\<not> has_pair 44 n \<and> \<not> has_pair 32 n" using that m u U by auto
  show "\<exists>a x r r'. x \<in> {32, 44} \<and> n = a @ 92 # x # r \<and> UnescapeMeasurement n = a @ x # r'" if p: "has_pair 44 n \<or> has_pair 32 n"
  proof -
    have un: "UnescapeMeasurement n = u" using U p has_pair_set by auto
    show ?thesis
    proof (cases "has_pair 44 n")
      case False
      then show ?thesis using p m u un by fastforce
    next
      case True
      then obtain a r r1 where a: "n = a @ 92 # 44 # r" "m = a @ 44 # r1" using m by blast
      show ?thesis
      proof (cases "has_pair 32 m")
        case False
        then show ?thesis using u un a by fastforce
      next
        case True
        then obtain b q q' where b: "m = b @ 92 # 32 # q" "u = b @ 32 # q'" using u by blast
        from a(2) b(1) have "a @ 44 # r1 = b @ 92 # 32 # q" by simp
        then consider v where "a = b @ 92 # 32 # v" | v where "b = a @ 44 # v"
          by (auto simp: append_eq_append_conv2 Cons_eq_append_conv append_eq_Cons_conv)
        then show ?thesis
        proof cases
          case 1
          then show ?thesis using a(1) b(2) un by fastforce
        next
          case 2
          then show ?thesis using a(1) b(2) un by fastforce
        qed
      qed
    qed
  qed
qed

lemma own_prefix:
  "prefix (EscapeMeasurement n) (EscapeMeasurement (UnescapeMeasurement n) @ t) \<longleftrightarrow> \<not> has_pair 44 n \<and> \<not> has_pair 32 n"
proof (cases "has_pair 44 n \<or> has_pair 32 n")
  case True
  then obtain a x r r' where x: "x \<in> {32, 44}" "n = a @ 92 # x # r" "UnescapeMeasurement n = a @ x # r'" using Unescape_first(2) by blast
  have "escaped {32, 44} n = escaped {32, 44} a @ 92 # 92 # x # escaped {32, 44} r"
    "escaped {32, 44} (UnescapeMeasurement n) = escaped {32, 44} a @ 92 # x # escaped {32, 44} r'"
    using x by (auto simp: escaped_def)
  then show ?thesis using True x(1) by (auto simp: EscapeMeasurement_escaped)
qed (simp add: Unescape_first(1))

lemma AppendHashKey_comma:
  assumes "list_ex (\<lambda>t. tag_Value t \<noteq> []) tags"
  shows "\<exists>t. AppendHashKey dst tags = dst @ 44 # t"
proof -
  have c: "\<exists>t. concat (map (\<lambda>k. if tag_Value k = [] then [] else 44 # tag_Key k @ 61 # tag_Value k) ts) = 44 # t"
    if "list_ex (\<lambda>t. tag_Value t \<noteq> []) ts" for ts
    using that by (induction ts) auto
  have "escapeTag v = [] \<longleftrightarrow> v = []" for v by (cases v) (auto simp: escapeTag_escaped)
  then have "list_ex (\<lambda>t. tag_Value t \<noteq> []) (map (\<lambda>t. \<lparr>tag_Key = escapeTag (tag_Key t), tag_Value = escapeTag (tag_Value t)\<rparr>) tags)"
    using assms by (auto simp: list_ex_iff)
  from c [OF this] c [OF assms] assms show ?thesis by (auto simp: AppendHashKey_def Let_def)
qed

section \<open>Hexadecimal digits\<close>

text \<open>Facts about one digit are checked for all values.\<close>

lemma all_between:
  assumes "list_all (\<lambda>n. P (of_nat n)) [m..<n]" "of_nat m \<le> c" "c < of_nat n" "m < n" "n < 256"
  shows "P (c :: u8)"
proof -
  have "unat (of_nat m :: u8) = m" "unat (of_nat n :: u8) = n" using assms(4,5) by (simp_all add: unat_of_nat)
  then have "unat c \<in> {m..<n}" using assms(2,3) by (simp add: word_le_nat_alt word_less_nat_alt)
  with assms(1) have "P (of_nat (unat c))" unfolding list_all_iff set_upt by (rule bspec)
  then show ?thesis by (simp only: of_nat_unat ucast_id)
qed

definition hex_lower :: "u8 \<Rightarrow> u8" where
  "hex_lower c = (if 65 \<le> c \<and> c \<le> 70 then c + 32 else c)"

lemma hex_value_digit: "x < 16 \<Longrightarrow> hex_value (hex_digit x) = Some (ucast x)"
  by (rule all_between [of _ 0 16 x]) (code_simp, simp_all)

lemma parse_byte: "hex_value (hex_digit (drop_bit 4 c)) = Some (ucast (drop_bit 4 c))" "hex_value (hex_digit (c AND 15)) = Some (ucast (c AND 15))"
    "(ucast (drop_bit 4 c) * 16 + ucast (c AND 15) :: u64) = ucast (c :: u8)"
proof -
  have m: "c AND 15 = take_bit 4 c" by (simp add: take_bit_eq_mask mask_eq_exp_minus_1)
  have "unat c < 256" using unsigned_less [of c] by simp
  then have "unat (drop_bit 4 c) < 16" by (simp add: unat_drop_bit_le)
  then show "hex_value (hex_digit (drop_bit 4 c)) = Some (ucast (drop_bit 4 c))" by (intro hex_value_digit) (simp add: word_less_nat_alt)
  have "unat (take_bit 4 c) < 16" using take_bit_nat_less_exp [of 4 "unat c"] by (simp add: unsigned_take_bit_eq)
  then show "hex_value (hex_digit (c AND 15)) = Some (ucast (c AND 15))" unfolding m by (intro hex_value_digit) (simp add: word_less_nat_alt)
  have "push_bit 4 (ucast (drop_bit 4 c)) + ucast (take_bit 4 c) = push_bit 4 (ucast (drop_bit 4 c)) OR (ucast (take_bit 4 c) :: u64)"
    by (rule disjunctive_add) (auto simp: bit_simps)
  also have "\<dots> = ucast c" by (rule bit_word_eqI) (auto simp: bit_simps dest: bit_imp_le_length)
  finally show "(ucast (drop_bit 4 c) * 16 + ucast (c AND 15) :: u64) = ucast c" by (simp add: m push_bit_eq_mult)
qed

lemma parse_digit: "hex_value c = Some d \<Longrightarrow> d < 16 \<and> hex_digit (ucast d) = hex_lower c"
proof -
  assume c: "hex_value c = Some d"
  then consider "48 \<le> c" "c < 58" | "97 \<le> c" "c < 103" | "65 \<le> c" "c < 71"
    by (auto simp: hex_value_def word_le_nat_alt word_less_nat_alt split: if_splits)
  then have "the (hex_value c) < 16 \<and> hex_digit (ucast (the (hex_value c))) = hex_lower c"
  proof cases
    case 1
    then show ?thesis by - (rule all_between [of _ 48 58 c], code_simp, simp_all)
  next
    case 2
    then show ?thesis by - (rule all_between [of _ 97 103 c], code_simp, simp_all)
  next
    case 3
    then show ?thesis by - (rule all_between [of _ 65 71 c], code_simp, simp_all)
  qed
  with c show ?thesis by simp
qed

lemma join_digits:
  assumes "d < 16" "e < 16"
  shows "drop_bit 4 (ucast (d * 16 + e :: u64) :: u8) = ucast d \<and> (ucast (d * 16 + e) :: u8) AND 15 = ucast e \<and>
    (ucast (ucast (d * 16 + e) :: u8) :: u64) = d * 16 + e"
proof -
  have "list_all (\<lambda>m. list_all (\<lambda>n. drop_bit 4 (ucast (of_nat m * 16 + of_nat n :: u64) :: u8) = ucast (of_nat m :: u64) \<and>
    (ucast (of_nat m * 16 + of_nat n :: u64) :: u8) AND 15 = ucast (of_nat n :: u64) \<and>
    (ucast (ucast (of_nat m * 16 + of_nat n :: u64) :: u8) :: u64) = of_nat m * 16 + of_nat n) [0..<16]) [0..<16]" by code_simp
  moreover have "unat d \<in> {0..<16}" "unat e \<in> {0..<16}" using assms by (simp_all add: word_less_nat_alt)
  ultimately have "drop_bit 4 (ucast (of_nat (unat d) * 16 + of_nat (unat e) :: u64) :: u8) = ucast (of_nat (unat d) :: u64) \<and>
    (ucast (of_nat (unat d) * 16 + of_nat (unat e) :: u64) :: u8) AND 15 = ucast (of_nat (unat e) :: u64) \<and>
    (ucast (ucast (of_nat (unat d) * 16 + of_nat (unat e) :: u64) :: u8) :: u64) = of_nat (unat d) * 16 + of_nat (unat e)"
    unfolding list_all_iff set_upt by blast
  then show ?thesis by (simp only: of_nat_unat ucast_id)
qed

lemma append_byte: "push_bit 8 acc OR ucast c = acc * 256 + (ucast (c :: u8) :: u64)"
proof -
  have "push_bit 8 acc + ucast c = push_bit 8 acc OR (ucast c :: u64)"
    by (rule disjunctive_add) (auto simp: bit_simps dest: bit_imp_le_length)
  then show ?thesis by (simp add: push_bit_eq_mult)
qed

lemma parse_hex_encode: "parse_hex n (hex_encode b @ r) = parse_hex (foldl (\<lambda>acc c. push_bit 8 acc OR ucast c) n b) r"
proof (induction b arbitrary: n)
  case (Cons c b)
  have "parse_hex n (hex_encode (c # b) @ r) = parse_hex ((n * 16 + ucast (drop_bit 4 c)) * 16 + ucast (c AND 15)) (hex_encode b @ r)"
    using parse_byte [of c] by (simp add: hex_encode_def)
  also have "(n * 16 + ucast (drop_bit 4 c)) * 16 + ucast (c AND 15) = push_bit 8 n OR ucast c"
    unfolding append_byte using parse_byte [of c] by (simp add: algebra_simps)
  finally show ?case using Cons by simp
qed (simp add: hex_encode_def)

lemma length_hex_encode [simp]: "length (hex_encode b) = 2 * length b"
  by (induction b) (simp_all add: hex_encode_def)

lemma ID_Decode_Encode:
  assumes "ID_Valid i"
  shows "ID_Decode (hex_encode (put_u64 i)) = Inr i"
proof -
  have "foldl (\<lambda>acc c. push_bit 8 acc OR ucast c) 0 (put_u64 i) = i"
    using get_put_u64_plain [of i] by (simp add: get_u64_def be_word_def)
  then have "parse_hex 0 (hex_encode (put_u64 i)) = Some i" using parse_hex_encode [of 0 "put_u64 i" "[]"] by simp
  then show ?thesis using assms by (simp add: ID_Decode_def IDLength_def)
qed

lemma be_bytes_snoc: "be_bytes (Suc n) w = be_bytes n (drop_bit 8 w) @ [ucast w]"
  by (induction n) (simp_all add: add.commute)

lemma be_word_snoc: "be_word (b @ [c]) = push_bit 8 (be_word b) OR ucast c"
  by (simp add: be_word_def)

lemma be_word_high: "8 * length b \<le> k \<Longrightarrow> \<not> bit (be_word b) k"
proof (induction b arbitrary: k rule: rev_induct)
  case (snoc c b)
  then have "\<not> bit (be_word b) (k - 8)" by simp
  then show ?case using snoc.prems by (auto simp: be_word_snoc bit_simps dest: bit_imp_le_length)
qed (simp add: be_word_def)

lemma be_bytes_be_word: "length b \<le> 8 \<Longrightarrow> be_bytes (length b) (be_word b) = b"
proof (induction b rule: rev_induct)
  case (snoc c b)
  have "drop_bit 8 (be_word (b @ [c])) = be_word b"
  proof (rule bit_word_eqI)
    fix m
    show "bit (drop_bit 8 (be_word (b @ [c]))) m = bit (be_word b) m"
      using be_word_high [of b m] snoc.prems
      by (cases "m + 8 < 64") (auto simp: be_word_snoc bit_simps add.commute dest: bit_imp_le_length)
  qed
  moreover have "(ucast (be_word (b @ [c])) :: u8) = c"
    by (rule bit_word_eqI) (auto simp: be_word_snoc bit_simps)
  ultimately show ?case using snoc by (simp add: be_bytes_snoc del: be_bytes.simps)
qed simp

lemma parse_hex_bytes:
  assumes "parse_hex n s = Some v" "length s = 2 * m"
  shows "\<exists>b. length b = m \<and> hex_encode b = map hex_lower s"
  using assms
proof (induction m arbitrary: n s)
  case (Suc m)
  then obtain c d t where s: "s = c # d # t" by (cases s; cases "tl s") auto
  from Suc.prems(1) obtain x y where x: "hex_value c = Some x" "hex_value d = Some y" "parse_hex ((n * 16 + x) * 16 + y) t = Some v"
    by (auto simp: s split: option.splits)
  from Suc.IH [OF x(3)] Suc.prems(2) s obtain b where b: "length b = m" "hex_encode b = map hex_lower t" by auto
  have "x < 16" "y < 16" "hex_digit (ucast x) = hex_lower c" "hex_digit (ucast y) = hex_lower d"
    using parse_digit [of c] parse_digit [of d] x by simp_all
  then have "hex_encode (ucast (x * 16 + y) # b) = map hex_lower s"
    using join_digits [of x y] b by (simp add: hex_encode_def s)
  then show ?case using b by (intro exI [of _ "ucast (x * 16 + y) # b"]) simp
qed (simp add: hex_encode_def)

lemma hex_value_lower: "hex_value (hex_lower c) = hex_value c"
proof (cases "65 \<le> c \<and> c < 71")
  case True
  then show ?thesis by - (rule all_between [of _ 65 71 c], code_simp, simp_all)
next
  case False
  then have "hex_lower c = c" by (auto simp: hex_lower_def word_le_nat_alt word_less_nat_alt)
  then show ?thesis by simp
qed

lemma parse_hex_lower: "parse_hex n (map hex_lower s) = parse_hex n s"
  by (induction s arbitrary: n) (auto simp: hex_value_lower split: option.split)

lemma ID_Encode_Decode:
  assumes "ID_Decode s = Inr i"
  shows "ID_Encode i = Inr (map hex_lower s)" "length s = 16"
proof -
  from assms have s: "length s = 2 * 8" "parse_hex 0 s = Some i" "ID_Valid i"
    by (auto simp: ID_Decode_def IDLength_def split: if_splits option.splits)
  then obtain b where b: "length b = 8" "hex_encode b = map hex_lower s" using parse_hex_bytes by blast
  have "Some i = parse_hex 0 (hex_encode b)" using s(2) by (simp add: b(2) parse_hex_lower)
  then have "i = be_word b" using parse_hex_encode [of 0 b "[]"] by (simp add: be_word_def)
  then have "put_u64 i = b" using be_bytes_be_word [of b] b(1) by (simp add: put_u64_def)
  then show "ID_Encode i = Inr (map hex_lower s)" "length s = 16" using s b by (simp_all add: ID_Encode_def)
qed

text \<open>
  C19: IDs as text. Encoding a valid ID gives sixteen characters that decode to it; what decodes to an ID is its
  encoding in lower or upper case; and decoding never yields the invalid ID.
\<close>

theorem ID_text_roundtrip:
  "(ID_Valid i \<longrightarrow> (\<exists>s. ID_Encode i = Inr s \<and> length s = IDLength \<and> ID_Decode s = Inr i)) \<and>
   (ID_Decode t = Inr j \<longrightarrow> ID_Valid j \<and> ID_Encode j = Inr (map hex_lower t))"
proof (intro conjI impI)
  show "\<exists>s. ID_Encode i = Inr s \<and> length s = IDLength \<and> ID_Decode s = Inr i" if "ID_Valid i"
    using ID_Decode_Encode [OF that] that by (simp add: ID_Encode_def IDLength_def)
  show "ID_Valid j" if "ID_Decode t = Inr j" using that by (auto simp: ID_Decode_def split: if_splits option.splits)
qed (rule ID_Encode_Decode)

theorem ID_text_roundtrip_witness:
  "ID_Decode [48, 50, 68, 101, 102, 48, 50, 49, 48, 57, 55, 99, 54, 48, 48, 48] = Inr 0x02def021097c6000 \<and>
   ID_Encode 0x02def021097c6000 = Inr [48, 50, 100, 101, 102, 48, 50, 49, 48, 57, 55, 99, 54, 48, 48, 48]"
proof -
  have d: "ID_Decode [48, 50, 68, 101, 102, 48, 50, 49, 48, 57, 55, 99, 54, 48, 48, 48] = Inr 0x02def021097c6000" by code_simp
  have "map hex_lower [48, 50, 68, 101, 102, 48, 50, 49, 48, 57, 55, 99, 54, 48, 48, 48] =
    [48, 50, 100, 101, 102, 48, 50, 49, 48, 57, 55, 99, 54, 48, 48, 48]" by code_simp
  then show ?thesis
    using d ID_text_roundtrip [of 0 "[48, 50, 68, 101, 102, 48, 50, 49, 48, 57, 55, 99, 54, 48, 48, 48]" "0x02def021097c6000"] by simp
qed

text \<open>
  C20: escaping loses nothing. Measurement names, tags and string fields are restored by the unescaping functions, whatever their bytes.
\<close>

theorem escapes_roundtrip:
  "UnescapeMeasurement (EscapeMeasurement s) = s \<and> unescapeTag (escapeTag s) = s \<and> unescapeStringField (EscapeStringField s) = s"
  by (simp add: Unescape_EscapeMeasurement unescape_escapeTag unescape_EscapeStringField)

lemma length_EncodeName [simp]: "length (EncodeName org bucket) = 16" "EncodeName org bucket \<noteq> []"
  by (simp_all add: EncodeName_def)

lemma EncodeName_inject: "EncodeName o1 b1 = EncodeName o2 b2 \<longleftrightarrow> o1 = o2 \<and> b1 = b2"
  by (simp add: EncodeName_def) (metis get_put_u64_plain)

text \<open>
  C18: which keys a deletion in a bucket selects, by the prefix of the escaped name of the bucket. (1) Among the keys of the line protocol
  handler the prefix of a bucket always matches the bucket's own keys; it matches a key of another bucket, although both names have sixteen
  bytes, exactly when the names agree up to their last byte and that byte is a backslash in the deleted one and a comma or a space in the other,
  or a comma in the deleted one and a backslash in the other: backslashes are not escaped. (2) Among the keys of \<^verbatim>\<open>ExplodePoints\<close>, which unescapes the raw name first,
  the prefix matches the bucket's own keys exactly when the name has no backslash before a comma or a space; for a key
  of a bucket whose name has none, (1) holds too. The points have a tag with a value, as exploded points do.
\<close>

theorem bucket_prefix_matches:
  assumes "list_ex (\<lambda>t. tag_Value t \<noteq> []) tags"
  shows "(newV2Key alloc (EscapeMeasurement (EncodeName o2 b2)) oldKey field = Inr key \<longrightarrow>
      (prefix (EscapeMeasurement (EncodeName o1 b1)) (key @ rest) \<longleftrightarrow>
        (o1 = o2 \<and> b1 = b2) \<or>
        butlast (EncodeName o1 b1) = butlast (EncodeName o2 b2) \<and>
          (last (EncodeName o1 b1) = 92 \<and> last (EncodeName o2 b2) \<in> {32, 44} \<or> last (EncodeName o1 b1) = 44 \<and> last (EncodeName o2 b2) = 92))) \<and>
    (prefix (EscapeMeasurement (EncodeName o1 b1)) (MakeKey (EncodeName o1 b1) tags @ rest) \<longleftrightarrow>
      \<not> has_pair 44 (EncodeName o1 b1) \<and> \<not> has_pair 32 (EncodeName o1 b1)) \<and>
    (\<not> has_pair 44 (EncodeName o2 b2) \<and> \<not> has_pair 32 (EncodeName o2 b2) \<longrightarrow>
      (prefix (EscapeMeasurement (EncodeName o1 b1)) (MakeKey (EncodeName o2 b2) tags @ rest) \<longleftrightarrow>
        (o1 = o2 \<and> b1 = b2) \<or>
        butlast (EncodeName o1 b1) = butlast (EncodeName o2 b2) \<and>
          (last (EncodeName o1 b1) = 92 \<and> last (EncodeName o2 b2) \<in> {32, 44} \<or> last (EncodeName o1 b1) = 44 \<and> last (EncodeName o2 b2) = 92)))"
proof -
  let ?n1 = "EncodeName o1 b1" and ?n2 = "EncodeName o2 b2"
  have p: "prefix (EscapeMeasurement ?n1) (EscapeMeasurement ?n2 @ 44 # t) \<longleftrightarrow> (o1 = o2 \<and> b1 = b2) \<or>
      butlast ?n1 = butlast ?n2 \<and> (last ?n1 = 92 \<and> last ?n2 \<in> {32, 44} \<or> last ?n1 = 44 \<and> last ?n2 = 92)" for t
    using escaped_prefix [of ?n1 ?n2 t] by (simp add: EscapeMeasurement_escaped EncodeName_inject)
  have k: "\<exists>t. MakeKey n tags @ rest = EscapeMeasurement (UnescapeMeasurement n) @ 44 # t" for n
    using AppendHashKey_comma [OF assms, of "EscapeMeasurement (UnescapeMeasurement n)"] by (auto simp: MakeKey_def AppendMakeKey_def)
  obtain t1 t2 where "MakeKey ?n1 tags @ rest = EscapeMeasurement (UnescapeMeasurement ?n1) @ 44 # t1"
    "MakeKey ?n2 tags @ rest = EscapeMeasurement (UnescapeMeasurement ?n2) @ 44 # t2" using k by metis
  then show ?thesis using own_prefix [of ?n1 "44 # t1"] p Unescape_first(1) [of ?n2] by (auto simp: newV2Key_def split: if_splits)
qed

text \<open>Two buckets of one organization whose names differ in the last byte, a backslash and a comma.\<close>

theorem bucket_prefix_matches_witness:
  "prefix (EscapeMeasurement (EncodeName 1 92)) (EscapeMeasurement (EncodeName 1 44) @ [44, 0, 61] @ [109] @ [44, 255, 61] @ [102]) \<and>
   \<not> prefix (EscapeMeasurement (EncodeName 1 0x5C2C)) (MakeKey (EncodeName 1 0x5C2C) [\<lparr>tag_Key = [0], tag_Value = [109]\<rparr>])"
proof -
  have l: "length (EscapeMeasurement (EncodeName 1 44)) = 17" by code_simp
  have k: "newV2Key True (EscapeMeasurement (EncodeName 1 44)) [109] [102] =
      Inr (EscapeMeasurement (EncodeName 1 44) @ [44, 0, 61] @ [109] @ [44, 255, 61] @ [102])"
    by (simp add: newV2Key_def seriesKeySizeV2_def MaxKeyLength_def l)
  have e: "butlast (EncodeName 1 92) = butlast (EncodeName 1 44) \<and> last (EncodeName 1 92) = 92 \<and> last (EncodeName 1 44) = 44" by code_simp
  have h: "has_pair 44 (EncodeName 1 0x5C2C)" by code_simp
  let ?t = "[\<lparr>tag_Key = [0], tag_Value = [109]\<rparr>]"
  have t: "list_ex (\<lambda>t. tag_Value t \<noteq> []) ?t" by simp
  from bucket_prefix_matches [OF t, of True 1 44 "[109]" "[102]" _ 1 92 "[]"] bucket_prefix_matches [OF t, of True 1 44 "[109]" "[102]" "[]" 1 "0x5C2C" "[]"]
  show ?thesis using k e h by auto
qed

end
