(* ===== verification/Wal_Entry.thy ===== *)
theory Wal_Entry
  imports Cache_Ring Names
begin

text \<open>
  The entries of the write-ahead log (\<^verbatim>\<open>storage/wal/wal.go\<close>): a batch of values by key, and a deletion in a bucket. Each entry
  encodes itself into a buffer of the size it computes before, and decodes itself from bytes that may be
  corrupt. A Go map is an association list whose order stands for one iteration order. The buffers come
  from a pool; every byte of them that is returned is written first, so their contents do not matter.
\<close>

section \<open>Types\<close>

definition float64EntryType :: u8 where "float64EntryType = 1"
definition integerEntryType :: u8 where "integerEntryType = 2"
definition booleanEntryType :: u8 where "booleanEntryType = 3"
definition stringEntryType :: u8 where "stringEntryType = 4"
definition unsignedEntryType :: u8 where "unsignedEntryType = 5"

lemmas entry_types = float64EntryType_def integerEntryType_def booleanEntryType_def stringEntryType_def unsignedEntryType_def

definition WriteWALEntryType :: u8 where "WriteWALEntryType = 1"
definition DeleteBucketRangeWALEntryType :: u8 where "DeleteBucketRangeWALEntryType = 4"

definition ErrWALCorrupt :: go_error where "ErrWALCorrupt = GoError ''corrupted WAL entry''"

type_synonym batch = "(series_key \<times> Value list) list"

record write_entry =
  we_Values :: batch
  we_sz :: nat

record bucket_delete =
  de_OrgID :: u64
  de_BucketID :: u64
  de_Min :: i64
  de_Max :: i64
  de_Predicate :: bytes

datatype WALEntry = WriteWALEntry write_entry | DeleteBucketRangeWALEntry bucket_delete

definition WALEntry_Type :: "WALEntry \<Rightarrow> u8" where
  "WALEntry_Type e = (case e of WriteWALEntry _ \<Rightarrow> WriteWALEntryType | DeleteBucketRangeWALEntry _ \<Rightarrow> DeleteBucketRangeWALEntryType)"

text \<open>The type byte of a value, as the switch of \<^verbatim>\<open>Encode\<close> chooses it.\<close>

definition entry_type :: "Value \<Rightarrow> u8 option" where
  "entry_type v =
     (case v of
        FloatValue _ _ \<Rightarrow> Some float64EntryType
      | IntegerValue _ _ \<Rightarrow> Some integerEntryType
      | UnsignedValue _ _ \<Rightarrow> Some unsignedEntryType
      | BooleanValue _ _ \<Rightarrow> Some booleanEntryType
      | StringValue _ _ \<Rightarrow> Some stringEntryType
      | EmptyValue \<Rightarrow> None)"

section \<open>Writes: size and encoding\<close>

fun string_sizes :: "Value list \<Rightarrow> nat option" where
  "string_sizes [] = Some 0"
| "string_sizes (v # vs) =
     (case v of StringValue _ s \<Rightarrow> map_option (\<lambda>n. 4 + length s + n) (string_sizes vs) | _ \<Rightarrow> None)"

text \<open>The bytes the values of one key take, or \<open>None\<close> where \<^verbatim>\<open>MarshalSize\<close> gives up and returns zero.\<close>

definition values_enc_size :: "Value list \<Rightarrow> nat option" where
  "values_enc_size v =
     (case v of
        [] \<Rightarrow> None
      | v0 # _ \<Rightarrow>
          (case v0 of
             FloatValue _ _ \<Rightarrow> Some (8 * length v + 8 * length v)
           | IntegerValue _ _ \<Rightarrow> Some (8 * length v + 8 * length v)
           | UnsignedValue _ _ \<Rightarrow> Some (8 * length v + 8 * length v)
           | BooleanValue _ _ \<Rightarrow> Some (8 * length v + 1 * length v)
           | StringValue _ _ \<Rightarrow> map_option (\<lambda>n. 8 * length v + n) (string_sizes v)
           | EmptyValue \<Rightarrow> None))"

fun marshal_loop :: "batch \<Rightarrow> nat \<Rightarrow> nat option" where
  "marshal_loop [] encLen = Some encLen"
| "marshal_loop ((k, v) # kvs) encLen =
     (case values_enc_size v of None \<Rightarrow> None | Some n \<Rightarrow> marshal_loop kvs (encLen + length k + n))"

definition write_MarshalSize :: "write_entry \<Rightarrow> nat \<times> write_entry" where
  "write_MarshalSize w =
     (if we_sz w > 0 \<or> we_Values w = [] then (we_sz w, w)
      else case marshal_loop (we_Values w) (7 * length (we_Values w)) of
        None \<Rightarrow> (0, w)
      | Some encLen \<Rightarrow> (encLen, w\<lparr>we_sz := encLen\<rparr>))"

text \<open>
  Writing into a buffer of length \<open>lim\<close> of which \<open>out\<close> is filled: \<open>emit\<close> is an indexed store or a \<^verbatim>\<open>Put\<close> into a slice of it, which
  panics beyond the end; \<open>emit_copy\<close> is \<^verbatim>\<open>copy(dst[n:], s)\<close>, which stops there. \<^verbatim>\<open>lim\<close> is the length, not the capacity that the
  pool's slice may have beyond it: the code slices \<open>dst[n:n+k]\<close>, which Go allows up to the capacity, so an encoding that exceeds its
  computed size panics here at the first byte beyond, in Go possibly later or, when its map was changed after the size was cached, not at
  all. Encodings that succeed here are the same in Go.
\<close>

definition emit :: "nat \<Rightarrow> bytes \<Rightarrow> bytes \<Rightarrow> bytes res" where
  "emit lim bs out = (if length out + length bs > lim then Inl (GoPanic ''index out of range'') else Inr (out @ bs))"

definition emit_copy :: "nat \<Rightarrow> bytes \<Rightarrow> bytes \<Rightarrow> bytes res" where
  "emit_copy lim s out = Inr (out @ take (lim - length out) s)"

definition put_u16 :: "u64 \<Rightarrow> bytes" where "put_u16 v = be_bytes 2 v"
definition put_u32 :: "u64 \<Rightarrow> bytes" where "put_u32 v = be_bytes 4 v"

definition encode_value :: "nat \<Rightarrow> u8 \<Rightarrow> Value \<Rightarrow> bytes \<Rightarrow> bytes res" where
  "encode_value lim curType vv out =
     bind_res (emit lim (put_u64 (unixnano vv)) out) (\<lambda>out.
       case entry_type vv of
         None \<Rightarrow> Inl (GoError ''unsupported value found'')
       | Some t \<Rightarrow>
           if curType \<noteq> t then Inl (GoError ''incorrect value found'')
           else (case vv of
               FloatValue _ x \<Rightarrow> emit lim (put_u64 x) out
             | IntegerValue _ x \<Rightarrow> emit lim (put_u64 x) out
             | UnsignedValue _ x \<Rightarrow> emit lim (put_u64 x) out
             | BooleanValue _ b \<Rightarrow> emit lim [if b then 1 else 0] out
             | StringValue _ s \<Rightarrow> bind_res (emit lim (put_u32 (of_nat (length s))) out) (emit_copy lim s)
             | EmptyValue \<Rightarrow> Inr out))"

fun encode_values :: "nat \<Rightarrow> u8 \<Rightarrow> Value list \<Rightarrow> bytes \<Rightarrow> bytes res" where
  "encode_values lim curType [] out = Inr out"
| "encode_values lim curType (vv # v) out = bind_res (encode_value lim curType vv out) (encode_values lim curType v)"

definition encode_key :: "nat \<Rightarrow> u8 \<Rightarrow> series_key \<Rightarrow> nat \<Rightarrow> bytes \<Rightarrow> bytes res" where
  "encode_key lim curType k n out =
     bind_res (emit lim [curType] out) (\<lambda>out.
     bind_res (emit lim (put_u16 (of_nat (length k))) out) (\<lambda>out.
     bind_res (emit_copy lim k out)
       (emit lim (put_u32 (of_nat n)))))"

fun encode_loop :: "nat \<Rightarrow> batch \<Rightarrow> bytes \<Rightarrow> bytes res" where
  "encode_loop lim [] out = Inr out"
| "encode_loop lim ((k, v) # kvs) out =
     (if v = [] then Inl (GoPanic ''index out of range'')
      else case entry_type (v ! 0) of
        None \<Rightarrow> Inl (GoError ''unsupported value type'')
      | Some curType \<Rightarrow>
          bind_res (encode_key lim curType k (length v) out) (\<lambda>out.
          bind_res (encode_values lim curType v out) (encode_loop lim kvs)))"

definition write_Encode :: "write_entry \<Rightarrow> bytes res \<times> write_entry" where
  "write_Encode w = (case write_MarshalSize w of (encLen, w') \<Rightarrow> (encode_loop encLen (we_Values w') [], w'))"

definition write_MarshalBinary :: "write_entry \<Rightarrow> bytes res \<times> write_entry" where
  "write_MarshalBinary w = (case write_MarshalSize w of (_, w') \<Rightarrow> write_Encode w')"

section \<open>Writes: decoding\<close>

text \<open>\<^verbatim>\<open>b[i:j]\<close>, and the numbers read from such slices.\<close>

definition sl :: "bytes \<Rightarrow> nat \<Rightarrow> nat \<Rightarrow> bytes res" where
  "sl b i j = (if i \<le> j \<and> j \<le> length b then Inr (take (j - i) (drop i b)) else Inl (GoPanic ''slice bounds out of range''))"

definition read_uint :: "nat \<Rightarrow> bytes \<Rightarrow> nat \<Rightarrow> u64 res" where
  "read_uint n b i = bind_res (sl b i (i + n)) (\<lambda>s. Inr (be_word s))"

fun un_fixed :: "(i64 \<Rightarrow> u64 \<Rightarrow> Value) \<Rightarrow> bytes \<Rightarrow> nat \<Rightarrow> nat \<Rightarrow> Value list \<Rightarrow> (Value list \<times> nat) res" where
  "un_fixed mk b 0 i values = Inr (values, i)"
| "un_fixed mk b (Suc n) i values =
     bind_res (read_uint 8 b i) (\<lambda>un. bind_res (read_uint 8 b (i + 8)) (\<lambda>v. un_fixed mk b n (i + 8 + 8) (values @ [mk un v])))"

fun un_bools :: "bytes \<Rightarrow> nat \<Rightarrow> nat \<Rightarrow> Value list \<Rightarrow> (Value list \<times> nat) res" where
  "un_bools b 0 i values = Inr (values, i)"
| "un_bools b (Suc n) i values =
     bind_res (read_uint 8 b i) (\<lambda>un. bind_res (sl_get b (i + 8)) (\<lambda>v. un_bools b n (i + 8 + 1) (values @ [BooleanValue un (v = 1)])))"

fun un_strings :: "bytes \<Rightarrow> nat \<Rightarrow> nat \<Rightarrow> Value list \<Rightarrow> (Value list \<times> nat) res" where
  "un_strings b 0 i values = Inr (values, i)"
| "un_strings b (Suc n) i values =
     (if i + 12 > length b then Inl ErrWALCorrupt
      else
        bind_res (read_uint 8 b i) (\<lambda>un.
        bind_res (read_uint 4 b (i + 8)) (\<lambda>len.
          if i + 8 + unat len > length b then Inl ErrWALCorrupt
          else if i + 8 + 4 + unat len > length b then Inl ErrWALCorrupt
          else bind_res (sl b (i + 8 + 4) (i + 8 + 4 + unat len)) (\<lambda>v.
            un_strings b n (i + 8 + 4 + unat len) (values @ [StringValue un v])))))"

definition un_values :: "u8 \<Rightarrow> bytes \<Rightarrow> nat \<Rightarrow> nat \<Rightarrow> (Value list \<times> nat) res" where
  "un_values typ b nvals i =
     (if typ = float64EntryType then if i + 16 * nvals > length b then Inl ErrWALCorrupt else un_fixed FloatValue b nvals i []
      else if typ = integerEntryType then if i + 16 * nvals > length b then Inl ErrWALCorrupt else un_fixed IntegerValue b nvals i []
      else if typ = unsignedEntryType then if i + 16 * nvals > length b then Inl ErrWALCorrupt else un_fixed UnsignedValue b nvals i []
      else if typ = booleanEntryType then if i + 9 * nvals > length b then Inl ErrWALCorrupt else un_bools b nvals i []
      else if typ = stringEntryType then un_strings b nvals i []
      else Inl (GoError ''unsupported value type''))"

text \<open>One round of the loop: the key, its values and the position after them.\<close>

definition un_entry :: "bytes \<Rightarrow> nat \<Rightarrow> (series_key \<times> Value list \<times> nat) res" where
  "un_entry b i =
     bind_res (sl_get b i) (\<lambda>typ.
     if i + 1 + 2 > length b then Inl ErrWALCorrupt
     else bind_res (read_uint 2 b (i + 1)) (\<lambda>len.
     if i + 1 + 2 + unat len > length b then Inl ErrWALCorrupt
     else bind_res (sl b (i + 1 + 2) (i + 1 + 2 + unat len)) (\<lambda>k.
     let j = i + 1 + 2 + unat len in
     if j + 4 > length b then Inl ErrWALCorrupt
     else bind_res (read_uint 4 b j) (\<lambda>nvals.
     if nvals = 0 \<or> unat nvals > length b then Inl ErrWALCorrupt
     else bind_res (un_values typ b (unat nvals) (j + 4)) (\<lambda>(values, j'). Inr (k, values, j'))))))"

lemma un_fixed_pos: "un_fixed mk b n i vs = Inr (vs', j) \<Longrightarrow> j = i + 16 * n"
proof (induction n arbitrary: i vs)
  case (Suc n)
  then obtain un v where "un_fixed mk b n (i + 8 + 8) (vs @ [mk un v]) = Inr (vs', j)" by (auto simp: bind_res_Inr_iff)
  from Suc.IH [OF this] show ?case by simp
qed simp

lemma un_bools_pos: "un_bools b n i vs = Inr (vs', j) \<Longrightarrow> j = i + 9 * n"
proof (induction n arbitrary: i vs)
  case (Suc n)
  then obtain un v where "un_bools b n (i + 8 + 1) (vs @ [BooleanValue un v]) = Inr (vs', j)" by (auto simp: bind_res_Inr_iff)
  from Suc.IH [OF this] show ?case by simp
qed simp

lemma un_strings_pos: "un_strings b n i vs = Inr (vs', j) \<Longrightarrow> i \<le> j"
proof (induction n arbitrary: i vs)
  case (Suc n)
  then obtain un len v where "un_strings b n (i + 8 + 4 + unat (len :: u64)) (vs @ [StringValue un v]) = Inr (vs', j)"
    by (auto simp: bind_res_Inr_iff split: if_splits)
  from Suc.IH [OF this] show ?case by simp
qed simp

lemma un_values_pos: "un_values typ b n i = Inr (vs, j) \<Longrightarrow> i \<le> j"
  by (auto simp: un_values_def dest: un_fixed_pos un_bools_pos un_strings_pos split: if_splits)

lemma un_entry_pos: "un_entry b i = Inr (k, vs, j) \<Longrightarrow> i < j"
  by (fastforce simp: un_entry_def bind_res_Inr_iff Let_def dest: un_values_pos split: if_splits prod.splits)

function un_loop :: "bytes \<Rightarrow> nat \<Rightarrow> batch \<Rightarrow> batch res" where
  "un_loop b i m =
     (if i < length b then
        (case un_entry b i of Inl e \<Rightarrow> Inl e | Inr (k, values, j) \<Rightarrow> un_loop b j (AList.update k values m))
      else Inr m)"
  by pat_completeness auto
termination
  by (relation "measure (\<lambda>(b, i, m). length b - i)") (auto dest!: sym [THEN un_entry_pos] un_entry_pos)

declare un_loop.simps [simp del]

definition write_UnmarshalBinary :: "bytes \<Rightarrow> write_entry \<Rightarrow> write_entry res" where
  "write_UnmarshalBinary b w = bind_res (un_loop b 0 (we_Values w)) (\<lambda>m. Inr (w\<lparr>we_Values := m\<rparr>))"

section \<open>Deletions\<close>

definition delete_MarshalSize :: "bucket_delete \<Rightarrow> nat" where
  "delete_MarshalSize w = 2 * IDLength + 16 + length (de_Predicate w)"

definition delete_Encode :: "bytes \<Rightarrow> bucket_delete \<Rightarrow> bytes res" where
  "delete_Encode b w =
     (let sz = delete_MarshalSize w;
          b0 = (if length b < sz then replicate sz 0 else b)
      in bind_res (ID_Encode (de_OrgID w)) (\<lambda>orgID.
         bind_res (ID_Encode (de_BucketID w)) (\<lambda>bucketID.
           let b1 = copy_at 0 orgID b0;
               b2 = copy_at IDLength bucketID b1;
               b3 = write_at (2 * IDLength) (put_u64 (de_Min w)) b2;
               b4 = write_at (2 * IDLength + 8) (put_u64 (de_Max w)) b3;
               b5 = copy_at (2 * IDLength + 16) (de_Predicate w) b4
           in Inr (take sz b5))))"

definition delete_MarshalBinary :: "bucket_delete \<Rightarrow> bytes res" where
  "delete_MarshalBinary w = delete_Encode (replicate (delete_MarshalSize w) 0) w"

definition delete_UnmarshalBinary :: "bytes \<Rightarrow> bucket_delete res" where
  "delete_UnmarshalBinary b =
     (if length b < 2 * IDLength + 16 then Inl ErrWALCorrupt
      else
        bind_res (ID_Decode (take IDLength b)) (\<lambda>org.
        bind_res (ID_Decode (take IDLength (drop IDLength b))) (\<lambda>bucket.
        bind_res (read_uint 8 b (2 * IDLength)) (\<lambda>mn.
        bind_res (read_uint 8 b (2 * IDLength + 8)) (\<lambda>mx.
          Inr \<lparr>de_OrgID = org, de_BucketID = bucket, de_Min = mn, de_Max = mx, de_Predicate = drop (2 * IDLength + 16) b\<rparr>)))))"

end
