(* ===== verification/Wal_Codec.thy ===== *)
theory Wal_Codec
  imports Wal_Entry
begin

text \<open>
  Correctness of the entries of the write-ahead log: what an entry encodes, that it decodes to the entry, and that decoding
  arbitrary bytes ends in a value or an error, never in a panic.
\<close>

section \<open>The format\<close>

primrec payload :: "Value \<Rightarrow> bytes" where
  "payload (IntegerValue t x) = put_u64 x"
| "payload (UnsignedValue t x) = put_u64 x"
| "payload (FloatValue t x) = put_u64 x"
| "payload (BooleanValue t b) = [if b then 1 else 0]"
| "payload (StringValue t s) = put_u32 (of_nat (length s)) @ s"
| "payload EmptyValue = []"

definition value_bytes :: "Value \<Rightarrow> bytes" where
  "value_bytes v = put_u64 (unixnano v) @ payload v"

definition key_bytes :: "u8 \<Rightarrow> series_key \<Rightarrow> nat \<Rightarrow> bytes" where
  "key_bytes t k n = [t] @ put_u16 (of_nat (length k)) @ k @ put_u32 (of_nat n)"

abbreviation values_bytes :: "Value list \<Rightarrow> bytes" where
  "values_bytes vs \<equiv> concat (map value_bytes vs)"

definition entry_bytes :: "series_key \<times> Value list \<Rightarrow> bytes" where
  "entry_bytes kv = (case kv of (k, vs) \<Rightarrow> key_bytes (the (entry_type (vs ! 0))) k (length vs) @ values_bytes vs)"

text \<open>Values of one type, within the widths of the length fields.\<close>

definition loggable_values :: "Value list \<Rightarrow> bool" where
  "loggable_values vs \<longleftrightarrow> vs \<noteq> [] \<and> entry_type (vs ! 0) \<noteq> None \<and> list_all (\<lambda>v. entry_type v = entry_type (vs ! 0)) vs \<and>
     length vs < 2 ^ 32 \<and> list_all (\<lambda>v. case v of StringValue _ s \<Rightarrow> length s < 2 ^ 32 | _ \<Rightarrow> True) vs"

definition loggable :: "batch \<Rightarrow> bool" where
  "loggable kvs \<longleftrightarrow> distinct (map fst kvs) \<and> list_all (\<lambda>(k, vs). length k < 2 ^ 16 \<and> loggable_values vs) kvs"

lemma length_put_uint [simp]: "length (put_u16 v) = 2" "length (put_u32 v) = 4"
  by (simp_all add: put_u16_def put_u32_def)

lemma length_key_bytes [simp]: "length (key_bytes t k n) = 7 + length k"
  by (simp add: key_bytes_def)

section \<open>Encoding\<close>

lemma string_sizes_eq:
  "list_all (\<lambda>v. entry_type v = Some stringEntryType) vs \<Longrightarrow> string_sizes vs = Some (sum_list (map (length \<circ> payload) vs))"
  by (induction vs) (auto simp: entry_type_def entry_types split: Value.splits)

lemma fixed_size:
  assumes "list_all (\<lambda>v. entry_type v = Some t) vs" "\<And>v. entry_type v = Some t \<Longrightarrow> length (payload v) = n"
  shows "length (values_bytes vs) = 8 * length vs + n * length vs"
  using assms by (induction vs) (simp_all add: value_bytes_def)

lemma length_values_bytes: "length (values_bytes vs) = 8 * length vs + sum_list (map (length \<circ> payload) vs)"
  by (induction vs) (simp_all add: value_bytes_def)

lemma values_enc_size_eq:
  assumes "loggable_values vs"
  shows "values_enc_size vs = Some (length (values_bytes vs))"
proof -
  obtain v ws where vs: "vs = v # ws" using assms by (cases vs) (auto simp: loggable_values_def)
  then obtain t where t: "entry_type v = Some t" "list_all (\<lambda>v. entry_type v = Some t) vs" using assms by (auto simp: loggable_values_def)
  have p: "\<And>v. entry_type v = Some t \<Longrightarrow> length (payload v) = (if t = booleanEntryType then 1 else 8)" if "t \<noteq> stringEntryType"
    using that by (auto simp: entry_type_def entry_types split: Value.splits)
  show ?thesis
  proof (cases "t = stringEntryType")
    case True
    then show ?thesis using t string_sizes_eq [of vs] unfolding length_values_bytes values_enc_size_def vs list.case
      by (cases v) (auto simp: entry_type_def entry_types)
  next
    case False
    with fixed_size [OF t(2) p] t(1) show ?thesis unfolding values_enc_size_def vs list.case
      by (cases v) (auto simp: entry_type_def entry_types)
  qed
qed

lemma marshal_loop_eq:
  "list_all (\<lambda>(k, vs). loggable_values vs) kvs \<Longrightarrow>
    marshal_loop kvs (n + 7 * length kvs) = Some (n + length (concat (map entry_bytes kvs)))"
proof (induction kvs arbitrary: n)
  case (Cons kv kvs)
  obtain k vs where kv: "kv = (k, vs)" by force
  have "marshal_loop (kv # kvs) (n + 7 * length (kv # kvs)) = marshal_loop kvs ((n + 7 + length k + length (values_bytes vs)) + 7 * length kvs)"
    using Cons.prems by (simp add: kv values_enc_size_eq ac_simps)
  then show ?case using Cons by (simp add: kv entry_bytes_def)
qed simp

lemma emit_ok [simp]: "length out + length bs \<le> lim \<Longrightarrow> emit lim bs out = Inr (out @ bs)"
  "length out + length bs \<le> lim \<Longrightarrow> emit_copy lim bs out = Inr (out @ bs)"
  by (simp_all add: emit_def emit_copy_def)

lemma encode_value_ok:
  assumes "entry_type v = Some t" "length out + length (value_bytes v) \<le> lim"
  shows "encode_value lim t v out = Inr (out @ value_bytes v)"
  using assms by (cases v) (simp_all add: encode_value_def value_bytes_def entry_type_def)

lemma encode_values_ok:
  "list_all (\<lambda>v. entry_type v = Some t) vs \<Longrightarrow> length out + length (values_bytes vs) \<le> lim \<Longrightarrow>
    encode_values lim t vs out = Inr (out @ values_bytes vs)"
  by (induction vs arbitrary: out) (simp_all add: encode_value_ok)

lemma encode_key_ok:
  "length out + length (key_bytes t k n) \<le> lim \<Longrightarrow> encode_key lim t k n out = Inr (out @ key_bytes t k n)"
  by (simp add: encode_key_def key_bytes_def)

lemma encode_loop_ok:
  "list_all (\<lambda>(k, vs). loggable_values vs) kvs \<Longrightarrow> length out + length (concat (map entry_bytes kvs)) \<le> lim \<Longrightarrow>
    encode_loop lim kvs out = Inr (out @ concat (map entry_bytes kvs))"
proof (induction kvs arbitrary: out)
  case (Cons kv kvs)
  obtain k vs where kv: "kv = (k, vs)" by force
  then obtain t where t: "vs \<noteq> []" "entry_type (vs ! 0) = Some t" "list_all (\<lambda>v. entry_type v = Some t) vs"
    using Cons.prems(1) by (auto simp: loggable_values_def)
  show ?case using Cons t by (simp add: kv entry_bytes_def encode_key_ok encode_values_ok)
qed simp

lemma write_Encode_ok:
  assumes "list_all (\<lambda>(k, vs). loggable_values vs) kvs"
  shows "fst (write_Encode \<lparr>we_Values = kvs, we_sz = 0\<rparr>) = Inr (concat (map entry_bytes kvs))"
  using marshal_loop_eq [OF assms, of 0] encode_loop_ok [OF assms, of "[]"]
  by (cases "kvs = []") (simp_all add: write_Encode_def write_MarshalSize_def)

section \<open>Decoding\<close>

text \<open>Reading a field out of the middle of the bytes.\<close>

lemma sl_middle: "b = pre @ s @ post \<Longrightarrow> i = length pre \<Longrightarrow> j = length pre + length s \<Longrightarrow> sl b i j = Inr s"
  by (simp add: sl_def)

lemma read_uint_middle: "b = pre @ be_bytes n v @ post \<Longrightarrow> i = length pre \<Longrightarrow> read_uint n b i = Inr (take_bit (8 * n) v)"
  by (simp add: read_uint_def sl_middle [of _ _ "be_bytes n v"] be_word_be_bytes)

lemma read_u64_middle: "b = pre @ put_u64 v @ post \<Longrightarrow> i = length pre \<Longrightarrow> read_uint 8 b i = Inr v"
  using read_uint_middle [of b pre 8 v post i] by (simp add: put_u64_def take_bit_word_eq_self)

lemma take_bit_of_nat_small: "n < 2 ^ m \<Longrightarrow> m \<le> 64 \<Longrightarrow> unat (take_bit m (of_nat n :: u64)) = n"
proof -
  assume n: "n < 2 ^ m" "m \<le> 64"
  have "(2 :: nat) ^ m \<le> 2 ^ 64" using n(2) by (rule power_increasing) simp
  with n have "unat (of_nat n :: u64) = n" by (intro unat_of_nat_small) linarith
  then show ?thesis using n(1) by (simp add: unsigned_take_bit_eq take_bit_nat_eq_self)
qed

lemma read_len_middle:
  assumes "n < 2 ^ 32" "b = pre @ put_u32 (of_nat n) @ post" "i = length pre"
  obtains w where "read_uint 4 b i = Inr w" "unat w = n"
  using read_uint_middle [of b pre 4 "of_nat n" post i] assms take_bit_of_nat_small [of n 32] by (simp add: put_u32_def)

lemma un_fixed_ok:
  assumes "\<And>v. v \<in> set vs \<Longrightarrow> \<exists>x. mk (unixnano v) x = v \<and> payload v = put_u64 x" "b = pre @ values_bytes vs @ post" "i = length pre"
  shows "un_fixed mk b (length vs) i acc = Inr (acc @ vs, i + length (values_bytes vs))"
  using assms
proof (induction vs arbitrary: pre i acc)
  case (Cons v vs)
  obtain x where x: "mk (unixnano v) x = v" "payload v = put_u64 x" using Cons.prems(1) [of v] by auto
  have 1: "read_uint 8 b i = Inr (unixnano v)"
    by (rule read_u64_middle [of _ pre _ "payload v @ values_bytes vs @ post"]) (simp_all add: Cons.prems value_bytes_def [of v])
  have 2: "read_uint 8 b (i + 8) = Inr x"
    by (rule read_u64_middle [of _ "pre @ put_u64 (unixnano v)" _ "values_bytes vs @ post"]) (simp_all add: Cons.prems value_bytes_def [of v] x(2))
  have 3: "un_fixed mk b (length vs) (i + 8 + 8) (acc @ [v]) = Inr ((acc @ [v]) @ vs, i + 8 + 8 + length (values_bytes vs))"
    by (rule Cons.IH [of "pre @ value_bytes v"]) (use Cons.prems in \<open>auto simp: value_bytes_def [of v] x(2)\<close>)
  show ?case using 1 2 3 by (simp add: x value_bytes_def [of v])
qed simp

lemma un_bools_ok:
  assumes "\<And>v. v \<in> set vs \<Longrightarrow> \<exists>x. BooleanValue (unixnano v) x = v" "b = pre @ values_bytes vs @ post" "i = length pre"
  shows "un_bools b (length vs) i acc = Inr (acc @ vs, i + length (values_bytes vs))"
  using assms
proof (induction vs arbitrary: pre i acc)
  case (Cons v vs)
  obtain x where x: "BooleanValue (unixnano v) x = v" using Cons.prems(1) [of v] by auto
  have p: "payload v = [if x then 1 else 0]" by (subst x [symmetric]) simp
  have 1: "read_uint 8 b i = Inr (unixnano v)"
    by (rule read_u64_middle [of _ pre _ "payload v @ values_bytes vs @ post"]) (simp_all add: Cons.prems value_bytes_def [of v])
  have 2: "sl_get b (i + 8) = Inr (if x then 1 else 0)"
    by (simp add: sl_get_def Cons.prems value_bytes_def [of v] p nth_append)
  have 3: "un_bools b (length vs) (i + 8 + 1) (acc @ [v]) = Inr ((acc @ [v]) @ vs, i + 8 + 1 + length (values_bytes vs))"
    by (rule Cons.IH [of "pre @ value_bytes v"]) (use Cons.prems in \<open>auto simp: value_bytes_def [of v] p\<close>)
  have "BooleanValue (unixnano v) ((if x then 1 else 0) = (1 :: u8)) = v" using x by (cases x) simp_all
  then show ?case using 1 2 3 by (simp add: value_bytes_def [of v] p)
qed simp

lemma un_strings_ok:
  assumes "\<And>v. v \<in> set vs \<Longrightarrow> \<exists>s. StringValue (unixnano v) s = v \<and> length s < 2 ^ 32" "b = pre @ values_bytes vs @ post" "i = length pre"
  shows "un_strings b (length vs) i acc = Inr (acc @ vs, i + length (values_bytes vs))"
  using assms
proof (induction vs arbitrary: pre i acc)
  case (Cons v vs)
  obtain s where s: "StringValue (unixnano v) s = v" "length s < 2 ^ 32" using Cons.prems(1) [of v] by auto
  have p: "payload v = put_u32 (of_nat (length s)) @ s" by (subst s(1) [symmetric]) simp
  have 1: "read_uint 8 b i = Inr (unixnano v)"
    by (rule read_u64_middle [of _ pre _ "payload v @ values_bytes vs @ post"]) (simp_all add: Cons.prems value_bytes_def [of v])
  obtain w where w: "read_uint 4 b (i + 8) = Inr w" "unat w = length s"
    by (rule read_len_middle [OF s(2), of b "pre @ put_u64 (unixnano v)" "s @ values_bytes vs @ post" "i + 8"])
      (simp_all add: Cons.prems value_bytes_def [of v] p)
  have 2: "sl b (i + 8 + 4) (i + 8 + 4 + unat w) = Inr s"
    by (rule sl_middle [of _ "pre @ put_u64 (unixnano v) @ put_u32 (of_nat (length s))" _ "values_bytes vs @ post"])
      (simp_all add: Cons.prems value_bytes_def [of v] p w)
  have 3: "un_strings b (length vs) (i + 8 + 4 + unat w) (acc @ [v]) = Inr ((acc @ [v]) @ vs, i + 8 + 4 + unat w + length (values_bytes vs))"
    by (rule Cons.IH [of "pre @ value_bytes v"]) (use Cons.prems in \<open>auto simp: value_bytes_def [of v] p w\<close>)
  have 4: "i + 8 + 4 + unat w \<le> length b" by (simp add: Cons.prems value_bytes_def [of v] p w)
  then show ?case using 1 2 3 w by (simp add: s(1) value_bytes_def [of v] p)
qed simp

text \<open>The values of one key, by their type.\<close>

lemma typed_value:
  "entry_type v = Some float64EntryType \<Longrightarrow> \<exists>x. FloatValue (unixnano v) x = v \<and> payload v = put_u64 x"
  "entry_type v = Some integerEntryType \<Longrightarrow> \<exists>x. IntegerValue (unixnano v) x = v \<and> payload v = put_u64 x"
  "entry_type v = Some unsignedEntryType \<Longrightarrow> \<exists>x. UnsignedValue (unixnano v) x = v \<and> payload v = put_u64 x"
  "entry_type v = Some booleanEntryType \<Longrightarrow> \<exists>x. BooleanValue (unixnano v) x = v"
  "entry_type v = Some stringEntryType \<Longrightarrow> \<exists>x. StringValue (unixnano v) x = v"
  "entry_type v \<in> {None, Some float64EntryType, Some integerEntryType, Some unsignedEntryType, Some booleanEntryType, Some stringEntryType}"
  by (cases v; simp add: entry_type_def entry_types)+

lemma un_values_ok:
  assumes "loggable_values vs" "b = pre @ values_bytes vs @ post" "i = length pre"
  shows "un_values (the (entry_type (vs ! 0))) b (length vs) i = Inr (vs, i + length (values_bytes vs))"
proof -
  obtain t where t1: "entry_type (vs ! 0) = Some t" using assms(1) by (auto simp: loggable_values_def)
  have t: "entry_type (vs ! 0) = Some t" "v \<in> set vs \<Longrightarrow> entry_type v = Some t"
    "v \<in> set vs \<Longrightarrow> case v of StringValue _ s \<Rightarrow> length s < 2 ^ 32 | _ \<Rightarrow> True" for v
    using assms(1) t1 by (simp_all add: loggable_values_def list_all_iff)
  have sz: "\<not> length b < i + (8 + n) * length vs" if "\<And>v. v \<in> set vs \<Longrightarrow> length (payload v) = n" for n
  proof -
    have "length (values_bytes vs) = (8 + n) * length vs" using that by (induction vs) (simp_all add: value_bytes_def)
    then show ?thesis by (simp add: assms(2,3))
  qed
  have fixed: "un_fixed mk b (length vs) i [] = Inr (vs, i + length (values_bytes vs)) \<and> \<not> length b < i + 16 * length vs"
    if "\<And>v. v \<in> set vs \<Longrightarrow> \<exists>x. mk (unixnano v) x = v \<and> payload v = put_u64 x" for mk
  proof -
    have "length (payload v) = 8" if "v \<in> set vs" for v using \<open>v \<in> set vs \<Longrightarrow> \<exists>x. mk (unixnano v) x = v \<and> payload v = put_u64 x\<close> that by fastforce
    from sz [OF this] un_fixed_ok [OF that assms(2,3), where acc = "[]"] show ?thesis by simp
  qed
  from t(1) typed_value(6) [of "vs ! 0"] consider "t = float64EntryType" | "t = integerEntryType" | "t = unsignedEntryType"
    | "t = booleanEntryType" | "t = stringEntryType" by auto
  then show ?thesis
  proof cases
    case 1
    have "\<exists>x. FloatValue (unixnano v) x = v \<and> payload v = put_u64 x" if "v \<in> set vs" for v using t(2) [OF that] 1 by (intro typed_value(1)) simp
    from fixed [OF this] show ?thesis unfolding un_values_def t(1) 1 by (simp add: entry_types)
  next
    case 2
    have "\<exists>x. IntegerValue (unixnano v) x = v \<and> payload v = put_u64 x" if "v \<in> set vs" for v using t(2) [OF that] 2 by (intro typed_value(2)) simp
    from fixed [OF this] show ?thesis unfolding un_values_def t(1) 2 by (simp add: entry_types)
  next
    case 3
    have "\<exists>x. UnsignedValue (unixnano v) x = v \<and> payload v = put_u64 x" if "v \<in> set vs" for v using t(2) [OF that] 3 by (intro typed_value(3)) simp
    from fixed [OF this] show ?thesis unfolding un_values_def t(1) 3 by (simp add: entry_types)
  next
    case 4
    have m: "\<exists>x. BooleanValue (unixnano v) x = v" if "v \<in> set vs" for v using t(2) [OF that] 4 by (intro typed_value(4)) simp
    have "length (payload v) = 1" if "v \<in> set vs" for v
      using t(2) [OF that] 4 by (cases v) (simp_all add: entry_type_def entry_types)
    from sz [OF this] un_bools_ok [OF m assms(2,3), where acc = "[]"] show ?thesis unfolding un_values_def t(1) 4 by (simp add: entry_types)
  next
    case 5
    have "\<exists>x. StringValue (unixnano v) x = v \<and> length x < 2 ^ 32" if "v \<in> set vs" for v
      using t(2,3) [OF that] 5 by (cases v) (simp_all add: entry_type_def entry_types)
    from un_strings_ok [OF this assms(2,3), where acc = "[]"] show ?thesis unfolding un_values_def t(1) 5 by (simp add: entry_types)
  qed
qed

lemma un_entry_ok:
  assumes "length k < 2 ^ 16" "loggable_values vs" "b = pre @ entry_bytes (k, vs) @ post" "i = length pre"
  shows "un_entry b i = Inr (k, vs, i + length (entry_bytes (k, vs)))"
proof -
  let ?t = "the (entry_type (vs ! 0))"
  have b: "b = pre @ [?t] @ put_u16 (of_nat (length k)) @ k @ put_u32 (of_nat (length vs)) @ values_bytes vs @ post"
    using assms(3) by (simp add: entry_bytes_def key_bytes_def)
  have n: "vs \<noteq> []" "length vs < 2 ^ 32" using assms(2) by (auto simp: loggable_values_def)
  have 1: "sl_get b i = Inr ?t" by (simp add: sl_get_def b assms(4) nth_append)
  obtain l where l: "read_uint 2 b (i + 1) = Inr l" "unat l = length k"
    using read_uint_middle [of b "pre @ [?t]" 2 "of_nat (length k)" "k @ put_u32 (of_nat (length vs)) @ values_bytes vs @ post" "i + 1"]
      take_bit_of_nat_small [of "length k" 16] assms(1,4) b by (simp add: put_u16_def)
  have 2: "sl b (i + 1 + 2) (i + 1 + 2 + unat l) = Inr k"
    by (rule sl_middle [of _ "pre @ [?t] @ put_u16 (of_nat (length k))" _ "put_u32 (of_nat (length vs)) @ values_bytes vs @ post"])
      (simp_all add: b assms(4) l)
  obtain w where w: "read_uint 4 b (i + 1 + 2 + unat l) = Inr w" "unat w = length vs"
    by (rule read_len_middle [OF n(2), of b "pre @ [?t] @ put_u16 (of_nat (length k)) @ k" "values_bytes vs @ post" "i + 1 + 2 + unat l"])
      (simp_all add: b assms(4) l)
  have 3: "un_values ?t b (length vs) (i + 1 + 2 + unat l + 4) = Inr (vs, i + 1 + 2 + unat l + 4 + length (values_bytes vs))"
    by (rule un_values_ok [OF assms(2), of _ "pre @ key_bytes ?t k (length vs)" post]) (simp_all add: b assms(4) key_bytes_def l)
  have len: "length b = i + 7 + length k + length (values_bytes vs) + length post" by (simp add: b assms(4))
  have "length vs \<le> length (values_bytes vs)" unfolding length_values_bytes by simp
  moreover have "w \<noteq> 0" using w(2) n(1) by auto
  ultimately show ?thesis
    unfolding un_entry_def 1 bind_res_simps l(1) 2 Let_def w(1) using 3 by (simp add: l w(2) len entry_bytes_def)
qed

lemma un_loop_step:
  "i < length b \<Longrightarrow> un_entry b i = Inr (k, vs, j) \<Longrightarrow> un_loop b i m = un_loop b j (AList.update k vs m)"
  "\<not> i < length b \<Longrightarrow> un_loop b i m = Inr m"
  by (subst un_loop.simps, simp)+

lemma update_new: "k \<notin> fst ` set m \<Longrightarrow> AList.update k v m = m @ [(k, v)]"
  by (induction m) auto

lemma un_loop_ok:
  assumes "distinct (map fst (m @ kvs))" "list_all (\<lambda>(k, vs). length k < 2 ^ 16 \<and> loggable_values vs) kvs"
    "b = pre @ concat (map entry_bytes kvs)" "i = length pre"
  shows "un_loop b i m = Inr (m @ kvs)"
  using assms
proof (induction kvs arbitrary: pre i m)
  case Nil
  then show ?case by (simp add: un_loop_step)
next
  case (Cons kv kvs)
  obtain k vs where kv: "kv = (k, vs)" by force
  have e: "un_entry b i = Inr (k, vs, i + length (entry_bytes (k, vs)))"
    using Cons.prems(2-4) by (intro un_entry_ok [of k vs b pre "concat (map entry_bytes kvs)"]) (auto simp: kv)
  have "AList.update k vs m = m @ [(k, vs)]" using Cons.prems(1) by (intro update_new) (auto simp: kv)
  moreover have "un_loop b (i + length (entry_bytes (k, vs))) (m @ [(k, vs)]) = Inr ((m @ [(k, vs)]) @ kvs)"
    by (rule Cons.IH [of _ "pre @ entry_bytes (k, vs)"]) (use Cons.prems in \<open>auto simp: kv\<close>)
  moreover have "i < length b" using Cons.prems(3,4) by (simp add: kv entry_bytes_def)
  ultimately show ?case using un_loop_step(1) [OF _ e] by (simp add: kv)
qed

lemma write_roundtrip:
  assumes "loggable kvs"
  shows "\<exists>b. fst (write_Encode \<lparr>we_Values = kvs, we_sz = 0\<rparr>) = Inr b \<and>
    write_UnmarshalBinary b \<lparr>we_Values = [], we_sz = 0\<rparr> = Inr \<lparr>we_Values = kvs, we_sz = 0\<rparr>"
proof -
  have k: "distinct (map fst kvs)" "list_all (\<lambda>(k, vs). length k < 2 ^ 16 \<and> loggable_values vs) kvs"
    using assms by (auto simp: loggable_def)
  then have "list_all (\<lambda>(k, vs). loggable_values vs) kvs" by (auto simp: list_all_iff)
  from write_Encode_ok [OF this] un_loop_ok [of "[]" kvs "concat (map entry_bytes kvs)" "[]" 0] k show ?thesis
    by (simp add: write_UnmarshalBinary_def)
qed

section \<open>Deletions\<close>

lemma delete_Encode_ok:
  assumes "ID_Encode (de_OrgID d) = Inr u" "ID_Encode (de_BucketID d) = Inr v" "length u = 16" "length v = 16"
  shows "delete_Encode b d = Inr (u @ v @ put_u64 (de_Min d) @ put_u64 (de_Max d) @ de_Predicate d)"
proof -
  let ?p = "de_Predicate d" and ?n = "put_u64 (de_Min d)" and ?x = "put_u64 (de_Max d)"
  define c where "c = (if length b < 48 + length ?p then replicate (48 + length ?p) 0 else b)"
  have c: "48 + length ?p \<le> length c" by (simp add: c_def)
  have w: "write_at 0 u c = u @ drop 16 c" "write_at 16 v (u @ drop 16 c) = u @ v @ drop 32 c"
    "write_at 32 ?n (u @ v @ drop 32 c) = u @ v @ ?n @ drop 40 c" "write_at 40 ?x (u @ v @ ?n @ drop 40 c) = u @ v @ ?n @ ?x @ drop 48 c"
    "write_at 48 ?p (u @ v @ ?n @ ?x @ drop 48 c) = u @ v @ ?n @ ?x @ ?p @ drop (48 + length ?p) c"
    using assms(3,4) by (simp_all add: write_at_def add.commute)
  have "delete_Encode b d = Inr (take (48 + length ?p) (u @ v @ ?n @ ?x @ ?p @ drop (48 + length ?p) c))"
    using c assms w
    by (simp add: delete_Encode_def delete_MarshalSize_def IDLength_def c_def [symmetric] copy_at_def del: write_at_0)
  then show ?thesis using assms(3,4) by simp
qed

lemma delete_roundtrip:
  assumes "ID_Valid (de_OrgID d)" "ID_Valid (de_BucketID d)"
  shows "\<exists>b. delete_Encode buf d = Inr b \<and> delete_UnmarshalBinary b = Inr d"
proof -
  let ?u = "hex_encode (put_u64 (de_OrgID d))" and ?v = "hex_encode (put_u64 (de_BucketID d))"
  let ?b = "?u @ ?v @ put_u64 (de_Min d) @ put_u64 (de_Max d) @ de_Predicate d"
  have e: "delete_Encode buf d = Inr ?b" by (rule delete_Encode_ok) (simp_all add: ID_Encode_def assms)
  have "read_uint 8 ?b 32 = Inr (de_Min d)" by (rule read_u64_middle [of _ "?u @ ?v"]) simp_all
  moreover have "read_uint 8 ?b 40 = Inr (de_Max d)" by (rule read_u64_middle [of _ "?u @ ?v @ put_u64 (de_Min d)"]) simp_all
  ultimately have "delete_UnmarshalBinary ?b = Inr d"
    using ID_Decode_Encode [OF assms(1)] ID_Decode_Encode [OF assms(2)] by (simp add: delete_UnmarshalBinary_def IDLength_def)
  with e show ?thesis by blast
qed

text \<open>
  C14: entries of the log survive encoding and decoding. A batch of distinct keys, each with values of one type and within the
  widths of the length fields, encodes into the size computed before and decodes to the same batch; a
  deletion with valid IDs encodes into any buffer and decodes to the same deletion.
\<close>

theorem wal_entry_roundtrip:
  "(loggable kvs \<longrightarrow> (\<exists>b. fst (write_Encode \<lparr>we_Values = kvs, we_sz = 0\<rparr>) = Inr b \<and>
      write_UnmarshalBinary b \<lparr>we_Values = [], we_sz = 0\<rparr> = Inr \<lparr>we_Values = kvs, we_sz = 0\<rparr>)) \<and>
   (ID_Valid (de_OrgID d) \<and> ID_Valid (de_BucketID d) \<longrightarrow> (\<exists>b. delete_Encode buf d = Inr b \<and> delete_UnmarshalBinary b = Inr d))"
  using write_roundtrip delete_roundtrip by blast

theorem wal_entry_roundtrip_witness:
  "(\<exists>b. fst (write_Encode \<lparr>we_Values = [([7], [FloatValue 3 9]), ([8], [StringValue 5 [1, 2], StringValue 6 []])], we_sz = 0\<rparr>) = Inr b \<and>
      write_UnmarshalBinary b \<lparr>we_Values = [], we_sz = 0\<rparr> =
        Inr \<lparr>we_Values = [([7], [FloatValue 3 9]), ([8], [StringValue 5 [1, 2], StringValue 6 []])], we_sz = 0\<rparr>) \<and>
   (\<exists>b. delete_Encode [] \<lparr>de_OrgID = 3, de_BucketID = 4, de_Min = 5, de_Max = 6, de_Predicate = [1]\<rparr> = Inr b \<and>
      delete_UnmarshalBinary b = Inr \<lparr>de_OrgID = 3, de_BucketID = 4, de_Min = 5, de_Max = 6, de_Predicate = [1]\<rparr>)"
proof -
  have "loggable [([7], [FloatValue 3 9]), ([8], [StringValue 5 [1, 2], StringValue 6 []])]"
    by (simp add: loggable_def loggable_values_def entry_type_def)
  then show ?thesis
    using wal_entry_roundtrip [of "[([7], [FloatValue 3 9]), ([8], [StringValue 5 [1, 2], StringValue 6 []])]"
        "\<lparr>de_OrgID = 3, de_BucketID = 4, de_Min = 5, de_Max = 6, de_Predicate = [1]\<rparr>" "[]"]
    by (simp only: ID_Valid_def bucket_delete.simps) simp
qed

section \<open>Corrupt bytes\<close>

definition no_panic :: "'a res \<Rightarrow> bool" where
  "no_panic r = (case r of Inl (GoPanic _) \<Rightarrow> False | _ \<Rightarrow> True)"

lemma no_panic_simps [simp]: "no_panic (Inr x)" "no_panic (Inl (GoError m))" "\<not> no_panic (Inl (GoPanic m))" "no_panic (Inl ErrWALCorrupt)"
  by (simp_all add: no_panic_def ErrWALCorrupt_def)

lemma no_panic_bind: "no_panic r \<Longrightarrow> (\<And>x. r = Inr x \<Longrightarrow> no_panic (f x)) \<Longrightarrow> no_panic (bind_res r f)"
  by (cases r) (auto simp: no_panic_def)

lemma no_panic_read: "i + n \<le> length b \<Longrightarrow> no_panic (read_uint n b i)" "i < length b \<Longrightarrow> no_panic (sl_get b i)"
  "i \<le> j \<Longrightarrow> j \<le> length b \<Longrightarrow> no_panic (sl b i j)"
  by (simp_all add: read_uint_def sl_def)

lemma no_panic_un_fixed: "i + 16 * n \<le> length b \<Longrightarrow> no_panic (un_fixed mk b n i vs)"
  by (induction n arbitrary: i vs) (auto intro!: no_panic_bind no_panic_read)

lemma no_panic_un_bools: "i + 9 * n \<le> length b \<Longrightarrow> no_panic (un_bools b n i vs)"
  by (induction n arbitrary: i vs) (auto intro!: no_panic_bind no_panic_read)

lemma no_panic_un_strings: "no_panic (un_strings b n i vs)"
  by (induction n arbitrary: i vs) (auto intro!: no_panic_bind no_panic_read)

lemma no_panic_un_entry:
  assumes "i < length b"
  shows "no_panic (un_entry b i)"
  using assms unfolding un_entry_def un_values_def Let_def
  by (auto intro!: no_panic_bind no_panic_read no_panic_un_fixed no_panic_un_bools no_panic_un_strings split: prod.split)

lemma no_panic_un_loop: "no_panic (un_loop b i m)"
proof (induction b i m rule: un_loop.induct)
  case (1 b i m)
  show ?case
  proof (cases "i < length b")
    case i: True
    show ?thesis
    proof (cases "un_entry b i")
      case (Inl e)
      then show ?thesis using i no_panic_un_entry [OF i] by (subst un_loop.simps) (simp add: no_panic_def)
    next
      case (Inr r)
      obtain k vs j where r: "r = (k, vs, j)" by (cases r)
      show ?thesis using 1 [OF i Inr r [symmetric] refl] i Inr r by (simp add: un_loop_step)
    qed
  qed (simp add: un_loop_step)
qed

lemma no_panic_ID_Decode: "no_panic (ID_Decode b)"
  by (simp add: ID_Decode_def ErrInvalidID_def ErrInvalidIDLength_def split: option.split)

text \<open>
  C17: decoding corrupt entries. Whatever the bytes, decoding a batch or a deletion ends in an entry or an error and never
  indexes out of range.
\<close>

theorem wal_decode_never_panics:
  "write_UnmarshalBinary b w \<noteq> Inl (GoPanic m) \<and> delete_UnmarshalBinary b \<noteq> Inl (GoPanic m)"
proof -
  have "no_panic (write_UnmarshalBinary b w)" unfolding write_UnmarshalBinary_def
    by (rule no_panic_bind) (simp_all add: no_panic_un_loop)
  moreover have "no_panic (delete_UnmarshalBinary b)" unfolding delete_UnmarshalBinary_def
    by (auto intro!: no_panic_bind no_panic_read no_panic_ID_Decode simp: IDLength_def)
  ultimately show ?thesis by (auto simp: no_panic_def split: sum.splits)
qed

end
