(* ===== verification/Wal_Segment.thy ===== *)
theory Wal_Segment
  imports Wal_Codec String_Codec
begin

text \<open>
  Segment files of the write-ahead log (\<^verbatim>\<open>storage/wal/wal.go\<close>, \<^verbatim>\<open>storage/wal/reader.go\<close>): the buffered writer of framed entries, the reader that
  stops at the first bad frame, and the replay of a file that cuts it there. The disk is a list of named
  files with the number of bytes it still accepts, so writes may fail half-way; the part of a file that
  was synced is recorded, since a crash may lose the rest.
\<close>

section \<open>Files and buffered writing\<close>

record os_file =
  f_data :: bytes
  f_synced :: nat

record disk =
  d_files :: "(bytes \<times> os_file) list"
  d_free :: nat

text \<open>Writing at a position beyond the end of a file leaves zeros in between.\<close>

definition file_put :: "nat \<Rightarrow> bytes \<Rightarrow> bytes \<Rightarrow> bytes" where
  "file_put pos p data =
     (let d = data @ replicate (pos - length data) 0 in take pos d @ p @ drop (pos + length p) d)"

definition ErrNoSpace :: go_error where "ErrNoSpace = GoError ''no space left on device''"

record segment_writer =
  sw_path :: bytes
  sw_pos :: nat
  sw_buf :: bytes
  sw_err :: "go_error option"
  sw_size :: nat

definition NewWALSegmentWriter :: "bytes \<Rightarrow> nat \<Rightarrow> segment_writer" where
  "NewWALSegmentWriter name pos = \<lparr>sw_path = name, sw_pos = pos, sw_buf = [], sw_err = None, sw_size = 0\<rparr>"

definition bufio_size :: nat where "bufio_size = 16 * 1024"

definition fd_Write :: "bytes \<Rightarrow> segment_writer \<Rightarrow> disk \<Rightarrow> (nat \<times> go_error option) \<times> segment_writer \<times> disk" where
  "fd_Write p w d =
     (let n = min (length p) (d_free d)
      in ((n, if n < length p then Some ErrNoSpace else None),
          w\<lparr>sw_pos := sw_pos w + n\<rparr>,
          d\<lparr>d_files := AList.map_entry (sw_path w) (\<lambda>f. f\<lparr>f_data := file_put (sw_pos w) (take n p) (f_data f)\<rparr>) (d_files d),
            d_free := d_free d - n\<rparr>))"

definition bufio_Flush :: "segment_writer \<Rightarrow> disk \<Rightarrow> go_error option \<times> segment_writer \<times> disk" where
  "bufio_Flush w d =
     (if sw_err w \<noteq> None then (sw_err w, w, d)
      else if sw_buf w = [] then (None, w, d)
      else case fd_Write (sw_buf w) w d of ((n, err), w', d') \<Rightarrow>
        (err, w'\<lparr>sw_buf := drop n (sw_buf w), sw_err := err\<rparr>, d'))"

lemma fd_Write_writer: "fd_Write p w d = (r, w', d') \<Longrightarrow> sw_buf w' = sw_buf w \<and> sw_err w' = sw_err w \<and> sw_path w' = sw_path w \<and> sw_size w' = sw_size w"
  by (auto simp: fd_Write_def Let_def)

lemma bufio_Flush_buf: "bufio_Flush w d = (err, w', d') \<Longrightarrow> sw_err w' = None \<Longrightarrow> sw_buf w' = []"
  by (auto simp: bufio_Flush_def fd_Write_def Let_def split: if_splits)

text \<open>\<^verbatim>\<open>bufio.Writer.Write\<close>: what does not fit fills the buffer and flushes it, and bypasses an empty buffer.\<close>

function bufio_Write :: "bytes \<Rightarrow> segment_writer \<Rightarrow> disk \<Rightarrow> go_error option \<times> segment_writer \<times> disk" where
  "bufio_Write p w d =
     (if sw_err w \<noteq> None then (sw_err w, w, d)
      else if length p \<le> bufio_size - length (sw_buf w) then (None, w\<lparr>sw_buf := sw_buf w @ p\<rparr>, d)
      else if sw_buf w = [] then
        (case fd_Write p w d of ((n, err), w', d') \<Rightarrow> bufio_Write (drop n p) (w'\<lparr>sw_err := err\<rparr>) d')
      else
        (let n = bufio_size - length (sw_buf w)
         in case bufio_Flush (w\<lparr>sw_buf := sw_buf w @ take n p\<rparr>) d of (_, w', d') \<Rightarrow> bufio_Write (drop n p) w' d'))"
  by pat_completeness auto
termination
proof (relation "measures [\<lambda>(p, w, d). if sw_err w = None then 1 else 0, \<lambda>(p, w, d). length p, \<lambda>(p, w, d). length (sw_buf w)]", goal_cases)
  case (2 p w d x xa y xb ya)
  then show ?case by (auto simp: fd_Write_def Let_def min_def split: if_splits)
next
  case (3 p w d x xa y xb ya)
  then show ?case using bufio_Flush_buf [of "w\<lparr>sw_buf := sw_buf w @ take x p\<rparr>" d xa xb ya]
    by (cases "sw_err xb") auto
qed simp

declare bufio_Write.simps [simp del]

section \<open>The segment writer\<close>

definition segment_Write :: "u8 \<Rightarrow> bytes \<Rightarrow> segment_writer \<Rightarrow> disk \<Rightarrow> go_error option \<times> segment_writer \<times> disk" where
  "segment_Write entryType compressed w d =
     (let buf = entryType # put_u32 (of_nat (length compressed))
      in case bufio_Write buf w d of
        (Some e, w1, d1) \<Rightarrow> (Some e, w1, d1)
      | (None, w1, d1) \<Rightarrow>
          (case bufio_Write compressed w1 d1 of
             (Some e, w2, d2) \<Rightarrow> (Some e, w2, d2)
           | (None, w2, d2) \<Rightarrow> (None, w2\<lparr>sw_size := sw_size w2 + (length buf + length compressed)\<rparr>, d2)))"

definition segment_sync :: "segment_writer \<Rightarrow> disk \<Rightarrow> go_error option \<times> segment_writer \<times> disk" where
  "segment_sync w d =
     (case bufio_Flush w d of
        (Some e, w', d') \<Rightarrow> (Some e, w', d')
      | (None, w', d') \<Rightarrow>
          (None, w', d'\<lparr>d_files := AList.map_entry (sw_path w) (\<lambda>f. f\<lparr>f_synced := length (f_data f)\<rparr>) (d_files d')\<rparr>))"

definition segment_close :: "segment_writer \<Rightarrow> disk \<Rightarrow> go_error option \<times> segment_writer \<times> disk" where
  "segment_close w d = bufio_Flush w d"

section \<open>The segment reader\<close>

datatype read_error = EOF | UnexpectedEOF

text \<open>\<^verbatim>\<open>io.ReadFull\<close> of \<open>n\<close> bytes: the bytes, or an error that consumes what is left.\<close>

definition ReadFull :: "nat \<Rightarrow> bytes \<Rightarrow> (read_error + bytes) \<times> bytes" where
  "ReadFull n r =
     (if n \<le> length r then (Inr (take n r), drop n r)
      else if r = [] then (Inl EOF, []) else (Inl UnexpectedEOF, []))"

definition read_go_error :: "read_error \<Rightarrow> go_error" where
  "read_go_error e = (case e of EOF \<Rightarrow> GoError ''EOF'' | UnexpectedEOF \<Rightarrow> GoError ''unexpected EOF'')"

record segment_reader =
  rd_r :: bytes
  rd_entry :: "WALEntry option"
  rd_n :: nat
  rd_err :: "go_error option"

definition NewWALSegmentReader :: "bytes \<Rightarrow> segment_reader" where
  "NewWALSegmentReader b = \<lparr>rd_r = b, rd_entry = None, rd_n = 0, rd_err = None\<rparr>"

definition unmarshal_entry :: "u8 \<Rightarrow> bytes \<Rightarrow> WALEntry res" where
  "unmarshal_entry entryType data =
     (if entryType = WriteWALEntryType then
        bind_res (write_UnmarshalBinary data \<lparr>we_Values = [], we_sz = 0\<rparr>) (\<lambda>w. Inr (WriteWALEntry w))
      else if entryType = DeleteBucketRangeWALEntryType then
        bind_res (delete_UnmarshalBinary data) (\<lambda>w. Inr (DeleteBucketRangeWALEntry w))
      else Inl (GoError ''unknown wal entry type''))"

text \<open>
  \<open>None\<close> is the result \<^verbatim>\<open>false\<close>. An entry that failed to decode is never read, since \<^verbatim>\<open>Read\<close> returns the error; the model keeps the
  entry before it.
\<close>

definition reader_Next :: "snappy \<Rightarrow> segment_reader \<Rightarrow> segment_reader option" where
  "reader_Next S r =
     (case ReadFull 5 (rd_r r) of
        (Inl EOF, _) \<Rightarrow> None
      | (Inl UnexpectedEOF, rest) \<Rightarrow> Some (r\<lparr>rd_r := rest, rd_err := Some (read_go_error UnexpectedEOF)\<rparr>)
      | (Inr lv, rest) \<Rightarrow>
          (let len = unat (be_word (drop 1 lv))
           in case ReadFull len rest of
             (Inl e, rest') \<Rightarrow> Some (r\<lparr>rd_r := rest', rd_err := Some (read_go_error e)\<rparr>)
           | (Inr b, rest') \<Rightarrow>
               (case bind_res (sn_Decode S b) (unmarshal_entry (lv ! 0)) of
                  Inl e \<Rightarrow> Some (r\<lparr>rd_r := rest', rd_err := Some e\<rparr>)
                | Inr entry \<Rightarrow> Some (r\<lparr>rd_r := rest', rd_entry := Some entry, rd_err := None, rd_n := rd_n r + (5 + len)\<rparr>))))"

definition reader_Read :: "segment_reader \<Rightarrow> WALEntry option res" where
  "reader_Read r = (case rd_err r of Some e \<Rightarrow> Inl e | None \<Rightarrow> Inr (rd_entry r))"

definition reader_Count :: "segment_reader \<Rightarrow> nat" where
  "reader_Count r = rd_n r"

lemma reader_Next_shorter:
  "reader_Next S r = Some r' \<Longrightarrow> rd_err r' = None \<Longrightarrow> length (rd_r r') < length (rd_r r)"
  by (auto simp: reader_Next_def ReadFull_def Let_def split: if_splits sum.splits read_error.splits prod.splits)

section \<open>Replay of a file\<close>

text \<open>
  The loop of \<^verbatim>\<open>readFile\<close> with a callback on a state \<open>'s\<close>: the error of the callback, where to cut the file if it is corrupt,
  and the state.
\<close>

function replay_loop :: "snappy \<Rightarrow> (WALEntry \<Rightarrow> 's \<Rightarrow> go_error option \<times> 's) \<Rightarrow> segment_reader \<Rightarrow> 's \<Rightarrow>
    go_error option \<times> nat option \<times> 's" where
  "replay_loop S cb r s =
     (case reader_Next S r of
        None \<Rightarrow> (None, None, s)
      | Some r' \<Rightarrow>
          (if rd_err r' \<noteq> None then (None, Some (reader_Count r'), s)
           else case cb (the (rd_entry r')) s of
             (Some e, s') \<Rightarrow> (Some e, None, s')
           | (None, s') \<Rightarrow> replay_loop S cb r' s'))"
  by pat_completeness auto
termination
  by (relation "measure (\<lambda>(S, cb, r, s). length (rd_r r))") (auto dest: reader_Next_shorter)

declare replay_loop.simps [simp del]

definition replay_bytes :: "snappy \<Rightarrow> (WALEntry \<Rightarrow> 's \<Rightarrow> go_error option \<times> 's) \<Rightarrow> bytes \<Rightarrow> 's \<Rightarrow> go_error option \<times> bytes \<times> 's" where
  "replay_bytes S cb data s =
     (if data = [] then (None, [], s)
      else case replay_loop S cb (NewWALSegmentReader data) s of
        (err, trunc, s') \<Rightarrow> (err, case trunc of None \<Rightarrow> data | Some n \<Rightarrow> take n data, s'))"

definition data_of :: "disk \<Rightarrow> bytes \<Rightarrow> bytes" where
  "data_of d name = (case map_of (d_files d) name of None \<Rightarrow> [] | Some f \<Rightarrow> f_data f)"

definition readFile :: "snappy \<Rightarrow> (WALEntry \<Rightarrow> 's \<Rightarrow> go_error option \<times> 's) \<Rightarrow> bytes \<Rightarrow> disk \<Rightarrow> 's \<Rightarrow> go_error option \<times> disk \<times> 's" where
  "readFile S cb name d s =
     (case replay_bytes S cb (data_of d name) s of
        (err, data, s') \<Rightarrow>
          (err, d\<lparr>d_files := AList.update name \<lparr>f_data = data, f_synced = min (length data) (case map_of (d_files d) name of None \<Rightarrow> 0 | Some f \<Rightarrow> f_synced f)\<rparr> (d_files d)\<rparr>, s'))"

fun read_files :: "snappy \<Rightarrow> (WALEntry \<Rightarrow> 's \<Rightarrow> go_error option \<times> 's) \<Rightarrow> bytes list \<Rightarrow> disk \<Rightarrow> 's \<Rightarrow> go_error option \<times> disk \<times> 's" where
  "read_files S cb [] d s = (None, d, s)"
| "read_files S cb (file # files) d s =
     (case readFile S cb file d s of
        (Some e, d', s') \<Rightarrow> (Some e, d', s')
      | (None, d', s') \<Rightarrow> read_files S cb files d' s')"

definition WALReader_Read :: "snappy \<Rightarrow> (WALEntry \<Rightarrow> 's \<Rightarrow> go_error option \<times> 's) \<Rightarrow> bytes list \<Rightarrow> disk \<Rightarrow> 's \<Rightarrow> go_error option \<times> disk \<times> 's" where
  "WALReader_Read S cb files d s = read_files S cb (sort_keys files) d s"

end
