(* ===== verification/Wal_Replay.thy ===== *)
theory Wal_Replay
  imports Wal_Segment
begin

text \<open>
  What replaying a segment file delivers. \<open>scan\<close> is the list of entries a file holds up to its first bad frame, the number of bytes they
  take, and whether the file ends there; replay applies the callback to these entries and cuts the file
  behind them. Entries that were written whole are scanned in order, whatever follows them.
\<close>

section \<open>Scanning\<close>

function scan :: "snappy \<Rightarrow> bytes \<Rightarrow> WALEntry list \<times> nat \<times> bool" where
  "scan S data =
     (case reader_Next S (NewWALSegmentReader data) of
        None \<Rightarrow> ([], 0, True)
      | Some r \<Rightarrow>
          (if rd_err r \<noteq> None then ([], 0, False)
           else case scan S (rd_r r) of (es, n, ok) \<Rightarrow> (the (rd_entry r) # es, rd_n r + n, ok)))"
  by pat_completeness auto
termination
  by (relation "measure (\<lambda>(S, data). length data)") (auto dest!: reader_Next_shorter simp: NewWALSegmentReader_def)

declare scan.simps [simp del]

fun apply_all :: "(WALEntry \<Rightarrow> 's \<Rightarrow> go_error option \<times> 's) \<Rightarrow> WALEntry list \<Rightarrow> 's \<Rightarrow> go_error option \<times> 's" where
  "apply_all cb [] s = (None, s)"
| "apply_all cb (e # es) s = (case cb e s of (Some err, s') \<Rightarrow> (Some err, s') | (None, s') \<Rightarrow> apply_all cb es s')"

lemma reader_Next_fresh:
  "reader_Next S r = map_option (\<lambda>r'. r\<lparr>rd_r := rd_r r', rd_entry := (if rd_err r' = None then rd_entry r' else rd_entry r),
     rd_err := rd_err r', rd_n := rd_n r + rd_n r'\<rparr>) (reader_Next S (NewWALSegmentReader (rd_r r)))"
  by (auto simp: reader_Next_def NewWALSegmentReader_def Let_def split: sum.splits read_error.splits prod.splits)

lemma reader_Next_error_n: "reader_Next S r = Some r' \<Longrightarrow> rd_err r' \<noteq> None \<Longrightarrow> rd_n r' = rd_n r"
  by (auto simp: reader_Next_def Let_def split: sum.splits read_error.splits prod.splits)

lemma replay_loop_scan:
  "replay_loop S cb r s =
     (case scan S (rd_r r) of (es, n, ok) \<Rightarrow>
        (case apply_all cb es s of
           (Some e, s') \<Rightarrow> (Some e, None, s')
         | (None, s') \<Rightarrow> (None, if ok then None else Some (rd_n r + n), s')))"
proof (induction S cb r s rule: replay_loop.induct)
  case (1 S cb r s)
  show ?case
  proof (cases "reader_Next S (NewWALSegmentReader (rd_r r))")
    case None
    then show ?thesis using reader_Next_fresh [of S r] by (subst replay_loop.simps, subst scan.simps) simp
  next
    case (Some r0)
    let ?r = "r\<lparr>rd_r := rd_r r0, rd_entry := (if rd_err r0 = None then rd_entry r0 else rd_entry r), rd_err := rd_err r0, rd_n := rd_n r + rd_n r0\<rparr>"
    have n: "reader_Next S r = Some ?r" using reader_Next_fresh [of S r] Some by simp
    show ?thesis
    proof (cases "rd_err r0")
      case (Some e)
      then have "rd_n r0 = 0" using reader_Next_error_n [OF \<open>reader_Next S (NewWALSegmentReader (rd_r r)) = Some r0\<close>] by (simp add: NewWALSegmentReader_def)
      then show ?thesis using Some n \<open>reader_Next S (NewWALSegmentReader (rd_r r)) = Some r0\<close>
        by (subst replay_loop.simps, subst scan.simps) (simp add: reader_Count_def)
    next
      case None
      obtain err s' where cb: "cb (the (rd_entry r0)) s = (err, s')" by force
      obtain es k ok where sc: "scan S (rd_r r0) = (es, k, ok)" by (cases "scan S (rd_r r0)")
      have s2: "scan S (rd_r r) = (the (rd_entry r0) # es, rd_n r0 + k, ok)"
        using None Some sc by (subst scan.simps) simp
      show ?thesis
      proof (cases err)
        case (Some e)
        then show ?thesis unfolding s2 using None n cb by (subst replay_loop.simps) simp
      next
        case err: None
        have "replay_loop S cb ?r s' =
            (case apply_all cb es s' of
               (Some e, s') \<Rightarrow> (Some e, None, s')
             | (None, s') \<Rightarrow> (None, if ok then None else Some (rd_n r + rd_n r0 + k), s'))"
          using 1 [OF n] None cb err sc by (cases "apply_all cb es s'") (auto split: option.splits)
        then show ?thesis unfolding s2 using None n cb err
            by (subst replay_loop.simps) (simp add: add.assoc split: prod.split option.split)
      qed
    qed
  qed
qed

lemma replay_bytes_scan:
  "replay_bytes S cb data s =
     (case scan S data of (es, n, ok) \<Rightarrow>
        (case apply_all cb es s of
           (Some e, s') \<Rightarrow> (Some e, data, s')
         | (None, s') \<Rightarrow> (None, if ok then data else take n data, s')))"
proof (cases "data = []")
  case True
  then show ?thesis by (subst scan.simps) (simp add: replay_bytes_def reader_Next_def ReadFull_def NewWALSegmentReader_def)
next
  case False
  then show ?thesis unfolding replay_bytes_def replay_loop_scan
    by (simp add: NewWALSegmentReader_def split: prod.split option.split)
qed

section \<open>Frames\<close>

definition frame :: "u8 \<Rightarrow> bytes \<Rightarrow> bytes" where
  "frame t c = t # put_u32 (of_nat (length c)) @ c"

definition is_frame :: "snappy \<Rightarrow> WALEntry \<Rightarrow> bytes \<Rightarrow> bool" where
  "is_frame S e fr \<longleftrightarrow>
     (\<exists>t c. fr = frame t c \<and> length c < 2 ^ 32 \<and> bind_res (sn_Decode S c) (unmarshal_entry t) = Inr e)"

lemma length_frame [simp]: "length (frame t c) = 5 + length c"
  by (simp add: frame_def)

lemma be_word_put_u32: "n < 2 ^ 32 \<Longrightarrow> unat (be_word (put_u32 (of_nat n))) = n"
  using read_len_middle [of n "put_u32 (of_nat n)" "[]" "[]" 0] by (auto simp: read_uint_def sl_def)

lemma Next_frame:
  assumes "is_frame S e fr"
  shows "reader_Next S (NewWALSegmentReader (fr @ rest)) = Some \<lparr>rd_r = rest, rd_entry = Some e, rd_n = length fr, rd_err = None\<rparr>"
proof -
  obtain t c where c: "fr = frame t c" "length c < 2 ^ 32" "bind_res (sn_Decode S c) (unmarshal_entry t) = Inr e"
    using assms by (auto simp: is_frame_def)
  have "ReadFull 5 (fr @ rest) = (Inr (t # put_u32 (of_nat (length c))), c @ rest)"
    by (simp add: ReadFull_def c(1) frame_def)
  moreover have "ReadFull (length c) (c @ rest) = (Inr c, rest)" by (simp add: ReadFull_def)
  ultimately show ?thesis using c(3) be_word_put_u32 [OF c(2)] by (simp add: reader_Next_def NewWALSegmentReader_def c(1))
qed

lemma Next_torn:
  assumes "is_frame S e fr" "strict_prefix t fr" "t \<noteq> []"
  shows "\<exists>r. reader_Next S (NewWALSegmentReader t) = Some r \<and> rd_err r \<noteq> None"
proof -
  obtain ty c where c: "fr = frame ty c" "length c < 2 ^ 32" using assms(1) by (auto simp: is_frame_def)
  have len: "length t < 5 + length c" using prefix_length_less [OF assms(2)] c(1) by simp
  show ?thesis
  proof (cases "length t < 5")
    case True
    then show ?thesis using assms(3) by (simp add: reader_Next_def NewWALSegmentReader_def ReadFull_def)
  next
    case False
    then have "take 5 t = take 5 fr" using assms(2) by (auto simp: strict_prefix_def prefix_def)
    then have "take 5 t = ty # put_u32 (of_nat (length c))" by (simp add: c(1) frame_def)
    then have "ReadFull 5 t = (Inr (ty # put_u32 (of_nat (length c))), drop 5 t)" using False by (simp add: ReadFull_def)
    moreover have "fst (ReadFull (length c) (drop 5 t)) = Inl EOF \<or> fst (ReadFull (length c) (drop 5 t)) = Inl UnexpectedEOF"
      using len False by (auto simp: ReadFull_def)
    ultimately show ?thesis using be_word_put_u32 [OF c(2)]
      by (cases "ReadFull (length c) (drop 5 t)") (auto simp: reader_Next_def NewWALSegmentReader_def)
  qed
qed

lemma scan_Nil [simp]: "scan S [] = ([], 0, True)"
  by (subst scan.simps) (simp add: reader_Next_def ReadFull_def NewWALSegmentReader_def)

lemma scan_frame:
  "is_frame S e fr \<Longrightarrow> scan S (fr @ rest) = (case scan S rest of (es, n, ok) \<Rightarrow> (e # es, length fr + n, ok))"
  by (subst scan.simps) (simp add: Next_frame)

lemma scan_torn: "is_frame S e fr \<Longrightarrow> strict_prefix t fr \<Longrightarrow> scan S t = ([], 0, t = [])"
  by (cases "t = []") (use Next_torn [of S e fr t] in \<open>auto simp: scan.simps [of S t]\<close>)

lemma scan_frames:
  "list_all2 (is_frame S) es frs \<Longrightarrow>
   scan S (concat frs @ rest) = (case scan S rest of (es', n, ok) \<Rightarrow> (es @ es', length (concat frs) + n, ok))"
  by (induction es frs rule: list_all2_induct) (simp_all add: scan_frame split: prod.split)

text \<open>What is left of a list of frames after a crash: some of them whole, and part of the next.\<close>

lemma prefix_of_frames:
  assumes "prefix f (concat frs)" "[] \<notin> set frs"
  obtains k t where "k \<le> length frs" "f = concat (take k frs) @ t" "k < length frs \<and> strict_prefix t (frs ! k) \<or> k = length frs \<and> t = []"
  using assms
proof (induction frs arbitrary: f thesis)
  case Nil
  then show ?case using Nil.prems(1) [of 0 "[]"] by simp
next
  case (Cons fr frs)
  show ?case
  proof (cases "prefix fr f")
    case True
    then obtain g where g: "f = fr @ g" by (auto simp: prefix_def)
    then have "prefix g (concat frs)" using Cons.prems(2) by simp
    with Cons.IH Cons.prems(3) obtain k t where k: "k \<le> length frs" "g = concat (take k frs) @ t"
        "k < length frs \<and> strict_prefix t (frs ! k) \<or> k = length frs \<and> t = []" by (metis list.set_intros(2))
    then show ?thesis using Cons.prems(1) [of "Suc k" t] g by auto
  next
    case False
    then have "strict_prefix f fr" using Cons.prems(2) by (auto simp: prefix_append strict_prefix_def)
    then show ?thesis using Cons.prems(1) [of 0 f] by auto
  qed
qed

lemma scan_prefix:
  assumes "list_all2 (is_frame S) es frs" "prefix f (concat frs)"
  shows "\<exists>k t. k \<le> length es \<and> f = concat (take k frs) @ t \<and> scan S f = (take k es, length (concat (take k frs)), t = []) \<and>
    (t \<noteq> [] \<longrightarrow> k < length es)  \<and> (k < length es \<longrightarrow> length f < length (concat (take (Suc k) frs)))"
proof -
  have len: "length es = length frs" using assms(1) by (rule list_all2_lengthD)
  have "[] \<notin> set frs" using assms(1) by (auto simp: list_all2_conv_all_nth in_set_conv_nth is_frame_def frame_def)
  then obtain k t where k: "k \<le> length frs" "f = concat (take k frs) @ t"
      "k < length frs \<and> strict_prefix t (frs ! k) \<or> k = length frs \<and> t = []"
    using prefix_of_frames [OF assms(2)] by blast
  have t: "scan S t = ([], 0, t = [])"
    using k(3) scan_torn assms(1) by (auto simp: list_all2_conv_all_nth len)
  have "list_all2 (is_frame S) (take k es) (take k frs)" using assms(1) by (rule list_all2_takeI)
  from scan_frames [OF this, of t] have "scan S f = (take k es, length (concat (take k frs)), t = [])" by (simp add: k(2) t)
  moreover have "length f < length (concat (take (Suc k) frs))" if "k < length es"
    using k(3) that len prefix_length_less [of t "frs ! k"] by (auto simp: k(2) take_Suc_conv_app_nth)
  moreover have "t \<noteq> [] \<longrightarrow> k < length es" using k(3) len by auto
  ultimately show ?thesis using k(1,2) len by (intro exI [of _ k] exI [of _ t]) simp
qed

section \<open>Arbitrary bytes\<close>

text \<open>A successful step takes a frame off the front and does not look behind it.\<close>

lemma be_word_bound: "8 * length b \<le> n \<Longrightarrow> unat (be_word b) < 2 ^ n"
proof -
  assume "8 * length b \<le> n"
  then have "take_bit n (be_word b) = be_word b" 
    by (intro bit_word_eqI) (auto simp: bit_take_bit_iff, meson be_word_high leI le_trans)
  then have "take_bit n (unat (be_word b)) = unat (be_word b)" by (metis unsigned_take_bit_eq)
  then show ?thesis by (metis take_bit_nat_less_exp)
qed

lemma Next_ok_frame:
  assumes "reader_Next S (NewWALSegmentReader data) = Some r" "rd_err r = None"
  obtains fr where "is_frame S (the (rd_entry r)) fr" "data = fr @ rd_r r" "rd_n r = length fr"
proof -
  define lv where "lv = take 5 data"
  define len where "len = unat (be_word (drop 1 lv))"
  define c where "c = take len (drop 5 data)"
  have 5: "5 \<le> length data" and l: "len \<le> length data - 5"
    using assms by (auto simp: reader_Next_def NewWALSegmentReader_def ReadFull_def Let_def len_def lv_def split: if_splits sum.splits prod.splits)
  have r: "rd_r r = drop len (drop 5 data)" "rd_n r = 5 + len" "bind_res (sn_Decode S c) (unmarshal_entry (lv ! 0)) = Inr (the (rd_entry r))"
    using assms 5 l by (auto simp: reader_Next_def NewWALSegmentReader_def ReadFull_def Let_def len_def lv_def c_def split: if_splits sum.splits prod.splits)
  have lv5: "length lv = 5" using 5 by (simp add: lv_def)
  have "length (drop 1 lv) = 4" using lv5 by simp
  then have w: "put_u32 (be_word (drop 1 lv)) = drop 1 lv" "len < 2 ^ 32"
    using be_bytes_be_word [of "drop 1 lv"] be_word_bound [of "drop 1 lv" 32] unfolding len_def by (simp_all add: put_u32_def)
  have lc: "length c = len" using l by (simp add: c_def)
  then have "of_nat (length c) = be_word (drop 1 lv)" by (simp add: len_def)
  then have "put_u32 (of_nat (length c)) = drop 1 lv" using w(1) by simp
  moreover have "lv ! 0 # drop 1 lv = lv" using lv5 by (cases lv) auto
  ultimately have fr: "frame (lv ! 0) c = lv @ c" by (simp add: frame_def)
  have "data = (lv @ c) @ rd_r r" by (simp add: lv_def c_def r(1) del: drop_drop)
  moreover have "length c < 2 ^ 32" using w(2) by (simp add: lc)
  ultimately have "is_frame S (the (rd_entry r)) (frame (lv ! 0) c)" using r(3) unfolding is_frame_def by blast
  then show thesis by (rule that) (use \<open>data = (lv @ c) @ rd_r r\<close> r(2) lc in \<open>simp_all add: fr [symmetric] del: append_assoc\<close>)
qed

lemma scan_as_frames:
  "\<exists>frs t. list_all2 (is_frame S) (fst (scan S data)) frs \<and> data = concat frs @ t \<and> fst (snd (scan S data)) = length (concat frs) \<and>
     scan S t = ([], 0, snd (snd (scan S data))) \<and> (snd (snd (scan S data)) \<longleftrightarrow> t = [])"
proof (induction S data rule: scan.induct)
  case (1 S data)
  show ?case
  proof (cases "\<exists>r. reader_Next S (NewWALSegmentReader data) = Some r \<and> rd_err r = None")
    case True
    then obtain r where r: "reader_Next S (NewWALSegmentReader data) = Some r" "rd_err r = None" by blast
    obtain fr where fr: "is_frame S (the (rd_entry r)) fr" "data = fr @ rd_r r" "rd_n r = length fr" by (rule Next_ok_frame [OF r])
    obtain es n ok where s: "scan S (rd_r r) = (es, n, ok)" by (cases "scan S (rd_r r)")
    obtain frs t where t: "list_all2 (is_frame S) es frs" "rd_r r = concat frs @ t" "n = length (concat frs)"
        "scan S t = ([], 0, ok)" "ok \<longleftrightarrow> t = []"
      using 1 [OF r(1)] r(2) s by auto
    have "scan S data = (the (rd_entry r) # es, length fr + n, ok)" using scan_frame [OF fr(1), of "rd_r r"] fr(2) s by simp
    then show ?thesis using t fr by (intro exI [of _ "fr # frs"] exI [of _ t]) simp
  next
    case False
    have e: "data = []" if "reader_Next S (NewWALSegmentReader data) = None"
      using that by (auto simp: reader_Next_def NewWALSegmentReader_def ReadFull_def Let_def split: if_splits sum.splits prod.splits)
    moreover have "reader_Next S (NewWALSegmentReader []) = None" by (simp add: reader_Next_def NewWALSegmentReader_def ReadFull_def)
    ultimately have "scan S data = ([], 0, data = [])" using False
      by (cases "reader_Next S (NewWALSegmentReader data)") (auto simp: scan.simps [of S data])
    then show ?thesis by (intro exI [of _ "[]"] exI [of _ data]) simp
  qed
qed

text \<open>
  C15: replay of a damaged segment. Whatever the bytes of a file, they are some whole frames followed by a rest that does not begin with a frame. Replay
  applies the callback to the entries of exactly those frames, in order: all of them, until the callback fails. When it fails
  the file stays as it was; otherwise the file is cut behind the last frame, and nothing is cut when the rest is empty. Replaying what is
  left delivers the same entries and cuts nothing.
\<close>

theorem replay_cuts_at_valid_bytes:
  "\<exists>es frs rest. data = concat frs @ rest \<and> list_all2 (is_frame S) es frs \<and> (\<forall>e fr. is_frame S e fr \<longrightarrow> \<not> prefix fr rest) \<and>
     replay_bytes S cb data s =
       (case apply_all cb es s of (Some err, s') \<Rightarrow> (Some err, data, s') | (None, s') \<Rightarrow> (None, concat frs, s')) \<and>
     replay_bytes S cb (concat frs) s = (case apply_all cb es s of (err, s') \<Rightarrow> (err, concat frs, s'))"
proof -
  obtain es n ok where s: "scan S data = (es, n, ok)" by (cases "scan S data")
  obtain frs t where t: "list_all2 (is_frame S) es frs" "data = concat frs @ t" "n = length (concat frs)" "ok \<longleftrightarrow> t = []" "fst (scan S t) = []"
    using scan_as_frames [of S data] s by auto
  have "\<not> prefix fr t" if "is_frame S e fr" for e fr
    using t(5) scan_frame [OF that] by (auto simp: prefix_def split: prod.splits)
  moreover have d: "(if ok then data else take n data) = concat frs" using t(2-4) by simp
  have "replay_bytes S cb data s =
      (case apply_all cb es s of (Some err, s') \<Rightarrow> (Some err, data, s') | (None, s') \<Rightarrow> (None, concat frs, s'))"
    unfolding replay_bytes_scan s prod.case d ..
  moreover have "scan S (concat frs) = (es, length (concat frs), True)" using scan_frames [OF t(1), of "[]"] by simp
  then have "replay_bytes S cb (concat frs) s = (case apply_all cb es s of (err, s') \<Rightarrow> (err, concat frs, s'))"
    by (simp add: replay_bytes_scan split: prod.split option.split)
  ultimately show ?thesis using t(1,2) by blast
qed

text \<open>A zero where a frame should begin stops the scan: zero is no type of entry.\<close>

lemma scan_zero: "scan S (0 # rest) = ([], 0, False)"
proof -
  have "\<exists>r. reader_Next S (NewWALSegmentReader (0 # rest)) = Some r \<and> rd_err r \<noteq> None"
    by (auto simp: reader_Next_def NewWALSegmentReader_def ReadFull_def Let_def unmarshal_entry_def WriteWALEntryType_def
        DeleteBucketRangeWALEntryType_def bind_res_def split: sum.split)
  then show ?thesis by (auto simp: scan.simps [of S "0 # rest"])
qed

section \<open>Encoded entries\<close>

definition entry_Encode :: "bytes \<Rightarrow> WALEntry \<Rightarrow> bytes res" where
  "entry_Encode dst e =
     (case e of WriteWALEntry w \<Rightarrow> fst (write_Encode (snd (write_MarshalSize w))) | DeleteBucketRangeWALEntry w \<Rightarrow> delete_Encode dst w)"

text \<open>Entries the log can store: those that survive their own encoding and whose compressed length fits its field.\<close>

definition well_formed_entry :: "WALEntry \<Rightarrow> bool" where
  "well_formed_entry e \<longleftrightarrow>
     (case e of
        WriteWALEntry w \<Rightarrow> we_sz w = 0 \<and> loggable (we_Values w)
      | DeleteBucketRangeWALEntry w \<Rightarrow> ID_Valid (de_OrgID w) \<and> ID_Valid (de_BucketID w))"

definition wal_storable :: "snappy \<Rightarrow> WALEntry \<Rightarrow> bool" where
  "wal_storable S e \<longleftrightarrow> well_formed_entry e \<and>
     (case entry_Encode [] e of Inl _ \<Rightarrow> False | Inr b \<Rightarrow> 0 \<le> sn_MaxEncodedLen S (length b) \<and> sn_MaxEncodedLen S (length b) < 2 ^ 32)"

lemma write_Encode_twice: "fst (write_Encode (snd (write_MarshalSize w))) = fst (write_Encode w)"
  by (auto simp: write_Encode_def write_MarshalSize_def split: option.split)

lemma entry_Encode_buf:
  assumes "well_formed_entry e"
  shows "entry_Encode dst e = entry_Encode dst' e"
proof (cases e)
  case (DeleteBucketRangeWALEntry w)
  let ?u = "hex_encode (put_u64 (de_OrgID w))" and ?v = "hex_encode (put_u64 (de_BucketID w))"
  have "delete_Encode b w = Inr (?u @ ?v @ put_u64 (de_Min w) @ put_u64 (de_Max w) @ de_Predicate w)" for b
    using assms by (intro delete_Encode_ok) (simp_all add: ID_Encode_def well_formed_entry_def DeleteBucketRangeWALEntry)
  then show ?thesis by (simp add: entry_Encode_def DeleteBucketRangeWALEntry)
qed (simp add: entry_Encode_def)

lemma entry_Encode_unmarshal:
  assumes "well_formed_entry e"
  shows "\<exists>b. entry_Encode dst e = Inr b \<and> unmarshal_entry (WALEntry_Type e) b = Inr e"
proof (cases e)
  case (WriteWALEntry w)
  then have "w = \<lparr>we_Values = we_Values w, we_sz = 0\<rparr>" "loggable (we_Values w)" using assms by (auto simp: well_formed_entry_def)
  with write_roundtrip [of "we_Values w"] show ?thesis
    by (auto simp: WriteWALEntry entry_Encode_def unmarshal_entry_def WALEntry_Type_def write_Encode_twice)
next
  case (DeleteBucketRangeWALEntry w)
  with assms delete_roundtrip [of w dst] show ?thesis
    by (auto simp: entry_Encode_def unmarshal_entry_def WALEntry_Type_def well_formed_entry_def WriteWALEntryType_def DeleteBucketRangeWALEntryType_def)
qed

lemma wal_storable_frame:
  assumes "snappy_ok S" "wal_storable S e" "entry_Encode dst e = Inr b" "int (length buf) = sn_MaxEncodedLen S (length b)"
  shows "is_frame S e (frame (WALEntry_Type e) (fst (sn_Encode S buf b)))" "length (fst (sn_Encode S buf b)) < 2 ^ 32"
proof -
  have w: "well_formed_entry e" and m: "0 \<le> sn_MaxEncodedLen S (length b)" "sn_MaxEncodedLen S (length b) < 2 ^ 32"
    using assms(2,3) entry_Encode_buf [of e "[]" dst] by (auto simp: wal_storable_def)
  show l: "length (fst (sn_Encode S buf b)) < 2 ^ 32" using snappy_okD(2) [OF assms(1) m(1), of buf] assms(4) m(2) by auto
  have "unmarshal_entry (WALEntry_Type e) b = Inr e" using entry_Encode_unmarshal [OF w, of dst] assms(3) by auto
  then show "is_frame S e (frame (WALEntry_Type e) (fst (sn_Encode S buf b)))"
    using l snappy_okD(1) [OF assms(1) m(1), of buf] unfolding is_frame_def by (metis bind_res_simps(2))
qed

lemma delete_storable:
  assumes "ID_Valid (de_OrgID w)" "ID_Valid (de_BucketID w)" "length (de_Predicate w) < 2 ^ 16"
  shows "wal_storable snappy_stored (DeleteBucketRangeWALEntry w)"
proof -
  let ?u = "hex_encode (put_u64 (de_OrgID w))" and ?v = "hex_encode (put_u64 (de_BucketID w))"
  have "delete_Encode [] w = Inr (?u @ ?v @ put_u64 (de_Min w) @ put_u64 (de_Max w) @ de_Predicate w)"
    using assms by (intro delete_Encode_ok) (simp_all add: ID_Encode_def)
  then show ?thesis using assms by (simp add: wal_storable_def well_formed_entry_def entry_Encode_def snappy_stored_simps)
qed

theorem replay_cuts_at_valid_bytes_witness:
  "\<exists>e fr es frs rest. e = DeleteBucketRangeWALEntry \<lparr>de_OrgID = 1, de_BucketID = 2, de_Min = 3, de_Max = 4, de_Predicate = []\<rparr> \<and>
     is_frame snappy_stored e fr \<and> replay_bytes snappy_stored (\<lambda>e s. (None, s @ [e])) (fr @ [0]) [] = (None, fr, [e]) \<and>
     fr @ [0] = concat frs @ rest \<and> list_all2 (is_frame snappy_stored) es frs \<and>
     replay_bytes snappy_stored (\<lambda>e s. (None, s @ [e])) (fr @ [0]) [] =
       (case apply_all (\<lambda>e s. (None, s @ [e])) es [] of (Some err, s') \<Rightarrow> (Some err, fr @ [0], s') | (None, s') \<Rightarrow> (None, concat frs, s'))"
proof -
  define e where "e = DeleteBucketRangeWALEntry \<lparr>de_OrgID = 1, de_BucketID = 2, de_Min = 3, de_Max = 4, de_Predicate = []\<rparr>"
  have st: "wal_storable snappy_stored e" unfolding e_def by (rule delete_storable) (simp_all add: ID_Valid_def)
  then obtain b where b: "entry_Encode [] e = Inr b" "0 \<le> sn_MaxEncodedLen snappy_stored (length b)"
    by (auto simp: wal_storable_def split: sum.splits)
  obtain fr where fr: "is_frame snappy_stored e fr"
    using wal_storable_frame(1) [OF snappy_stored_ok st b(1), of "replicate (nat (sn_MaxEncodedLen snappy_stored (length b))) 0"] b(2) by auto
  have "replay_bytes snappy_stored (\<lambda>e s. (None, s @ [e])) (fr @ [0]) [] = (None, fr, [e])"
    by (simp add: replay_bytes_scan scan_frame [OF fr] scan_zero)
  from fr this replay_cuts_at_valid_bytes [of "fr @ [0]" snappy_stored "\<lambda>e s. (None, s @ [e])" "[]"] show ?thesis unfolding e_def by blast
qed

end
