(* ===== verification/Wal_Log.thy ===== *)
theory Wal_Log
  imports Wal_Replay
begin

text \<open>
  The write-ahead log over its segment files (\<^verbatim>\<open>WAL\<close> in \<^verbatim>\<open>storage/wal/wal.go\<close>): opening, appending under the lock, the background sync that
  answers the waiting writers, rolling to a new file, closing and removing segments. A critical section
  is one step; the channel on which a writer waits is the pair of its segment ID and entry, and
  \<open>l_replies\<close> lists what was sent on these channels. Creating, opening and removing files does not fail.
  The number of bytes in segments is kept as in the tracker; the metrics and times are left out.
\<close>

section \<open>Names of segments\<close>

definition DefaultSegmentSize :: nat where "DefaultSegmentSize = 10 * 1024 * 1024"

fun itoa :: "nat \<Rightarrow> bytes" where
  "itoa n = (if n < 10 then [48 + of_nat n] else itoa (n div 10) @ [48 + of_nat (n mod 10)])"

declare itoa.simps [simp del]

definition wal_suffix :: bytes where "wal_suffix = [46, 119, 97, 108]"

definition segment_name :: "nat \<Rightarrow> bytes" where
  "segment_name sid = [95] @ replicate (5 - length (itoa sid)) 48 @ itoa sid @ wal_suffix"

definition is_segment_name :: "bytes \<Rightarrow> bool" where
  "is_segment_name s \<longleftrightarrow> 5 \<le> length s \<and> s ! 0 = 95 \<and> drop (length s - 4) s = wal_suffix"

definition SegmentFileNames :: "disk \<Rightarrow> bytes list" where
  "SegmentFileNames d = sort_keys (filter is_segment_name (map fst (d_files d)))"

definition parse_uint :: "bytes \<Rightarrow> nat option" where
  "parse_uint ds =
     (if ds = [] \<or> \<not> list_all (\<lambda>c. 48 \<le> c \<and> c \<le> 57) ds then None
      else let v = foldl (\<lambda>a c. 10 * a + (unat c - 48)) 0 ds in if v < 2 ^ 32 then Some v else None)"

definition idFromFileName :: "bytes \<Rightarrow> nat res" where
  "idFromFileName name =
     (if length (filter (\<lambda>c. c = 46) name) \<noteq> 1 then Inl (GoError ''file has wrong name format to have an id'')
      else let part = takeWhile (\<lambda>c. c \<noteq> 46) name
           in if part = [] then Inl (GoPanic ''slice bounds out of range'')
              else case parse_uint (drop 1 part) of None \<Rightarrow> Inl (GoError ''strconv.ParseUint'') | Some sid \<Rightarrow> Inr sid)"

section \<open>State\<close>

record wal =
  l_enabled :: bool
  l_currentSegmentID :: nat
  l_writer :: "segment_writer option"
  l_closing :: bool
  l_once :: bool
  l_syncing :: bool
  l_waiters :: "(nat \<times> WALEntry) list"
  l_replies :: "((nat \<times> WALEntry) \<times> go_error option) list"
  l_oldSegmentBytes :: nat

definition NewWAL :: wal where
  "NewWAL = \<lparr>l_enabled = True, l_currentSegmentID = 0, l_writer = None, l_closing = False, l_once = False, l_syncing = False,
     l_waiters = [], l_replies = [], l_oldSegmentBytes = 0\<rparr>"

definition SetEnabled :: "bool \<Rightarrow> wal \<Rightarrow> wal" where
  "SetEnabled e l = l\<lparr>l_enabled := e\<rparr>"

text \<open>Both setters store into the same counter.\<close>

definition SetOldSegmentSize :: "nat \<Rightarrow> wal \<Rightarrow> wal" where
  "SetOldSegmentSize sz l = l\<lparr>l_oldSegmentBytes := sz\<rparr>"

definition SetCurrentSegmentSize :: "nat \<Rightarrow> wal \<Rightarrow> wal" where
  "SetCurrentSegmentSize sz l = l\<lparr>l_oldSegmentBytes := sz\<rparr>"

definition DiskSizeBytes :: "wal \<Rightarrow> nat" where
  "DiskSizeBytes l = l_oldSegmentBytes l + l_oldSegmentBytes l"

section \<open>Opening\<close>

definition file_sizes :: "disk \<Rightarrow> bytes list \<Rightarrow> nat" where
  "file_sizes d names = sum_list (map (\<lambda>n. length (data_of d n)) names)"

definition remove_file :: "bytes \<Rightarrow> disk \<Rightarrow> disk" where
  "remove_file name d = d\<lparr>d_files := AList.delete name (d_files d)\<rparr>"

definition WAL_Open :: "wal \<Rightarrow> disk \<Rightarrow> go_error option \<times> wal \<times> disk" where
  "WAL_Open l d =
     (if \<not> l_enabled l then (None, l, d)
      else
        let segments = SegmentFileNames d
        in if segments = [] then (None, (SetOldSegmentSize 0 l)\<lparr>l_closing := False\<rparr>, d)
           else
             let lastSegment = last segments
             in case idFromFileName lastSegment of
               Inl e \<Rightarrow> (Some e, l, d)
             | Inr sid \<Rightarrow>
                 (let l1 = l\<lparr>l_currentSegmentID := sid\<rparr>;
                      size = length (data_of d lastSegment);
                      (l2, d2, segments2) =
                        (if size = 0 then (l1, remove_file lastSegment d, butlast segments)
                         else (SetCurrentSegmentSize size (l1\<lparr>l_writer := Some (NewWALSegmentWriter lastSegment size)\<rparr>), d, segments))
                  in (None, (SetOldSegmentSize (file_sizes d2 segments2) l2)\<lparr>l_closing := False\<rparr>, d2)))"

section \<open>Syncing\<close>

definition sync_writer :: "segment_writer \<Rightarrow> wal \<Rightarrow> disk \<Rightarrow> segment_writer \<times> wal \<times> disk" where
  "sync_writer w l d =
     (case segment_sync w d of (err, w', d') \<Rightarrow>
        (w', l\<lparr>l_writer := Some w', l_replies := l_replies l @ map (\<lambda>c. (c, err)) (l_waiters l), l_waiters := []\<rparr>, d'))"

definition WAL_sync :: "wal \<Rightarrow> disk \<Rightarrow> (wal \<times> disk) res" where
  "WAL_sync l d =
     (case l_writer l of
        None \<Rightarrow> Inl (GoPanic ''nil pointer dereference'')
      | Some w \<Rightarrow> (case sync_writer w l d of (_, l', d') \<Rightarrow> Inr (l', d')))"

definition scheduleSync :: "wal \<Rightarrow> wal" where
  "scheduleSync l = l\<lparr>l_syncing := True\<rparr>"

text \<open>A round of the goroutine of \<^verbatim>\<open>scheduleSync\<close>: the timer fired, or the log is closing.\<close>

definition sync_tick :: "wal \<Rightarrow> disk \<Rightarrow> (wal \<times> disk) res" where
  "sync_tick l d =
     (if \<not> l_syncing l then Inr (l, d)
      else if l_waiters l = [] then Inr (l\<lparr>l_syncing := False\<rparr>, d)
      else WAL_sync l d)"

definition sync_closing :: "wal \<Rightarrow> wal" where
  "sync_closing l = (if l_closing l then l\<lparr>l_syncing := False\<rparr> else l)"

section \<open>Rolling and writing\<close>

definition create_file :: "bytes \<Rightarrow> disk \<Rightarrow> disk" where
  "create_file name d =
     (if name \<in> fst ` set (d_files d) then d else d\<lparr>d_files := d_files d @ [(name, \<lparr>f_data = [], f_synced = 0\<rparr>)]\<rparr>)"

definition open_segment :: "wal \<Rightarrow> disk \<Rightarrow> go_error option \<times> wal \<times> disk" where
  "open_segment l d =
     (let fileName = segment_name (l_currentSegmentID l)
      in (None, SetCurrentSegmentSize 0 (l\<lparr>l_writer := Some (NewWALSegmentWriter fileName 0)\<rparr>), create_file fileName d))"

definition newSegmentFile :: "wal \<Rightarrow> disk \<Rightarrow> go_error option \<times> wal \<times> disk" where
  "newSegmentFile l d =
     (let l1 = l\<lparr>l_currentSegmentID := l_currentSegmentID l + 1\<rparr>
      in case l_writer l1 of
        None \<Rightarrow> open_segment l1 d
      | Some w \<Rightarrow>
          (case sync_writer w l1 d of (w2, l2, d2) \<Rightarrow>
             (case segment_close w2 d2 of
                (Some e, w3, d3) \<Rightarrow> (Some e, l2\<lparr>l_writer := Some w3\<rparr>, d3)
              | (None, w3, d3) \<Rightarrow> open_segment (SetOldSegmentSize (sw_size w3) l2) d3)))"

definition rollSegment :: "wal \<Rightarrow> disk \<Rightarrow> go_error option \<times> wal \<times> disk" where
  "rollSegment l d =
     (if (case l_writer l of None \<Rightarrow> True | Some w \<Rightarrow> sw_size w > DefaultSegmentSize) then newSegmentFile l d else (None, l, d))"

definition CloseSegment :: "wal \<Rightarrow> disk \<Rightarrow> go_error option \<times> wal \<times> disk" where
  "CloseSegment l d =
     (if \<not> l_enabled l then (None, l, d)
      else if (case l_writer l of None \<Rightarrow> True | Some w \<Rightarrow> sw_size w > 0) then newSegmentFile l d else (None, l, d))"

text \<open>\<^verbatim>\<open>LimitedBytes.Get\<close> of \<^verbatim>\<open>pkg/pool/bytes.go\<close>, with the slice the pool hands out, if it has one.\<close>

definition pool_Get :: "bytes option \<Rightarrow> int \<Rightarrow> bytes res" where
  "pool_Get pooled sz =
     (if sz < 0 then Inl (GoPanic ''makeslice: len out of range'')
      else case pooled of
        None \<Rightarrow> Inr (replicate (nat sz) 0)
      | Some c \<Rightarrow> if length c < nat sz then Inr (replicate (nat sz) 0) else Inr (take (nat sz) c))"

definition entry_MarshalSize :: "WALEntry \<Rightarrow> nat" where
  "entry_MarshalSize e =
     (case e of WriteWALEntry w \<Rightarrow> fst (write_MarshalSize w) | DeleteBucketRangeWALEntry w \<Rightarrow> delete_MarshalSize w)"

text \<open>The part of \<^verbatim>\<open>writeToLog\<close> under the lock: append, register for the next sync.\<close>

definition append_locked :: "WALEntry \<Rightarrow> bytes \<Rightarrow> wal \<Rightarrow> disk \<Rightarrow> nat res \<times> wal \<times> disk" where
  "append_locked entry compressed l d =
     (if l_closing l then (Inl (GoError ''WAL closed''), l, d)
      else case rollSegment l d of
        (Some e, l1, d1) \<Rightarrow> (Inl (GoError ''error rolling WAL segment''), l1, d1)
      | (None, l1, d1) \<Rightarrow>
          (case segment_Write (WALEntry_Type entry) compressed (the (l_writer l1)) d1 of
             (Some e, w, d2) \<Rightarrow> (Inl (GoError ''error writing WAL entry''), l1\<lparr>l_writer := Some w\<rparr>, d2)
           | (None, w, d2) \<Rightarrow>
               (let l2 = l1\<lparr>l_writer := Some w\<rparr>
                in if length (l_waiters l2) \<ge> 1024 then (Inl (GoError ''error syncing wal''), l2, d2)
                   else (Inr (l_currentSegmentID l2),
                         SetCurrentSegmentSize (sw_size w)
                           (scheduleSync (l2\<lparr>l_waiters := l_waiters l2 @ [(l_currentSegmentID l2, entry)]\<rparr>)), d2))))"

definition writeToLog :: "snappy \<Rightarrow> bytes option \<Rightarrow> bytes option \<Rightarrow> WALEntry \<Rightarrow> wal \<Rightarrow> disk \<Rightarrow> nat res \<times> wal \<times> disk" where
  "writeToLog S pooled1 pooled2 entry l d =
     (case bind_res (pool_Get pooled1 (int (entry_MarshalSize entry))) (\<lambda>dst.
           bind_res (entry_Encode dst entry) (\<lambda>b.
           bind_res (pool_Get pooled2 (sn_MaxEncodedLen S (length b))) (\<lambda>encBuf. Inr (fst (sn_Encode S encBuf b))))) of
        Inl e \<Rightarrow> (Inl e, l, d)
      | Inr compressed \<Rightarrow> append_locked entry compressed l d)"

definition WAL_WriteMulti :: "snappy \<Rightarrow> bytes option \<Rightarrow> bytes option \<Rightarrow> batch \<Rightarrow> wal \<Rightarrow> disk \<Rightarrow> int res \<times> wal \<times> disk" where
  "WAL_WriteMulti S pooled1 pooled2 vals l d =
     (if \<not> l_enabled l then (Inr (- 1), l, d)
      else case writeToLog S pooled1 pooled2 (WriteWALEntry \<lparr>we_Values = vals, we_sz = 0\<rparr>) l d of
        (r, l', d') \<Rightarrow> (case r of Inl e \<Rightarrow> Inl e | Inr sid \<Rightarrow> Inr (int sid), l', d'))"

definition WAL_DeleteBucketRange :: "snappy \<Rightarrow> bytes option \<Rightarrow> bytes option \<Rightarrow> u64 \<Rightarrow> u64 \<Rightarrow> i64 \<Rightarrow> i64 \<Rightarrow> bytes \<Rightarrow> wal \<Rightarrow> disk \<Rightarrow>
    int res \<times> wal \<times> disk" where
  "WAL_DeleteBucketRange S pooled1 pooled2 orgID bucketID mn mx pred l d =
     (if \<not> l_enabled l then (Inr (- 1), l, d)
      else case writeToLog S pooled1 pooled2
          (DeleteBucketRangeWALEntry \<lparr>de_OrgID = orgID, de_BucketID = bucketID, de_Min = mn, de_Max = mx, de_Predicate = pred\<rparr>) l d of
        (r, l', d') \<Rightarrow> (case r of Inl e \<Rightarrow> Inl e | Inr sid \<Rightarrow> Inr (int sid), l', d'))"

section \<open>Closed segments and closing\<close>

definition ClosedSegments :: "wal \<Rightarrow> disk \<Rightarrow> bytes list" where
  "ClosedSegments l d =
     (if \<not> l_enabled l then []
      else filter (\<lambda>fn. case l_writer l of None \<Rightarrow> True | Some w \<Rightarrow> fn \<noteq> sw_path w) (SegmentFileNames d))"

definition WAL_Remove :: "bytes list \<Rightarrow> wal \<Rightarrow> disk \<Rightarrow> wal \<times> disk" where
  "WAL_Remove files l d =
     (if \<not> l_enabled l then (l, d)
      else let d' = fold remove_file files d in (SetOldSegmentSize (file_sizes d' (SegmentFileNames d')) l, d'))"

definition WAL_Close :: "wal \<Rightarrow> disk \<Rightarrow> wal \<times> disk" where
  "WAL_Close l d =
     (if \<not> l_enabled l \<or> l_once l then (l, d)
      else
        let l1 = l\<lparr>l_once := True, l_closing := True\<rparr>
        in case l_writer l1 of
          None \<Rightarrow> (l1, d)
        | Some w \<Rightarrow>
            (case sync_writer w l1 d of (w2, l2, d2) \<Rightarrow>
               (case segment_close w2 d2 of (_, _, d3) \<Rightarrow> (l2\<lparr>l_writer := None\<rparr>, d3))))"

end
