(* ===== verification/Wal_Writer.thy ===== *)
theory Wal_Writer
  imports Wal_Log
begin

text \<open>
  The buffered segment writer: whatever the size of the writes, the buffer and the space on the disk, the file holds a prefix of
  what was written, all of it after a successful flush, and no other file changes. Then the names of
  segments: they are distinct, parse back, and are ordered like their IDs below 100000.
\<close>

section \<open>Files\<close>

lemma map_of_map_entry [simp]: "map_of (AList.map_entry k g xs) n = (if n = k then map_option g (map_of xs n) else map_of xs n)"
  by (induction xs) auto

lemma keys_map_entry [simp]: "map fst (AList.map_entry k g xs) = map fst xs"
  by (induction xs) auto

lemma file_put_end [simp]: "file_put (length data) p data = data @ p"
  by (simp add: file_put_def)

definition syncedness :: "disk \<Rightarrow> bytes \<Rightarrow> nat" where
  "syncedness d name = (case map_of (d_files d) name of None \<Rightarrow> 0 | Some f \<Rightarrow> f_synced f)"

text \<open>Only the file of the writer changes, and what was synced stays so.\<close>

definition same_elsewhere :: "bytes \<Rightarrow> disk \<Rightarrow> disk \<Rightarrow> bool" where
  "same_elsewhere name d d' \<longleftrightarrow> map fst (d_files d') = map fst (d_files d) \<and>
     (\<forall>n. n \<noteq> name \<longrightarrow> map_of (d_files d') n = map_of (d_files d) n) \<and> syncedness d name \<le> syncedness d' name"

lemma same_elsewhere_refl [simp]: "same_elsewhere n d d"
  by (simp add: same_elsewhere_def)

lemma same_elsewhere_trans: "same_elsewhere n d d' \<Longrightarrow> same_elsewhere n d' d'' \<Longrightarrow> same_elsewhere n d d''"
  by (auto simp: same_elsewhere_def)

text \<open>The file of a writer holds what was written, or a prefix of it after an error.\<close>

definition seg_ok :: "bytes \<Rightarrow> segment_writer \<Rightarrow> os_file \<Rightarrow> bool" where
  "seg_ok L w f \<longleftrightarrow> sw_pos w = length (f_data f) \<and> length (sw_buf w) \<le> bufio_size \<and> f_synced f \<le> length (f_data f) \<and>
     (if sw_err w = None then f_data f @ sw_buf w = L else prefix (f_data f) L)"

definition seg_at :: "bytes \<Rightarrow> segment_writer \<Rightarrow> disk \<Rightarrow> bool" where
  "seg_at L w d \<longleftrightarrow> (case map_of (d_files d) (sw_path w) of None \<Rightarrow> False | Some f \<Rightarrow> seg_ok L w f)"

lemma seg_at_prefix: "seg_at L w d \<Longrightarrow> \<exists>f. map_of (d_files d) (sw_path w) = Some f \<and> prefix (f_data f) L \<and> f_synced f \<le> length (f_data f)"
  by (auto simp: seg_at_def seg_ok_def split: option.splits if_splits)

lemma seg_at_extend: "seg_at L w d \<Longrightarrow> sw_err w \<noteq> None \<Longrightarrow> seg_at (L @ x) w d"
  by (auto simp: seg_at_def seg_ok_def intro: prefix_prefix split: option.splits)

lemma fd_Write_ok:
  assumes "fd_Write p w d = ((n, err), w', d')" "map_of (d_files d) (sw_path w) = Some f" "sw_pos w = length (f_data f)"
  shows "map_of (d_files d') (sw_path w) = Some (f\<lparr>f_data := f_data f @ take n p\<rparr>) \<and> w' = w\<lparr>sw_pos := length (f_data f @ take n p)\<rparr> \<and>
    same_elsewhere (sw_path w) d d' \<and> n \<le> length p \<and> (err = None \<longrightarrow> n = length p)"
  using assms by (auto simp: fd_Write_def Let_def same_elsewhere_def syncedness_def split: if_splits)

lemma bufio_Flush_ok:
  assumes "bufio_Flush w d = (err, w', d')" "seg_at L w d"
  shows "seg_at L w' d' \<and> err = sw_err w' \<and> (err = None \<longrightarrow> data_of d' (sw_path w) = L \<and> sw_buf w' = []) \<and> sw_path w' = sw_path w \<and>
    sw_size w' = sw_size w \<and> same_elsewhere (sw_path w) d d'"
proof -
  obtain f where f: "map_of (d_files d) (sw_path w) = Some f" "seg_ok L w f" using assms(2) by (auto simp: seg_at_def split: option.splits)
  show ?thesis
  proof (cases "sw_err w \<noteq> None \<or> sw_buf w = []")
    case True
    then show ?thesis using assms f by (auto simp: bufio_Flush_def data_of_def seg_ok_def split: if_splits)
  next
    case False
    obtain n e w1 d1 where fd: "fd_Write (sw_buf w) w d = ((n, e), w1, d1)" by (metis prod.exhaust)
    have pos: "sw_pos w = length (f_data f)" using f(2) by (simp add: seg_ok_def)
    note fw = fd_Write_ok [OF fd f(1) pos]
    have r: "err = e" "w' = w1\<lparr>sw_buf := drop n (sw_buf w), sw_err := e\<rparr>" "d' = d1"
      using assms(1) False fd by (auto simp: bufio_Flush_def)
    have "prefix (f_data f @ take n (sw_buf w)) L" "f_data f @ sw_buf w = L" "length (sw_buf w) \<le> bufio_size" "f_synced f \<le> length (f_data f)"
      using f(2) False by (auto simp: seg_ok_def take_is_prefix)
    then show ?thesis using fw by (auto simp: r seg_at_def seg_ok_def data_of_def)
  qed
qed

lemma bufio_Write_ok:
  "bufio_Write p w d = (err, w', d') \<Longrightarrow> seg_at L w d \<Longrightarrow>
   seg_at (L @ p) w' d' \<and> err = sw_err w' \<and> sw_path w' = sw_path w \<and> sw_size w' = sw_size w \<and> same_elsewhere (sw_path w) d d'"
proof (induction p w d arbitrary: L rule: bufio_Write.induct)
  case (1 p w d)
  obtain f where f: "map_of (d_files d) (sw_path w) = Some f" "seg_ok L w f" using "1.prems"(2) by (auto simp: seg_at_def split: option.splits)
  consider "sw_err w \<noteq> None" | "sw_err w = None" "length p \<le> bufio_size - length (sw_buf w)"
    | "sw_err w = None" "\<not> length p \<le> bufio_size - length (sw_buf w)" "sw_buf w = []"
    | "sw_err w = None" "\<not> length p \<le> bufio_size - length (sw_buf w)" "sw_buf w \<noteq> []" by blast
  then show ?case
  proof cases
    case 1
    then show ?thesis using "1.prems" f by (auto simp: bufio_Write.simps [of p w d] seg_at_def seg_ok_def)
  next
    case 2
    then show ?thesis using "1.prems" f by (auto simp: bufio_Write.simps [of p w d] seg_at_def seg_ok_def)
  next
    case 3
    obtain n e w1 d1 where fd: "fd_Write p w d = ((n, e), w1, d1)" by (metis prod.exhaust)
    have pos: "sw_pos w = length (f_data f)" "f_data f = L" "f_synced f \<le> length (f_data f)" using f(2) 3 by (auto simp: seg_ok_def)
    note fw = fd_Write_ok [OF fd f(1) pos(1)]
    have eq: "bufio_Write (drop n p) (w1\<lparr>sw_err := e\<rparr>) d1 = (err, w', d')"
      using "1.prems"(1) 3 fd by (simp add: bufio_Write.simps [of p w d])
    have "seg_at (L @ take n p) (w1\<lparr>sw_err := e\<rparr>) d1"
      using fw pos 3 by (auto simp: seg_at_def seg_ok_def)
    from "1.IH"(1) [OF _ 3(2,3) fd [symmetric] refl refl eq this] 3(1) fw show ?thesis
      by (auto intro: same_elsewhere_trans)
  next
    case 4
    define n where "n = bufio_size - length (sw_buf w)"
    obtain e w1 d1 where fl: "bufio_Flush (w\<lparr>sw_buf := sw_buf w @ take n p\<rparr>) d = (e, w1, d1)" by (metis prod.exhaust)
    have eq: "bufio_Write (drop n p) w1 d1 = (err, w', d')"
      using "1.prems"(1) 4 fl by (simp add: bufio_Write.simps [of p w d] n_def)
    have "seg_at (L @ take n p) (w\<lparr>sw_buf := sw_buf w @ take n p\<rparr>) d"
      using f 4 by (auto simp: seg_at_def seg_ok_def n_def min_def)
    note fo = bufio_Flush_ok [OF fl this]
    then have "seg_at (L @ take n p) w1 d1" by simp
    from "1.IH"(2) [OF _ 4(2,3) n_def fl [symmetric] refl eq this] 4(1) fo show ?thesis
      by (auto intro: same_elsewhere_trans)
  qed
qed

lemma segment_Write_ok:
  assumes "segment_Write t c w d = (err, w', d')" "seg_at L w d"
  shows "seg_at (L @ frame t c) w' d' \<and> err = sw_err w' \<and> sw_path w' = sw_path w \<and> same_elsewhere (sw_path w) d d'"
proof -
  let ?h = "t # put_u32 (of_nat (length c))"
  obtain e1 w1 d1 where b1: "bufio_Write ?h w d = (e1, w1, d1)" by (metis prod.exhaust)
  note o1 = bufio_Write_ok [OF b1 assms(2)]
  show ?thesis
  proof (cases e1)
    case None
    obtain e2 w2 d2 where b2: "bufio_Write c w1 d1 = (e2, w2, d2)" by (metis prod.exhaust)
    note o2 = bufio_Write_ok [OF b2 o1 [THEN conjunct1]]
    have "err = e2 \<and> w' = (case e2 of None \<Rightarrow> w2\<lparr>sw_size := sw_size w2 + (5 + length c)\<rparr> | Some _ \<Rightarrow> w2) \<and> d' = d2"
      using assms(1) None b1 b2 by (auto simp: segment_Write_def Let_def split: option.splits)
    moreover have "seg_at (L @ frame t c) (w2\<lparr>sw_size := k\<rparr>) d2 = seg_at (L @ frame t c) w2 d2" for k
      by (auto simp: seg_at_def seg_ok_def split: option.split)
    ultimately show ?thesis using o1 o2 by (auto simp: frame_def intro: same_elsewhere_trans split: option.splits)
  next
    case (Some e)
    have "err = Some e \<and> w' = w1 \<and> d' = d1" using assms(1) Some b1 by (simp add: segment_Write_def Let_def)
    moreover have "seg_at ((L @ ?h) @ c) w1 d1" using o1 Some by - (rule seg_at_extend, auto dest: sym)
    ultimately show ?thesis using o1 Some by (simp add: frame_def)
  qed
qed

lemma segment_sync_ok:
  assumes "segment_sync w d = (err, w', d')" "seg_at L w d"
  shows "seg_at L w' d' \<and> err = sw_err w' \<and> sw_path w' = sw_path w \<and> same_elsewhere (sw_path w) d d' \<and>
    (err = None \<longrightarrow> syncedness d' (sw_path w) = length L)"
proof -
  obtain e w1 d1 where b: "bufio_Flush w d = (e, w1, d1)" by (metis prod.exhaust)
  note fo = bufio_Flush_ok [OF b assms(2)]
  show ?thesis
  proof (cases e)
    case None
    then have r: "err = None" "w' = w1" "d' = d1\<lparr>d_files := AList.map_entry (sw_path w) (\<lambda>f. f\<lparr>f_synced := length (f_data f)\<rparr>) (d_files d1)\<rparr>"
      using assms(1) b by (auto simp: segment_sync_def)
    obtain f where f: "map_of (d_files d1) (sw_path w) = Some f" "seg_ok L w1 f" "f_data f = L"
      using fo None by (auto simp: seg_at_def data_of_def split: option.splits)
    then show ?thesis using fo None unfolding r
      by (auto simp: seg_at_def seg_ok_def same_elsewhere_def syncedness_def)
  next
    case (Some x)
    then show ?thesis using assms(1) b fo by (auto simp: segment_sync_def)
  qed
qed

section \<open>Names of segments\<close>

definition digits_value :: "bytes \<Rightarrow> nat" where
  "digits_value ds = foldl (\<lambda>a c. 10 * a + (unat c - 48)) 0 ds"

lemma foldl_digits: "foldl (\<lambda>a c. 10 * a + (unat c - 48)) m ds = m * 10 ^ length ds + digits_value ds"
proof (induction ds arbitrary: m)
  case (Cons c ds)
  show ?case using Cons [of "10 * m + (unat c - 48)"] Cons [of "unat c - 48"] by (simp add: digits_value_def algebra_simps)
qed (simp add: digits_value_def)

lemma digits_value_simps [simp]:
  "digits_value [] = 0" "digits_value (c # ds) = (unat c - 48) * 10 ^ length ds + digits_value ds"
  "digits_value (ds @ [c]) = 10 * digits_value ds + (unat c - 48)"
  using foldl_digits [of "unat c - 48" ds] by (simp_all add: digits_value_def)

definition all_digits :: "bytes \<Rightarrow> bool" where
  "all_digits ds \<longleftrightarrow> list_all (\<lambda>c. 48 \<le> c \<and> c \<le> 57) ds"

lemma unat_digit: "n < 10 \<Longrightarrow> unat (48 + of_nat n :: u8) = 48 + n"
  by (simp add: unat_word_ariths unat_of_nat take_bit_nat_eq_self)

lemma itoa_digits: "all_digits (itoa n) \<and> digits_value (itoa n) = n"
proof (induction n rule: itoa.induct)
  case (1 n)
  have d: "48 \<le> (48 + of_nat m :: u8) \<and> 48 + of_nat m \<le> (57 :: u8)" if "m < 10" for m
    using unat_digit [OF that] that by (simp add: word_le_nat_alt)
  show ?case using 1 d [of n] d [of "n mod 10"] unat_digit [of n] unat_digit [of "n mod 10"]
    by (subst (1 2) itoa.simps) (auto simp: all_digits_def)
qed

lemma length_itoa: "n < 10 ^ k \<Longrightarrow> k > 0 \<Longrightarrow> length (itoa n) \<le> k"
proof (induction n arbitrary: k rule: itoa.induct)
  case (1 n)
  show ?case
  proof (cases "n < 10")
    case False
    then obtain j where k: "k = Suc j" "j > 0" using "1.prems" by (cases k; cases "k - 1") auto
    then have "n div 10 < 10 ^ j" using "1.prems"(1) by (simp add: less_mult_imp_div_less)
    from "1.IH" [OF False this k(2)] show ?thesis using False k(1) by (subst itoa.simps) simp
  qed (use "1.prems" in \<open>subst itoa.simps, simp\<close>)
qed

definition padded :: "nat \<Rightarrow> bytes" where
  "padded n = replicate (5 - length (itoa n)) 48 @ itoa n"

lemma segment_name_padded: "segment_name n = 95 # padded n @ wal_suffix"
  by (simp add: segment_name_def padded_def)

lemma digits_value_zeros: "digits_value (replicate k 48 @ ds) = digits_value ds"
  by (induction k) simp_all

lemma padded_value: "all_digits (padded n)" "digits_value (padded n) = n"
  using itoa_digits [of n] by (auto simp: padded_def digits_value_zeros all_digits_def list_all_iff)

lemma segment_name_inject [simp]: "segment_name m = segment_name n \<longleftrightarrow> m = n"
  by (metis segment_name_padded padded_value(2) append_same_eq list.inject)

lemma is_segment_name_segment_name [simp]: "is_segment_name (segment_name n)"
  by (simp add: is_segment_name_def segment_name_padded wal_suffix_def Suc_diff_le)

lemma idFromFileName_segment_name:
  assumes "n < 2 ^ 32"
  shows "idFromFileName (segment_name n) = Inr n"
proof -
  have d: "c \<in> set (padded n) \<Longrightarrow> 48 \<le> c" for c using padded_value(1) [of n] by (auto simp: all_digits_def list_all_iff)
  have nd: "46 \<notin> set (padded n)" using d [of 46] by auto
  then have "filter (\<lambda>c. c = 46) (padded n) = []" by (auto simp: filter_empty_conv)
  moreover have "takeWhile (\<lambda>c. c \<noteq> 46) (padded n @ wal_suffix) = padded n"
    using nd by (subst takeWhile_append2) (auto simp: wal_suffix_def)
  moreover have "padded n \<noteq> []" by (auto simp: padded_def itoa.simps [of n])
  moreover have "parse_uint (padded n) = Some n"
    using padded_value [of n] assms \<open>padded n \<noteq> []\<close> by (simp add: parse_uint_def all_digits_def digits_value_def)
  ultimately show ?thesis by (simp add: idFromFileName_def segment_name_padded wal_suffix_def)
qed

lemma digits_value_less: "all_digits ds \<Longrightarrow> digits_value ds < 10 ^ length ds"
proof (induction ds)
  case (Cons c ds)
  then have "unat c - 48 \<le> 9" by (auto simp: all_digits_def word_le_nat_alt)
  then have "(unat c - 48) * 10 ^ length ds \<le> 9 * 10 ^ length ds" by (rule mult_le_mono1)
  moreover have "digits_value ds < 10 ^ length ds" using Cons by (simp add: all_digits_def)
  ultimately show ?case unfolding digits_value_simps length_Cons power_Suc by linarith
qed simp

lemma bytes_le_digits:
  "length ds = length es \<Longrightarrow> all_digits ds \<Longrightarrow> all_digits es \<Longrightarrow> digits_value ds \<le> digits_value es \<Longrightarrow> bytes_le (ds @ s) (es @ s)"
proof (induction ds es rule: list_induct2)
  case Nil
  then show ?case by (induction s) auto
next
  case (Cons x xs y ys)
  have b: "48 \<le> unat x" "48 \<le> unat y" using Cons.prems by (auto simp: all_digits_def word_le_nat_alt)
  have "digits_value xs < 10 ^ length xs" "digits_value ys < 10 ^ length xs"
    using Cons.prems digits_value_less [of xs] digits_value_less [of ys] Cons.hyps by (simp_all add: all_digits_def)
  moreover have "(unat x - 48) * 10 ^ length xs + digits_value xs \<le> (unat y - 48) * 10 ^ length xs + digits_value ys"
    using Cons.prems Cons.hyps by simp
  ultimately have "unat x - 48 < unat y - 48 \<or> unat x - 48 = unat y - 48 \<and> digits_value xs \<le> digits_value ys"
  proof (cases "unat x - 48 > unat y - 48")
    case True
    then have "(unat y - 48 + 1) * 10 ^ length xs \<le> (unat x - 48) * 10 ^ length xs" by (intro mult_le_mono1) simp
    then show ?thesis using \<open>(unat x - 48) * 10 ^ length xs + digits_value xs \<le> _\<close> \<open>digits_value ys < 10 ^ length xs\<close> by simp
  qed (auto simp: not_less le_less)
  then show ?case
  proof
    assume "unat x - 48 < unat y - 48"
    then have "unat x < unat y" by linarith
    then show ?thesis by (simp add: word_less_nat_alt)
  next
    assume e: "unat x - 48 = unat y - 48 \<and> digits_value xs \<le> digits_value ys"
    then have "x = y" using b by (metis eq_diff_iff word_unat_eq_iff)
    then show ?thesis using Cons.IH Cons.prems e by (simp add: all_digits_def)
  qed
qed

lemma segment_name_order: "i \<le> j \<Longrightarrow> j < 100000 \<Longrightarrow> bytes_le (segment_name i) (segment_name j)"
  using length_itoa [of i 5] length_itoa [of j 5] padded_value [of i] padded_value [of j]
  by (simp add: segment_name_padded) (intro bytes_le_digits, simp_all add: padded_def)

text \<open>
  The order of segment files. Names of segments parse back to their IDs, and sorting the names sorts the IDs as long as they have five
  digits; at 100000 the order of the names, in which files are replayed, is no longer that of the IDs.
\<close>

theorem segment_names_sort_by_id:
  "(n < 2 ^ 32 \<longrightarrow> idFromFileName (segment_name n) = Inr n) \<and>
   (i \<le> j \<and> j < 100000 \<longrightarrow> bytes_le (segment_name i) (segment_name j)) \<and>
   bytes_le (segment_name 100000) (segment_name 99999)"
proof (intro conjI impI)
  show "bytes_le (segment_name 100000) (segment_name 99999)"
    by (simp add: segment_name_def itoa.simps wal_suffix_def)
qed (simp_all add: idFromFileName_segment_name segment_name_order)

theorem segment_names_sort_by_id_witness:
  "idFromFileName (segment_name 42) = Inr 42 \<and> bytes_le (segment_name 9) (segment_name 10)"
  using segment_names_sort_by_id [of 42 9 10] by simp

end
