(* ===== verification/Wal_Durable.thy ===== *)
theory Wal_Durable
  imports Wal_Writer Cache_Flush
begin

text \<open>
  Durability of the write-ahead log. A run starts by opening a directory of intact segments and interleaves writes, background syncs,
  rolling, removal of closed segments, closing, and changes of the free space of the disk. The invariant
  relates every segment file to the entries written to it; from it follows that after a crash at any
  point replay delivers every acknowledged entry that was not removed, in order, and nothing that was not
  written.
\<close>

section \<open>Runs\<close>

text \<open>A directory of intact, synced segments with the given entries.\<close>

definition holds :: "snappy \<Rightarrow> disk \<Rightarrow> (nat \<times> WALEntry list) list \<Rightarrow> bool" where
  "holds S d segs \<longleftrightarrow> distinct (map fst (d_files d)) \<and> sorted_wrt (<) (map fst segs) \<and> (\<forall>s \<in> set segs. fst s < 100000) \<and>
     {n \<in> fst ` set (d_files d). is_segment_name n} = segment_name ` fst ` set segs \<and>
     (\<forall>s \<in> set segs. \<exists>f. map_of (d_files d) (segment_name (fst s)) = Some f \<and> f_synced f = length (f_data f) \<and>
        scan S (f_data f) = (snd s, length (f_data f), True))"

definition tagged :: "(nat \<times> WALEntry list) list \<Rightarrow> (nat \<times> WALEntry) list" where
  "tagged segs = concat (map (\<lambda>(i, es). map (Pair i) es) segs)"

inductive wal_run :: "snappy \<Rightarrow> (nat \<times> WALEntry) list \<Rightarrow> WALEntry list \<Rightarrow> bytes set \<Rightarrow> wal \<Rightarrow> disk \<Rightarrow> bool" for S old where
  opens: "holds S d segs \<Longrightarrow> old = tagged segs \<Longrightarrow> WAL_Open NewWAL d = (None, l, d') \<Longrightarrow> wal_run S old (map snd old) {} l d'"
| writes: "wal_run S old calls rem l d \<Longrightarrow> wal_storable S e \<Longrightarrow> writeToLog S p1 p2 e l d = (r, l', d') \<Longrightarrow>
    wal_run S old (calls @ [e]) rem l' d'"
| ticks: "wal_run S old calls rem l d \<Longrightarrow> sync_tick l d = Inr (l', d') \<Longrightarrow> wal_run S old calls rem l' d'"
| notices: "wal_run S old calls rem l d \<Longrightarrow> wal_run S old calls rem (sync_closing l) d"
| rolls: "wal_run S old calls rem l d \<Longrightarrow> CloseSegment l d = (r, l', d') \<Longrightarrow> wal_run S old calls rem l' d'"
| removes: "wal_run S old calls rem l d \<Longrightarrow> set files \<subseteq> set (ClosedSegments l d) \<Longrightarrow> WAL_Remove files l d = (l', d') \<Longrightarrow>
    wal_run S old calls (rem \<union> set files) l' d'"
| closes: "wal_run S old calls rem l d \<Longrightarrow> WAL_Close l d = (l', d') \<Longrightarrow> wal_run S old calls rem l' d'"
| space: "wal_run S old calls rem l d \<Longrightarrow> wal_run S old calls rem l (d\<lparr>d_free := n\<rparr>)"

text \<open>The entries whose write returned without error, after those found at the start.\<close>

definition acked :: "(nat \<times> WALEntry) list \<Rightarrow> wal \<Rightarrow> (nat \<times> WALEntry) list" where
  "acked old l = old @ map fst (filter (\<lambda>r. snd r = None) (l_replies l))"

text \<open>A crash keeps of each file what was synced and possibly more.\<close>

definition crash :: "disk \<Rightarrow> disk \<Rightarrow> bool" where
  "crash d d' \<longleftrightarrow> map fst (d_files d') = map fst (d_files d) \<and>
     (\<forall>n f. map_of (d_files d) n = Some f \<longrightarrow> (\<exists>k f'. f_synced f \<le> k \<and> map_of (d_files d') n = Some f' \<and> f_data f' = take k (f_data f)))"

section \<open>The invariant\<close>

type_synonym seg = "nat \<times> WALEntry list \<times> bytes list"

definition of_seg :: "nat \<Rightarrow> (nat \<times> WALEntry) list \<Rightarrow> WALEntry list" where
  "of_seg i cs = map snd (filter (\<lambda>c. fst c = i) cs)"

definition stored :: "snappy \<Rightarrow> disk \<Rightarrow> (nat \<times> WALEntry) list \<Rightarrow> seg \<Rightarrow> bool" where
  "stored S d ak s \<longleftrightarrow> (case s of (i, es, frs) \<Rightarrow> list_all2 (is_frame S) es frs \<and>
     (\<exists>f m. map_of (d_files d) (segment_name i) = Some f \<and> prefix (f_data f) (concat frs) \<and> f_synced f \<le> length (f_data f) \<and>
        m \<le> length es \<and> length (concat (take m frs)) \<le> f_synced f \<and> subseq (of_seg i ak) (take m es)))"

definition dir_inv :: "snappy \<Rightarrow> (nat \<times> WALEntry) list \<Rightarrow> WALEntry list \<Rightarrow> bytes set \<Rightarrow> nat \<Rightarrow> disk \<Rightarrow> seg list \<Rightarrow> bool" where
  "dir_inv S ak calls rem cur d segs \<longleftrightarrow>
     sorted_wrt (<) (map fst segs) \<and> distinct (map fst (d_files d)) \<and>
     {n \<in> fst ` set (d_files d). is_segment_name n} = segment_name ` fst ` set segs \<and>
     (\<forall>s \<in> set segs. stored S d ak s \<and> fst s \<le> cur) \<and>
     subseq (concat (map (fst \<circ> snd) segs)) calls \<and> sorted (map fst ak) \<and>
     (\<forall>c \<in> set ak. fst c \<le> cur \<and> (fst c \<in> fst ` set segs \<or> segment_name (fst c) \<in> rem)) \<and>
     (\<forall>n \<in> rem. n \<notin> segment_name ` fst ` set segs \<and> (\<exists>i \<le> cur. n = segment_name i))"

definition writer_inv :: "(nat \<times> WALEntry) list \<Rightarrow> (nat \<times> WALEntry) list \<Rightarrow> segment_writer \<Rightarrow> disk \<Rightarrow> seg list \<Rightarrow> nat \<Rightarrow> bool" where
  "writer_inv ak waiting w d segs i \<longleftrightarrow>
     (\<exists>pre es frs. segs = pre @ [(i, es, frs)] \<and> sw_path w = segment_name i \<and> seg_at (concat frs) w d \<and>
        (\<forall>c \<in> set waiting. fst c = i) \<and> subseq (of_seg i (ak @ waiting)) es \<and> (\<forall>c \<in> set ak. fst c \<le> i))"

definition wal_inv :: "snappy \<Rightarrow> (nat \<times> WALEntry) list \<Rightarrow> WALEntry list \<Rightarrow> bytes set \<Rightarrow> wal \<Rightarrow> disk \<Rightarrow> bool" where
  "wal_inv S old calls rem l d \<longleftrightarrow>
     (\<exists>segs. dir_inv S (acked old l) calls rem (l_currentSegmentID l) d segs \<and>
        (case l_writer l of
           None \<Rightarrow> l_waiters l = []
         | Some w \<Rightarrow> \<exists>i. writer_inv (acked old l) (l_waiters l) w d segs i \<and> (sw_err w = None \<longrightarrow> l_currentSegmentID l = i)))"

lemma wal_invI:
  "dir_inv S (acked old l) calls rem (l_currentSegmentID l) d segs \<Longrightarrow> l_writer l = None \<Longrightarrow> l_waiters l = [] \<Longrightarrow> wal_inv S old calls rem l d"
  "dir_inv S (acked old l) calls rem (l_currentSegmentID l) d segs \<Longrightarrow> l_writer l = Some w \<Longrightarrow>
   writer_inv (acked old l) (l_waiters l) w d segs i \<Longrightarrow> (sw_err w = None \<Longrightarrow> l_currentSegmentID l = i) \<Longrightarrow> wal_inv S old calls rem l d"
  unfolding wal_inv_def by fastforce+

lemma wal_invE:
  assumes "wal_inv S old calls rem l d"
  obtains (idle) segs where "dir_inv S (acked old l) calls rem (l_currentSegmentID l) d segs" "l_writer l = None" "l_waiters l = []"
    | (active) segs w i where "dir_inv S (acked old l) calls rem (l_currentSegmentID l) d segs" "l_writer l = Some w"
        "writer_inv (acked old l) (l_waiters l) w d segs i" "sw_err w = None \<longrightarrow> l_currentSegmentID l = i"
  using assms unfolding wal_inv_def by (cases "l_writer l") auto

lemma of_seg_append [simp]: "of_seg i (a @ b) = of_seg i a @ of_seg i b" "of_seg i [] = []"
  by (simp_all add: of_seg_def)

lemma of_seg_other: "\<forall>c \<in> set cs. fst c \<noteq> i \<Longrightarrow> of_seg i cs = []"
  by (auto simp: of_seg_def filter_empty_conv)

lemma of_seg_all: "\<forall>c \<in> set cs. fst c = i \<Longrightarrow> of_seg i cs = map snd cs"
  by (simp add: of_seg_def)

text \<open>Each step changes one file, or none.\<close>

lemma stored_same:
  assumes "stored S d ak s" "map_of (d_files d') (segment_name (fst s)) = map_of (d_files d) (segment_name (fst s))" "of_seg (fst s) ak' = of_seg (fst s) ak"
  shows "stored S d' ak' s"
  using assms by (cases s) (simp add: stored_def)

lemma stored_grows:
  assumes "stored S d ak (i, es, frs)" "list_all2 (is_frame S) es' frs'" "seg_at (concat (frs @ frs')) w d'" "sw_path w = segment_name i"
    "same_elsewhere (segment_name i) d d'"
  shows "stored S d' ak (i, es @ es', frs @ frs')"
proof -
  obtain f m where f: "map_of (d_files d) (segment_name i) = Some f" "m \<le> length es" "length (concat (take m frs)) \<le> f_synced f"
      "subseq (of_seg i ak) (take m es)" and l: "list_all2 (is_frame S) es frs"
    using assms(1) by (auto simp: stored_def)
  obtain f' where f': "map_of (d_files d') (segment_name i) = Some f'" "prefix (f_data f') (concat (frs @ frs'))" "f_synced f' \<le> length (f_data f')"
    using seg_at_prefix [OF assms(3)] assms(4) by auto
  have "f_synced f \<le> f_synced f'" using assms(5) f(1) f'(1) by (simp add: same_elsewhere_def syncedness_def)
  then show ?thesis using f f' l assms(2) list_all2_lengthD [OF l] unfolding stored_def prod.case
    by (intro conjI list_all2_appendI exI [of _ f'] exI [of _ m]) auto
qed

lemma stored_synced:
  assumes "stored S d ak (i, es, frs)" "seg_at (concat frs) w d'" "sw_path w = segment_name i"
    "syncedness d' (segment_name i) = length (concat frs)" "subseq (of_seg i ak') es"
  shows "stored S d' ak' (i, es, frs)"
proof -
  obtain f' where f': "map_of (d_files d') (segment_name i) = Some f'" "prefix (f_data f') (concat frs)" "f_synced f' \<le> length (f_data f')"
    using seg_at_prefix [OF assms(2)] assms(3) by auto
  then have "f_synced f' = length (concat frs)" using assms(4) by (simp add: syncedness_def)
  moreover have "length es = length frs" using assms(1) by (auto simp: stored_def dest: list_all2_lengthD)
  ultimately show ?thesis using f' assms(1,5) unfolding stored_def prod.case
    by (intro conjI exI [of _ f'] exI [of _ "length es"]) auto
qed

lemma subseq_front: "subseq (a @ b) c \<Longrightarrow> subseq a c"
  by (rule subseq_order.trans [OF prefix_imp_subseq]) auto

lemma dir_inv_step:
  assumes inv: "dir_inv S ak calls rem cur d (pre @ [(i, es, frs)])" and d: "same_elsewhere (segment_name i) d d'"
    and st: "stored S d' (ak @ x) (i, es', frs')" and x: "\<forall>c \<in> set x. fst c = i" "\<forall>c \<in> set ak. fst c \<le> i"
    and sub: "subseq (concat (map (fst \<circ> snd) pre) @ es') calls'"
  shows "dir_inv S (ak @ x) calls' rem cur d' (pre @ [(i, es', frs')])"
proof -
  have srt: "\<forall>s \<in> set pre. fst s < i" using inv by (auto simp: dir_inv_def sorted_wrt_append)
  have "stored S d' (ak @ x) s" if "s \<in> set pre" for s
  proof (rule stored_same)
    show "stored S d ak s" using inv that by (simp add: dir_inv_def)
    show "map_of (d_files d') (segment_name (fst s)) = map_of (d_files d) (segment_name (fst s))"
      using d srt that by (auto simp: same_elsewhere_def)
    show "of_seg (fst s) (ak @ x) = of_seg (fst s) ak" using x(1) srt that of_seg_other [of x "fst s"] by auto
  qed
  moreover have "fst ` set (d_files d') = fst ` set (d_files d)" using d by (metis same_elsewhere_def set_map)
  moreover have "sorted (map fst (ak @ x))"
  proof -
    have "sorted (map fst x)" using x(1) by (induction x) auto
    then show ?thesis using inv x by (fastforce simp: dir_inv_def sorted_append)
  qed
  moreover have "i \<le> cur" using inv by (simp add: dir_inv_def)
  ultimately show ?thesis using inv d st sub x(1) by (auto simp: dir_inv_def same_elsewhere_def)
qed

lemma sync_writer_ok:
  assumes "dir_inv S (acked old l) calls rem cur d segs" "writer_inv (acked old l) (l_waiters l) w d segs i" "sync_writer w l d = (w', l', d')"
  shows "dir_inv S (acked old l') calls rem cur d' segs \<and> writer_inv (acked old l') [] w' d' segs i \<and> same_elsewhere (segment_name i) d d' \<and>
    l_writer l' = Some w' \<and> l_waiters l' = [] \<and> l_currentSegmentID l' = l_currentSegmentID l \<and> (sw_err w' = None \<longrightarrow> sw_err w = None)"
proof -
  let ?ak = "acked old l" and ?wt = "l_waiters l"
  obtain pre es frs where w: "segs = pre @ [(i, es, frs)]" "sw_path w = segment_name i" "seg_at (concat frs) w d"
      "\<forall>c \<in> set ?wt. fst c = i" "subseq (of_seg i (?ak @ ?wt)) es" "\<forall>c \<in> set ?ak. fst c \<le> i"
    using assms(2) by (auto simp: writer_inv_def)
  obtain err w1 d1 where s: "segment_sync w d = (err, w1, d1)" by (metis prod.exhaust)
  have r: "w1 = w'" "d1 = d'" "l' = l\<lparr>l_writer := Some w', l_replies := l_replies l @ map (\<lambda>c. (c, err)) ?wt, l_waiters := []\<rparr>"
    using assms(3) s by (auto simp: sync_writer_def)
  note so = segment_sync_ok [OF s w(3)]
  define x where "x = (if err = None then ?wt else [])"
  have ak: "acked old l' = ?ak @ x" by (simp add: acked_def r x_def filter_map comp_def)
  have x: "\<forall>c \<in> set x. fst c = i" "subseq (of_seg i (?ak @ x)) es"
    using w(4,5) subseq_front [of "of_seg i ?ak" "of_seg i ?wt" es] by (auto simp: x_def)
  have st: "stored S d ?ak (i, es, frs)" using assms(1) by (simp add: dir_inv_def w(1))
  have "stored S d' (?ak @ x) (i, es, frs)"
  proof (cases "err = None")
    case True
    then show ?thesis using stored_synced [OF st, of w' d'] so w(2) x(2) r by simp
  next
    case False
    then show ?thesis using stored_grows [OF st, of "[]" "[]" w' d'] so w(2) r by (auto simp: x_def)
  qed
  moreover have "subseq (concat (map (fst \<circ> snd) pre) @ es) calls" using assms(1) by (simp add: dir_inv_def w(1))
  ultimately have "dir_inv S (?ak @ x) calls rem cur d' segs"
    using dir_inv_step [OF assms(1) [unfolded w(1)], of d' x es frs calls] so w x(1) r by simp
  moreover have "writer_inv (?ak @ x) [] w' d' segs i"
    using so w x r by (auto simp: writer_inv_def)
  moreover have "sw_err w' = None \<longrightarrow> sw_err w = None"
    using s r by (auto simp: segment_sync_def bufio_Flush_def split: option.splits if_splits prod.splits)
  ultimately show ?thesis using so w(2) by (simp add: ak) (simp add: r)
qed

lemma segment_close_ok:
  assumes "dir_inv S ak calls rem cur d segs" "writer_inv ak [] w d segs i" "segment_close w d = (err, w', d')"
  shows "dir_inv S ak calls rem cur d' segs \<and> writer_inv ak [] w' d' segs i \<and> err = sw_err w'"
proof -
  obtain pre es frs where w: "segs = pre @ [(i, es, frs)]" "sw_path w = segment_name i" "seg_at (concat frs) w d"
      "subseq (of_seg i ak) es" "\<forall>c \<in> set ak. fst c \<le> i"
    using assms(2) by (auto simp: writer_inv_def)
  note fo = bufio_Flush_ok [OF assms(3) [unfolded segment_close_def] w(3)]
  have "stored S d ak (i, es, frs)" "subseq (concat (map (fst \<circ> snd) pre) @ es) calls"
    using assms(1) by (simp_all add: dir_inv_def w(1))
  then have "dir_inv S (ak @ []) calls rem cur d' segs"
    unfolding w(1) using stored_grows [of S d ak i es frs "[]" "[]" w' d'] fo w(2,5)
    by (intro dir_inv_step [OF assms(1) [unfolded w(1)]]) auto
  then show ?thesis using fo w by (auto simp: writer_inv_def)
qed

lemma dir_inv_mono: "dir_inv S ak calls rem cur d segs \<Longrightarrow> cur \<le> cur' \<Longrightarrow> dir_inv S ak calls rem cur' d segs"
  by (fastforce simp: dir_inv_def)

lemma map_of_snoc: "n \<notin> fst ` set xs \<Longrightarrow> map_of (xs @ [(n, v)]) k = (if k = n then Some v else map_of xs k)"
  by (induction xs) auto

lemma open_segment_ok:
  assumes inv: "dir_inv S (acked old l) calls rem cur d segs" and cur: "l_currentSegmentID l = Suc cur"
    and l: "l_waiters l = []" and o: "open_segment l d = (r, l', d')"
  shows "wal_inv S old calls rem l' d' \<and> l_writer l' \<noteq> None \<and> r = None"
proof -
  let ?n = "segment_name (Suc cur)" and ?ak = "acked old l"
  have ids: "\<forall>s \<in> set segs. fst s \<le> cur" "\<forall>c \<in> set ?ak. fst c \<le> cur" "\<forall>n \<in> rem. \<exists>i \<le> cur. n = segment_name i"
    using inv by (auto simp: dir_inv_def)
  have new: "?n \<notin> fst ` set (d_files d)"
  proof
    assume "?n \<in> fst ` set (d_files d)"
    then have "?n \<in> segment_name ` fst ` set segs" using inv unfolding dir_inv_def by (metis (mono_tags, lifting) is_segment_name_segment_name mem_Collect_eq)
    then show False using ids(1) by auto
  qed
  then have d': "d_files d' = d_files d @ [(?n, \<lparr>f_data = [], f_synced = 0\<rparr>)]" and r: "r = None"
      and l': "l' = l\<lparr>l_writer := Some (NewWALSegmentWriter ?n 0), l_oldSegmentBytes := 0\<rparr>"
    using o cur by (auto simp: open_segment_def create_file_def SetCurrentSegmentSize_def Let_def)
  have ak: "acked old l' = ?ak" "l_waiters l' = []" "l_currentSegmentID l' = Suc cur" by (simp_all add: l' acked_def l cur)
  have m: "map_of (d_files d') k = (if k = ?n then Some \<lparr>f_data = [], f_synced = 0\<rparr> else map_of (d_files d) k)" for k
    using map_of_snoc [OF new] by (simp add: d')
  have of: "of_seg (Suc cur) ?ak = []" using ids(2) by (intro of_seg_other) auto
  have "dir_inv S ?ak calls rem (Suc cur) d' (segs @ [(Suc cur, [], [])])"
  proof -
    have "stored S d' ?ak s" if "s \<in> set segs" for s
      using inv that ids(1) by (intro stored_same [of S d ?ak s d' ?ak]) (auto simp: dir_inv_def m)
    moreover have "stored S d' ?ak (Suc cur, [], [])" by (simp add: stored_def m of)
    moreover have "fst ` set (d_files d') = insert ?n (fst ` set (d_files d))" by (auto simp: d')
    moreover have "{n \<in> fst ` set (d_files d'). is_segment_name n} = insert ?n (segment_name ` fst ` set segs)"
      using inv by (auto simp: d' dir_inv_def)
    ultimately show ?thesis using inv ids new by (fastforce simp: dir_inv_def d' sorted_wrt_append)
  qed
  moreover have "writer_inv ?ak [] (NewWALSegmentWriter ?n 0) d' (segs @ [(Suc cur, [], [])]) (Suc cur)"
    using ids(2) of by (auto simp: writer_inv_def seg_at_def seg_ok_def NewWALSegmentWriter_def m)
  moreover have "l_writer l' = Some (NewWALSegmentWriter ?n 0)" by (simp add: l')
  ultimately show ?thesis using r wal_invI(2) [of S old l' calls rem d' "segs @ [(Suc cur, [], [])]" "NewWALSegmentWriter ?n 0" "Suc cur"]
    by (simp add: ak)
qed

lemma newSegmentFile_ok:
  assumes inv: "wal_inv S old calls rem l d" and n: "newSegmentFile l d = (r, l', d')"
  shows "wal_inv S old calls rem l' d' \<and> (r = None \<longrightarrow> l_writer l' \<noteq> None)"
proof -
  define l1 where "l1 = l\<lparr>l_currentSegmentID := l_currentSegmentID l + 1\<rparr>"
  have l1: "acked old l1 = acked old l" "l_waiters l1 = l_waiters l" "l_writer l1 = l_writer l" "l_currentSegmentID l1 = Suc (l_currentSegmentID l)"
    by (simp_all add: l1_def acked_def)
  from inv show ?thesis
  proof (cases rule: wal_invE)
    case (idle segs)
    then have "open_segment l1 d = (r, l', d')" using n by (simp add: newSegmentFile_def l1_def)
    then show ?thesis using open_segment_ok [of S old l1 calls rem "l_currentSegmentID l" d segs r l' d'] idle l1 by simp
  next
    case (active segs w i)
    note dir = active(1) and Some = active(2)
    have wi: "writer_inv (acked old l1) (l_waiters l1) w d segs i" using active l1 by auto
    obtain w2 l2 d2 where s: "sync_writer w l1 d = (w2, l2, d2)" by (metis prod.exhaust)
    obtain e w3 d3 where c: "segment_close w2 d2 = (e, w3, d3)" by (metis prod.exhaust)
    note s2 = sync_writer_ok [OF _ wi s, of S calls rem "l_currentSegmentID l"]
    then have s2: "dir_inv S (acked old l2) calls rem (l_currentSegmentID l) d2 segs" "writer_inv (acked old l2) [] w2 d2 segs i"
        "l_waiters l2 = []" "l_currentSegmentID l2 = Suc (l_currentSegmentID l)"
      using dir l1 by auto
    note c3 = segment_close_ok [OF s2(1,2) c]
    show ?thesis
    proof (cases e)
      case None
      define l3 where "l3 = SetOldSegmentSize (sw_size w3) l2"
      have "open_segment l3 d3 = (r, l', d')" using n Some s c None by (simp add: newSegmentFile_def l1_def l3_def)
      moreover have "acked old l3 = acked old l2" "l_waiters l3 = []" "l_currentSegmentID l3 = Suc (l_currentSegmentID l)"
        using s2 by (simp_all add: l3_def SetOldSegmentSize_def acked_def)
      ultimately show ?thesis using open_segment_ok [of S old l3 calls rem "l_currentSegmentID l" d3 segs r l' d'] c3 by simp
    next
      case e: (Some x)
      have "l' = l2\<lparr>l_writer := Some w3\<rparr>" "d' = d3" "r = Some x" using n Some s c e by (auto simp: newSegmentFile_def l1_def)
      moreover have "acked old (l2\<lparr>l_writer := Some w3\<rparr>) = acked old l2" by (simp add: acked_def)
      moreover have "sw_err w3 = Some x" using c3 e by metis
      ultimately show ?thesis using c3 e s2 dir_inv_mono [of S "acked old l2" calls rem "l_currentSegmentID l" d3 segs "Suc (l_currentSegmentID l)"]
          wal_invI(2) [of S old l' calls rem d' segs w3 i] by simp
    qed
  qed
qed

lemma wal_inv_later: "wal_inv S old calls rem l d \<Longrightarrow> wal_inv S old (calls @ [e]) rem l d"
  unfolding wal_inv_def dir_inv_def by (auto intro: subseq_order.trans [OF _ prefix_imp_subseq])

lemma wal_inv_fields:
  assumes "l_replies l' = l_replies l" "l_writer l' = l_writer l" "l_waiters l' = l_waiters l" "l_currentSegmentID l' = l_currentSegmentID l"
    "d_files d' = d_files d"
  shows "wal_inv S old calls rem l' d' = wal_inv S old calls rem l d"
  unfolding wal_inv_def acked_def dir_inv_def stored_def writer_inv_def seg_at_def assms ..

lemma append_locked_ok:
  assumes inv: "wal_inv S old calls rem l d" and a: "append_locked e c l d = (r, l', d')"
    and fr: "is_frame S e (frame (WALEntry_Type e) c)"
  shows "wal_inv S old (calls @ [e]) rem l' d'"
proof -
  note later = wal_inv_later [of S old calls rem _ _ e]
  obtain rr l1 d1 where roll: "rollSegment l d = (rr, l1, d1)" by (metis prod.exhaust)
  have inv1: "wal_inv S old calls rem l1 d1 \<and> (rr = None \<longrightarrow> l_writer l1 \<noteq> None)"
    using roll inv newSegmentFile_ok [OF inv, of rr l1 d1] by (auto simp: rollSegment_def split: if_splits option.splits)
  consider "l_closing l" | x where "\<not> l_closing l" "rr = Some x" | w where "\<not> l_closing l" "rr = None" "l_writer l1 = Some w"
    using inv1 by (cases rr) auto
  then show ?thesis
  proof cases
    case 1
    then show ?thesis using a inv later by (simp add: append_locked_def)
  next
    case 2
    then show ?thesis using a roll inv1 later by (simp add: append_locked_def)
  next
    case 3
    obtain we w2 d2 where sw: "segment_Write (WALEntry_Type e) c w d1 = (we, w2, d2)" by (metis prod.exhaust)
    obtain segs i where dir: "dir_inv S (acked old l1) calls rem (l_currentSegmentID l1) d1 segs"
        and wi: "writer_inv (acked old l1) (l_waiters l1) w d1 segs i" and cur: "sw_err w = None \<longrightarrow> l_currentSegmentID l1 = i"
      using inv1 3 by (auto simp: wal_inv_def)
    obtain pre es frs where w: "segs = pre @ [(i, es, frs)]" "sw_path w = segment_name i" "seg_at (concat frs) w d1"
        "\<forall>c \<in> set (l_waiters l1). fst c = i" "subseq (of_seg i (acked old l1 @ l_waiters l1)) es" "\<forall>c \<in> set (acked old l1). fst c \<le> i"
      using wi by (auto simp: writer_inv_def)
    note so = segment_Write_ok [OF sw w(3)]
    let ?es = "es @ [e]" and ?frs = "frs @ [frame (WALEntry_Type e) c]"
    have st: "stored S d1 (acked old l1) (i, es, frs)" "subseq (concat (map (fst \<circ> snd) pre) @ es) calls"
      using dir by (simp_all add: dir_inv_def w(1))
    have "stored S d2 (acked old l1) (i, ?es, ?frs)"
      using stored_grows [OF st(1), of "[e]" "[frame (WALEntry_Type e) c]" w2 d2] so w(2) fr by simp
    then have dir2: "dir_inv S (acked old l1) (calls @ [e]) rem (l_currentSegmentID l1) d2 (pre @ [(i, ?es, ?frs)])"
      using dir_inv_step [OF dir [unfolded w(1)], of d2 "[]" ?es ?frs "calls @ [e]"] so w st(2) by (simp add: list_emb_append_mono flip: append_assoc)
    have none: "we = None \<Longrightarrow> sw_err w = None" using sw by (auto simp: segment_Write_def bufio_Write.simps [of _ w] Let_def split: if_splits option.splits)
    define l2 where "l2 = l1\<lparr>l_writer := Some w2\<rparr>"
    define l3 where "l3 = SetCurrentSegmentSize (sw_size w2) (scheduleSync (l2\<lparr>l_waiters := l_waiters l2 @ [(l_currentSegmentID l2, e)]\<rparr>))"
    have ak: "acked old l2 = acked old l1" "acked old l3 = acked old l1" "l_currentSegmentID l2 = l_currentSegmentID l1"
        "l_currentSegmentID l3 = l_currentSegmentID l1" "l_writer l2 = Some w2" "l_writer l3 = Some w2" "l_waiters l2 = l_waiters l1"
        "l_waiters l3 = l_waiters l1 @ [(l_currentSegmentID l1, e)]"
      by (simp_all add: l3_def l2_def acked_def SetCurrentSegmentSize_def scheduleSync_def)
    have l': "d' = d2 \<and> (l' = l2 \<or> l' = l3 \<and> we = None)" using a roll 3 sw
      by (auto simp: append_locked_def l2_def l3_def Let_def split: option.splits if_splits)
    have "writer_inv (acked old l1) (l_waiters l1) w2 d2 (pre @ [(i, ?es, ?frs)]) i"
      using so w by (auto simp: writer_inv_def intro: subseq_order.trans [OF _ prefix_imp_subseq])
    moreover have "writer_inv (acked old l1) (l_waiters l1 @ [(i, e)]) w2 d2 (pre @ [(i, ?es, ?frs)]) i"
      using so w by (auto simp: writer_inv_def of_seg_def list_emb_append_mono simp flip: append_assoc)
    ultimately show ?thesis using l' dir2 none cur so
        wal_invI(2) [of S old l2 "calls @ [e]" rem d2 "pre @ [(i, ?es, ?frs)]" w2 i] wal_invI(2) [of S old l3 "calls @ [e]" rem d2 "pre @ [(i, ?es, ?frs)]" w2 i]
      by (auto simp: ak)
  qed
qed

lemma pool_Get_length: "pool_Get p n = Inr b \<Longrightarrow> int (length b) = n"
  by (auto simp: pool_Get_def split: if_splits option.splits)

lemma writeToLog_ok:
  assumes "wal_inv S old calls rem l d" "snappy_ok S" "wal_storable S e" "writeToLog S p1 p2 e l d = (r, l', d')"
  shows "wal_inv S old (calls @ [e]) rem l' d'"
proof -
  let ?c = "bind_res (pool_Get p1 (int (entry_MarshalSize e))) (\<lambda>dst. bind_res (entry_Encode dst e) (\<lambda>b.
    bind_res (pool_Get p2 (sn_MaxEncodedLen S (length b))) (\<lambda>encBuf. Inr (fst (sn_Encode S encBuf b)))))"
  show ?thesis
  proof (cases ?c)
    case (Inl x)
    then show ?thesis using assms(1,4) wal_inv_later by (auto simp: writeToLog_def)
  next
    case (Inr c)
    then obtain dst b buf where b: "entry_Encode dst e = Inr b" "pool_Get p2 (sn_MaxEncodedLen S (length b)) = Inr buf" "c = fst (sn_Encode S buf b)"
      by (auto simp: bind_res_Inr_iff)
    have "is_frame S e (frame (WALEntry_Type e) c)"
      using wal_storable_frame(1) [OF assms(2,3) b(1) pool_Get_length [OF b(2)]] b(3) by simp
    moreover have "append_locked e c l d = (r, l', d')" using assms(4) Inr by (simp add: writeToLog_def)
    ultimately show ?thesis using append_locked_ok [OF assms(1)] by blast
  qed
qed

lemma WAL_sync_ok:
  assumes "wal_inv S old calls rem l d" "WAL_sync l d = Inr (l', d')"
  shows "wal_inv S old calls rem l' d'"
  using assms(1)
proof (cases rule: wal_invE)
  case (idle segs)
  then show ?thesis using assms(2) by (simp add: WAL_sync_def)
next
  case (active segs w i)
  obtain w' where "sync_writer w l d = (w', l', d')" using assms(2) active(2) by (auto simp: WAL_sync_def split: prod.splits)
  from sync_writer_ok [OF active(1,3) this] active(4) show ?thesis by (intro wal_invI(2) [of S old l' calls rem d' segs w' i]) auto
qed

lemma sync_tick_ok: "wal_inv S old calls rem l d \<Longrightarrow> sync_tick l d = Inr (l', d') \<Longrightarrow> wal_inv S old calls rem l' d'"
  using wal_inv_fields [of "l\<lparr>l_syncing := False\<rparr>" l d d] WAL_sync_ok by (auto simp: sync_tick_def split: if_splits)

lemma WAL_Close_ok:
  assumes "wal_inv S old calls rem l d" "WAL_Close l d = (l', d')"
  shows "wal_inv S old calls rem l' d'"
proof (cases "\<not> l_enabled l \<or> l_once l")
  case True
  then show ?thesis using assms by (simp add: WAL_Close_def)
next
  case False
  define l1 where "l1 = l\<lparr>l_once := True, l_closing := True\<rparr>"
  have "wal_inv S old calls rem l1 d" using assms(1) wal_inv_fields [of l1 l d d] by (simp add: l1_def)
  then show ?thesis
  proof (cases rule: wal_invE)
    case (idle segs)
    then show ?thesis using assms(2) False \<open>wal_inv S old calls rem l1 d\<close> by (simp add: WAL_Close_def l1_def)
  next
    case (active segs w i)
    obtain w2 l2 d2 where s: "sync_writer w l1 d = (w2, l2, d2)" by (metis prod.exhaust)
    obtain e w3 d3 where c: "segment_close w2 d2 = (e, w3, d3)" by (metis prod.exhaust)
    note s2 = sync_writer_ok [OF active(1,3) s]
    note c3 = segment_close_ok [of S "acked old l2" calls rem "l_currentSegmentID l1" d2 segs w2 i e w3 d3] s2 c
    have "l' = l2\<lparr>l_writer := None\<rparr>" "d' = d3" using assms(2) False active(2) s c by (auto simp: WAL_Close_def l1_def)
    then show ?thesis using c3 by (intro wal_invI(1) [of S old l' calls rem d' segs]) (simp_all add: acked_def)
  qed
qed

lemma remove_files: "d_files (fold remove_file files d) = filter (\<lambda>p. fst p \<notin> set files) (d_files d)"
  by (induction files arbitrary: d) (auto simp: remove_file_def AList.delete_eq intro!: filter_cong)

lemma map_of_filter_keys: "P n \<Longrightarrow> map_of (filter (\<lambda>p. P (fst p)) xs) n = map_of xs n"
  by (induction xs) auto

lemma subseq_concat_filter: "subseq (concat (map g (filter P xs))) (concat (map g xs))"
  by (induction xs) (auto intro: list_emb_append2 list_emb_append_mono)

lemma dir_invD:
  assumes "dir_inv S ak calls rem cur d segs"
  shows "sorted_wrt (<) (map fst segs)" "distinct (map fst (d_files d))"
    "{n \<in> fst ` set (d_files d). is_segment_name n} = segment_name ` fst ` set segs"
    "s \<in> set segs \<Longrightarrow> stored S d ak s" "s \<in> set segs \<Longrightarrow> fst s \<le> cur"
    "subseq (concat (map (fst \<circ> snd) segs)) calls" "sorted (map fst ak)" "c \<in> set ak \<Longrightarrow> fst c \<le> cur"
    "c \<in> set ak \<Longrightarrow> fst c \<in> fst ` set segs \<or> segment_name (fst c) \<in> rem"
    "n \<in> rem \<Longrightarrow> n \<notin> segment_name ` fst ` set segs" "n \<in> rem \<Longrightarrow> \<exists>i \<le> cur. n = segment_name i"
  using assms by (simp_all add: dir_inv_def)

lemma dir_inv_remove:
  assumes inv: "dir_inv S ak calls rem cur d segs" and files: "set files \<subseteq> segment_name ` fst ` set segs"
  shows "dir_inv S ak calls (rem \<union> set files) cur (fold remove_file files d) (filter (\<lambda>s. segment_name (fst s) \<notin> set files) segs)"
proof -
  let ?segs = "filter (\<lambda>s. segment_name (fst s) \<notin> set files) segs" and ?d = "fold remove_file files d"
  note I = dir_invD [OF inv]
  show ?thesis unfolding dir_inv_def
  proof (intro conjI ballI)
    show "sorted_wrt (<) (map fst ?segs)" using I(1) unfolding sorted_wrt_map by (rule sorted_wrt_filter)
    show "distinct (map fst (d_files ?d))" using I(2) by (simp add: remove_files distinct_map_filter)
    have "{n \<in> fst ` set (d_files ?d). is_segment_name n} = {n \<in> fst ` set (d_files d). is_segment_name n} - set files"
      by (auto simp: remove_files)
    also have "\<dots> = segment_name ` fst ` set ?segs" unfolding I(3) by auto
    finally show "{n \<in> fst ` set (d_files ?d). is_segment_name n} = segment_name ` fst ` set ?segs" .
    show "stored S ?d ak s" if "s \<in> set ?segs" for s
      using that map_of_filter_keys [of "\<lambda>n. n \<notin> set files" "segment_name (fst s)" "d_files d"]
      by (intro stored_same [of S d ak s ?d ak] I(4)) (simp_all add: remove_files)
    show "fst s \<le> cur" if "s \<in> set ?segs" for s using I(5) [of s] that by simp
    show "subseq (concat (map (fst \<circ> snd) ?segs)) calls" by (rule subseq_order.trans [OF subseq_concat_filter I(6)])
    show "sorted (map fst ak)" by (rule I(7))
    show "fst c \<le> cur" if "c \<in> set ak" for c using I(8) [OF that] .
    show "fst c \<in> fst ` set ?segs \<or> segment_name (fst c) \<in> rem \<union> set files" if "c \<in> set ak" for c using I(9) [OF that] by force
    show "n \<notin> segment_name ` fst ` set ?segs" if "n \<in> rem \<union> set files" for n using that I(10) [of n] by auto
    show "\<exists>i \<le> cur. n = segment_name i" if n: "n \<in> rem \<union> set files" for n
    proof (cases "n \<in> rem")
      case False
      then obtain s where "s \<in> set segs" "n = segment_name (fst s)" using n files by auto
      then show ?thesis using I(5) [of s] by blast
    qed (rule I(11))
  qed
qed

lemma WAL_Remove_ok:
  assumes inv: "wal_inv S old calls rem l d" and files: "set files \<subseteq> set (ClosedSegments l d)" and r: "WAL_Remove files l d = (l', d')"
  shows "wal_inv S old calls (rem \<union> set files) l' d'"
proof (cases "l_enabled l")
  case False
  then show ?thesis using assms by (simp add: WAL_Remove_def ClosedSegments_def)
next
  case True
  have d': "d' = fold remove_file files d" and l': "l_writer l' = l_writer l" "l_waiters l' = l_waiters l" "l_currentSegmentID l' = l_currentSegmentID l"
      "acked old l' = acked old l"
    using r True by (auto simp: WAL_Remove_def SetOldSegmentSize_def acked_def Let_def)
  have names: "set (SegmentFileNames d) = {n \<in> fst ` set (d_files d). is_segment_name n}" by (auto simp: SegmentFileNames_def)
  have f: "set files \<subseteq> segment_name ` fst ` set segs" if "dir_inv S (acked old l) calls rem (l_currentSegmentID l) d segs" for segs
    using files that names by (auto simp: ClosedSegments_def dir_inv_def split: if_splits)
  from inv show ?thesis
  proof (cases rule: wal_invE)
    case (idle segs)
    then show ?thesis using dir_inv_remove [OF idle(1) f [OF idle(1)]] l' d' by (intro wal_invI(1)) auto
  next
    case (active segs w i)
    obtain pre es frs where w: "segs = pre @ [(i, es, frs)]" "sw_path w = segment_name i" "seg_at (concat frs) w d"
        "\<forall>c \<in> set (l_waiters l). fst c = i" "subseq (of_seg i (acked old l @ l_waiters l)) es" "\<forall>c \<in> set (acked old l). fst c \<le> i"
      using active(3) by (auto simp: writer_inv_def)
    have ni: "segment_name i \<notin> set files" using files True active(2) w(2) by (auto simp: ClosedSegments_def)
    have "seg_at (concat frs) w d'" using w(2,3) map_of_filter_keys [of "\<lambda>n. n \<notin> set files" "segment_name i" "d_files d"] ni
      by (simp add: seg_at_def d' remove_files)
    then have "writer_inv (acked old l) (l_waiters l) w d' (filter (\<lambda>s. segment_name (fst s) \<notin> set files) segs) i"
      using w ni by (auto simp: writer_inv_def)
    then show ?thesis using dir_inv_remove [OF active(1) f [OF active(1)]] l' d' active(2,4)
      by (intro wal_invI(2) [where w = w and i = i]) auto
  qed
qed

section \<open>Opening\<close>

lemma sorted_wrt_unique:
  "sorted_wrt bytes_le xs \<Longrightarrow> sorted_wrt bytes_le ys \<Longrightarrow> distinct xs \<Longrightarrow> distinct ys \<Longrightarrow> set xs = set ys \<Longrightarrow> xs = ys"
proof (induction xs arbitrary: ys)
  case (Cons x xs)
  then obtain y zs where ys: "ys = y # zs" by (cases ys) auto
  have "x = y"
  proof (rule ccontr)
    assume "x \<noteq> y"
    then have "y \<in> set xs" "x \<in> set zs" using Cons.prems(5) ys by auto
    then have "bytes_le x y" "bytes_le y x" using Cons.prems(1,2) ys by auto
    then show False using \<open>x \<noteq> y\<close> bytes_le_antisym by blast
  qed
  moreover from this have "set xs = set zs" using Cons.prems(3-5) by (auto simp: ys insert_ident)
  ultimately show ?case using Cons.IH [of zs] Cons.prems by (simp add: ys)
qed simp

lemma distinct_sort_keys: "distinct ks \<Longrightarrow> distinct (sort_keys ks)"
  using sort_keys_set [of ks] by (metis card_distinct distinct_card)

text \<open>The names of the segments in the order of replay.\<close>

lemma SegmentFileNames_ids:
  assumes "distinct (map fst (d_files d))" "{n \<in> fst ` set (d_files d). is_segment_name n} = segment_name ` set ids"
    "sorted_wrt (<) ids" "\<forall>i \<in> set ids. i < 100000"
  shows "SegmentFileNames d = map segment_name ids"
proof (rule sorted_wrt_unique)
  show "sorted_wrt bytes_le (SegmentFileNames d)" by (simp add: SegmentFileNames_def sort_keys_sorted)
  show "distinct (SegmentFileNames d)" using assms(1) by (simp add: SegmentFileNames_def distinct_sort_keys)
  show "set (SegmentFileNames d) = set (map segment_name ids)" using assms(2) by (auto simp: SegmentFileNames_def)
  show "distinct (map segment_name ids)" using strict_sorted_iff [of ids] assms(3) by (auto simp: distinct_map inj_on_def)
  show "sorted_wrt bytes_le (map segment_name ids)" unfolding sorted_wrt_map
    by (rule sorted_wrt_mono_rel [OF _ assms(3)]) (use assms(4) in \<open>auto intro: segment_name_order\<close>)
qed

lemma tagged_simps [simp]: "tagged [] = []" "tagged ((i, es) # segs) = map (Pair i) es @ tagged segs"
  by (simp_all add: tagged_def)

lemma tagged_ids: "c \<in> set (tagged segs) \<Longrightarrow> fst c \<in> fst ` set segs"
  by (force simp: tagged_def)

lemma of_seg_tagged: "distinct (map fst segs) \<Longrightarrow> (i, es) \<in> set segs \<Longrightarrow> of_seg i (tagged segs) = es"
proof (induction segs)
  case (Cons s segs)
  obtain j es' where s: "s = (j, es')" by force
  have h: "of_seg j (map (Pair j) es') = es'" "k \<noteq> j \<Longrightarrow> of_seg k (map (Pair j) es') = []" for k
    by (auto simp: of_seg_def filter_map comp_def)
  show ?case
  proof (cases "i = j")
    case True
    then have "of_seg i (tagged segs) = []" using Cons.prems(1) by (intro of_seg_other) (auto simp: s dest: tagged_ids)
    moreover have "es = es'" using Cons.prems True by (force simp: s)
    ultimately show ?thesis using True h(1) by (simp add: s)
  next
    case False
    then show ?thesis using Cons h(2) by (simp add: s)
  qed
qed simp

lemma tagged_sorted: "sorted_wrt (<) (map fst segs) \<Longrightarrow> sorted (map fst (tagged segs))"
proof (induction segs)
  case (Cons s segs)
  obtain j es where s: "s = (j, es)" by force
  have "sorted (map fst (map (Pair j) es))" by (induction es) auto
  moreover have "\<forall>c \<in> set (tagged segs). j \<le> fst c" using Cons.prems by (auto simp: s dest!: tagged_ids)
  ultimately show ?case using Cons by (auto simp: s sorted_append)
qed simp

lemma tagged_entries: "map snd (tagged segs) = concat (map snd segs)"
  by (induction segs) (auto simp: comp_def)

definition framed :: "snappy \<Rightarrow> disk \<Rightarrow> (nat \<times> WALEntry list) \<Rightarrow> bytes list \<Rightarrow> bool" where
  "framed S d s frs \<longleftrightarrow> (\<exists>f. map_of (d_files d) (segment_name (fst s)) = Some f \<and> f_data f = concat frs \<and> f_synced f = length (f_data f) \<and>
     list_all2 (is_frame S) (snd s) frs)"

definition with_frames :: "(nat \<times> WALEntry list \<Rightarrow> bytes list) \<Rightarrow> (nat \<times> WALEntry list) list \<Rightarrow> seg list" where
  "with_frames F segs = map (\<lambda>s. (fst s, snd s, F s)) segs"

lemma with_frames_simps [simp]:
  "map fst (with_frames F segs) = map fst segs" "fst ` set (with_frames F segs) = fst ` set segs"
  "concat (map (fst \<circ> snd) (with_frames F segs)) = map snd (tagged segs)"
  "with_frames F (pre @ [s]) = with_frames F pre @ [(fst s, snd s, F s)]" "with_frames F [] = []"
  by (simp_all add: with_frames_def comp_def image_image tagged_entries)

lemma holds_framed:
  assumes "holds S d segs"
  shows "\<exists>F. \<forall>s \<in> set segs. framed S d s (F s)"
proof (rule bchoice, rule ballI)
  fix s assume s: "s \<in> set segs"
  obtain f where f: "map_of (d_files d) (segment_name (fst s)) = Some f" "f_synced f = length (f_data f)"
      "scan S (f_data f) = (snd s, length (f_data f), True)" using assms s by (auto simp: holds_def)
  then show "\<exists>frs. framed S d s frs" using scan_as_frames [of S "f_data f"] by (auto simp: framed_def)
qed

lemma framed_stored:
  assumes "framed S d (i, es) frs" "of_seg i ak = es"
  shows "stored S d ak (i, es, frs)"
proof -
  obtain f where f: "map_of (d_files d) (segment_name i) = Some f" "f_data f = concat frs" "f_synced f = length (f_data f)"
    "list_all2 (is_frame S) es frs" using assms(1) by (auto simp: framed_def)
  then show ?thesis using list_all2_lengthD [OF f(4)] assms(2) unfolding stored_def prod.case
    by (intro conjI exI [of _ f] exI [of _ "length es"]) simp_all
qed

lemma holds_dir_inv:
  assumes h: "holds S d segs" and F: "\<forall>s \<in> set segs. framed S d s (F s)" and cur: "\<And>s. s \<in> set segs \<Longrightarrow> fst s \<le> cur"
  shows "dir_inv S (tagged segs) (map snd (tagged segs)) {} cur d (with_frames F segs)"
proof -
  have srt: "sorted_wrt (<) (map fst segs)" "distinct (map fst segs)" using h strict_sorted_iff [of "map fst segs"] by (auto simp: holds_def)
  have st: "stored S d (tagged segs) t" "fst t \<le> cur" if t: "t \<in> set (with_frames F segs)" for t
  proof -
    obtain i es where s: "(i, es) \<in> set segs" "t = (i, es, F (i, es))" using t by (auto simp: with_frames_def)
    then show "stored S d (tagged segs) t" using framed_stored [OF F [rule_format, OF s(1)]] of_seg_tagged [OF srt(2) s(1)] by simp
    show "fst t \<le> cur" using cur [OF s(1)] s(2) by simp
  qed
  have ids: "fst c \<le> cur" "fst c \<in> fst ` set segs" if "c \<in> set (tagged segs)" for c using tagged_ids [OF that] cur by auto
  show ?thesis unfolding dir_inv_def using srt(1) st ids tagged_sorted [OF srt(1)] h by (simp add: holds_def)
qed

lemma dir_inv_unremove:
  "dir_inv S ak calls (rem \<union> X) cur d segs \<Longrightarrow> \<forall>c \<in> set ak. segment_name (fst c) \<notin> X \<Longrightarrow> dir_inv S ak calls rem cur d segs"
  unfolding dir_inv_def ball_Un by (intro conjI) simp_all

lemma WAL_Open_ok:
  assumes h: "holds S d segs" and o: "WAL_Open NewWAL d = (None, l, d')"
  shows "wal_inv S (tagged segs) (map snd (tagged segs)) {} l d'"
proof -
  obtain F where F: "\<forall>s \<in> set segs. framed S d s (F s)" using holds_framed [OF h] ..
  have names: "SegmentFileNames d = map segment_name (map fst segs)"
    using h by (intro SegmentFileNames_ids) (auto simp: holds_def)
  show ?thesis
  proof (cases segs rule: rev_cases)
    case Nil
    then have l: "l = (SetOldSegmentSize 0 NewWAL)\<lparr>l_closing := False\<rparr>" "d' = d" using o names by (auto simp: WAL_Open_def NewWAL_def)
    then show ?thesis using holds_dir_inv [OF h F] Nil by (intro wal_invI(1) [where segs = "[]"]) (simp_all add: acked_def NewWAL_def SetOldSegmentSize_def)
  next
    case (snoc pre s)
    obtain i es where s: "s = (i, es)" by force
    have last: "last (SegmentFileNames d) = segment_name i" "SegmentFileNames d \<noteq> []" using names snoc s by simp_all
    have srt: "\<forall>s \<in> set pre. fst s < i" "i < 100000" using h snoc s by (auto simp: holds_def sorted_wrt_append)
    have id: "idFromFileName (segment_name i) = Inr i" using srt(2) by (intro idFromFileName_segment_name) simp
    obtain f where f: "map_of (d_files d) (segment_name i) = Some f" "f_data f = concat (F s)" "f_synced f = length (f_data f)"
        "list_all2 (is_frame S) es (F s)" using F snoc s by (auto simp: framed_def)
    have dir': "dir_inv S (tagged segs) (map snd (tagged segs)) {} i d (with_frames F segs)"
    proof (rule holds_dir_inv [OF h F])
      show "fst t \<le> i" if "t \<in> set segs" for t using srt(1) snoc s that by (auto intro: less_imp_le)
    qed
    have size: "data_of d (segment_name i) = f_data f" by (simp add: data_of_def f(1))
    show ?thesis
    proof (cases "f_data f = []")
      case True
      have "[] \<notin> set (F s)" using f(4) by (auto simp: list_all2_conv_all_nth in_set_conv_nth is_frame_def frame_def)
      then have es: "es = []" using True f(2,4) by (cases "F s") auto
      have l: "d' = remove_file (segment_name i) d" "l_currentSegmentID l = i" "l_writer l = None" "l_waiters l = []" "acked old l = old" for old
        using o last id size True by (auto simp: WAL_Open_def NewWAL_def Let_def SetOldSegmentSize_def acked_def)
      have "\<forall>c \<in> set (tagged segs). segment_name (fst c) \<notin> {segment_name i}"
        using srt(1) snoc s es by (auto simp: tagged_def)
      moreover have "set [segment_name i] \<subseteq> segment_name ` fst ` set (with_frames F segs)" by (simp add: snoc s)
      note dir_inv_remove [OF dir' this]
      ultimately have "dir_inv S (tagged segs) (map snd (tagged segs)) {} i d'
          (filter (\<lambda>s. segment_name (fst s) \<notin> set [segment_name i]) (with_frames F segs))"
        by - (rule dir_inv_unremove [where X = "{segment_name i}"], simp_all add: l(1))
      then show ?thesis using l by (intro wal_invI(1)) simp_all
    next
      case False
      let ?w = "NewWALSegmentWriter (segment_name i) (length (f_data f))"
      have l: "d' = d" "l_currentSegmentID l = i" "l_writer l = Some ?w" "l_waiters l = []" "acked old l = old" for old
        using o last id size False by (auto simp: WAL_Open_def NewWAL_def Let_def SetOldSegmentSize_def SetCurrentSegmentSize_def acked_def)
      have sd: "distinct (map fst segs)" using h strict_sorted_iff [of "map fst segs"] by (auto simp: holds_def)
      have "of_seg i (tagged segs) = es" using of_seg_tagged [OF sd, of i es] snoc s by simp
      moreover have "\<forall>c \<in> set (tagged segs). fst c \<le> i" using srt(1) snoc s by (force dest: tagged_ids)
      ultimately have "writer_inv (tagged segs) [] ?w d (with_frames F segs) i"
        using f snoc s by (simp add: writer_inv_def NewWALSegmentWriter_def seg_at_def seg_ok_def)
      then show ?thesis using dir' l by (intro wal_invI(2)) simp_all
    qed
  qed
qed

lemma wal_run_inv: "wal_run S old calls rem l d \<Longrightarrow> snappy_ok S \<Longrightarrow> wal_inv S old calls rem l d"
proof (induction rule: wal_run.induct)
  case (rolls calls rem l d r l' d')
  then show ?case using newSegmentFile_ok [of S old calls rem l d r l' d'] by (auto simp: CloseSegment_def split: if_splits)
next
  case (notices calls rem l d)
  then show ?case using wal_inv_fields [of "sync_closing l" l d d] by (simp add: sync_closing_def)
next
  case (space calls rem l d n)
  then show ?case using wal_inv_fields [of l l "d\<lparr>d_free := n\<rparr>" d] by simp
qed (auto intro: WAL_Open_ok writeToLog_ok sync_tick_ok WAL_Remove_ok WAL_Close_ok)

section \<open>Recovery\<close>

abbreviation collect :: "WALEntry \<Rightarrow> WALEntry list \<Rightarrow> go_error option \<times> WALEntry list" where
  "collect \<equiv> \<lambda>e s. (None, s @ [e])"

lemma apply_all_collect [simp]: "apply_all collect es s = (None, s @ es)"
  by (induction es arbitrary: s) auto

lemma apply_all_append:
  "apply_all cb (a @ b) s = (case apply_all cb a s of (Some e, s') \<Rightarrow> (Some e, s') | (None, s') \<Rightarrow> apply_all cb b s')"
  by (induction a arbitrary: s) (auto split: prod.split option.split)

lemma readFile_scan:
  "\<exists>d'. readFile S cb n d s = (fst (apply_all cb (fst (scan S (data_of d n))) s), d', snd (apply_all cb (fst (scan S (data_of d n))) s)) \<and>
     (\<forall>k. k \<noteq> n \<longrightarrow> data_of d' k = data_of d k)"
proof -
  obtain es m ok where sc: "scan S (data_of d n) = (es, m, ok)" by (cases "scan S (data_of d n)")
  obtain e s' where a: "apply_all cb es s = (e, s')" by force
  obtain data where r: "replay_bytes S cb (data_of d n) s = (e, data, s')" by (cases e) (auto simp: replay_bytes_scan sc a)
  show ?thesis unfolding readFile_def r sc prod.case fst_conv a snd_conv
    by (intro exI conjI, rule refl) (simp add: data_of_def AList.update_conv)
qed

lemma read_files_scan:
  "distinct names \<Longrightarrow> \<exists>d'. read_files S cb names d s =
     (fst (apply_all cb (concat (map (\<lambda>n. fst (scan S (data_of d n))) names)) s), d',
      snd (apply_all cb (concat (map (\<lambda>n. fst (scan S (data_of d n))) names)) s))"
proof (induction names arbitrary: d s)
  case (Cons n names)
  let ?a = "apply_all cb (fst (scan S (data_of d n))) s"
  obtain d1 where d1: "readFile S cb n d s = (fst ?a, d1, snd ?a)" "\<forall>k. k \<noteq> n \<longrightarrow> data_of d1 k = data_of d k"
    using readFile_scan [of S cb n d s] by blast
  have same: "map (\<lambda>n. fst (scan S (data_of d1 n))) names = map (\<lambda>n. fst (scan S (data_of d n))) names"
    using d1(2) Cons.prems by auto
  show ?case
  proof (cases "fst ?a")
    case None
    then show ?thesis using Cons.IH [of d1 "snd ?a"] Cons.prems d1(1) same
      by (simp add: apply_all_append case_prod_beta)
  next
    case (Some e)
    then show ?thesis using d1(1) by (simp add: apply_all_append case_prod_beta)
  qed
qed simp

lemma filter_two:
  "sorted (map fst ak) \<Longrightarrow> \<forall>j \<in> I. (i :: nat) < j \<Longrightarrow>
   filter (\<lambda>c. fst c = i \<or> fst c \<in> I) ak = filter (\<lambda>c. fst c = i) ak @ filter (\<lambda>c. fst c \<in> I) ak"
proof (induction ak)
  case (Cons c ak)
  have "filter (\<lambda>c. fst c = i) ak = []" if "fst c \<in> I"
    using Cons.prems that by (fastforce simp: filter_empty_conv)
  then show ?case using Cons by auto
qed simp

lemma filter_ids:
  "sorted (map fst ak) \<Longrightarrow> sorted_wrt (<) (ids :: nat list) \<Longrightarrow>
   filter (\<lambda>c. fst c \<in> set ids) ak = concat (map (\<lambda>i. filter (\<lambda>c. fst c = i) ak) ids)"
proof (induction ids)
  case (Cons i ids)
  then show ?case using filter_two [of ak "set ids" i] by simp
qed simp

lemma stored_crash:
  assumes st: "stored S d ak (i, es, frs)" and c: "crash d d'"
  shows "subseq (of_seg i ak) (fst (scan S (data_of d' (segment_name i)))) \<and> subseq (fst (scan S (data_of d' (segment_name i)))) es"
proof -
  obtain f m where f: "map_of (d_files d) (segment_name i) = Some f" "prefix (f_data f) (concat frs)" "f_synced f \<le> length (f_data f)"
      "m \<le> length es" "length (concat (take m frs)) \<le> f_synced f" "subseq (of_seg i ak) (take m es)" and l: "list_all2 (is_frame S) es frs"
    using st by (auto simp: stored_def)
  obtain k f' where k: "f_synced f \<le> k" "map_of (d_files d') (segment_name i) = Some f'" "f_data f' = take k (f_data f)"
    using c [unfolded crash_def, THEN conjunct2, rule_format, OF f(1)] by blast
  have "prefix (f_data f') (concat frs)" unfolding k(3) by (rule prefix_order.trans [OF take_is_prefix f(2)])
  note sp = scan_prefix [OF l this]
  obtain j t where J: "j \<le> length es \<and> f_data f' = concat (take j frs) @ t \<and> scan S (f_data f') = (take j es, length (concat (take j frs)), t = []) \<and>
      (t \<noteq> [] \<longrightarrow> j < length es) \<and> (j < length es \<longrightarrow> length (f_data f') < length (concat (take (Suc j) frs)))"
    using sp by (elim exE)
  then have j: "j \<le> length es" "scan S (f_data f') = (take j es, length (concat (take j frs)), t = [])"
      "j < length es \<longrightarrow> length (f_data f') < length (concat (take (Suc j) frs))" by auto
  have "m \<le> j"
  proof (rule ccontr)
    assume n: "\<not> m \<le> j"
    then have "concat (take m frs) = concat (take (Suc j) frs) @ concat (drop (Suc j) (take m frs))"
      unfolding concat_append [symmetric] using append_take_drop_id [of "Suc j" "take m frs"] by (simp add: min_def)
    then have "length (concat (take (Suc j) frs)) \<le> length (concat (take m frs))" by simp
    moreover have "f_synced f \<le> length (f_data f')" using k(1,3) f(3) by simp
    ultimately show False using j(3) n f(4,5) by linarith
  qed
  then have "prefix (take m es) (take j es)" by (metis min.absorb1 take_is_prefix take_take)
  then have "subseq (of_seg i ak) (take j es)" by (rule subseq_order.trans [OF f(6) prefix_imp_subseq])
  moreover have "subseq (take j es) es" by (simp add: prefix_imp_subseq take_is_prefix)
  ultimately show ?thesis using j(2) k(2) by (simp add: data_of_def)
qed

lemma subseq_concat_map: "(\<And>x. x \<in> set xs \<Longrightarrow> subseq (f x) (g x)) \<Longrightarrow> subseq (concat (map f xs)) (concat (map g xs))"
  by (induction xs) (auto intro: list_emb_append_mono)

lemma sort_keys_of_names: "sort_keys (SegmentFileNames d) = SegmentFileNames d" if "distinct (map fst (d_files d))"
  using that by (intro sorted_wrt_unique) (simp_all add: sort_keys_sorted distinct_sort_keys SegmentFileNames_def)

text \<open>
  C12: acknowledged writes survive a crash. However writes, syncs, rolling, removal of closed segments, closing and a full disk
  interleave, after a crash at any point replay delivers a list of entries that contains, in order, every
  entry found at the start or acknowledged since whose segment was not removed, and that contains only
  entries that were written, in the order of the writes.
\<close>

theorem wal_recovers_acknowledged:
  assumes run: "wal_run S old calls rem l d" and "snappy_ok S" and "l_currentSegmentID l < 100000" and crash: "crash d d'"
  shows "\<exists>rs d''. WALReader_Read S (\<lambda>e s. (None, s @ [e])) (SegmentFileNames d') d' [] = (None, d'', rs) \<and>
    subseq (map snd (filter (\<lambda>c. segment_name (fst c) \<notin> rem) (acked old l))) rs \<and> subseq rs calls"
proof -
  let ?ak = "acked old l"
  obtain segs where dir: "dir_inv S ?ak calls rem (l_currentSegmentID l) d segs"
    using wal_run_inv [OF run assms(2)] by (auto simp: wal_inv_def)
  note I = dir_invD [OF dir]
  have keys: "map fst (d_files d') = map fst (d_files d)" using crash by (simp add: crash_def)
  then have dist: "distinct (map fst (d_files d'))" and keyset: "fst ` set (d_files d') = fst ` set (d_files d)"
    using I(2) by (simp, metis set_map)
  have "\<forall>i \<in> set (map fst segs). i < 100000" using I(5) assms(3) by fastforce
  then have names: "SegmentFileNames d' = map segment_name (map fst segs)"
    using I(1,3) dist keyset by (intro SegmentFileNames_ids) auto
  define rs where "rs = concat (map (\<lambda>s. fst (scan S (data_of d' (segment_name (fst s))))) segs)"
  have dn: "distinct (SegmentFileNames d')" using dist by (simp add: SegmentFileNames_def distinct_sort_keys)
  obtain d'' where r: "WALReader_Read S collect (SegmentFileNames d') d' [] = (None, d'', rs)"
    using read_files_scan [OF dn, of S collect d' "[]"] unfolding WALReader_Read_def sort_keys_of_names [OF dist]
    by (auto simp: names rs_def comp_def)
  have seg: "subseq (of_seg (fst s) ?ak) (fst (scan S (data_of d' (segment_name (fst s))))) \<and>
      subseq (fst (scan S (data_of d' (segment_name (fst s))))) ((fst \<circ> snd) s)" if "s \<in> set segs" for s
    using stored_crash [OF _ crash, of S ?ak "fst s" "fst (snd s)" "snd (snd s)"] I(4) [OF that] by simp
  have "filter (\<lambda>c. segment_name (fst c) \<notin> rem) ?ak = filter (\<lambda>c. fst c \<in> set (map fst segs)) ?ak"
    using I(9,10) by (intro filter_cong refl) (metis image_eqI list.set_map)
  also have "map snd \<dots> = concat (map (\<lambda>s. of_seg (fst s) ?ak) segs)"
    unfolding filter_ids [OF I(7,1)] by (simp add: map_concat comp_def of_seg_def)
  finally have "subseq (map snd (filter (\<lambda>c. segment_name (fst c) \<notin> rem) ?ak)) rs"
    unfolding rs_def using seg by (simp add: subseq_concat_map)
  moreover have "subseq rs calls"
    unfolding rs_def using seg by (intro subseq_order.trans [OF subseq_concat_map I(6)]) simp
  ultimately show ?thesis using r by blast
qed

section \<open>Opening before replay\<close>

text \<open>
  The storage engine opens the log, which seeks to the end of the last segment, before it replays the segments, which cuts a torn
  tail off. What is written next lands behind a hole of zeros.
\<close>

definition behind :: "bytes \<Rightarrow> bytes \<Rightarrow> nat \<Rightarrow> disk \<Rightarrow> bool" where
  "behind base name pos d \<longleftrightarrow> map fst (d_files d) = [name] \<and> length base < pos \<and>
     (data_of d name = base \<or> prefix (base @ [0]) (data_of d name))"

lemma file_put_behind:
  assumes "length base < pos" "data = base \<or> prefix (base @ [0]) data"
  shows "prefix (base @ [0]) (file_put pos p data)"
proof -
  obtain y where "data @ replicate (pos - length data) 0 = base @ 0 # y"
    using assms by (cases "pos - length base") (auto simp: prefix_def)
  moreover obtain k where "pos = length base + Suc k" using assms(1) less_imp_Suc_add by fastforce
  ultimately show ?thesis by (simp add: file_put_def)
qed

lemma fd_Write_behind:
  assumes "behind base (sw_path w) (sw_pos w) d" "fd_Write p w d = (r, w', d')"
  shows "behind base (sw_path w) (sw_pos w') d'" "sw_path w' = sw_path w" "sw_size w' = sw_size w"
proof -
  define n where "n = min (length p) (d_free d)"
  have r: "w' = w\<lparr>sw_pos := sw_pos w + n\<rparr>"
      "d_files d' = AList.map_entry (sw_path w) (\<lambda>f. f\<lparr>f_data := file_put (sw_pos w) (take n p) (f_data f)\<rparr>) (d_files d)"
    using assms(2) by (auto simp: fd_Write_def n_def Let_def)
  have "data_of d' (sw_path w) = data_of d (sw_path w) \<or> data_of d' (sw_path w) = file_put (sw_pos w) (take n p) (data_of d (sw_path w))"
    by (cases "map_of (d_files d) (sw_path w)") (simp_all add: data_of_def r(2))
  moreover have "map fst (d_files d') = map fst (d_files d)" by (simp add: r(2))
  ultimately show "behind base (sw_path w) (sw_pos w') d'"
    using assms(1) file_put_behind [of base "sw_pos w" "data_of d (sw_path w)" "take n p"] unfolding behind_def r(1) by auto
qed (use assms(2) in \<open>auto simp: fd_Write_def Let_def\<close>)

lemma bufio_Flush_behind:
  assumes "behind base (sw_path w) (sw_pos w) d" "bufio_Flush w d = (r, w', d')"
  shows "behind base (sw_path w) (sw_pos w') d'" "sw_path w' = sw_path w" "sw_size w' = sw_size w"
  using assms by (fastforce simp: bufio_Flush_def dest: fd_Write_behind split: if_splits prod.splits)+

lemma bufio_Write_behind:
  "behind base n (sw_pos w) d \<Longrightarrow> sw_path w = n \<Longrightarrow> bufio_Write p w d = (r, w', d') \<Longrightarrow>
   behind base n (sw_pos w') d' \<and> sw_path w' = n \<and> sw_size w' = sw_size w"
proof (induction p w d rule: bufio_Write.induct)
  case (1 p w d)
  consider "sw_err w \<noteq> None \<or> length p \<le> bufio_size - length (sw_buf w)"
    | "sw_err w = None" "\<not> length p \<le> bufio_size - length (sw_buf w)" "sw_buf w = []"
    | "sw_err w = None" "\<not> length p \<le> bufio_size - length (sw_buf w)" "sw_buf w \<noteq> []" by blast
  then show ?case
  proof cases
    case 1
    then show ?thesis using "1.prems" by (auto simp: bufio_Write.simps [of p w d] split: if_splits)
  next
    case 2
    obtain k e w1 d1 where fd: "fd_Write p w d = ((k, e), w1, d1)" by (metis prod.exhaust)
    have eq: "bufio_Write (drop k p) (w1\<lparr>sw_err := e\<rparr>) d1 = (r, w', d')" using "1.prems"(3) 2 fd by (simp add: bufio_Write.simps [of p w d])
    note h = fd_Write_behind [OF "1.prems"(1) [folded "1.prems"(2)] fd]
    from "1.IH"(1) [OF _ 2(2,3) fd [symmetric] refl refl _ _ eq] show ?thesis using 2(1) h "1.prems"(2) by simp
  next
    case 3
    define k where "k = bufio_size - length (sw_buf w)"
    obtain e w1 d1 where fl: "bufio_Flush (w\<lparr>sw_buf := sw_buf w @ take k p\<rparr>) d = (e, w1, d1)" by (metis prod.exhaust)
    have eq: "bufio_Write (drop k p) w1 d1 = (r, w', d')" using "1.prems"(3) 3 fl by (simp add: bufio_Write.simps [of p w d] k_def)
    have h: "behind base n (sw_pos w1) d1" "sw_path w1 = n" "sw_size w1 = sw_size w"
      using bufio_Flush_behind [OF _ fl, of base] "1.prems"(1,2) by simp_all
    from "1.IH"(2) [OF _ 3(2,3) k_def fl [symmetric] refl h(1,2) eq] show ?thesis using 3(1) h(3) by simp
  qed
qed

lemma segment_Write_behind:
  assumes "behind base n (sw_pos w) d" "sw_path w = n" "segment_Write t c w d = (r, w', d')"
  shows "behind base n (sw_pos w') d' \<and> sw_path w' = n"
proof -
  obtain e1 w1 d1 where b1: "bufio_Write (t # put_u32 (of_nat (length c))) w d = (e1, w1, d1)" by (metis prod.exhaust)
  obtain e2 w2 d2 where b2: "bufio_Write c w1 d1 = (e2, w2, d2)" by (metis prod.exhaust)
  note h1 = bufio_Write_behind [OF assms(1,2) b1]
  have "behind base n (sw_pos w2) d2 \<and> sw_path w2 = n" using bufio_Write_behind [OF _ _ b2, of base n] h1 by simp
  then show ?thesis using assms(3) b1 b2 h1 by (auto simp: segment_Write_def Let_def split: option.splits)
qed

lemma segment_sync_behind:
  assumes "behind base n (sw_pos w) d" "sw_path w = n" "segment_sync w d = (r, w', d')"
  shows "behind base n (sw_pos w') d'"
proof -
  obtain e w1 d1 where b: "bufio_Flush w d = (e, w1, d1)" by (metis prod.exhaust)
  have h: "behind base n (sw_pos w1) d1" using bufio_Flush_behind(1) [OF assms(1) [folded assms(2)] b] assms(2) by simp
  have "w' = w1" "map fst (d_files d') = map fst (d_files d1)" "data_of d' n = data_of d1 n"
    using assms(2,3) b by (auto simp: segment_sync_def data_of_def split: option.splits)
  then show ?thesis using h unfolding behind_def by simp
qed

lemma one_segment: "map fst (d_files d) = [segment_name i] \<Longrightarrow> SegmentFileNames d = [segment_name i]"
  by (simp add: SegmentFileNames_def sort_keys_def)

lemma WAL_Open_one:
  assumes "d_files d = [(segment_name i, f)]" "f_data f \<noteq> []" "i < 100000"
  shows "WAL_Open NewWAL d = (None, NewWAL\<lparr>l_currentSegmentID := i, l_writer := Some (NewWALSegmentWriter (segment_name i) (length (f_data f))),
    l_oldSegmentBytes := length (f_data f)\<rparr>, d)"
  using assms idFromFileName_segment_name [of i] one_segment [of d i]
  by (simp add: WAL_Open_def NewWAL_def data_of_def file_sizes_def SetOldSegmentSize_def SetCurrentSegmentSize_def Let_def)

lemma behind_scan:
  assumes "behind base n pos d" "list_all2 (is_frame S) es frs" "base = concat frs"
  shows "fst (scan S (data_of d n)) = es"
  using assms scan_frames [OF assms(2), of "[]"] scan_frames [OF assms(2), of "0 # _"] scan_zero [of S]
  by (auto simp: behind_def prefix_def)

text \<open>An entry that fits the buffer and the disk is acknowledged by the next sync.\<close>

lemma pool_Get_Inr: "0 \<le> n \<Longrightarrow> \<exists>b. pool_Get p n = Inr b"
  by (auto simp: pool_Get_def split: option.split)

lemma small_write:
  assumes S: "snappy_ok S" "wal_storable S e" and b: "entry_Encode [] e = Inr b" and fits: "sn_MaxEncodedLen S (length b) + 5 \<le> int (min bufio_size (d_free d))"
    and l: "l_writer l = Some (NewWALSegmentWriter name pos)" "\<not> l_closing l" "l_waiters l = []" "l_replies l = []"
  obtains l3 l4 d4 where "writeToLog S p1 p2 e l d = (Inr (l_currentSegmentID l), l3, d)" "WAL_sync l3 d = Inr (l4, d4)"
    "l_replies l4 = [((l_currentSegmentID l, e), None)]" "sync_tick l3 d = Inr (l4, d4)" "l_currentSegmentID l4 = l_currentSegmentID l"
proof -
  let ?w = "NewWALSegmentWriter name pos"
  have m: "0 \<le> sn_MaxEncodedLen S (length b)" "well_formed_entry e" using S(2) b by (simp_all add: wal_storable_def)
  obtain dst where dst: "pool_Get p1 (int (entry_MarshalSize e)) = Inr dst" using pool_Get_Inr by (metis of_nat_0_le_iff)
  have bd: "entry_Encode dst e = Inr b" using entry_Encode_buf [OF m(2), of dst "[]"] b by simp
  obtain buf where buf: "pool_Get p2 (sn_MaxEncodedLen S (length b)) = Inr buf" using pool_Get_Inr [OF m(1)] by blast
  define c where "c = fst (sn_Encode S buf b)"
  have "int (length c) \<le> sn_MaxEncodedLen S (length b)"
    using snappy_okD(2) [OF S(1) m(1), of buf] pool_Get_length [OF buf] by (simp add: c_def)
  then have fit: "5 + length c \<le> bufio_size" "5 + length c \<le> d_free d" using fits by simp_all
  let ?h = "WALEntry_Type e # put_u32 (of_nat (length c))"
  have h: "length ?h = 5" by simp
  have w1: "bufio_Write ?h ?w d = (None, ?w\<lparr>sw_buf := ?h\<rparr>, d)"
    using fit(1) h by (simp add: bufio_Write.simps [of ?h] NewWALSegmentWriter_def)
  have w2: "bufio_Write c (?w\<lparr>sw_buf := ?h\<rparr>) d = (None, ?w\<lparr>sw_buf := ?h @ c\<rparr>, d)"
    using le_diff_conv2 [of 5 bufio_size "length c"] fit(1) by (simp add: bufio_Write.simps [of c] NewWALSegmentWriter_def)
  define w3 where "w3 = ?w\<lparr>sw_buf := ?h @ c, sw_size := 5 + length c\<rparr>"
  have w: "segment_Write (WALEntry_Type e) c ?w d = (None, w3, d)"
    using w1 w2 h by (simp add: segment_Write_def w3_def NewWALSegmentWriter_def Let_def)
  have roll: "rollSegment l d = (None, l, d)" using l(1) by (simp add: rollSegment_def NewWALSegmentWriter_def)
  define l3 where "l3 = SetCurrentSegmentSize (sw_size w3) (scheduleSync (l\<lparr>l_writer := Some w3, l_waiters := [(l_currentSegmentID l, e)]\<rparr>))"
  have "writeToLog S p1 p2 e l d = (Inr (l_currentSegmentID l), l3, d)"
    using l roll w by (simp add: writeToLog_def dst bd buf c_def [symmetric] append_locked_def l3_def Let_def)
  moreover obtain w4 d4 where "segment_sync w3 d = (None, w4, d4)"
    using fit(2) h by (auto simp: segment_sync_def bufio_Flush_def fd_Write_def w3_def NewWALSegmentWriter_def Let_def split: prod.splits)
  then have "\<exists>l4. WAL_sync l3 d = Inr (l4, d4) \<and> l_replies l4 = [((l_currentSegmentID l, e), None)] \<and> l_currentSegmentID l4 = l_currentSegmentID l"
    using l by (simp add: WAL_sync_def sync_writer_def l3_def SetCurrentSegmentSize_def scheduleSync_def)
  moreover have "sync_tick l3 d = WAL_sync l3 d" by (simp add: sync_tick_def l3_def SetCurrentSegmentSize_def scheduleSync_def)
  ultimately show thesis using that by metis
qed

text \<open>
  C16: writes acknowledged after a crash are lost. When a crash left a torn tail in the only segment of the log, opening the log and then
  replaying it, as the storage engine does, delivers the entries in front of the tail and cuts the tail off under the open writer. A write
  that follows, of an entry that fits the buffer of the writer and the disk, is acknowledged after the next sync; but it lies behind a hole of zeros, and
  the next replay, without any crash in between, delivers only the entries in front of it.
\<close>

theorem torn_tail_loses_writes:
  assumes torn: "scan S (f_data f) = (es, n, False)" and d: "d_files d = [(segment_name i, f)]" "i < 100000"
    and e: "snappy_ok S" "wal_storable S e" "entry_Encode [] e = Inr b" "sn_MaxEncodedLen S (length b) + 5 \<le> int (min bufio_size (d_free d))"
  shows "\<exists>l1 d2 l3 d3 l4 d4 d5. WAL_Open NewWAL d = (None, l1, d) \<and>
    WALReader_Read S (\<lambda>e s. (None, s @ [e])) (SegmentFileNames d) d [] = (None, d2, es) \<and>
    writeToLog S p1 p2 e l1 d2 = (Inr i, l3, d3) \<and> WAL_sync l3 d3 = Inr (l4, d4) \<and> l_replies l4 = [((i, e), None)] \<and>
    WALReader_Read S (\<lambda>e s. (None, s @ [e])) (SegmentFileNames d4) d4 [] = (None, d5, es)"
proof -
  let ?n = "segment_name i"
  obtain frs t where t: "list_all2 (is_frame S) es frs" "f_data f = concat frs @ t" "n = length (concat frs)" "t \<noteq> []"
    using scan_as_frames [of S "f_data f"] torn by auto
  let ?w = "NewWALSegmentWriter ?n (length (f_data f))"
  obtain l1 where l1: "WAL_Open NewWAL d = (None, l1, d)" "l_writer l1 = Some ?w" "\<not> l_closing l1" "l_waiters l1 = []" "l_replies l1 = []"
      "l_currentSegmentID l1 = i"
    using WAL_Open_one [OF d(1) _ d(2)] t(2,4) by (simp add: NewWAL_def)
  obtain d2 where d2: "WALReader_Read S collect (SegmentFileNames d) d [] = (None, d2, es)" "map fst (d_files d2) = [?n]"
      "data_of d2 ?n = concat frs" "d_free d2 = d_free d"
    using one_segment [of d i] d(1) torn t(2,3)
    by (auto simp: WALReader_Read_def sort_keys_def readFile_def replay_bytes_scan data_of_def)
  obtain l3 l4 d4 where ack: "writeToLog S p1 p2 e l1 d2 = (Inr i, l3, d2)" "WAL_sync l3 d2 = Inr (l4, d4)" "l_replies l4 = [((i, e), None)]"
    by (rule small_write [OF e(1-3) _ l1(2-5), of d2 p1 p2]) (use e(4) d2(4) l1(6) in auto)
  have b2: "behind (concat frs) ?n (sw_pos ?w) d2" using d2 t(2,4) by (simp add: behind_def NewWALSegmentWriter_def)
  obtain c where ap: "append_locked e c l1 d2 = (Inr i, l3, d2)"
    using ack(1) by (auto simp: writeToLog_def split: sum.splits)
  have "rollSegment l1 d2 = (None, l1, d2)" using l1(2) by (simp add: rollSegment_def NewWALSegmentWriter_def)
  then obtain w3 where w3: "segment_Write (WALEntry_Type e) c ?w d2 = (None, w3, d2)" "l_writer l3 = Some w3"
    using ap l1 by (auto simp: append_locked_def Let_def SetCurrentSegmentSize_def scheduleSync_def split: option.splits prod.splits if_splits)
  have b3: "behind (concat frs) ?n (sw_pos w3) d2" "sw_path w3 = ?n"
    using segment_Write_behind [OF b2 _ w3(1)] by (simp_all add: NewWALSegmentWriter_def)
  obtain x w4 where w4: "segment_sync w3 d2 = (x, w4, d4)"
    using ack(2) w3(2) by (auto simp: WAL_sync_def sync_writer_def split: prod.splits)
  note b4 = segment_sync_behind [OF b3 w4]
  then have "SegmentFileNames d4 = [?n]" by (intro one_segment) (simp add: behind_def)
  then obtain d5 where "WALReader_Read S collect (SegmentFileNames d4) d4 [] = (None, d5, es)"
    using read_files_scan [of "[?n]" S collect d4 "[]"] behind_scan [OF b4 t(1) refl] by (auto simp: WALReader_Read_def sort_keys_def)
  with l1(1) d2(1) ack show ?thesis by blast
qed

text \<open>A deletion, its encoding and its size.\<close>

lemma sample_entry:
  fixes e defines "e \<equiv> DeleteBucketRangeWALEntry \<lparr>de_OrgID = 1, de_BucketID = 2, de_Min = 3, de_Max = 4, de_Predicate = []\<rparr>"
  shows "wal_storable snappy_stored e" "\<exists>b. entry_Encode [] e = Inr b \<and> sn_MaxEncodedLen snappy_stored (length b) + 5 \<le> int (min bufio_size 1000)"
proof -
  show "wal_storable snappy_stored e" unfolding e_def by (rule delete_storable) (simp_all add: ID_Valid_def)
  let ?w = "\<lparr>de_OrgID = 1, de_BucketID = 2, de_Min = 3, de_Max = 4, de_Predicate = []\<rparr>"
  have "delete_Encode [] ?w = Inr (hex_encode (put_u64 (de_OrgID ?w)) @ hex_encode (put_u64 (de_BucketID ?w)) @ put_u64 (de_Min ?w) @
      put_u64 (de_Max ?w) @ de_Predicate ?w)"
    by (rule delete_Encode_ok) (simp_all add: ID_Encode_def ID_Valid_def)
  then show "\<exists>b. entry_Encode [] e = Inr b \<and> sn_MaxEncodedLen snappy_stored (length b) + 5 \<le> int (min bufio_size 1000)"
    by (simp add: e_def entry_Encode_def snappy_stored_simps bufio_size_def)
qed

theorem torn_tail_loses_writes_witness:
  "\<exists>l1 d2 l3 d3 l4 d4 d5.
    (let e = DeleteBucketRangeWALEntry \<lparr>de_OrgID = 1, de_BucketID = 2, de_Min = 3, de_Max = 4, de_Predicate = []\<rparr>;
         d = \<lparr>d_files = [(segment_name 1, \<lparr>f_data = [7], f_synced = 1\<rparr>)], d_free = 1000\<rparr>
     in WAL_Open NewWAL d = (None, l1, d) \<and> WALReader_Read snappy_stored (\<lambda>e s. (None, s @ [e])) (SegmentFileNames d) d [] = (None, d2, []) \<and>
       writeToLog snappy_stored None None e l1 d2 = (Inr 1, l3, d3) \<and> WAL_sync l3 d3 = Inr (l4, d4) \<and> l_replies l4 = [((1, e), None)] \<and>
       WALReader_Read snappy_stored (\<lambda>e s. (None, s @ [e])) (SegmentFileNames d4) d4 [] = (None, d5, []))"
proof -
  let ?e = "DeleteBucketRangeWALEntry \<lparr>de_OrgID = 1, de_BucketID = 2, de_Min = 3, de_Max = 4, de_Predicate = []\<rparr>"
  let ?d = "\<lparr>d_files = [(segment_name 1, \<lparr>f_data = [7], f_synced = 1\<rparr>)], d_free = 1000\<rparr>"
  have sc: "scan snappy_stored (f_data \<lparr>f_data = [7], f_synced = 1\<rparr>) = ([], 0, False)"
    by (subst scan.simps) (simp add: reader_Next_def NewWALSegmentReader_def ReadFull_def)
  obtain b where b: "entry_Encode [] ?e = Inr b" "sn_MaxEncodedLen snappy_stored (length b) + 5 \<le> int (min bufio_size 1000)" using sample_entry(2) by blast
  have f: "sn_MaxEncodedLen snappy_stored (length b) + 5 \<le> int (min bufio_size (d_free ?d))" using b(2) by simp
  from torn_tail_loses_writes [where i = 1 and d = ?d and ?p1.0 = None and ?p2.0 = None, OF sc _ _ snappy_stored_ok sample_entry(1) b(1) f]
  show ?thesis unfolding Let_def by simp
qed

theorem wal_recovers_acknowledged_witness:
  "\<exists>l d rs d''.
    (let e = DeleteBucketRangeWALEntry \<lparr>de_OrgID = 1, de_BucketID = 2, de_Min = 3, de_Max = 4, de_Predicate = []\<rparr>
     in wal_run snappy_stored [] [e] {} l d \<and> acked [] l = [(1, e)] \<and> crash d d \<and>
       WALReader_Read snappy_stored (\<lambda>e s. (None, s @ [e])) (SegmentFileNames d) d [] = (None, d'', rs) \<and> subseq [e] rs \<and> subseq rs [e])"
proof -
  define e where "e = DeleteBucketRangeWALEntry \<lparr>de_OrgID = 1, de_BucketID = 2, de_Min = 3, de_Max = 4, de_Predicate = []\<rparr>"
  let ?S = snappy_stored and ?d0 = "\<lparr>d_files = [], d_free = 1000\<rparr>"
  have h: "holds ?S ?d0 []" "[] = tagged []" by (simp_all add: holds_def)
  obtain l0 where l0: "WAL_Open NewWAL ?d0 = (None, l0, ?d0)" "l0 = NewWAL"
    by (simp add: WAL_Open_def NewWAL_def SegmentFileNames_def sort_keys_def SetOldSegmentSize_def)
  have r0: "wal_run ?S [] [] {} l0 ?d0" using opens [OF h l0(1)] by simp
  define d1 where "d1 = \<lparr>d_files = [(segment_name 1, \<lparr>f_data = [], f_synced = 0\<rparr>)], d_free = 1000\<rparr>"
  obtain l1 where l1: "CloseSegment l0 ?d0 = (None, l1, d1)" "l_writer l1 = Some (NewWALSegmentWriter (segment_name 1) 0)" "\<not> l_closing l1"
      "l_waiters l1 = []" "l_replies l1 = []" "l_currentSegmentID l1 = 1"
    by (simp add: CloseSegment_def l0(2) NewWAL_def newSegmentFile_def open_segment_def create_file_def SetCurrentSegmentSize_def d1_def Let_def)
  note r1 = rolls [OF r0 l1(1)]
  obtain b where b: "entry_Encode [] e = Inr b" "sn_MaxEncodedLen ?S (length b) + 5 \<le> int (min bufio_size 1000)"
    using sample_entry(2) unfolding e_def by blast
  obtain l3 l4 d4 where a: "writeToLog ?S None None e l1 d1 = (Inr (l_currentSegmentID l1), l3, d1)"
      "l_replies l4 = [((l_currentSegmentID l1, e), None)]" "sync_tick l3 d1 = Inr (l4, d4)" "l_currentSegmentID l4 = l_currentSegmentID l1"
    by (rule small_write [OF snappy_stored_ok _ b(1) _ l1(2-5), of d1 None None]) (use b(2) sample_entry(1) in \<open>simp_all add: d1_def e_def\<close>)
  from ticks [OF writes [OF r1 _ a(1)] a(3)] sample_entry(1) have r: "wal_run ?S [] [e] {} l4 d4" by (simp add: e_def)
  have c: "crash d4 d4" unfolding crash_def by (auto, metis le_add1 le_add2 take_all)
  have "acked [] l4 = [(1, e)]" by (simp add: acked_def a(2) l1(6))
  with r c wal_recovers_acknowledged [OF r snappy_stored_ok _ c] show ?thesis unfolding e_def [symmetric] Let_def using a(4) l1(6) by auto
qed

end
