(* ===== verification/Spec2Isabelle.thy ===== *)
theory Spec2Isabelle
  imports Block_Codec Cache_Flush Wal_Durable
begin

text \<open>
  Verification of the storage core of InfluxDB 2: the path of a point from the write-ahead log and the in-memory cache to the
  compressed blocks of a TSM file and back. All paths below are under \<^verbatim>\<open>src/\<close>.

  \<^bold>\<open>The program.\<close> The engine (\<^verbatim>\<open>storage/engine.go\<close>) appends every batch of values to the write-ahead log
  (\<^verbatim>\<open>storage/wal\<close>) and adds it to the cache (\<^verbatim>\<open>tsdb/tsm1/cache.go\<close>), a hash ring of entries by series key. From time to time it
  takes a snapshot of the cache, deduplicates it, encodes its entries to blocks (\<^verbatim>\<open>tsdb/tsm1/encoding.go\<close>) and
  removes the segments of the log that the snapshot covers. A block is a column of timestamps and a column of values, each with a
  compression of its own, several of them over the simple8b words of \<^verbatim>\<open>pkg/encoding/simple8b\<close>. Queries decode blocks to rows
  or to columnar arrays (\<^verbatim>\<open>tsdb/cursors\<close>) and merge them. After a crash the log is replayed into the cache.

  \<^bold>\<open>Conventions.\<close> \<^verbatim>\<open>Go_Prelude\<close>: \<^verbatim>\<open>uint64\<close> and \<^verbatim>\<open>int64\<close> that are computed with are \<open>64 word\<close>, bytes \<open>8 word\<close>, timestamps and indexes
  that are only compared or that cannot overflow \<open>int\<close> or \<open>nat\<close>; a Go error or panic is a value of \<open>go_error\<close>, and a fallible
  operation returns \<open>go_error + 'a\<close>; a slice is a list, a write into it \<open>write_at\<close>. Operations that change an object take and
  return its record. Loops are total functions with termination proofs; where a loop over arbitrary input may not end it is a
  partial function into \<open>option\<close>, and that it returns is proved. Names are those of the source, with the type as prefix for methods.

  \<^bold>\<open>The theories\<close>, in the order of the code they model:
  \<^item> \<^verbatim>\<open>Iterators\<close>: the protocol \<^verbatim>\<open>Next\<close>/\<^verbatim>\<open>Read\<close>/\<^verbatim>\<open>Error\<close> of all decoders as the locale \<open>value_decoder\<close>, the loop that drains one, and the
    loop that reads two in step (\<open>decoder_pair\<close>). Interpreted on the simple8b, integer, timestamp, boolean, string and float decoders.
  \<^item> \<^verbatim>\<open>Simple8b_Word\<close>, \<^verbatim>\<open>Simple8b\<close>, \<^verbatim>\<open>Simple8b_Stream\<close> (\<^verbatim>\<open>pkg/encoding/simple8b/encoding.go\<close>): the sixteen word layouts (locale
    \<open>lane_format\<close>), the batch and the streaming codec. \<^verbatim>\<open>S8b_Package\<close>: the contract \<open>s8b_package\<close> of the simple8b the streaming codecs import
    from outside the repository, interpreted on the repository's own.
  \<^item> \<^verbatim>\<open>Deltas\<close>, \<^verbatim>\<open>Int_Codec\<close>, \<^verbatim>\<open>Int_Batch\<close> (\<^verbatim>\<open>tsdb/tsm1/int.go\<close>, \<^verbatim>\<open>batch_integer.go\<close>) and \<^verbatim>\<open>Time_Codec\<close>, \<^verbatim>\<open>Time_Batch\<close>
    (\<^verbatim>\<open>timestamp.go\<close>, \<^verbatim>\<open>batch_timestamp.go\<close>): streaming and batch codecs. Both write one format, described by a relation between bytes and
    values; so each decoder reads what either encoder wrote, and corrupt bytes never make a decoder panic or loop.
  \<^item> \<^verbatim>\<open>Byte_Bits\<close>, \<^verbatim>\<open>Bool_Codec\<close> (\<^verbatim>\<open>bool.go\<close>, \<^verbatim>\<open>batch_boolean.go\<close>), \<^verbatim>\<open>String_Codec\<close> (\<^verbatim>\<open>string.go\<close>, \<^verbatim>\<open>batch_string.go\<close>; snappy is the
    record \<open>snappy\<close> with the contract \<open>snappy_ok\<close>, which holds of the concrete \<open>snappy_stored\<close>).
  \<^item> \<^verbatim>\<open>Bit_Reader\<close>, \<^verbatim>\<open>Float_Codec\<close>, \<^verbatim>\<open>Float_Batch_Decode\<close>, \<^verbatim>\<open>Float_Add\<close>, \<^verbatim>\<open>Float_Batch_Encode\<close> (\<^verbatim>\<open>bit_reader.go\<close>, \<^verbatim>\<open>float.go\<close>,
    \<^verbatim>\<open>batch_float.go\<close>): the XOR compression of 64-bit patterns. The outside bit writer is the record \<open>bit_stream\<close> with the contract
    \<open>bit_stream_ok\<close>. \<^verbatim>\<open>Float_Add\<close> is IEEE addition, which the batch encoder uses to look for NaN.
  \<^item> \<^verbatim>\<open>Sorted_Values\<close>, \<^verbatim>\<open>Array_Values\<close>, \<^verbatim>\<open>Tsm_Values\<close> (\<^verbatim>\<open>encoding.gen.go\<close>, \<^verbatim>\<open>cursors/arrayvalues.gen.go\<close>, \<^verbatim>\<open>tsdb/value/value.go\<close>):
    search, range deletion and selection, deduplication and merging of rows and of columns. The locale \<open>time_series\<close> says that they are
    the operations of a finite map from timestamps to values; both are interpretations. \<open>row_ops_in_range\<close> shows that no index of the row
    operations is out of range.
  \<^item> \<^verbatim>\<open>Blocks\<close>, \<^verbatim>\<open>Block_Codec\<close> (\<^verbatim>\<open>encoding.go\<close>, \<^verbatim>\<open>encoding.gen.go\<close>, \<^verbatim>\<open>array_encoding.go\<close>): blocks of the five types, round trips
    for rows and arrays, that a block of rows is read as the array of its columns, and the refusal of lists of mixed types.
  \<^item> \<^verbatim>\<open>Cache_Ring\<close>, \<^verbatim>\<open>Cache\<close> (\<^verbatim>\<open>cache_entry.go\<close>, \<^verbatim>\<open>ring.go\<close>, \<^verbatim>\<open>cache.go\<close>): entries, ring, counters and every operation of the cache.
    \<^verbatim>\<open>Cache_Store\<close>: the ring as a map, through the locale \<open>keyed_store\<close>. \<^verbatim>\<open>Cache_Spec\<close>: the step relation \<open>cache_step\<close> of calls to a cache, its
    invariant \<open>cache_ok\<close>, the abstract cache \<open>spec_step\<close> on \<open>view\<close>s and the refinement, no loss of acknowledged writes over
    any sequence of calls, and \<open>writeSnapshot\<close> of \<^verbatim>\<open>tsm1/engine.go\<close>. \<^verbatim>\<open>Cache_Flush\<close>: keys, \<open>Split\<close>, and the blocks that the key iterator of
    \<^verbatim>\<open>compact.go\<close> makes of a snapshot.
  \<^item> \<^verbatim>\<open>Names\<close> (\<^verbatim>\<open>id.go\<close>, \<^verbatim>\<open>tsdb/explode.go\<close>, \<^verbatim>\<open>models/points.go\<close>, \<^verbatim>\<open>models/points_parser.go\<close>): IDs, escaping, and which series keys the
    prefix of a bucket selects.
  \<^item> \<^verbatim>\<open>Wal_Entry\<close>, \<^verbatim>\<open>Wal_Codec\<close>: the entries of the log and their encoding. \<^verbatim>\<open>Wal_Segment\<close>, \<^verbatim>\<open>Wal_Replay\<close>: segment files, the buffered writer, the
    reader and replay (\<^verbatim>\<open>wal.go\<close>, \<^verbatim>\<open>reader.go\<close>). \<^verbatim>\<open>Wal_Log\<close>, \<^verbatim>\<open>Wal_Writer\<close>: the log over its files. \<^verbatim>\<open>Wal_Durable\<close>: the run of a log as the
    inductive relation \<open>wal_run\<close>, its invariant, that replay after a crash delivers the acknowledged entries, and the way a torn tail
    defeats this when the log is opened before it is replayed.

  \<^bold>\<open>Bounds.\<close> Block theorems take lists of at most 2^40 values, so that no length computed in a 64-bit \<open>int\<close> overflows; the code makes blocks of
  1000. The theorems about the cache take calls with non-empty keys and values and batches of distinct keys (a Go map) whose sizes fit the
  64-bit counters: an entry made by an empty write accepts values of mixed types (\<open>empty_entry_accepts_mixed\<close>). The theorem about the
  log holds below segment 100000, where the order of file names is the order of the segments. \<open>wal_storable\<close> are the entries whose
  fields fit the widths of the encoding.

  \<^bold>\<open>Parameters.\<close> snappy, the outside simple8b, the bit writer of go-bitstream and the hash of the ring are arguments of the
  definitions, under contracts stated as hypotheses; each contract has a concrete model with which the witnesses are evaluated.
  Object pools hand out objects in whatever state earlier uses left them. A Go map is an association list in one iteration order.

  \<^bold>\<open>Not modelled.\<close> Concurrency: each exported operation is one step under its lock, and the interleaving of operations is the order of
  steps; the goroutines of the key iterator and of the compactor are left out. Metrics, tracing, logging and wall-clock times have no
  effect on the modelled state. The disk is a list of files with limited space; creating, opening, seeking in and removing a file does
  not fail. Memory-mapped TSM files with their index and tombstones, the file store, compaction planning, cursors, the series file and
  the index, the evaluation of predicates (an argument of deletion), line protocol parsing, and everything above the storage
  engine (query, HTTP, tasks, metadata, UI) are not part of the development.
\<close>

end
